(* ===== verification/Paired_Map.thy ===== *)
theory Paired_Map
  imports Uno_Prelude
begin

text \<open>
  \<open>PairedValuesMap\<close> (\<open>uno/core/paired_map.py\<close>): a dictionary keyed by unordered pairs of peer
  ids. \<open>generate_val\<close>, which subclasses override, is an argument that threads its own state.
  The locale \<open>pair_store\<close> is the contract the clients of a paired map rely on.
\<close>

section \<open>Operations\<close>

type_synonym peer = int
type_synonym 'v pmap = "((peer \<times> peer) \<times> 'v) list"

definition pair_key :: "peer \<Rightarrow> peer \<Rightarrow> peer \<times> peer" where
  "pair_key peer_a peer_b = (if peer_b < peer_a then (peer_b, peer_a) else (peer_a, peer_b))"

text \<open>The optional \<open>val\<close> argument: absent, a value, or a callable giving one.\<close>

datatype 'v pair_val = NoVal | Val 'v | Thunk "unit \<Rightarrow> 'v option"

definition stored_val ::
  "(peer \<Rightarrow> peer \<Rightarrow> 's \<Rightarrow> ('v option \<times> 's) res) \<Rightarrow> 'v pair_val \<Rightarrow> peer \<Rightarrow> peer \<Rightarrow> 's \<Rightarrow> ('v option \<times> 's) res" where
  "stored_val generate_val val peer_a peer_b s =
     (case val of
        Thunk f \<Rightarrow> Inr (f (), s)
      | Val v \<Rightarrow> Inr (Some v, s)
      | NoVal \<Rightarrow> generate_val peer_a peer_b s)"

definition assert_pair ::
  "(peer \<Rightarrow> peer \<Rightarrow> 's \<Rightarrow> ('v option \<times> 's) res) \<Rightarrow> peer \<Rightarrow> peer \<Rightarrow> 'v pair_val
   \<Rightarrow> 'v pmap \<times> 's \<Rightarrow> (('v \<times> bool) \<times> 'v pmap \<times> 's) res" where
  "assert_pair generate_val peer_a peer_b val ms =
     (case ms of (m, s) \<Rightarrow>
       let k = pair_key peer_a peer_b in
       (case map_of m k of
          Some stored \<Rightarrow> Inr ((stored, False), m, s)
        | None \<Rightarrow>
            rbind (stored_val generate_val val peer_a peer_b s) (\<lambda>(v, s').
              case v of
                None \<Rightarrow> Inl (RuntimeError ''failed to generate value'')
              | Some stored \<Rightarrow> Inr ((stored, True), AList.update k stored m, s'))))"

text \<open>The loop of \<open>purge_peer\<close> runs over a copy of the keys, while it deletes from the map.\<close>

fun purge_loop :: "peer \<Rightarrow> (peer \<times> peer) list \<Rightarrow> 'v pmap \<Rightarrow> 'v pmap \<Rightarrow> ('v pmap \<times> 'v pmap) res" where
  "purge_loop peer [] m purged = Inr (purged, m)"
| "purge_loop peer ((peer_a, peer_b) # ks) m purged =
     (if peer \<noteq> peer_a \<and> peer \<noteq> peer_b then purge_loop peer ks m purged
      else let k = pair_key peer_a peer_b in
        rbind (the_or KeyError (map_of m k)) (\<lambda>v.
          purge_loop peer ks (AList.delete k m) (AList.update k v purged)))"

definition purge_peer :: "peer \<Rightarrow> 'v pmap \<Rightarrow> ('v pmap \<times> 'v pmap) res" where
  "purge_peer peer m = purge_loop peer (map fst m) m []"

definition get_pair :: "peer \<Rightarrow> peer \<Rightarrow> 'v pmap \<Rightarrow> 'v res" where
  "get_pair peer_a peer_b m = the_or KeyError (map_of m (pair_key peer_a peer_b))"

definition pick :: "peer \<Rightarrow> peer \<Rightarrow> peer \<Rightarrow> 'v \<times> 'v \<Rightarrow> 'v" where
  "pick peer_a peer_b peer_target val =
     (if fst (pair_key peer_a peer_b) = peer_target then fst val else snd val)"

section \<open>Keys\<close>

lemma pair_key_commute: "pair_key a b = pair_key b a"
  by (simp add: pair_key_def)

lemma pair_key_idem [simp]: "pair_key (fst (pair_key a b)) (snd (pair_key a b)) = pair_key a b"
  by (simp add: pair_key_def)

lemma pair_key_eq_iff: "pair_key a b = pair_key c d \<longleftrightarrow> (a = c \<and> b = d) \<or> (a = d \<and> b = c)"
  by (auto simp: pair_key_def)

lemma pick_commute: "pick a b t v = pick b a t v"
  by (simp add: pick_def pair_key_commute)

lemma pick_pair: "a \<noteq> b \<Longrightarrow> {pick a b a v, pick a b b v} = {fst v, snd v}"
  by (auto simp: pick_def pair_key_def)

lemma pick_distinct:
  "a \<noteq> b \<Longrightarrow> fst v \<noteq> snd v \<Longrightarrow> pick a b a v \<noteq> pick a b b v"
  by (auto simp: pick_def pair_key_def)

text \<open>Every key a map holds is in normal form.\<close>

definition pmap_ok :: "'v pmap \<Rightarrow> bool" where
  "pmap_ok m \<longleftrightarrow> distinct (map fst m) \<and> (\<forall>k \<in> fst ` set m. fst k \<le> snd k)"

lemma pair_key_ordered [simp]: "fst (pair_key a b) \<le> snd (pair_key a b)"
  by (simp add: pair_key_def)

lemma pmap_ok_Nil [simp]: "pmap_ok []"
  by (simp add: pmap_ok_def)

lemma pmap_ok_update [intro]: "pmap_ok m \<Longrightarrow> pmap_ok (AList.update (pair_key a b) v m)"
  by (auto simp: pmap_ok_def)

lemma pmap_ok_delete [intro]: "pmap_ok m \<Longrightarrow> pmap_ok (AList.delete k m)"
  by (auto simp: pmap_ok_def)

lemma pair_key_ordered_id: "fst k \<le> snd k \<Longrightarrow> pair_key (fst k) (snd k) = k"
  by (auto simp: pair_key_def)

section \<open>What the operations do\<close>

lemma assert_pair_hit:
  "map_of m (pair_key a b) = Some v \<Longrightarrow> assert_pair gen a b val (m, s) = Inr ((v, False), m, s)"
  by (simp add: assert_pair_def Let_def)

lemma assert_pair_Inr_cases:
  assumes "assert_pair gen a b val (m, s) = Inr ((v, g), m', s')"
  obtains (hit) "map_of m (pair_key a b) = Some v" "\<not> g" "m' = m" "s' = s"
  | (new) "map_of m (pair_key a b) = None" "g" "m' = AList.update (pair_key a b) v m"
      "stored_val gen val a b s = Inr (Some v, s')"
  using assms by (auto simp: assert_pair_def Let_def res_simps split: option.splits)

lemma assert_pair_get:
  "assert_pair gen a b val (m, s) = Inr ((v, g), m', s') \<Longrightarrow> get_pair a b m' = Inr v"
  by (erule assert_pair_Inr_cases) (simp_all add: get_pair_def)

lemma assert_pair_ok:
  "assert_pair gen a b val (m, s) = Inr ((v, g), m', s') \<Longrightarrow> pmap_ok m \<Longrightarrow> pmap_ok m'"
  by (erule assert_pair_Inr_cases) auto

lemma assert_pair_keeps:
  assumes "assert_pair gen a b val (m, s) = Inr (vg, m', s')" and "map_of m k = Some w"
  shows "map_of m' k = Some w"
  using assms by (cases vg) (auto elim!: assert_pair_Inr_cases)

lemma get_pair_commute: "get_pair a b m = get_pair b a m"
  by (simp add: get_pair_def pair_key_commute)

definition mentions :: "peer \<Rightarrow> peer \<times> peer \<Rightarrow> bool" where
  "mentions peer k \<longleftrightarrow> fst k = peer \<or> snd k = peer"

lemma purge_loop_spec:
  assumes "distinct ks" and "\<forall>k \<in> set ks. fst k \<le> snd k \<and> k \<in> fst ` set m"
  shows "\<exists>purged' m'. purge_loop peer ks m purged = Inr (purged', m')
    \<and> (\<forall>k. map_of m' k = (if k \<in> set ks \<and> mentions peer k then None else map_of m k))
    \<and> (\<forall>k. map_of purged' k = (if k \<in> set ks \<and> mentions peer k then map_of m k else map_of purged k))"
  using assms
proof (induction ks arbitrary: m purged)
  case (Cons k ks)
  obtain a b where k: "k = (a, b)" by (cases k)
  show ?case
  proof (cases "mentions peer k")
    case False
    with Cons.prems Cons.IH [of m purged] show ?thesis
      by (auto simp: k mentions_def)
  next
    case True
    from Cons.prems(2) have key: "pair_key a b = k"
      by (auto simp: k pair_key_def)
    from Cons.prems(2) obtain v where v: "map_of m k = Some v"
      by (auto simp: map_of_in_keys)
    have "\<forall>k' \<in> set ks. fst k' \<le> snd k' \<and> k' \<in> fst ` set (AList.delete k m)"
      using Cons.prems by auto
    from Cons.IH [OF _ this, of "AList.update k v purged"] Cons.prems(1)
    obtain p' m' where *: "purge_loop peer ks (AList.delete k m) (AList.update k v purged) = Inr (p', m')"
      "\<forall>k'. map_of m' k' = (if k' \<in> set ks \<and> mentions peer k' then None else map_of (AList.delete k m) k')"
      "\<forall>k'. map_of p' k' = (if k' \<in> set ks \<and> mentions peer k' then map_of (AList.delete k m) k'
          else map_of (AList.update k v purged) k')"
      by auto
    have "purge_loop peer (k # ks) m purged = Inr (p', m')"
      using True *(1) key v by (auto simp: k mentions_def Let_def)
    moreover have "k \<notin> set ks" using Cons.prems(1) by simp
    ultimately show ?thesis using *(2,3) True v by auto
  qed
qed simp

lemma purge_peer_spec:
  assumes "pmap_ok m"
  shows "\<exists>purged m'. purge_peer peer m = Inr (purged, m')
    \<and> (\<forall>k. map_of m' k = (if mentions peer k then None else map_of m k))
    \<and> (\<forall>k. map_of purged k = (if mentions peer k then map_of m k else None))"
proof -
  from assms obtain p' m' where *: "purge_peer peer m = Inr (p', m')"
    "\<forall>k. map_of m' k = (if k \<in> set (map fst m) \<and> mentions peer k then None else map_of m k)"
    "\<forall>k. map_of p' k = (if k \<in> set (map fst m) \<and> mentions peer k then map_of m k else None)"
    using purge_loop_spec [of "map fst m" m peer "[]"]
    unfolding purge_peer_def pmap_ok_def by fastforce
  have "map_of m k = None" if "k \<notin> set (map fst m)" for k
    using that by (simp add: map_of_eq_None_iff)
  then show ?thesis using * by (intro exI [of _ p'] exI [of _ m']) auto
qed

lemma purge_loop_ok:
  "purge_loop peer ks m purged = Inr (p', m') \<Longrightarrow> pmap_ok m \<Longrightarrow> pmap_ok purged \<Longrightarrow> pmap_ok p' \<and> pmap_ok m'"
proof (induction ks arbitrary: m purged)
  case (Cons k ks)
  obtain a b where k: "k = (a, b)" by (cases k)
  from Cons.prems obtain m1 p1
    where "purge_loop peer ks m1 p1 = Inr (p', m')" and "pmap_ok m1" and "pmap_ok p1"
    by (auto simp: k Let_def res_simps split: if_splits)
  then show ?case by (rule Cons.IH)
qed simp

section \<open>The contract of a paired map\<close>

text \<open>
  The interface its clients use: \<open>put\<close> finds or creates the value of a pair, \<open>look\<close> reads it
  whatever the order of the two ids.
\<close>

locale pair_store =
  fixes invar :: "'m \<Rightarrow> bool"
    and look :: "'m \<Rightarrow> peer \<Rightarrow> peer \<Rightarrow> 'v option"
    and put :: "'m \<Rightarrow> peer \<Rightarrow> peer \<Rightarrow> ('v \<times> 'm) res"
  assumes look_commute: "look m a b = look m b a"
    and put_look: "invar m \<Longrightarrow> put m a b = Inr (v, m') \<Longrightarrow> look m' a b = Some v"
    and put_keeps: "invar m \<Longrightarrow> put m a b = Inr (v, m') \<Longrightarrow> look m c d = Some w \<Longrightarrow> look m' c d = Some w"
    and put_hit: "invar m \<Longrightarrow> look m a b = Some v \<Longrightarrow> put m a b = Inr (v, m)"
    and put_invar: "invar m \<Longrightarrow> put m a b = Inr (v, m') \<Longrightarrow> invar m'"
begin

lemma put_stable:
  assumes "invar m" and "put m a b = Inr (v, m')"
  shows "put m' b a = Inr (v, m')"
proof -
  have "look m' b a = Some v"
    using put_look [OF assms] look_commute [of m' b a] by simp
  then show ?thesis using put_invar [OF assms] put_hit by blast
qed

lemma put_put_keeps:
  assumes "invar m" and "put m a b = Inr (v, m')" and "put m' c d = Inr (w, m'')"
  shows "look m'' a b = Some v" and "look m'' c d = Some w" and "invar m''"
proof -
  have i: "invar m'" using put_invar [OF assms(1,2)] .
  show "look m'' a b = Some v"
    using put_keeps [OF i assms(3) put_look [OF assms(1,2)]] .
  show "look m'' c d = Some w" using put_look [OF i assms(3)] .
  show "invar m''" using put_invar [OF i assms(3)] .
qed

end

text \<open>The model of the dictionary provides the contract, whatever generates the values.\<close>

definition pm_look :: "'v pmap \<times> 's \<Rightarrow> peer \<Rightarrow> peer \<Rightarrow> 'v option" where
  "pm_look ms a b = map_of (fst ms) (pair_key a b)"

definition pm_put ::
  "(peer \<Rightarrow> peer \<Rightarrow> 's \<Rightarrow> ('v option \<times> 's) res) \<Rightarrow> 'v pmap \<times> 's \<Rightarrow> peer \<Rightarrow> peer
   \<Rightarrow> ('v \<times> 'v pmap \<times> 's) res" where
  "pm_put gen ms a b = rbind (assert_pair gen a b NoVal ms) (\<lambda>(vg, ms'). Inr (fst vg, ms'))"

lemma pm_put_Inr: "pm_put gen (m, s) a b = Inr (v, m', s') \<longleftrightarrow>
    (\<exists>g. assert_pair gen a b NoVal (m, s) = Inr ((v, g), m', s'))"
  by (auto simp: pm_put_def res_simps)

interpretation pm: pair_store "\<lambda>ms. pmap_ok (fst ms)" pm_look "pm_put gen"
proof (unfold_locales, goal_cases)
  case (1 m a b) show ?case by (simp add: pm_look_def pair_key_commute)
next
  case (2 m a b v m') then show ?case
    by (cases m; cases m') (auto simp: pm_put_Inr pm_look_def dest!: assert_pair_get simp: get_pair_def)
next
  case (3 m a b v m' c d w) then show ?case
    by (cases m; cases m') (auto simp: pm_put_Inr pm_look_def dest: assert_pair_keeps)
next
  case (4 m a b v) then show ?case
    by (cases m) (auto simp: pm_look_def pm_put_def assert_pair_hit)
next
  case (5 m a b v m') then show ?case
    by (cases m; cases m') (auto simp: pm_put_Inr dest: assert_pair_ok)
qed

end
