(* ===== verification/Uno_Text.thy ===== *)
theory Uno_Text
  imports Uno_Prelude
begin

text \<open>
  The text primitives the components parse and print with: decimal numbers, Python's \<open>find\<close>,
  \<open>split\<close> and \<open>join\<close> on one character, prefix tests and SQL's \<open>LIKE\<close>.
\<close>

section \<open>Decimal numbers\<close>

definition digit_char :: "nat \<Rightarrow> char" where
  "digit_char d = char_of (48 + d)"

definition char_digit :: "char \<Rightarrow> nat option" where
  "char_digit c = (let n = of_char c :: nat in if 48 \<le> n \<and> n \<le> 57 then Some (n - 48) else None)"

fun show_nat :: "nat \<Rightarrow> string" where
  "show_nat n = (if n < 10 then [digit_char n] else show_nat (n div 10) @ [digit_char (n mod 10)])"

declare show_nat.simps [simp del]

fun read_digits :: "nat \<Rightarrow> string \<Rightarrow> nat option" where
  "read_digits acc [] = Some acc"
| "read_digits acc (c # cs) = Option.bind (char_digit c) (\<lambda>d. read_digits (10 * acc + d) cs)"

definition read_nat :: "string \<Rightarrow> nat option" where
  "read_nat s = (if s = [] then None else read_digits 0 s)"

definition show_int :: "int \<Rightarrow> string" where
  "show_int i = (if i < 0 then CHR ''-'' # show_nat (nat (- i)) else show_nat (nat i))"

definition read_int :: "string \<Rightarrow> int option" where
  "read_int s = (case s of
     [] \<Rightarrow> None
   | c # cs \<Rightarrow> if c = CHR ''-'' then map_option (\<lambda>n. - int n) (read_nat cs)
               else map_option int (read_nat s))"

lemma char_digit_digit [simp]: "d < 10 \<Longrightarrow> char_digit (digit_char d) = Some d"
  by (simp add: char_digit_def digit_char_def)

lemma char_digit_range: "char_digit c = Some d \<Longrightarrow> d < 10"
  by (auto simp: char_digit_def Let_def split: if_splits)

lemma digit_char_neq: "d < 10 \<Longrightarrow> char_digit c = None \<Longrightarrow> digit_char d \<noteq> c"
  by auto

lemma show_nat_nonempty [simp]: "show_nat n \<noteq> []"
  by (subst show_nat.simps) simp

lemma set_show_nat: "c \<in> set (show_nat n) \<Longrightarrow> char_digit c \<noteq> None"
proof (induction n rule: show_nat.induct)
  case (1 n)
  then show ?case by (subst (asm) show_nat.simps) (auto split: if_splits)
qed

lemma read_digits_append:
  "read_digits acc (xs @ ys) = Option.bind (read_digits acc xs) (\<lambda>a. read_digits a ys)"
  by (induction xs arbitrary: acc) (auto simp: bind_eq_None_conv Option.bind_assoc)

lemma read_digits_show: "read_digits 0 (show_nat n) = Some n"
proof (induction n rule: show_nat.induct)
  case (1 n)
  then show ?case
    by (subst show_nat.simps) (auto simp: read_digits_append)
qed

lemma read_show_nat [simp]: "read_nat (show_nat n) = Some n"
  by (simp add: read_nat_def read_digits_show)

lemma show_nat_no_minus: "show_nat n = c # cs \<Longrightarrow> c \<noteq> CHR ''-''"
  using set_show_nat [of c n] by (auto simp: char_digit_def)

lemma read_show_int [simp]: "read_int (show_int i) = Some i"
proof (cases "i < 0")
  case True
  then show ?thesis by (simp add: show_int_def read_int_def)
next
  case False
  then obtain c cs where s: "show_nat (nat i) = c # cs" using show_nat_nonempty by (meson neq_Nil_conv)
  have "read_nat (c # cs) = Some (nat i)" using read_show_nat [of "nat i"] s by simp
  with False s show_nat_no_minus [OF s] show ?thesis by (simp add: show_int_def read_int_def)
qed

lemma set_show_int: "c \<in> set (show_int i) \<Longrightarrow> c = CHR ''-'' \<or> char_digit c \<noteq> None"
  using set_show_nat by (auto simp: show_int_def split: if_splits)

lemma show_int_inject [simp]: "show_int i = show_int j \<longleftrightarrow> i = j"
  by (metis option.inject read_show_int)

lemma show_nat_inject [simp]: "show_nat i = show_nat j \<longleftrightarrow> i = j"
  by (metis option.inject read_show_nat)

section \<open>Searching and splitting\<close>

fun find_char :: "char \<Rightarrow> string \<Rightarrow> nat option" where
  "find_char c [] = None"
| "find_char c (x # xs) = (if x = c then Some 0 else map_option Suc (find_char c xs))"

lemma find_char_append: "c \<notin> set xs \<Longrightarrow> find_char c (xs @ c # ys) = Some (length xs)"
  by (induction xs) auto

lemma find_char_None: "find_char c xs = None \<longleftrightarrow> c \<notin> set xs"
  by (induction xs) auto

lemma find_char_Some:
  "find_char c xs = Some i \<Longrightarrow> i < length xs \<and> xs ! i = c \<and> c \<notin> set (take i xs)"
  by (induction xs arbitrary: i) (auto split: if_splits)

fun split_char :: "char \<Rightarrow> string \<Rightarrow> string list" where
  "split_char c [] = [[]]"
| "split_char c (x # xs) =
     (if x = c then [] # split_char c xs
      else (case split_char c xs of [] \<Rightarrow> [[x]] | p # ps \<Rightarrow> (x # p) # ps))"

fun join_char :: "char \<Rightarrow> string list \<Rightarrow> string" where
  "join_char c [] = []"
| "join_char c [p] = p"
| "join_char c (p # q # ps) = p @ c # join_char c (q # ps)"

lemma split_char_nonempty [simp]: "split_char c s \<noteq> []"
  by (induction s) (auto split: list.splits)

lemma split_char_plain: "c \<notin> set s \<Longrightarrow> split_char c s = [s]"
  by (induction s) auto

lemma split_char_append: "c \<notin> set s \<Longrightarrow> split_char c (s @ c # t) = s # split_char c t"
  by (induction s) auto

lemma split_join:
  "ps \<noteq> [] \<Longrightarrow> \<forall>p \<in> set ps. c \<notin> set p \<Longrightarrow> split_char c (join_char c ps) = ps"
  by (induction c ps rule: join_char.induct) (auto simp: split_char_plain split_char_append)

lemma join_split: "join_char c (split_char c s) = s"
proof (induction s)
  case (Cons x s)
  obtain p ps where "split_char c s = p # ps" using split_char_nonempty by (meson neq_Nil_conv)
  with Cons show ?case by (cases ps) auto
qed simp

definition starts_with :: "string \<Rightarrow> string \<Rightarrow> bool" where
  "starts_with pre s \<longleftrightarrow> take (length pre) s = pre"

lemma starts_with_append [simp]: "starts_with pre (pre @ s)"
  by (simp add: starts_with_def)

lemma starts_with_iff: "starts_with pre s \<longleftrightarrow> (\<exists>t. s = pre @ t)"
  by (metis append_take_drop_id starts_with_append starts_with_def)

text \<open>SQLite's \<open>LIKE\<close>: \<open>%\<close> matches any text, \<open>_\<close> any character, letters in either case.\<close>

definition ascii_lower :: "char \<Rightarrow> char" where
  "ascii_lower c = (let n = of_char c :: nat in if 65 \<le> n \<and> n \<le> 90 then char_of (n + 32) else c)"

fun sql_like :: "string \<Rightarrow> string \<Rightarrow> bool" where
  "sql_like [] s = (s = [])"
| "sql_like (p # ps) [] = (p = CHR ''%'' \<and> sql_like ps [])"
| "sql_like (p # ps) (c # cs) =
     (if p = CHR ''%'' then sql_like ps (c # cs) \<or> sql_like (p # ps) cs
      else (p = CHR ''_'' \<or> ascii_lower p = ascii_lower c) \<and> sql_like ps cs)"

lemma sql_like_any [simp]: "sql_like [CHR ''%''] s"
  by (induction s) auto

lemma sql_like_prefix: "CHR ''%'' \<notin> set pre \<Longrightarrow> sql_like (pre @ [CHR ''%'']) (pre @ s)"
  by (induction pre) auto

text \<open>\<open>json.dumps\<close> of a pair of numbers and \<open>json.loads\<close> of such a text.\<close>

definition json_pair :: "int \<times> int \<Rightarrow> string" where
  "json_pair k = ''['' @ show_int (fst k) @ '', '' @ show_int (snd k) @ '']''"

definition read_json_pair :: "string \<Rightarrow> (int \<times> int) option" where
  "read_json_pair s =
     (if s \<noteq> [] \<and> hd s = CHR ''['' \<and> last s = CHR '']'' then
        (case split_char (CHR '','') (butlast (tl s)) of
           [a, b] \<Rightarrow> Option.bind (read_int a) (\<lambda>x. map_option (Pair x) (read_int (dropWhile (\<lambda>c. c = CHR '' '') b)))
         | _ \<Rightarrow> None)
      else None)"

lemma show_int_no: "char_digit c = None \<Longrightarrow> c \<noteq> CHR ''-'' \<Longrightarrow> c \<notin> set (show_int i)"
  using set_show_int by blast

lemma drop_space_show: "dropWhile (\<lambda>c. c = CHR '' '') (CHR '' '' # show_int i) = show_int i"
proof -
  have "CHR '' '' \<notin> set (show_int i)" by (rule show_int_no) (simp_all add: char_digit_def)
  then show ?thesis by (cases "show_int i") auto
qed

lemma read_json_pair_dumps [simp]: "read_json_pair (json_pair k) = Some k"
proof -
  have c: "CHR '','' \<notin> set (show_int i)" for i by (rule show_int_no) (simp_all add: char_digit_def)
  have "butlast (tl (json_pair k)) = show_int (fst k) @ CHR '','' # CHR '' '' # show_int (snd k)"
    by (simp add: json_pair_def butlast_append)
  moreover have "split_char (CHR '','') (CHR '' '' # show_int (snd k)) = [CHR '' '' # show_int (snd k)]"
    using c [of "snd k"] by (intro split_char_plain) simp
  ultimately have s: "split_char (CHR '','') (butlast (tl (json_pair k)))
      = [show_int (fst k), CHR '' '' # show_int (snd k)]"
    using c [of "fst k"] by (simp add: split_char_append)
  show ?thesis
    unfolding read_json_pair_def s using drop_space_show [of "snd k"]
    by (simp add: json_pair_def)
qed

lemma json_pair_no_colon: "CHR '':'' \<notin> set (json_pair k)"
proof -
  have "CHR '':'' \<notin> set (show_int i)" for i by (rule show_int_no) (simp_all add: char_digit_def)
  then show ?thesis by (simp add: json_pair_def)
qed

end
