(* ===== verification/Uno_Net.thy ===== *)
theory Uno_Net
  imports Uno_Text
begin

text \<open>
  IPv4 addresses and networks (\<open>uno/core/ip.py\<close> and what it uses of Python's \<open>ipaddress\<close>).
  An address is its integer value. \<open>IPv4Address + k\<close> does not wrap: it raises when the sum
  leaves the 32-bit range.
\<close>

section \<open>Python's \<open>ipaddress\<close>\<close>

type_synonym ipv4 = nat

record ipv4_network =
  network_address :: ipv4
  prefixlen :: nat

definition ip_add :: "ipv4 \<Rightarrow> nat \<Rightarrow> ipv4 res" where
  "ip_add a k = (if a + k < 2 ^ 32 then Inr (a + k) else Inl AddressValueError)"

definition net_size :: "nat \<Rightarrow> nat" where
  "net_size p = 2 ^ (32 - p)"

definition netmask_of :: "nat \<Rightarrow> ipv4" where
  "netmask_of p = 2 ^ 32 - net_size p"

definition host_part :: "ipv4 \<Rightarrow> nat \<Rightarrow> nat" where
  "host_part a p = a mod net_size p"

definition ip_network :: "bool \<Rightarrow> ipv4 \<Rightarrow> nat \<Rightarrow> ipv4_network res" where
  "ip_network strict a p =
     (if 32 < p then Inl (ValueError ''netmask'')
      else if host_part a p = 0 then Inr \<lparr>network_address = a, prefixlen = p\<rparr>
      else if strict then Inl (ValueError ''has host bits set'')
      else Inr \<lparr>network_address = a - host_part a p, prefixlen = p\<rparr>)"

definition broadcast_address :: "ipv4_network \<Rightarrow> ipv4" where
  "broadcast_address n = network_address n + net_size (prefixlen n) - 1"

definition in_network :: "ipv4 \<Rightarrow> ipv4_network \<Rightarrow> bool" where
  "in_network a n \<longleftrightarrow> a - host_part a (prefixlen n) = network_address n"

definition overlaps :: "ipv4_network \<Rightarrow> ipv4_network \<Rightarrow> bool" where
  "overlaps n m \<longleftrightarrow>
     in_network (network_address m) n \<or> in_network (broadcast_address m) n
     \<or> in_network (network_address n) m \<or> in_network (broadcast_address n) m"

definition valid_network :: "ipv4_network \<Rightarrow> bool" where
  "valid_network n \<longleftrightarrow>
     prefixlen n \<le> 32 \<and> host_part (network_address n) (prefixlen n) = 0
     \<and> network_address n < 2 ^ 32"

definition hosts :: "ipv4_network \<Rightarrow> ipv4 set" where
  "hosts n = {a. in_network a n}"

lemma net_size_pos [simp]: "0 < net_size p"
  by (simp add: net_size_def)

lemma net_size_ge1 [simp]: "Suc 0 \<le> net_size p" "net_size p \<noteq> 0"
  using net_size_pos [of p] by linarith+

lemma in_network_range:
  assumes "valid_network n"
  shows "in_network a n \<longleftrightarrow> network_address n \<le> a \<and> a \<le> broadcast_address n"
proof -
  let ?s = "net_size (prefixlen n)"
  from assms obtain q where q: "network_address n = ?s * q"
    by (auto simp: valid_network_def host_part_def mod_eq_0_iff_dvd elim: dvdE)
  have a: "a - a mod ?s = ?s * (a div ?s)"
    by (metis minus_mod_eq_mult_div)
  have "a - a mod ?s = network_address n \<longleftrightarrow> a div ?s = q"
    using a q net_size_pos [of "prefixlen n"] by auto
  moreover have "a div ?s = q \<longleftrightarrow> ?s * q \<le> a \<and> a < ?s * q + ?s"
  proof
    assume "a div ?s = q"
    then show "?s * q \<le> a \<and> a < ?s * q + ?s"
      using div_mult_mod_eq [of a ?s] mod_less_divisor [OF net_size_pos, of a "prefixlen n"]
      by (metis add_less_cancel_left le_add1 mult.commute)
  next
    assume "?s * q \<le> a \<and> a < ?s * q + ?s"
    then show "a div ?s = q"
      by (intro div_nat_eqI) (auto simp: mult.commute add.commute)
  qed
  moreover have "a < ?s * q + ?s \<longleftrightarrow> a \<le> ?s * q + ?s - 1"
    using net_size_pos [of "prefixlen n"] by linarith
  ultimately show ?thesis
    using q by (simp add: in_network_def host_part_def broadcast_address_def)
qed

lemma network_address_in: "valid_network n \<Longrightarrow> in_network (network_address n) n"
  by (simp add: in_network_def valid_network_def)

lemma broadcast_ge: "network_address n \<le> broadcast_address n"
  using net_size_pos [of "prefixlen n"] unfolding broadcast_address_def by linarith

lemma broadcast_in: "valid_network n \<Longrightarrow> in_network (broadcast_address n) n"
  by (simp add: in_network_range broadcast_ge)

lemma overlaps_commute: "overlaps n m \<longleftrightarrow> overlaps m n"
  by (auto simp: overlaps_def)

text \<open>The four membership tests of the library's \<open>overlaps\<close> decide whether the two networks
  have an address in common.\<close>

lemma overlaps_iff_common:
  assumes "valid_network n" and "valid_network m"
  shows "overlaps n m \<longleftrightarrow> hosts n \<inter> hosts m \<noteq> {}"
proof
  assume "overlaps n m"
  then show "hosts n \<inter> hosts m \<noteq> {}"
    using network_address_in [OF assms(1)] network_address_in [OF assms(2)]
      broadcast_in [OF assms(1)] broadcast_in [OF assms(2)]
    unfolding overlaps_def hosts_def by blast
next
  assume "hosts n \<inter> hosts m \<noteq> {}"
  then obtain a where "in_network a n" and "in_network a m"
    by (auto simp: hosts_def)
  then show "overlaps n m"
    using assms broadcast_ge [of n] broadcast_ge [of m]
    by (auto simp: overlaps_def in_network_range)
qed

lemma ip_network_valid: "ip_network strict a p = Inr n \<Longrightarrow> a < 2 ^ 32 \<Longrightarrow> valid_network n"
  by (auto simp: ip_network_def valid_network_def host_part_def split: if_splits)

lemma ip_network_contains: "ip_network strict a p = Inr n \<Longrightarrow> in_network a n"
  by (auto simp: ip_network_def in_network_def split: if_splits)

section \<open>Network of a nic\<close>

text \<open>\<open>bin(x)[2:]\<close>, most significant digit first, and \<open>str.rindex\<close>.\<close>

fun bin_digits :: "nat \<Rightarrow> bool list" where
  "bin_digits n = (if n < 2 then [n = 1] else bin_digits (n div 2) @ [n mod 2 = 1])"

declare bin_digits.simps [simp del]

definition rindex :: "'a \<Rightarrow> 'a list \<Rightarrow> nat res" where
  "rindex x xs =
     (case index_of x (rev xs) of
        None \<Rightarrow> Inl (ValueError ''substring not found'')
      | Some i \<Rightarrow> Inr (length xs - 1 - i))"

definition ipv4_netmask_to_cidr :: "ipv4 \<Rightarrow> nat res" where
  "ipv4_netmask_to_cidr msk = rbind (rindex True (bin_digits msk)) (\<lambda>mask_len. Inr (mask_len + 1))"

datatype nic_netmask = Cidr nat | Mask ipv4

definition ipv4_nic_network :: "ipv4 \<Rightarrow> nic_netmask \<Rightarrow> ipv4_network res" where
  "ipv4_nic_network nic_addr nic_netmask =
     rbind (case nic_netmask of Mask m \<Rightarrow> ipv4_netmask_to_cidr m | Cidr c \<Rightarrow> Inr c) (\<lambda>mask_size.
       let ip_int = (if mask_size < 32 then nic_addr - host_part nic_addr mask_size else nic_addr)
       in ip_network True ip_int mask_size)"

lemma bin_digits_double:
  "0 < m \<Longrightarrow> bin_digits (2 * m) = bin_digits m @ [False]"
  by (subst bin_digits.simps) auto

lemma bin_digits_shift: "0 < m \<Longrightarrow> bin_digits (m * 2 ^ k) = bin_digits m @ replicate k False"
proof (induction k)
  case (Suc k)
  have "bin_digits (m * 2 ^ Suc k) = bin_digits (2 * (m * 2 ^ k))"
    by (simp add: mult.left_commute)
  also have "\<dots> = bin_digits (m * 2 ^ k) @ [False]"
    using Suc.prems by (intro bin_digits_double) simp
  finally show ?case using Suc by (simp add: replicate_append_same)
qed simp

lemma bin_digits_odd: "0 < m \<Longrightarrow> bin_digits (2 * m + 1) = bin_digits m @ [True]"
  by (subst bin_digits.simps) auto

lemma bin_digits_ones: "0 < p \<Longrightarrow> bin_digits (2 ^ p - 1) = replicate p True"
proof (induction p)
  case (Suc p)
  show ?case
  proof (cases "p = 0")
    case True
    then show ?thesis by (simp add: bin_digits.simps)
  next
    case False
    have two: "(2::nat) \<le> 2 ^ p"
      using False by (metis power_increasing_iff one_less_numeral_iff semiring_norm(76) power_one_right Suc_leI not_gr0 One_nat_def)
    then have eq: "2 ^ Suc p - 1 = 2 * (2 ^ p - 1) + (1::nat)" and pos: "0 < 2 ^ p - (1::nat)"
      by simp_all
    have "bin_digits (2 ^ Suc p - 1) = bin_digits (2 ^ p - 1) @ [True]"
      unfolding eq by (rule bin_digits_odd [OF pos])
    then show ?thesis using Suc False by (simp add: replicate_append_same)
  qed
qed simp

lemma index_of_append_hit: "x \<notin> set xs \<Longrightarrow> index_of x (xs @ x # ys) = Some (length xs)"
  by (induction xs) auto

lemma rindex_last_true: "0 < p \<Longrightarrow> rindex True (replicate p True @ replicate k False) = Inr (p - 1)"
proof -
  assume "0 < p"
  then obtain q where p: "p = Suc q" by (cases p) auto
  have "index_of True (replicate k False @ True # replicate q True) = Some k"
    using index_of_append_hit [of True "replicate k False" "replicate q True"] by simp
  then show ?thesis by (simp add: rindex_def p replicate_append_same)
qed

text \<open>The netmask of prefix \<open>p\<close> is read back as \<open>p\<close>.\<close>

lemma netmask_to_cidr_netmask_of:
  assumes "0 < p" and "p \<le> 32"
  shows "ipv4_netmask_to_cidr (netmask_of p) = Inr p"
proof -
  have "netmask_of p = (2 ^ p - 1) * 2 ^ (32 - p)"
    using assms by (simp add: netmask_of_def net_size_def diff_mult_distrib power_add [symmetric])
  moreover have "0 < 2 ^ p - (1::nat)"
    using assms(1) one_less_power [of "2::nat" p] by simp
  ultimately have "bin_digits (netmask_of p) = replicate p True @ replicate (32 - p) False"
    using bin_digits_ones [OF assms(1)] by (simp add: bin_digits_shift)
  then show ?thesis
    using assms(1) by (simp add: ipv4_netmask_to_cidr_def rindex_last_true)
qed

lemma netmask_to_cidr_zero: "ipv4_netmask_to_cidr 0 = Inl (ValueError ''substring not found'')"
  by (simp add: ipv4_netmask_to_cidr_def rindex_def bin_digits.simps)

lemma host_part_sub: "host_part (a - host_part a p) p = 0"
  by (simp add: host_part_def)

lemma nic_network_cidr:
  assumes "c \<le> 32" and "a < 2 ^ 32"
  shows "ipv4_nic_network a (Cidr c) = Inr \<lparr>network_address = a - host_part a c, prefixlen = c\<rparr>"
proof (cases "c < 32")
  case True
  then show ?thesis
    by (simp add: ipv4_nic_network_def ip_network_def host_part_sub Let_def)
next
  case False
  with assms(1) have "c = 32" by simp
  then show ?thesis
    by (simp add: ipv4_nic_network_def ip_network_def host_part_def net_size_def Let_def)
qed

lemma nic_network_mask:
  "0 < p \<Longrightarrow> p \<le> 32 \<Longrightarrow> ipv4_nic_network a (Mask (netmask_of p)) = ipv4_nic_network a (Cidr p)"
  by (simp add: ipv4_nic_network_def netmask_to_cidr_netmask_of)

section \<open>Bytes\<close>

definition ipv4_to_bytes :: "ipv4 \<Rightarrow> nat list" where
  "ipv4_to_bytes ip = [ip div 256 ^ 3 mod 256, ip div 256 ^ 2 mod 256, ip div 256 mod 256, ip mod 256]"

fun int_from_bytes_big :: "nat list \<Rightarrow> nat \<Rightarrow> nat" where
  "int_from_bytes_big [] acc = acc"
| "int_from_bytes_big (b # bs) acc = int_from_bytes_big bs (256 * acc + b)"

definition ipv4_from_bytes :: "nat list \<Rightarrow> ipv4 res" where
  "ipv4_from_bytes ip_bytes =
     (let v = int_from_bytes_big ip_bytes 0 in if v < 2 ^ 32 then Inr v else Inl AddressValueError)"

lemma bytes_recombine:
  fixes ip :: nat
  shows "256 * (256 * (256 * (ip div 256 ^ 3) + ip div 256 ^ 2 mod 256) + ip div 256 mod 256) + ip mod 256 = ip"
proof -
  have d: "ip div 256 ^ 2 = ip div 256 div 256" "ip div 256 ^ 3 = ip div 256 div 256 div 256"
    by (simp_all add: div_mult2_eq [symmetric])
  show ?thesis unfolding d by simp
qed

lemma ipv4_bytes_roundtrip:
  assumes "ip < 2 ^ 32"
  shows "ipv4_from_bytes (ipv4_to_bytes ip) = Inr ip"
proof -
  have "ip div 256 ^ 3 mod 256 = ip div 256 ^ 3"
    using assms by (intro mod_less) (simp add: less_mult_imp_div_less)
  then show ?thesis
    using assms bytes_recombine [of ip] by (simp add: ipv4_from_bytes_def ipv4_to_bytes_def)
qed

section \<open>Listing the local nics\<close>

text \<open>
  One object of the JSON printed by \<open>ip -j address show\<close>. \<open>nic_keys\<close> are the keys of the JSON
  object itself: the filters of the source test membership in the object, not in their arguments.
\<close>

record addr_info =
  family :: string
  addr_local :: ipv4
  addr_prefixlen :: nat

record nic_json =
  ifname :: string
  operstate :: string
  link_type :: string
  addr_infos :: "addr_info list"
  nic_keys :: "string list"

type_synonym nic_addr = "ipv4 \<times> nat \<times> ipv4_network"

definition nic_selected :: "string list option \<Rightarrow> string list option \<Rightarrow> bool \<Rightarrow> nic_json \<Rightarrow> bool" where
  "nic_selected interfaces skip include_loopback i \<longleftrightarrow>
     operstate i = ''UP''
     \<and> (include_loopback \<or> link_type i \<noteq> ''loopback'')
     \<and> (\<exists>a \<in> set (addr_infos i). family a = ''inet'')
     \<and> (skip = None \<or> ifname i \<notin> set (nic_keys i))
     \<and> (interfaces = None \<or> ifname i \<in> set (nic_keys i))"

definition nic_addrs :: "nic_json \<Rightarrow> nic_addr list res" where
  "nic_addrs i = rmap (\<lambda>a. rbind (ipv4_nic_network (addr_local a) (Cidr (addr_prefixlen a)))
       (\<lambda>net. Inr (addr_local a, addr_prefixlen a, net)))
     (filter (\<lambda>a. family a = ''inet'') (addr_infos i))"

definition list_local_nics ::
  "nic_json list \<Rightarrow> string list option \<Rightarrow> string list option \<Rightarrow> bool \<Rightarrow> (string \<times> nic_addr list) list res" where
  "list_local_nics available interfaces skip include_loopback =
     rmap (\<lambda>i. rbind (nic_addrs i) (\<lambda>as. Inr (ifname i, as)))
       (filter (nic_selected interfaces skip include_loopback) available)"

section \<open>Addresses as text\<close>

text \<open>\<open>str(IPv4Address)\<close> and \<open>ipaddress.ip_address\<close>: four decimal octets without leading zeros.\<close>

definition show_ipv4 :: "ipv4 \<Rightarrow> string" where
  "show_ipv4 a = join_char (CHR ''.'')
     [show_nat (a div 2 ^ 24 mod 256), show_nat (a div 2 ^ 16 mod 256), show_nat (a div 2 ^ 8 mod 256), show_nat (a mod 256)]"

definition read_octet :: "string \<Rightarrow> nat option" where
  "read_octet s = (case read_nat s of
     None \<Rightarrow> None
   | Some n \<Rightarrow> if n < 256 \<and> show_nat n = s then Some n else None)"

definition read_ipv4 :: "string \<Rightarrow> ipv4 res" where
  "read_ipv4 s = (case map read_octet (split_char (CHR ''.'') s) of
     [Some a, Some b, Some c, Some d] \<Rightarrow> Inr (a * 2 ^ 24 + b * 2 ^ 16 + c * 2 ^ 8 + d)
   | _ \<Rightarrow> Inl (ValueError ''ip_address''))"

lemma read_octet_show [simp]: "n < 256 \<Longrightarrow> read_octet (show_nat n) = Some n"
  by (simp add: read_octet_def)

lemma octets:
  "a < 2 ^ 32 \<Longrightarrow>
    (a div 2 ^ 24 mod 256) * 2 ^ 24 + (a div 2 ^ 16 mod 256) * 2 ^ 16 + (a div 2 ^ 8 mod 256) * 2 ^ 8 + a mod 256 = a"
  for a :: nat
proof -
  assume a: "a < 2 ^ 32"
  let ?q1 = "a div 256" and ?q2 = "a div 256 div 256" and ?q3 = "a div 256 div 256 div 256"
  have q: "a div 2 ^ 8 = ?q1" "a div 2 ^ 16 = ?q2" "a div 2 ^ 24 = ?q3"
    by (simp_all add: div_mult2_eq [symmetric])
  have "?q3 < 256" using a by (simp add: div_mult2_eq [symmetric] less_mult_imp_div_less)
  then have "?q3 mod 256 = ?q3" by simp
  moreover have "a = 256 * ?q1 + a mod 256" "?q1 = 256 * ?q2 + ?q1 mod 256" "?q2 = 256 * ?q3 + ?q2 mod 256"
    by simp_all
  moreover have "x = 256 * u + r0 \<Longrightarrow> u = 256 * v + r1 \<Longrightarrow> v = 256 * w + r2
      \<Longrightarrow> w * 2 ^ 24 + r2 * 2 ^ 16 + r1 * 2 ^ 8 + r0 = x" for x u v w r0 r1 r2 :: nat
    by simp
  ultimately show ?thesis unfolding q by metis
qed

lemma show_nat_no_dot: "CHR ''.'' \<notin> set (show_nat n)"
  using set_show_nat [of "CHR ''.''" n] by (auto simp: char_digit_def)

lemma read_show_ipv4 [simp]: "a < 2 ^ 32 \<Longrightarrow> read_ipv4 (show_ipv4 a) = Inr a"
proof -
  assume a: "a < 2 ^ 32"
  have "split_char (CHR ''.'') (show_ipv4 a)
      = [show_nat (a div 2 ^ 24 mod 256), show_nat (a div 2 ^ 16 mod 256), show_nat (a div 2 ^ 8 mod 256), show_nat (a mod 256)]"
    unfolding show_ipv4_def by (rule split_join) (auto simp: show_nat_no_dot)
  then show ?thesis using octets [OF a] by (simp add: read_ipv4_def del: power_numeral)
qed

definition show_net :: "ipv4_network \<Rightarrow> string" where
  "show_net n = show_ipv4 (network_address n) @ ''/'' @ show_nat (prefixlen n)"

text \<open>The network of an interface contains its address, whether the size is given as a prefix length or as a
  netmask, and an address survives its byte form.\<close>

theorem nic_network_of_address:
  assumes "0 < p" and "p \<le> 32" and "a < 2 ^ 32"
  shows "\<exists>n. ipv4_nic_network a (Cidr p) = Inr n \<and> ipv4_nic_network a (Mask (netmask_of p)) = Inr n
    \<and> prefixlen n = p \<and> a \<in> hosts n \<and> valid_network n \<and> ipv4_from_bytes (ipv4_to_bytes a) = Inr a"
proof -
  note c = nic_network_cidr [OF assms(2,3)]
  have "host_part (a - host_part a p) p = 0" by (simp add: host_part_def minus_mod_eq_div_mult)
  then show ?thesis using c nic_network_mask [OF assms(1,2), of a] ipv4_bytes_roundtrip [OF assms(3)] assms
    by (simp add: hosts_def in_network_def valid_network_def)
qed

theorem nic_network_of_address_witness:
  "\<exists>n. ipv4_nic_network 259 (Mask (netmask_of 24)) = Inr n \<and> 259 \<in> hosts n"
  using nic_network_of_address [of 24 259] by auto

end
