(* ===== verification/Deployment.thy ===== *)
theory Deployment
  imports Paired_Map Uno_Net
begin

text \<open>
  Backbone links (\<open>uno/registry/deployment.py\<close>): \<open>P2pLinkAllocationMap\<close>, the paired map that
  allocates one /31 network per pair of peers, and \<open>P2pLinksMap\<close>, the deployed links.
\<close>

section \<open>Allocation of the link networks\<close>

record link_alloc =
  alloc_subnet :: ipv4_network
  alloc_next_ip :: ipv4

type_synonym link_val = "(ipv4 \<times> ipv4) \<times> ipv4_network"
type_synonym link_map = "link_val pmap \<times> link_alloc"

definition link_alloc_init :: "ipv4_network \<Rightarrow> link_map res" where
  "link_alloc_init subnet =
     rbind (ip_add (network_address subnet) 2) (\<lambda>ip.
       Inr ([], \<lparr>alloc_subnet = subnet, alloc_next_ip = ip\<rparr>))"

definition allocate_ip :: "link_alloc \<Rightarrow> (ipv4 \<times> link_alloc) res" where
  "allocate_ip al =
     (let result = alloc_next_ip al in
      if \<not> in_network result (alloc_subnet al)
      then Inl (RuntimeError ''exceeded allocated backbone subnet'')
      else rbind (ip_add result 1) (\<lambda>next_ip. Inr (result, al\<lparr>alloc_next_ip := next_ip\<rparr>)))"

definition alloc_generate_val :: "peer \<Rightarrow> peer \<Rightarrow> link_alloc \<Rightarrow> (link_val option \<times> link_alloc) res" where
  "alloc_generate_val peer_a peer_b al =
     rbind (allocate_ip al) (\<lambda>(peer_a_ip, al1).
     rbind (allocate_ip al1) (\<lambda>(peer_b_ip, al2).
     rbind (ip_network True peer_a_ip 31) (\<lambda>peer_a_net.
     rbind (ip_network False peer_b_ip 31) (\<lambda>peer_b_net.
       if peer_a_net \<noteq> peer_b_net
       then Inl (RuntimeError ''peer addresses not in the same network'')
       else Inr (Some ((peer_a_ip, peer_b_ip), peer_a_net), al2)))))"

abbreviation alloc_put :: "link_map \<Rightarrow> peer \<Rightarrow> peer \<Rightarrow> (link_val \<times> link_map) res" where
  "alloc_put \<equiv> pm_put alloc_generate_val"

subsection \<open>Invariant\<close>

definition link31 :: "ipv4 \<Rightarrow> link_val" where
  "link31 x = ((x, x + 1), \<lparr>network_address = x, prefixlen = 31\<rparr>)"

definition nth_link :: "ipv4_network \<Rightarrow> nat \<Rightarrow> link_val" where
  "nth_link subnet i = link31 (network_address subnet + 2 + 2 * i)"

definition subnet_ok :: "ipv4_network \<Rightarrow> bool" where
  "subnet_ok n \<longleftrightarrow> valid_network n \<and> prefixlen n \<le> 31"

text \<open>The \<open>i\<close>-th pair to be inserted owns the \<open>i\<close>-th /31 network after the first.\<close>

definition alloc_inv :: "link_map \<Rightarrow> bool" where
  "alloc_inv ms \<longleftrightarrow>
     pmap_ok (fst ms) \<and> subnet_ok (alloc_subnet (snd ms))
     \<and> alloc_next_ip (snd ms) = network_address (alloc_subnet (snd ms)) + 2 + 2 * length (fst ms)
     \<and> map snd (fst ms) = map (nth_link (alloc_subnet (snd ms))) [0..<length (fst ms)]
     \<and> (\<forall>i < length (fst ms).
          in_network (fst (fst (nth_link (alloc_subnet (snd ms)) i))) (alloc_subnet (snd ms))
          \<and> in_network (snd (fst (nth_link (alloc_subnet (snd ms)) i))) (alloc_subnet (snd ms)))"

definition capacity :: "ipv4_network \<Rightarrow> nat" where
  "capacity n = net_size (prefixlen n) div 2 - 1"

text \<open>\<open>IPv4Address\<close> cannot step past the last address, so a subnet that ends there loses one link.\<close>

definition below_top :: "ipv4_network \<Rightarrow> bool" where
  "below_top n \<longleftrightarrow> broadcast_address n < 2 ^ 32 - 1"

lemma net_size_even: "p \<le> 31 \<Longrightarrow> net_size p = 2 * (net_size p div 2) \<and> 0 < net_size p div 2"
proof -
  assume "p \<le> 31"
  then have "32 - p = Suc (31 - p)" by simp
  then show ?thesis by (simp add: net_size_def)
qed

lemma subnet_ok_even:
  assumes "subnet_ok n"
  shows "even (network_address n)"
proof -
  from assms have "net_size (prefixlen n) dvd network_address n" and "even (net_size (prefixlen n))"
    using net_size_even [of "prefixlen n"]
    by (auto simp: subnet_ok_def valid_network_def host_part_def mod_eq_0_iff_dvd intro: dvdI)
  then show ?thesis by (meson dvd_trans)
qed

lemma in_subnet_iff:
  "subnet_ok n \<Longrightarrow> in_network a n \<longleftrightarrow> network_address n \<le> a \<and> a < network_address n + net_size (prefixlen n)"
  by (auto simp: subnet_ok_def in_network_range broadcast_address_def)
     (metis Suc_pred add_gr_0 less_Suc_eq_le net_size_pos)+

lemma ip_network31:
  "even x \<Longrightarrow> ip_network True x 31 = Inr \<lparr>network_address = x, prefixlen = 31\<rparr>"
  "even x \<Longrightarrow> ip_network False (x + 1) 31 = Inr \<lparr>network_address = x, prefixlen = 31\<rparr>"
  by (simp_all add: ip_network_def host_part_def net_size_def even_iff_mod_2_eq_zero mod_Suc)

text \<open>One step of the allocator, from a state whose next address is even.\<close>

lemma alloc_generate_val_eq:
  assumes "subnet_ok (alloc_subnet al)" and "even (alloc_next_ip al)"
    and "network_address (alloc_subnet al) \<le> alloc_next_ip al"
    and "below_top (alloc_subnet al)"
  shows "alloc_generate_val a b al =
    (if alloc_next_ip al < network_address (alloc_subnet al) + net_size (prefixlen (alloc_subnet al))
     then Inr (Some (link31 (alloc_next_ip al)), al\<lparr>alloc_next_ip := alloc_next_ip al + 2\<rparr>)
     else Inl (RuntimeError ''exceeded allocated backbone subnet''))"
proof (cases "alloc_next_ip al < network_address (alloc_subnet al) + net_size (prefixlen (alloc_subnet al))")
  case True
  let ?n = "alloc_subnet al" and ?x = "alloc_next_ip al"
  have ev: "even (network_address ?n + net_size (prefixlen ?n))"
    using subnet_ok_even [OF assms(1)] net_size_even [of "prefixlen ?n"] assms(1)
    by (metis dvd_add dvd_triv_left subnet_ok_def)
  with True assms(2) have lt: "?x + 1 < network_address ?n + net_size (prefixlen ?n)"
    by (metis Suc_eq_plus1 even_Suc less_Suc_eq linorder_neqE_nat not_less_eq)
  have top: "network_address ?n + net_size (prefixlen ?n) < 2 ^ 32"
    using assms(4) net_size_pos [of "prefixlen ?n"]
    unfolding below_top_def broadcast_address_def by linarith
  have "in_network ?x ?n" "in_network (Suc ?x) ?n"
    using True lt assms(3) by (simp_all add: in_subnet_iff [OF assms(1)])
  moreover have "ip_add ?x 1 = Inr (Suc ?x)" "ip_add (Suc ?x) 1 = Inr (Suc (Suc ?x))"
    using lt top by (simp_all add: ip_add_def)
  ultimately show ?thesis
    using True ip_network31 [OF assms(2)]
    by (simp add: alloc_generate_val_def allocate_ip_def Let_def link31_def)
next
  case False
  then have "\<not> in_network (alloc_next_ip al) (alloc_subnet al)"
    by (simp add: in_subnet_iff [OF assms(1)])
  with False show ?thesis by (simp add: alloc_generate_val_def allocate_ip_def)
qed

lemma alloc_inv_next:
  assumes "alloc_inv (m, al)"
  shows "even (alloc_next_ip al)" and "network_address (alloc_subnet al) \<le> alloc_next_ip al"
  using assms subnet_ok_even [of "alloc_subnet al"] by (auto simp: alloc_inv_def)

text \<open>Exact capacity: the subnet of prefix \<open>p\<close> holds \<open>2 ^ (31 - p) - 1\<close> links, and the
  allocator raises from then on.\<close>

lemma room_iff:
  assumes "alloc_inv (m, al)"
  shows "alloc_next_ip al < network_address (alloc_subnet al) + net_size (prefixlen (alloc_subnet al))
    \<longleftrightarrow> length m < capacity (alloc_subnet al)"
proof -
  have "prefixlen (alloc_subnet al) \<le> 31" using assms by (simp add: alloc_inv_def subnet_ok_def)
  from net_size_even [OF this] assms show ?thesis
    by (auto simp: alloc_inv_def capacity_def)
qed

lemma alloc_put_new:
  assumes inv: "alloc_inv (m, al)" and new: "map_of m (pair_key a b) = None"
    and top: "below_top (alloc_subnet al)"
  shows "alloc_put (m, al) a b =
    (if length m < capacity (alloc_subnet al)
     then Inr (nth_link (alloc_subnet al) (length m),
            m @ [(pair_key a b, nth_link (alloc_subnet al) (length m))],
            al\<lparr>alloc_next_ip := alloc_next_ip al + 2\<rparr>)
     else Inl (RuntimeError ''exceeded allocated backbone subnet''))"
proof -
  have sub: "subnet_ok (alloc_subnet al)" using inv by (simp add: alloc_inv_def)
  have x: "link31 (alloc_next_ip al) = nth_link (alloc_subnet al) (length m)"
    using inv by (simp add: alloc_inv_def nth_link_def)
  have k: "pair_key a b \<notin> fst ` set m" using new by (simp add: map_of_eq_None_iff)
  show ?thesis
    using alloc_generate_val_eq [OF sub alloc_inv_next [OF inv] top, of a b] room_iff [OF inv]
    by (simp add: pm_put_def assert_pair_def stored_val_def Let_def new x update_new [OF k])
qed

lemma allocate_ip_Inr:
  "allocate_ip al = Inr (x, al') \<longleftrightarrow>
     x = alloc_next_ip al \<and> in_network x (alloc_subnet al) \<and> x + 1 < 2 ^ 32
     \<and> al' = al\<lparr>alloc_next_ip := x + 1\<rparr>"
  by (auto simp: allocate_ip_def Let_def ip_add_def res_simps split: if_splits)

lemma alloc_generate_Inr:
  assumes "alloc_generate_val a b al = Inr (v, al')" and "even (alloc_next_ip al)"
  shows "v = Some (link31 (alloc_next_ip al))" and "al' = al\<lparr>alloc_next_ip := alloc_next_ip al + 2\<rparr>"
    and "in_network (alloc_next_ip al) (alloc_subnet al)"
    and "in_network (alloc_next_ip al + 1) (alloc_subnet al)"
  using assms ip_network31 [OF assms(2)]
  by (auto simp: alloc_generate_val_def res_simps allocate_ip_Inr link31_def split: if_splits)

lemma alloc_put_inv:
  assumes inv: "alloc_inv ms" and put: "alloc_put ms a b = Inr (v, ms')"
  shows "alloc_inv ms'" and "alloc_subnet (snd ms') = alloc_subnet (snd ms)"
proof -
  obtain m al where ms: "ms = (m, al)" by (cases ms)
  obtain m' al' where ms': "ms' = (m', al')" by (cases ms')
  from put obtain g where ap: "assert_pair alloc_generate_val a b NoVal (m, al) = Inr ((v, g), m', al')"
    by (auto simp: ms ms' pm_put_Inr)
  from ap have "alloc_inv ms' \<and> alloc_subnet al' = alloc_subnet al"
  proof (cases rule: assert_pair_Inr_cases)
    case hit
    with inv show ?thesis by (simp add: ms ms')
  next
    case new
    have ev: "even (alloc_next_ip al)" using alloc_inv_next inv by (simp add: ms)
    have k: "pair_key a b \<notin> fst ` set m" using new(1) by (simp add: map_of_eq_None_iff)
    have gen: "alloc_generate_val a b al = Inr (Some v, al')"
      using new(4) by (simp add: stored_val_def)
    have v: "v = nth_link (alloc_subnet al) (length m)"
      using alloc_generate_Inr(1) [OF gen ev] inv by (simp add: ms alloc_inv_def nth_link_def)
    have net: "in_network (fst (fst v)) (alloc_subnet al)" "in_network (snd (fst v)) (alloc_subnet al)"
      using alloc_generate_Inr(1,3,4) [OF gen ev] by (simp_all add: link31_def)
    have m': "m' = m @ [(pair_key a b, v)]"
      using new(3) by (simp add: update_new [OF k])
    show ?thesis
      using inv v net k alloc_generate_Inr(2) [OF gen ev]
      by (auto simp: ms ms' m' alloc_inv_def pmap_ok_def less_Suc_eq)
  qed
  then show "alloc_inv ms'" and "alloc_subnet (snd ms') = alloc_subnet (snd ms)"
    by (simp_all add: ms ms')
qed

lemma alloc_init_inv:
  assumes "subnet_ok n" and "link_alloc_init n = Inr ms"
  shows "alloc_inv ms" and "alloc_subnet (snd ms) = n" and "fst ms = []"
  using assms by (auto simp: link_alloc_init_def ip_add_def alloc_inv_def split: if_splits)

text \<open>Different pairs own different networks, and these share no address.\<close>

lemma alloc_inv_nth:
  assumes "alloc_inv ms" and "i < length (fst ms)"
  shows "snd (fst ms ! i) = nth_link (alloc_subnet (snd ms)) i"
proof -
  have "map snd (fst ms) ! i = map (nth_link (alloc_subnet (snd ms))) [0..<length (fst ms)] ! i"
    using assms(1) by (simp add: alloc_inv_def)
  then show ?thesis using assms(2) by simp
qed

lemma pm_look_nth:
  assumes "alloc_inv ms" and "pm_look ms a b = Some v"
  obtains i where "i < length (fst ms)" and "fst (fst ms ! i) = pair_key a b"
    and "v = nth_link (alloc_subnet (snd ms)) i"
proof -
  from assms(2) have "(pair_key a b, v) \<in> set (fst ms)"
    by (auto simp: pm_look_def dest: map_of_SomeD)
  then obtain i where "i < length (fst ms)" and "fst ms ! i = (pair_key a b, v)"
    by (meson in_set_conv_nth)
  then show ?thesis using that alloc_inv_nth [OF assms(1), of i] by simp
qed

lemma nth_link_disjoint: "i \<noteq> j \<Longrightarrow> subnet_ok s \<Longrightarrow> hosts (snd (nth_link s i)) \<inter> hosts (snd (nth_link s j)) = {}"
  using subnet_ok_even [of s]
  by (auto simp: hosts_def in_network_def nth_link_def link31_def host_part_def net_size_def)

lemma alloc_disjoint:
  assumes "alloc_inv ms" and "pm_look ms a b = Some v" and "pm_look ms c d = Some w"
    and "pair_key a b \<noteq> pair_key c d"
  shows "hosts (snd v) \<inter> hosts (snd w) = {}"
proof -
  from pm_look_nth [OF assms(1,2)] obtain i where i: "i < length (fst ms)"
    "fst (fst ms ! i) = pair_key a b" "v = nth_link (alloc_subnet (snd ms)) i" .
  from pm_look_nth [OF assms(1,3)] obtain j where j: "j < length (fst ms)"
    "fst (fst ms ! j) = pair_key c d" "w = nth_link (alloc_subnet (snd ms)) j" .
  have "i \<noteq> j" using i(2) j(2) assms(4) by auto
  moreover have "subnet_ok (alloc_subnet (snd ms))" using assms(1) by (simp add: alloc_inv_def)
  ultimately show ?thesis by (simp add: i(3) j(3) nth_link_disjoint)
qed

lemma alloc_in_subnet:
  assumes "alloc_inv ms" and "pm_look ms a b = Some v"
  shows "in_network (fst (fst v)) (alloc_subnet (snd ms))" and "in_network (snd (fst v)) (alloc_subnet (snd ms))"
    and "snd (fst v) = fst (fst v) + 1" and "fst (fst v) = network_address (snd v)"
    and "prefixlen (snd v) = 31" and "network_address (alloc_subnet (snd ms)) + 2 \<le> fst (fst v)"
proof -
  from pm_look_nth [OF assms] obtain i
    where i: "i < length (fst ms)" and v: "v = nth_link (alloc_subnet (snd ms)) i" .
  show "in_network (fst (fst v)) (alloc_subnet (snd ms))" "in_network (snd (fst v)) (alloc_subnet (snd ms))"
    using assms(1) i unfolding alloc_inv_def v by blast+
  show "snd (fst v) = fst (fst v) + 1" "fst (fst v) = network_address (snd v)"
    "prefixlen (snd v) = 31" "network_address (alloc_subnet (snd ms)) + 2 \<le> fst (fst v)"
    by (simp_all add: v nth_link_def link31_def)
qed

section \<open>The deployed links\<close>

text \<open>Of one peer: the local port index, its own address, the other's address, the /31 network.\<close>

type_synonym link = "nat \<times> ipv4 \<times> ipv4 \<times> ipv4_network"

record peer_deploy =
  pd_n :: nat
  pd_peers :: "(peer \<times> link) list"

type_synonym links_map = "(peer \<times> peer_deploy) list"

definition get_peers :: "links_map \<Rightarrow> peer \<Rightarrow> peer list" where
  "get_peers peers peer_id =
     (case map_of peers peer_id of
        None \<Rightarrow> []
      | Some p \<Rightarrow> map fst (sort_key snd (map (\<lambda>(peer_b, (i, _)). (peer_b, i)) (pd_peers p))))"

definition get_interfaces :: "links_map \<Rightarrow> peer \<Rightarrow> ipv4 list" where
  "get_interfaces peers peer_id =
     (case map_of peers peer_id of
        None \<Rightarrow> []
      | Some p \<Rightarrow> map (\<lambda>(_, (_, addr, _, _)). addr) (pd_peers p))"

definition link_of :: "links_map \<Rightarrow> peer \<Rightarrow> peer \<Rightarrow> link option" where
  "link_of peers a b = Option.bind (map_of peers a) (\<lambda>p. map_of (pd_peers p) b)"

lemma set_get_peers:
  "map_of peers a = Some p \<Longrightarrow> set (get_peers peers a) = fst ` set (pd_peers p)"
  by (force simp: get_peers_def)

lemma mset_get_peers:
  "map_of peers a = Some p \<Longrightarrow> mset (get_peers peers a) = mset (map fst (pd_peers p))"
  by (simp add: get_peers_def case_prod_beta comp_def multiset.map_comp)

section \<open>Sequences of allocations\<close>

fun alloc_puts :: "(peer \<times> peer) list \<Rightarrow> link_map \<Rightarrow> link_map res" where
  "alloc_puts [] ms = Inr ms"
| "alloc_puts ((a, b) # ps) ms = rbind (alloc_put ms a b) (\<lambda>(_, ms'). alloc_puts ps ms')"

lemma alloc_puts_inv:
  assumes "alloc_inv ms" and "alloc_puts ps ms = Inr ms'"
  shows "alloc_inv ms' \<and> alloc_subnet (snd ms') = alloc_subnet (snd ms)
    \<and> (\<forall>a b v. pm_look ms a b = Some v \<longrightarrow> pm_look ms' a b = Some v)
    \<and> (\<forall>(a, b) \<in> set ps. \<exists>v. pm_look ms' a b = Some v)"
  using assms
proof (induction ps ms rule: alloc_puts.induct)
  case (2 a b ps ms)
  from 2(3) obtain v ms1 where put: "alloc_put ms a b = Inr (v, ms1)" and rest: "alloc_puts ps ms1 = Inr ms'"
    by (auto simp: res_simps)
  have ok: "pmap_ok (fst ms)" using 2(2) by (simp add: alloc_inv_def)
  have look: "pm_look ms1 a b = Some v" by (rule pm.put_look [OF ok put])
  have keep: "pm_look ms1 c d = Some w" if "pm_look ms c d = Some w" for c d w
    by (rule pm.put_keeps [OF ok put that])
  from 2(1) [of "(v, ms1)" v ms1] put rest alloc_put_inv [OF 2(2) put] look keep
  show ?case by (simp add: rbind_simps)
qed simp

lemma alloc_puts_capacity:
  assumes "alloc_inv ms" and "below_top (alloc_subnet (snd ms))" and "distinct (map (\<lambda>(a, b). pair_key a b) ps)"
    and "(\<lambda>(a, b). pair_key a b) ` set ps \<inter> fst ` set (fst ms) = {}"
  shows "if length (fst ms) + length ps \<le> capacity (alloc_subnet (snd ms)) then \<exists>ms'. alloc_puts ps ms = Inr ms'
    else length (fst ms) \<le> capacity (alloc_subnet (snd ms)) \<longrightarrow>
      alloc_puts ps ms = Inl (RuntimeError ''exceeded allocated backbone subnet'')"
  using assms
proof (induction ps arbitrary: ms)
  case (Cons p ps)
  obtain a b where p: "p = (a, b)" by (cases p)
  obtain m al where ms: "ms = (m, al)" by (cases ms)
  have new: "map_of m (pair_key a b) = None" using Cons.prems(4) by (simp add: p ms map_of_eq_None_iff)
  note step = alloc_put_new [OF Cons.prems(1) [unfolded ms] new] 
  show ?case
  proof (cases "length m < capacity (alloc_subnet al)")
    case True
    let ?v = "nth_link (alloc_subnet al) (length m)"
    define ms1 where "ms1 = (m @ [(pair_key a b, ?v)], al\<lparr>alloc_next_ip := alloc_next_ip al + 2\<rparr>)"
    have put: "alloc_put (m, al) a b = Inr (?v, ms1)" using step Cons.prems(2) True by (simp add: ms ms1_def)
    have inv1: "alloc_inv ms1" using alloc_put_inv(1) [OF Cons.prems(1) [unfolded ms] put] .
    have dis: "(\<lambda>(a, b). pair_key a b) ` set ps \<inter> fst ` set (fst ms1) = {}"
      using Cons.prems(3,4) by (auto simp: p ms ms1_def)
    have len: "length (fst ms1) = Suc (length m)" and sub: "alloc_subnet (snd ms1) = alloc_subnet al"
      by (simp_all add: ms1_def)
    from Cons.IH [OF inv1 _ _ dis] Cons.prems(2,3) put True show ?thesis
      by (simp add: p ms rbind_simps len sub split: if_splits)
  next
    case False
    then have "alloc_put (m, al) a b = Inl (RuntimeError ''exceeded allocated backbone subnet'')"
      using step Cons.prems(2) by (simp add: ms)
    with False show ?thesis by (simp add: p ms rbind_simps)
  qed
qed simp

text \<open>C10: After any sequence of requests for links on a fresh allocator every requested pair has its /31
  network inside the subnet, with the two addresses of the network for the two peers, the order of the peers in a request does not
  matter, and different pairs share no address.\<close>

theorem links_never_overlap:
  assumes "subnet_ok n" and "link_alloc_init n = Inr ms0" and "alloc_puts ps ms0 = Inr ms"
    and "(a, b) \<in> set ps" and "(c, d) \<in> set ps" and "{a, b} \<noteq> {c, d}"
  shows "\<exists>v w. pm_look ms a b = Some v \<and> pm_look ms b a = Some v \<and> pm_look ms c d = Some w
    \<and> hosts (snd v) \<inter> hosts (snd w) = {} \<and> snd (fst v) = fst (fst v) + 1
    \<and> fst (fst v) = network_address (snd v) \<and> prefixlen (snd v) = 31
    \<and> in_network (fst (fst v)) n \<and> in_network (snd (fst v)) n"
proof -
  note ini = alloc_init_inv [OF assms(1,2)]
  from alloc_puts_inv [OF ini(1) assms(3)] have inv: "alloc_inv ms" "alloc_subnet (snd ms) = n"
    and all: "\<forall>(a, b) \<in> set ps. \<exists>v. pm_look ms a b = Some v"
    by (simp_all add: ini(2))
  from all assms(4,5) obtain v w where v: "pm_look ms a b = Some v" and w: "pm_look ms c d = Some w" by blast
  have "pair_key a b \<noteq> pair_key c d" using assms(6) by (auto simp: pair_key_eq_iff)
  from alloc_disjoint [OF inv(1) v w this] alloc_in_subnet [OF inv(1) v] v w show ?thesis
    by (auto simp: inv(2) pm_look_def pair_key_commute)
qed

definition demo_subnet :: ipv4_network where
  "demo_subnet = \<lparr>network_address = 64, prefixlen = 29\<rparr>"

lemma demo_subnet_ok: "subnet_ok demo_subnet" "below_top demo_subnet" "capacity demo_subnet = 3"
  "link_alloc_init demo_subnet = Inr ([], \<lparr>alloc_subnet = demo_subnet, alloc_next_ip = 66\<rparr>)"
  by (simp_all add: demo_subnet_def subnet_ok_def valid_network_def host_part_def net_size_def below_top_def
      broadcast_address_def capacity_def link_alloc_init_def ip_add_def rbind_simps)

theorem links_never_overlap_witness:
  "\<exists>ms v w. alloc_puts [(1, 2), (3, 2)] ([], \<lparr>alloc_subnet = demo_subnet, alloc_next_ip = 66\<rparr>) = Inr ms
    \<and> pm_look ms 2 1 = Some v \<and> pm_look ms 3 2 = Some w \<and> hosts (snd v) \<inter> hosts (snd w) = {}"
proof -
  have "\<exists>ms. alloc_puts [(1, 2), (3, 2)] ([], \<lparr>alloc_subnet = demo_subnet, alloc_next_ip = 66\<rparr>) = Inr ms"
    using alloc_puts_capacity [OF alloc_init_inv(1) [OF demo_subnet_ok(1,4)], of "[(1, 2), (3, 2)]"]
    by (simp add: demo_subnet_ok pair_key_def)
  then obtain ms where ms: "alloc_puts [(1, 2), (3, 2)] ([], \<lparr>alloc_subnet = demo_subnet, alloc_next_ip = 66\<rparr>) = Inr ms" ..
  have "{1, 2} \<noteq> {3, 2 :: peer}" by (simp add: doubleton_eq_iff)
  from links_never_overlap [OF demo_subnet_ok(1,4) ms _ _ this] ms show ?thesis by (simp del: alloc_puts.simps) blast
qed

text \<open>C11: The subnet of the backbone is used to the last link: requests for distinct pairs succeed as long as
  there are no more than \<open>2 ^ (31 - p) - 1\<close> of them, and the first one beyond that raises.\<close>

theorem link_capacity_exact:
  assumes "subnet_ok n" and "below_top n" and "link_alloc_init n = Inr ms0"
    and "distinct (map (\<lambda>(a, b). pair_key a b) ps)"
  shows "if length ps \<le> 2 ^ (31 - prefixlen n) - 1 then \<exists>ms. alloc_puts ps ms0 = Inr ms
    else alloc_puts ps ms0 = Inl (RuntimeError ''exceeded allocated backbone subnet'')"
proof -
  note ini = alloc_init_inv [OF assms(1,3)]
  have "prefixlen n \<le> 31" using assms(1) by (simp add: subnet_ok_def)
  then have "32 - prefixlen n = Suc (31 - prefixlen n)" by simp
  then have "net_size (prefixlen n) = 2 * 2 ^ (31 - prefixlen n)" by (simp only: net_size_def power_Suc)
  then have "capacity n = 2 ^ (31 - prefixlen n) - 1" by (simp add: capacity_def)
  with alloc_puts_capacity [OF ini(1) _ assms(4)] assms(2) show ?thesis by (simp add: ini)
qed

theorem link_capacity_exact_witness:
  "(\<exists>ms. alloc_puts [(1, 2), (1, 3), (2, 3)] ([], \<lparr>alloc_subnet = demo_subnet, alloc_next_ip = 66\<rparr>) = Inr ms)
   \<and> alloc_puts [(1, 2), (1, 3), (2, 3), (1, 4)] ([], \<lparr>alloc_subnet = demo_subnet, alloc_next_ip = 66\<rparr>)
     = Inl (RuntimeError ''exceeded allocated backbone subnet'')"
  using link_capacity_exact [OF demo_subnet_ok(1,2,4), of "[(1, 2), (1, 3), (2, 3)]"]
    link_capacity_exact [OF demo_subnet_ok(1,2,4), of "[(1, 2), (1, 3), (2, 3), (1, 4)]"]
  by (simp add: demo_subnet_def pair_key_def)

end
