(* ===== verification/Strategy.thy ===== *)
theory Strategy
  imports Deployment
begin

text \<open>
  \<open>DeploymentStrategy.deploy\<close> (\<open>uno/registry/deployment_strategy/deployment_strategy.py\<close>) and the
  static strategy, which most strategies end in. The allocation map that \<open>deploy\<close> receives is an
  argument; the locale \<open>link_source\<close> states what is used of it. The contract of a strategy is
  \<open>deployment_wf\<close> and \<open>deployment_sym\<close>, collected in the locale \<open>backbone_strategy\<close>.
\<close>

section \<open>What a strategy generates\<close>

record strategy_ctx =
  sc_peers :: "peer list"
  sc_private :: "peer list"

definition public_peers :: "strategy_ctx \<Rightarrow> peer list" where
  "public_peers ctx = filter (\<lambda>p. p \<notin> set (sc_private ctx)) (sc_peers ctx)"

text \<open>The peer ids, the number of peers of the \<open>n\<close>-th one, and the generators of its peers.\<close>

type_synonym deployment = "peer list \<times> (nat \<Rightarrow> nat res) \<times> (nat \<Rightarrow> nat option res) list"

definition EMPTY_DEPLOYMENT :: deployment where
  "EMPTY_DEPLOYMENT = ([], \<lambda>_. Inl (TypeError ''NoneType''), [])"

text \<open>The inner comprehension of \<open>deploy\<close>: the links of one peer.\<close>

fun deploy_links ::
  "('s \<Rightarrow> peer \<Rightarrow> peer \<Rightarrow> (link_val \<times> 's) res) \<Rightarrow> deployment \<Rightarrow> peer \<Rightarrow> nat \<Rightarrow> nat list
   \<Rightarrow> (peer \<times> link) list \<Rightarrow> 's \<Rightarrow> ((peer \<times> link) list \<times> 's) res" where
  "deploy_links put d a n [] acc s = Inr (acc, s)"
| "deploy_links put (ids, cnt, conns) a n (i # is) acc s =
     rbind (nth_res conns i) (\<lambda>g.
     rbind (g n) (\<lambda>peer_b_n.
       case peer_b_n of
         None \<Rightarrow> deploy_links put (ids, cnt, conns) a n is acc s
       | Some bn \<Rightarrow>
           rbind (nth_res ids bn) (\<lambda>b.
           rbind (put s a b) (\<lambda>((addrs, net), s').
             deploy_links put (ids, cnt, conns) a n is
               (AList.update b (i, pick a b a addrs, pick a b b addrs, net) acc) s'))))"

fun deploy_peers ::
  "('s \<Rightarrow> peer \<Rightarrow> peer \<Rightarrow> (link_val \<times> 's) res) \<Rightarrow> deployment \<Rightarrow> (nat \<times> peer) list
   \<Rightarrow> links_map \<Rightarrow> 's \<Rightarrow> (links_map \<times> 's) res" where
  "deploy_peers put d [] acc s = Inr (acc, s)"
| "deploy_peers put d ((n, a) # rest) acc s =
     rbind (fst (snd d) n) (\<lambda>c.
     rbind (deploy_links put d a n [0..<c] [] s) (\<lambda>(ls, s').
       deploy_peers put d rest (AList.update a \<lparr>pd_n = n, pd_peers = ls\<rparr> acc) s'))"

definition deploy ::
  "(strategy_ctx \<Rightarrow> deployment res) \<Rightarrow> ('s \<Rightarrow> peer \<Rightarrow> peer \<Rightarrow> (link_val \<times> 's) res)
   \<Rightarrow> strategy_ctx \<Rightarrow> 's \<Rightarrow> (links_map \<times> 's) res" where
  "deploy generate put ctx network_map =
     rbind (if public_peers ctx \<noteq> [] then generate ctx else Inr EMPTY_DEPLOYMENT) (\<lambda>d.
       deploy_peers put d (enumerate 0 (fst d)) [] network_map)"

section \<open>Edges of a deployment\<close>

definition edge :: "deployment \<Rightarrow> nat \<Rightarrow> nat \<Rightarrow> nat \<Rightarrow> bool" where
  "edge d i n m \<longleftrightarrow>
     (\<exists>c. fst (snd d) n = Inr c \<and> i < c \<and> i < length (snd (snd d)) \<and> (snd (snd d) ! i) n = Inr (Some m))"

definition deployment_wf :: "deployment \<Rightarrow> bool" where
  "deployment_wf d \<longleftrightarrow> distinct (fst d) \<and>
     (\<forall>n < length (fst d). \<exists>c. fst (snd d) n = Inr c \<and> c \<le> length (snd (snd d)) \<and>
        (\<forall>i < c. \<exists>r. (snd (snd d) ! i) n = Inr r \<and> (\<forall>m. r = Some m \<longrightarrow> m < length (fst d) \<and> m \<noteq> n)))"

definition linked :: "deployment \<Rightarrow> nat \<Rightarrow> nat \<Rightarrow> bool" where
  "linked d n m \<longleftrightarrow> (\<exists>i. edge d i n m)"

definition deployment_sym :: "deployment \<Rightarrow> bool" where
  "deployment_sym d \<longleftrightarrow> (\<forall>n m. n < length (fst d) \<longrightarrow> linked d n m \<longrightarrow> linked d m n)"

lemma edge_bounds: "deployment_wf d \<Longrightarrow> n < length (fst d) \<Longrightarrow> edge d i n m \<Longrightarrow> m < length (fst d) \<and> m \<noteq> n"
  unfolding deployment_wf_def edge_def by fastforce

lemma empty_wf: "deployment_wf EMPTY_DEPLOYMENT" "deployment_sym EMPTY_DEPLOYMENT"
  by (simp_all add: deployment_wf_def deployment_sym_def EMPTY_DEPLOYMENT_def)

section \<open>The links of a deployment\<close>

text \<open>The value the two ends of a link must agree on.\<close>

definition link_from :: "peer \<Rightarrow> peer \<Rightarrow> nat \<Rightarrow> link_val \<Rightarrow> link" where
  "link_from a b i v = (i, pick a b a (fst v), pick a b b (fst v), snd v)"

text \<open>What the entry of the \<open>n\<close>-th peer \<open>a\<close> says: its links are its edges, and each holds the
  allocated value of the pair.\<close>

definition node_ok :: "deployment \<Rightarrow> (peer \<Rightarrow> peer \<Rightarrow> link_val option) \<Rightarrow> nat \<Rightarrow> peer \<Rightarrow> peer_deploy \<Rightarrow> bool" where
  "node_ok d lk n a p \<longleftrightarrow> pd_n p = n
     \<and> (\<forall>b. b \<in> fst ` set (pd_peers p) \<longleftrightarrow> (\<exists>i m. edge d i n m \<and> m < length (fst d) \<and> fst d ! m = b))
     \<and> (\<forall>b l. map_of (pd_peers p) b = Some l \<longrightarrow>
          (\<exists>i m v. edge d i n m \<and> m < length (fst d) \<and> fst d ! m = b
             \<and> l = link_from a b i v \<and> lk a b = Some v))"

lemma node_okD:
  "node_ok d lk n a p \<Longrightarrow> map_of (pd_peers p) b = Some l \<Longrightarrow>
    \<exists>i m v. edge d i n m \<and> m < length (fst d) \<and> fst d ! m = b \<and> l = link_from a b i v \<and> lk a b = Some v"
  unfolding node_ok_def by (elim conjE allE impE) (assumption+)

lemma node_ok_mono:
  "node_ok d lk n a p \<Longrightarrow> (\<And>c e w. lk c e = Some w \<Longrightarrow> lk' c e = Some w) \<Longrightarrow> node_ok d lk' n a p"
  unfolding node_ok_def by meson

lemma deploy_links_bound:
  "deploy_links put d a n is acc s = Inr r \<Longrightarrow> \<forall>i \<in> set is. i < length (snd (snd d))"
proof (induction "is" arbitrary: acc s)
  case (Cons i "is")
  obtain ids cnt conns where d: "d = (ids, cnt, conns)" by (cases d)
  from Cons.prems have "i < length conns" by (auto simp: d res_simps)
  moreover from Cons.prems obtain acc' s' where "deploy_links put d a n is acc' s' = Inr r"
    by (auto simp: d res_simps split: option.splits)
  ultimately show ?case using Cons.IH by (simp add: d)
qed simp

locale link_source = pair_store invar look put
  for invar :: "'s \<Rightarrow> bool"
    and look :: "'s \<Rightarrow> peer \<Rightarrow> peer \<Rightarrow> link_val option"
    and put :: "'s \<Rightarrow> peer \<Rightarrow> peer \<Rightarrow> (link_val \<times> 's) res"
begin

lemma deploy_links_spec:
  assumes "deploy_links put d a n is acc s = Inr (ls, s')" and "invar s"
  shows "invar s' \<and> (\<forall>c e w. look s c e = Some w \<longrightarrow> look s' c e = Some w)
    \<and> (\<forall>b. b \<in> fst ` set ls \<longleftrightarrow> b \<in> fst ` set acc
          \<or> (\<exists>i \<in> set is. \<exists>m. (snd (snd d) ! i) n = Inr (Some m) \<and> m < length (fst d) \<and> fst d ! m = b))
    \<and> (\<forall>b l. map_of ls b = Some l \<longrightarrow> map_of acc b = Some l
          \<or> (\<exists>i \<in> set is. \<exists>m v. i < length (snd (snd d)) \<and> (snd (snd d) ! i) n = Inr (Some m) \<and> m < length (fst d)
               \<and> fst d ! m = b \<and> l = link_from a b i v \<and> look s' a b = Some v))"
  using assms
proof (induction "is" arbitrary: acc s)
  case (Cons i "is")
  obtain ids cnt conns where d: "d = (ids, cnt, conns)" by (cases d)
  from Cons.prems(1) obtain r where i: "i < length conns" and r: "(conns ! i) n = Inr r"
    by (auto simp: d res_simps)
  show ?case
  proof (cases r)
    case None
    with Cons.prems Cons.IH [of acc s] i r show ?thesis by (simp add: d)
  next
    case (Some m)
    with Cons.prems(1) i r obtain addrs net s1 where m: "m < length ids"
      and p: "put s a (ids ! m) = Inr ((addrs, net), s1)"
      and rest: "deploy_links put d a n is (AList.update (ids ! m)
          (link_from a (ids ! m) i (addrs, net)) acc) s1 = Inr (ls, s')"
      by (auto simp: d res_simps link_from_def)
    have inv1: "invar s1" using put_invar [OF Cons.prems(2) p] .
    note IH = Cons.IH [OF rest inv1]
    have inv': "invar s'" using IH by (rule conjunct1)
    have keep: "look s' c e = Some w" if "look s1 c e = Some w" for c e w
      by (rule IH [THEN conjunct2, THEN conjunct1, rule_format, OF that])
    have keeps: "look s' c e = Some w" if "look s c e = Some w" for c e w
      by (rule keep [OF put_keeps [OF Cons.prems(2) p that]])
    have new: "look s' a (ids ! m) = Some (addrs, net)"
      by (rule keep [OF put_look [OF Cons.prems(2) p]])
    have dom: "b \<in> fst ` set ls \<longleftrightarrow> (b = ids ! m \<or> b \<in> fst ` set acc)
        \<or> (\<exists>j \<in> set is. \<exists>k. (conns ! j) n = Inr (Some k) \<and> k < length ids \<and> ids ! k = b)" for b
      using IH by (simp add: d del: split_paired_All split_paired_Ex)
    have val: "map_of acc b = Some l \<or> (b = ids ! m \<and> l = link_from a b i (addrs, net))
        \<or> (\<exists>j \<in> set is. \<exists>k v. j < length conns \<and> (conns ! j) n = Inr (Some k) \<and> k < length ids
             \<and> ids ! k = b \<and> l = link_from a b j v \<and> look s' a b = Some v)"
      if "map_of ls b = Some l" for b l
    proof (cases "map_of (AList.update (ids ! m) (link_from a (ids ! m) i (addrs, net)) acc) b = Some l")
      case True
      then show ?thesis by (simp split: if_splits)
    next
      case False
      with IH that show ?thesis by (simp add: d del: split_paired_All split_paired_Ex map_of_update) blast
    qed
    show ?thesis
    proof (intro conjI allI impI)
      show "invar s'" by (rule inv')
      show "look s' c e = Some w" if "look s c e = Some w" for c e w by (rule keeps [OF that])
      show "b \<in> fst ` set ls \<longleftrightarrow> b \<in> fst ` set acc
          \<or> (\<exists>i \<in> set (i # is). \<exists>m. (snd (snd d) ! i) n = Inr (Some m) \<and> m < length (fst d) \<and> fst d ! m = b)" for b
        using dom [of b] r Some m by (auto simp add: d)
      show "map_of acc b = Some l
          \<or> (\<exists>i \<in> set (i # is). \<exists>m v. i < length (snd (snd d)) \<and> (snd (snd d) ! i) n = Inr (Some m) \<and> m < length (fst d)
               \<and> fst d ! m = b \<and> l = link_from a b i v \<and> look s' a b = Some v)" if "map_of ls b = Some l" for b l
        using val [OF that] i r Some m new by (simp add: d del: split_paired_All split_paired_Ex) blast
    qed
  qed
qed auto

lemma deploy_links_node:
  assumes ls: "deploy_links put d a n [0..<c] [] s = Inr (ls, s')" and inv: "invar s"
    and c: "fst (snd d) n = Inr c"
  shows "node_ok d (look s') n a \<lparr>pd_n = n, pd_peers = ls\<rparr>"
proof -
  note L = deploy_links_spec [OF ls inv]
  have edge: "edge d i n m \<longleftrightarrow> i \<in> set [0..<c] \<and> (snd (snd d) ! i) n = Inr (Some m)" for i m
    using c deploy_links_bound [OF ls] by (auto simp: edge_def)
  have "b \<in> fst ` set ls \<longleftrightarrow> (\<exists>i m. edge d i n m \<and> m < length (fst d) \<and> fst d ! m = b)" for b
    unfolding edge using L [THEN conjunct2, THEN conjunct2, THEN conjunct1, rule_format, of b] by auto
  moreover have "\<exists>i m v. edge d i n m \<and> m < length (fst d) \<and> fst d ! m = b
      \<and> l = link_from a b i v \<and> look s' a b = Some v" if "map_of ls b = Some l" for b l
    unfolding edge
    using L [THEN conjunct2, THEN conjunct2, THEN conjunct2, rule_format, OF that]
    by (auto simp del: split_paired_Ex)
  ultimately show ?thesis by (simp add: node_ok_def del: split_paired_All split_paired_Ex)
qed

lemma deploy_peers_spec:
  assumes "deploy_peers put d ps acc s = Inr (lm, s')" and "invar s" and "distinct (map snd ps)"
  shows "invar s' \<and> (\<forall>c e w. look s c e = Some w \<longrightarrow> look s' c e = Some w)
    \<and> fst ` set lm = fst ` set acc \<union> snd ` set ps
    \<and> (\<forall>a. a \<notin> snd ` set ps \<longrightarrow> map_of lm a = map_of acc a)
    \<and> (\<forall>(n, a) \<in> set ps. \<exists>p. map_of lm a = Some p \<and> node_ok d (look s') n a p)"
  using assms
proof (induction ps arbitrary: acc s)
  case (Cons na ps)
  obtain n a where na: "na = (n, a)" by (cases na)
  from Cons.prems(1) obtain c ls s1 where c: "fst (snd d) n = Inr c"
    and ls: "deploy_links put d a n [0..<c] [] s = Inr (ls, s1)"
    and rest: "deploy_peers put d ps (AList.update a \<lparr>pd_n = n, pd_peers = ls\<rparr> acc) s1 = Inr (lm, s')"
    by (auto simp: na res_simps)
  note L = deploy_links_spec [OF ls Cons.prems(2)]
  have dist: "distinct (map snd ps)" and a_new: "a \<notin> snd ` set ps"
    using Cons.prems(3) by (auto simp: na)
  note IH = Cons.IH [OF rest conjunct1 [OF L] dist]
  have keep1: "look s' x y = Some w" if "look s1 x y = Some w" for x y w
    by (rule IH [THEN conjunct2, THEN conjunct1, rule_format, OF that])
  have keep0: "look s' x y = Some w" if "look s x y = Some w" for x y w
    by (rule keep1 [OF L [THEN conjunct2, THEN conjunct1, rule_format, OF that]])
  have "map_of lm a = Some \<lparr>pd_n = n, pd_peers = ls\<rparr>"
    using IH a_new by (simp del: split_paired_All)
  moreover have "node_ok d (look s') n a \<lparr>pd_n = n, pd_peers = ls\<rparr>"
    by (rule node_ok_mono [OF deploy_links_node [OF ls Cons.prems(2) c] keep1])
  ultimately have base: "\<exists>p. map_of lm a = Some p \<and> node_ok d (look s') n a p" by blast
  show ?case
  proof (intro conjI)
    show "invar s'" using IH by (rule conjunct1)
    show "\<forall>c e w. look s c e = Some w \<longrightarrow> look s' c e = Some w"
      by (intro allI impI) (rule keep0)
    show "fst ` set lm = fst ` set acc \<union> snd ` set (na # ps)" using IH by (simp add: na del: split_paired_All)
    show "\<forall>x. x \<notin> snd ` set (na # ps) \<longrightarrow> map_of lm x = map_of acc x"
      using IH by (simp add: na del: split_paired_All)
    show "\<forall>(n, a) \<in> set (na # ps). \<exists>p. map_of lm a = Some p \<and> node_ok d (look s') n a p"
      using IH base by (simp add: na del: split_paired_All split_paired_Ex)
  qed
qed auto

text \<open>The summary the properties use: the keys of the deployed map are the ids, its links are the
  edges, and both ends of a link read the same allocated value.\<close>

lemma deploy_peers_summary:
  assumes dep: "deploy_peers put d (enumerate 0 (fst d)) [] s = Inr (lm, s')"
    and inv: "invar s" and wf: "deployment_wf d"
  shows "invar s'" and "fst ` set lm = set (fst d)"
    and "n < length (fst d) \<Longrightarrow> m < length (fst d) \<Longrightarrow>
      link_of lm (fst d ! n) (fst d ! m) \<noteq> None \<longleftrightarrow> linked d n m"
    and "link_of lm a b = Some l \<Longrightarrow>
      \<exists>i n m v. edge d i n m \<and> n < length (fst d) \<and> m < length (fst d) \<and> fst d ! n = a \<and> fst d ! m = b
        \<and> l = link_from a b i v \<and> look s' a b = Some v"
proof -
  have ids: "distinct (fst d)" using wf by (simp add: deployment_wf_def)
  then have "distinct (map snd (enumerate 0 (fst d)))" by simp
  note S = deploy_peers_spec [OF dep inv this]
  show "invar s'" using S by (rule conjunct1)
  show keys: "fst ` set lm = set (fst d)"
    using S by (simp add: enumerate_eq_zip flip: set_map del: split_paired_All)
  have at: "\<exists>p. map_of lm (fst d ! n) = Some p \<and> node_ok d (look s') n (fst d ! n) p"
    if "n < length (fst d)" for n
  proof -
    have "(n, fst d ! n) \<in> set (enumerate 0 (fst d))" using that by (simp add: in_set_enumerate_eq)
    with S show ?thesis by (elim conjE) (drule (1) bspec, simp)
  qed
  show "link_of lm (fst d ! n) (fst d ! m) \<noteq> None \<longleftrightarrow> linked d n m"
    if "n < length (fst d)" and "m < length (fst d)"
  proof -
    from at [OF that(1)] obtain p where p: "map_of lm (fst d ! n) = Some p"
      and ok: "node_ok d (look s') n (fst d ! n) p" by blast
    have "link_of lm (fst d ! n) (fst d ! m) \<noteq> None \<longleftrightarrow> fst d ! m \<in> fst ` set (pd_peers p)"
      unfolding link_of_def p bind.simps map_of_eq_None_iff by (rule not_not)
    also have "\<dots> \<longleftrightarrow> (\<exists>i k. edge d i n k \<and> k < length (fst d) \<and> fst d ! k = fst d ! m)"
      using ok unfolding node_ok_def by blast
    also have "\<dots> \<longleftrightarrow> linked d n m"
      using that ids by (auto simp: linked_def nth_eq_iff_index_eq)
    finally show ?thesis .
  qed
  show "\<exists>i n m v. edge d i n m \<and> n < length (fst d) \<and> m < length (fst d) \<and> fst d ! n = a \<and> fst d ! m = b
        \<and> l = link_from a b i v \<and> look s' a b = Some v"
    if l: "link_of lm a b = Some l"
  proof -
    from l obtain p where p: "map_of lm a = Some p" "map_of (pd_peers p) b = Some l"
      unfolding link_of_def by (meson bind_eq_Some_conv)
    from map_of_SomeD [OF p(1)] have "a \<in> fst ` set lm" by force
    then obtain n where n: "n < length (fst d)" "fst d ! n = a" by (metis in_set_conv_nth keys)
    from at [OF n(1)] p n(2) have "node_ok d (look s') n a p" by simp
    from node_okD [OF this p(2)] obtain i m v where
      e: "edge d i n m" "m < length (fst d)" "fst d ! m = b" "l = link_from a b i v" "look s' a b = Some v"
      by (elim exE conjE)
    show ?thesis by (intro exI conjI) (fact e(1) n(1) e(2) n(2) e(3) e(4) e(5))+
  qed
qed

end

interpretation alloc_link: link_source "\<lambda>ms. pmap_ok (fst ms)" pm_look alloc_put
  by unfold_locales

section \<open>The static strategy\<close>

type_synonym static_deployment = "(peer \<times> peer list) list"

text \<open>\<open>_peer_generator\<close>: an unknown peer index and an unknown peer id give no link, but a port past
  the end of the peer's tuple raises.\<close>

definition static_peer_generator :: "static_deployment \<Rightarrow> nat \<Rightarrow> nat \<Rightarrow> nat option res" where
  "static_peer_generator sd peer_b_i peer_a_i =
     (case nth_res sd peer_a_i of
        Inl _ \<Rightarrow> Inr None
      | Inr (_, static_peers) \<Rightarrow>
          rbind (nth_res static_peers peer_b_i) (\<lambda>r. Inr (index_of r (map fst sd))))"

definition static_generate :: "static_deployment \<Rightarrow> deployment" where
  "static_generate sd =
     (if sd = [] then EMPTY_DEPLOYMENT
      else (let cell_peers_count = (\<lambda>n. rbind (nth_res sd n) (\<lambda>(_, ps). Inr (length ps)));
                max_peers_count = Max (insert 0 (set (map (length \<circ> snd) sd)))
            in (map fst sd, cell_peers_count,
                map (static_peer_generator sd) [0..<max_peers_count])))"

text \<open>What a strategy promises of the table it hands to the static one.\<close>

definition sd_rel :: "static_deployment \<Rightarrow> (peer \<times> peer) set" where
  "sd_rel sd = {(a, b). \<exists>ps. map_of sd a = Some ps \<and> b \<in> set ps}"

definition sd_ok :: "static_deployment \<Rightarrow> bool" where
  "sd_ok sd \<longleftrightarrow> distinct (map fst sd) \<and> sym (sd_rel sd) \<and> irrefl (sd_rel sd)"

lemma static_fst [simp]: "fst (static_generate sd) = map fst sd"
  by (simp add: static_generate_def EMPTY_DEPLOYMENT_def Let_def)

lemma static_conns:
  assumes n: "n < length sd" and i: "i < length (snd (sd ! n))"
  shows "i < length (snd (snd (static_generate sd)))"
    and "(snd (snd (static_generate sd)) ! i) n = Inr (index_of (snd (sd ! n) ! i) (map fst sd))"
proof -
  have "length (snd (sd ! n)) \<le> Max (insert 0 (set (map (length \<circ> snd) sd)))"
    using n by (intro Max_ge) (auto simp: image_iff intro!: bexI [of _ "sd ! n"])
  with i have i': "i < Max (insert 0 (set (map (length \<circ> snd) sd)))" by simp
  with n show "i < length (snd (snd (static_generate sd)))"
    by (auto simp: static_generate_def Let_def)
  have "static_peer_generator sd i n = Inr (index_of (snd (sd ! n) ! i) (map fst sd))"
    using n i by (simp add: static_peer_generator_def case_prod_beta)
  then show "(snd (snd (static_generate sd)) ! i) n = Inr (index_of (snd (sd ! n) ! i) (map fst sd))"
    using n i' by (auto simp: static_generate_def Let_def)
qed

lemma static_cnt: "n < length sd \<Longrightarrow> fst (snd (static_generate sd)) n = Inr (length (snd (sd ! n)))"
  by (auto simp: static_generate_def Let_def case_prod_beta)

lemma map_of_nth_keys: "distinct (map fst d) \<Longrightarrow> n < length d \<Longrightarrow> map_of d (fst (d ! n)) = Some (snd (d ! n))"
  by (simp add: map_of_is_SomeI)

lemma static_edge:
  assumes "distinct (map fst sd)" and "n < length sd"
  shows "edge (static_generate sd) i n m \<longleftrightarrow>
    i < length (snd (sd ! n)) \<and> m < length sd \<and> snd (sd ! n) ! i = fst (sd ! m)"
proof -
  have "index_of (snd (sd ! n) ! i) (map fst sd) = Some m \<longleftrightarrow> m < length sd \<and> snd (sd ! n) ! i = fst (sd ! m)"
    (is "?l \<longleftrightarrow> ?r")
  proof
    assume ?l
    from index_of_Some [OF this] show ?r by (metis length_map nth_map)
  next
    assume ?r
    with index_of_nth [OF assms(1), of m] show ?l by simp
  qed
  then show ?thesis
    using assms(2) static_cnt [OF assms(2)] static_conns [OF assms(2)] by (auto simp: edge_def)
qed

lemma sd_rel_nth:
  "distinct (map fst sd) \<Longrightarrow> n < length sd \<Longrightarrow> (fst (sd ! n), b) \<in> sd_rel sd \<longleftrightarrow> b \<in> set (snd (sd ! n))"
  unfolding sd_rel_def mem_Collect_eq case_prod_conv map_of_nth_keys by simp

lemma static_linked:
  assumes "distinct (map fst sd)" and "n < length sd" and "m < length sd"
  shows "linked (static_generate sd) n m \<longleftrightarrow> (fst (sd ! n), fst (sd ! m)) \<in> sd_rel sd"
  using assms by (auto simp: linked_def static_edge sd_rel_nth in_set_conv_nth)

lemma static_generate_ok:
  assumes "sd_ok sd"
  shows "deployment_wf (static_generate sd)" and "deployment_sym (static_generate sd)"
proof -
  have d: "distinct (map fst sd)" using assms by (simp add: sd_ok_def)
  have len: "length (snd (sd ! n)) \<le> length (snd (snd (static_generate sd)))" if "n < length sd" for n
    using static_conns(1) [OF that] by (meson linorder_not_le less_irrefl)
  show "deployment_wf (static_generate sd)"
    unfolding deployment_wf_def
  proof (intro conjI allI impI)
    show "distinct (fst (static_generate sd))" using d by simp
  next
    fix n assume "n < length (fst (static_generate sd))"
    then have n: "n < length sd" by simp
    have "m < length sd \<and> m \<noteq> n" if i: "i < length (snd (sd ! n))"
      and m: "index_of (snd (sd ! n) ! i) (map fst sd) = Some m" for i m
    proof -
      have "(fst (sd ! n), snd (sd ! n) ! i) \<in> sd_rel sd"
        using i n d by (simp add: sd_rel_nth)
      then have "fst (sd ! n) \<noteq> snd (sd ! n) ! i" using assms by (auto simp: sd_ok_def irrefl_def)
      with index_of_Some [OF m] show ?thesis by auto
    qed
    then show "\<exists>c. fst (snd (static_generate sd)) n = Inr c \<and> c \<le> length (snd (snd (static_generate sd))) \<and>
        (\<forall>i < c. \<exists>r. (snd (snd (static_generate sd)) ! i) n = Inr r \<and>
          (\<forall>m. r = Some m \<longrightarrow> m < length (fst (static_generate sd)) \<and> m \<noteq> n))"
      using n static_cnt [OF n] static_conns(2) [OF n] len [OF n] by auto
  qed
  show "deployment_sym (static_generate sd)"
    unfolding deployment_sym_def
  proof (intro allI impI)
    fix n m assume "n < length (fst (static_generate sd))" and nm: "linked (static_generate sd) n m"
    then have n: "n < length sd" by simp
    from nm have m: "m < length sd" using static_edge [OF d n] by (auto simp: linked_def)
    show "linked (static_generate sd) m n"
      using nm assms unfolding static_linked [OF d n m] static_linked [OF d m n]
      by (auto simp: sd_ok_def dest: symD)
  qed
qed

text \<open>\<open>INITIAL_STATIC_DEPLOYMENT\<close> reads \<open>args\<close> when the strategy object is built, and \<open>deploy\<close> sets
  \<open>args\<close> afterwards: the object keeps the table of its first arguments.\<close>

record static_strategy =
  ss_args :: "static_deployment option"
  ss_static_deployment :: static_deployment

definition static_init :: "static_deployment option \<Rightarrow> static_strategy" where
  "static_init args =
     \<lparr>ss_args = args, ss_static_deployment = (case args of None \<Rightarrow> [] | Some peers_map \<Rightarrow> peers_map)\<rparr>"

definition static_deploy ::
  "static_strategy \<Rightarrow> ('s \<Rightarrow> peer \<Rightarrow> peer \<Rightarrow> (link_val \<times> 's) res)
   \<Rightarrow> strategy_ctx \<Rightarrow> static_deployment option \<Rightarrow> 's \<Rightarrow> (static_strategy \<times> links_map \<times> 's) res" where
  "static_deploy self put ctx args network_map =
     (let self' = self\<lparr>ss_args := args\<rparr> in
      rbind (deploy (\<lambda>_. Inr (static_generate (ss_static_deployment self'))) put ctx network_map)
        (\<lambda>r. Inr (self', r)))"

section \<open>The contract of a strategy\<close>

definition private_ok :: "strategy_ctx \<Rightarrow> deployment \<Rightarrow> bool" where
  "private_ok ctx d \<longleftrightarrow>
     (\<forall>n < length (fst d). \<forall>m < length (fst d). linked d n m \<longrightarrow>
        fst d ! n \<notin> set (sc_private ctx) \<or> fst d ! m \<notin> set (sc_private ctx))"

definition ctx_ok :: "strategy_ctx \<Rightarrow> bool" where
  "ctx_ok ctx \<longleftrightarrow> distinct (sc_peers ctx) \<and> distinct (sc_private ctx)
     \<and> set (sc_private ctx) \<subseteq> set (sc_peers ctx) \<and> public_peers ctx \<noteq> []"

text \<open>The random choices of a strategy: two shuffles, the order in which a set is listed, and the
  stream of samples. Only that the first three permute their list is used.\<close>

record rnd =
  shuffle_public :: "peer list \<Rightarrow> peer list"
  shuffle_private :: "peer list \<Rightarrow> peer list"
  iter_set :: "peer list \<Rightarrow> peer list"
  rnd_sample :: "nat \<Rightarrow> nat"

definition rnd_ok :: "rnd \<Rightarrow> bool" where
  "rnd_ok r \<longleftrightarrow> (\<forall>xs. mset (shuffle_public r xs) = mset xs \<and> mset (shuffle_private r xs) = mset xs
     \<and> mset (iter_set r xs) = mset xs)"

locale backbone_strategy =
  fixes generate :: "rnd \<Rightarrow> strategy_ctx \<Rightarrow> deployment res"
  assumes gen_wf: "rnd_ok r \<Longrightarrow> ctx_ok ctx \<Longrightarrow> generate r ctx = Inr d \<Longrightarrow> deployment_wf d"
    and gen_sym: "rnd_ok r \<Longrightarrow> ctx_ok ctx \<Longrightarrow> generate r ctx = Inr d \<Longrightarrow> deployment_sym d"
    and gen_ids: "rnd_ok r \<Longrightarrow> ctx_ok ctx \<Longrightarrow> generate r ctx = Inr d \<Longrightarrow> set (fst d) = set (sc_peers ctx)"
    and gen_private: "rnd_ok r \<Longrightarrow> ctx_ok ctx \<Longrightarrow> generate r ctx = Inr d \<Longrightarrow> private_ok ctx d"
begin

text \<open>The deployed links: every peer is there, and the two ends of a link carry the same network
  with the two addresses swapped.\<close>

lemma deploy_mirror:
  assumes dep: "deploy (generate r) alloc_put ctx s = Inr (lm, s')"
    and r: "rnd_ok r" and ctx: "ctx_ok ctx" and inv: "pmap_ok (fst s)"
  shows "fst ` set lm = set (sc_peers ctx)"
    and "link_of lm a b = Some (i, x, y, net) \<Longrightarrow> \<exists>j. link_of lm b a = Some (j, y, x, net)"
    and "link_of lm a b = Some (i, x, y, net) \<Longrightarrow>
      a \<in> set (sc_peers ctx) \<and> b \<in> set (sc_peers ctx) \<and> a \<noteq> b
      \<and> (a \<notin> set (sc_private ctx) \<or> b \<notin> set (sc_private ctx))
      \<and> (\<exists>v. pm_look s' a b = Some v \<and> x = pick a b a (fst v) \<and> y = pick a b b (fst v) \<and> net = snd v)"
proof -
  from dep ctx obtain d where gen: "generate r ctx = Inr d"
    and dp: "deploy_peers alloc_put d (enumerate 0 (fst d)) [] s = Inr (lm, s')"
    by (auto simp: deploy_def ctx_ok_def res_simps)
  have wf: "deployment_wf d" by (rule gen_wf [OF r ctx gen])
  note S = alloc_link.deploy_peers_summary [OF dp inv wf]
  note ids = gen_ids [OF r ctx gen]
  show "fst ` set lm = set (sc_peers ctx)" using S(2) ids by simp
  show "\<exists>j. link_of lm b a = Some (j, y, x, net)" if l: "link_of lm a b = Some (i, x, y, net)"
  proof -
    from S(4) [OF l] obtain i n m v where e: "edge d i n m" "n < length (fst d)" "m < length (fst d)"
      "fst d ! n = a" "fst d ! m = b" and v: "(i, x, y, net) = link_from a b i v" "pm_look s' a b = Some v"
      by (auto simp: link_from_def)
    have "linked d m n" using e gen_sym [OF r ctx gen] by (auto simp: deployment_sym_def linked_def)
    then have "link_of lm b a \<noteq> None" using S(3) [OF e(3,2)] e(4,5) by simp
    then obtain l' where l': "link_of lm b a = Some l'" by blast
    from S(4) [OF l'] obtain j w where "l' = link_from b a j w" "pm_look s' b a = Some w" by blast
    moreover have "w = v" using v(2) \<open>pm_look s' b a = Some w\<close> by (simp add: pm.look_commute [of s' b a])
    ultimately show ?thesis using l' v(1) by (auto simp: link_from_def pick_commute)
  qed
  show "a \<in> set (sc_peers ctx) \<and> b \<in> set (sc_peers ctx) \<and> a \<noteq> b
      \<and> (a \<notin> set (sc_private ctx) \<or> b \<notin> set (sc_private ctx))
      \<and> (\<exists>v. pm_look s' a b = Some v \<and> x = pick a b a (fst v) \<and> y = pick a b b (fst v) \<and> net = snd v)"
    if l: "link_of lm a b = Some (i, x, y, net)"
  proof -
    from S(4) [OF l] obtain i n m v where e: "edge d i n m" "n < length (fst d)" "m < length (fst d)"
      "fst d ! n = a" "fst d ! m = b" and v: "(i, x, y, net) = link_from a b i v" "pm_look s' a b = Some v"
      by (auto simp: link_from_def)
    have "linked d n m" using e(1) by (auto simp: linked_def)
    then have "a \<notin> set (sc_private ctx) \<or> b \<notin> set (sc_private ctx)"
      using gen_private [OF r ctx gen] e by (auto simp: private_ok_def)
    moreover have "a \<noteq> b"
      using edge_bounds [OF wf e(2,1)] e wf by (auto simp: deployment_wf_def nth_eq_iff_index_eq)
    moreover have "a \<in> set (sc_peers ctx)" "b \<in> set (sc_peers ctx)"
      using e ids nth_mem by fastforce+
    ultimately show ?thesis using v by (auto simp: link_from_def)
  qed
qed

end

text \<open>A strategy that ends in the static one satisfies the contract when its table does.\<close>

lemma static_private_ok:
  assumes "sd_ok sd" and "\<And>a b. (a, b) \<in> sd_rel sd \<Longrightarrow> a \<notin> set (sc_private ctx) \<or> b \<notin> set (sc_private ctx)"
  shows "private_ok ctx (static_generate sd)"
  using assms by (auto simp: private_ok_def static_linked sd_ok_def)

end
