(* ===== verification/Strategy_Crossed.thy ===== *)
theory Strategy_Crossed
  imports Strategy
begin

text \<open>
  The strategies that compute a graph and hand it to the static one: crossed and circular
  (\<open>crossed_deployment_strategy.py\<close>, \<open>circular_deployment_strategy.py\<close>) and full mesh
  (\<open>fullmesh_deployment_strategy.py\<close>). The random choices are the argument \<open>rnd\<close>.
\<close>

section \<open>Neighbours on a circle\<close>

definition peer_right :: "nat \<Rightarrow> nat \<Rightarrow> nat res" where
  "peer_right peer_i peer_count =
     rbind (require (peer_i < peer_count) AssertionError) (\<lambda>_. Inr ((peer_i + 1) mod peer_count))"

definition peer_left :: "nat \<Rightarrow> nat \<Rightarrow> nat res" where
  "peer_left peer_i peer_count =
     rbind (require (peer_i < peer_count) AssertionError) (\<lambda>_.
       if peer_i = 0 then Inr (peer_count - 1) else Inr (peer_i - 1))"

definition peer_across :: "nat \<Rightarrow> nat \<Rightarrow> nat" where
  "peer_across peer_i peer_count =
     (let offset = peer_count div 2 in
      if int peer_i \<le> int offset - 1 then (peer_i + offset) mod peer_count else peer_i - offset)"

definition crossed_count :: "nat \<Rightarrow> nat \<Rightarrow> nat res" where
  "crossed_count peer_count cell_i =
     rbind (require (2 \<le> peer_count) AssertionError) (\<lambda>_.
       if peer_count = 2 then Inr 1
       else if peer_count = 3 then Inr 2
       else if \<not> peer_count mod 2 > 0 \<or> \<not> cell_i + 1 = peer_count then Inr 3
       else Inr 2)"

definition crossed_all_public :: "rnd \<Rightarrow> peer list \<Rightarrow> deployment" where
  "crossed_all_public r public =
     (let peer_count = length public
      in (shuffle_public r public, crossed_count peer_count,
          [\<lambda>i. rbind (peer_left i peer_count) (Inr \<circ> Some),
           \<lambda>i. rbind (peer_right i peer_count) (Inr \<circ> Some),
           \<lambda>i. Inr (Some (peer_across i peer_count))]))"

definition circular_count :: "nat \<Rightarrow> nat \<Rightarrow> nat res" where
  "circular_count peer_count cell_i =
     rbind (require (2 \<le> peer_count) AssertionError) (\<lambda>_.
       if peer_count = 2 then Inr 1 else Inr 2)"

definition circular_all_public :: "rnd \<Rightarrow> peer list \<Rightarrow> deployment" where
  "circular_all_public r public =
     (let peer_count = length public
      in (shuffle_public r public, circular_count peer_count,
          [\<lambda>i. rbind (peer_left i peer_count) (Inr \<circ> Some),
           \<lambda>i. rbind (peer_right i peer_count) (Inr \<circ> Some)]))"

subsection \<open>The graph of the public peers is symmetric\<close>

lemma left_right:
  assumes "i < n"
  shows "peer_left i n = Inr j \<longleftrightarrow> j < n \<and> peer_right j n = Inr i"
  using assms by (auto simp: peer_left_def peer_right_def res_simps mod_Suc split: if_splits)

lemma across_bounds: "i < n \<Longrightarrow> 2 \<le> n \<Longrightarrow> peer_across i n < n \<and> peer_across i n \<noteq> i"
  by (auto simp: peer_across_def Let_def)

lemma across_involutive:
  assumes "i < n" and "4 \<le> n" and "even n \<or> i + 1 \<noteq> n"
  shows "peer_across (peer_across i n) n = i" and "even n \<or> peer_across i n + 1 \<noteq> n"
proof -
  have h: "n = 2 * (n div 2) \<or> n = 2 * (n div 2) + 1" by presburger
  show "peer_across (peer_across i n) n = i" and "even n \<or> peer_across i n + 1 \<noteq> n"
    using assms h by (auto simp: peer_across_def Let_def)
qed

text \<open>The neighbours by case of the number of peers.\<close>

definition ring_edge :: "nat \<Rightarrow> nat \<Rightarrow> nat \<Rightarrow> bool" where
  "ring_edge n i j \<longleftrightarrow> i < n \<and> j < n \<and> (peer_left i n = Inr j \<or> peer_right i n = Inr j)"

lemma ring_sym: "ring_edge n i j \<Longrightarrow> ring_edge n j i"
  unfolding ring_edge_def using left_right by blast

lemma ring_irrefl: "2 \<le> n \<Longrightarrow> \<not> ring_edge n i i"
  by (auto simp: ring_edge_def peer_left_def peer_right_def mod_Suc split: if_splits)

lemma all_public_simps:
  "fst (crossed_all_public r ps) = shuffle_public r ps"
  "fst (snd (crossed_all_public r ps)) = crossed_count (length ps)"
  "length (snd (snd (crossed_all_public r ps))) = 3"
  "fst (circular_all_public r ps) = shuffle_public r ps"
  "fst (snd (circular_all_public r ps)) = circular_count (length ps)"
  "length (snd (snd (circular_all_public r ps))) = 2"
  by (simp_all add: crossed_all_public_def circular_all_public_def Let_def)

lemma less_3_cases: "(i :: nat) < 3 \<longleftrightarrow> i = 0 \<or> i = 1 \<or> i = 2"
  by auto

lemma less_2_cases_or: "(i :: nat) < 2 \<longleftrightarrow> i = 0 \<or> i = 1"
  by auto

lemma left_total: "i < n \<Longrightarrow> \<exists>j < n. peer_left i n = Inr j"
  by (auto simp: peer_left_def)

lemma right_total: "i < n \<Longrightarrow> \<exists>j < n. peer_right i n = Inr j"
  by (simp add: peer_right_def)

lemma ring_two: "n = 2 \<Longrightarrow> i < n \<Longrightarrow> peer_left i n = Inr j \<longleftrightarrow> ring_edge n i j"
  by (auto simp: ring_edge_def peer_left_def peer_right_def less_2_cases_or split: if_splits)

lemma circular_linked:
  assumes "2 \<le> length ps" and "i < length ps"
  shows "linked (circular_all_public r ps) i j \<longleftrightarrow> ring_edge (length ps) i j"
proof -
  have b: "j < length ps" if "peer_left i (length ps) = Inr j \<or> peer_right i (length ps) = Inr j" for j
    using that left_total [OF assms(2)] right_total [OF assms(2)] by auto
  show ?thesis
  proof (cases "length ps = 2")
    case True
    then show ?thesis using ring_two [OF True assms(2), of j] assms
      by (auto simp: linked_def edge_def Let_def circular_count_def circular_all_public_def res_simps)
  next
    case False
    then show ?thesis using assms b
      by (auto simp: linked_def edge_def Let_def circular_count_def circular_all_public_def
          less_2_cases_or ring_edge_def res_simps)
  qed
qed

lemma crossed_linked:
  assumes "2 \<le> length ps" and "i < length ps"
  shows "linked (crossed_all_public r ps) i j \<longleftrightarrow> ring_edge (length ps) i j
    \<or> (4 \<le> length ps \<and> (even (length ps) \<or> i + 1 \<noteq> length ps) \<and> peer_across i (length ps) = j)"
proof -
  have b: "j < length ps" if "peer_left i (length ps) = Inr j \<or> peer_right i (length ps) = Inr j" for j
    using that left_total [OF assms(2)] right_total [OF assms(2)] by auto
  consider "length ps = 2" | "length ps = 3" | "4 \<le> length ps" "even (length ps) \<or> i + 1 \<noteq> length ps"
    | "4 \<le> length ps" "odd (length ps)" "i + 1 = length ps"
    using assms by linarith
  then show ?thesis
  proof cases
    case 1
    then show ?thesis using ring_two [OF 1 assms(2), of j] assms
      by (auto simp: linked_def edge_def Let_def crossed_count_def crossed_all_public_def res_simps)
  next
    case 2
    then show ?thesis using assms b
      by (auto simp: linked_def edge_def Let_def crossed_count_def crossed_all_public_def
          less_2_cases_or ring_edge_def res_simps)
  next
    case 3
    then have "crossed_count (length ps) i = Inr 3" by (auto simp: crossed_count_def even_iff_mod_2_eq_zero)
    then show ?thesis using assms b 3
      by (auto simp: linked_def edge_def Let_def crossed_all_public_def
          less_3_cases ring_edge_def res_simps)
  next
    case 4
    then have "crossed_count (length ps) i = Inr 2" by (auto simp: crossed_count_def odd_iff_mod_2_eq_one)
    then show ?thesis using assms b 4
      by (auto simp: linked_def edge_def Let_def crossed_all_public_def
          less_2_cases_or ring_edge_def res_simps)
  qed
qed

text \<open>What the private-peer placement uses of the two graphs.\<close>

definition public_graph_ok :: "(peer list \<Rightarrow> deployment) \<Rightarrow> bool" where
  "public_graph_ok f \<longleftrightarrow> (\<forall>ps. 2 \<le> length ps \<longrightarrow> distinct ps \<longrightarrow>
     mset (fst (f ps)) = mset ps \<and> deployment_wf (f ps) \<and> deployment_sym (f ps)
     \<and> (\<forall>n < length ps. \<exists>c. fst (snd (f ps)) n = Inr c \<and> 0 < c \<and> c \<le> 3)
     \<and> (\<forall>n < length ps. \<exists>m. edge (f ps) 0 n m))"

lemma shuffle_length: "rnd_ok r \<Longrightarrow> length (shuffle_public r ps) = length ps"
  using mset_eq_length by (auto simp: rnd_ok_def)

lemma shuffle_distinct: "rnd_ok r \<Longrightarrow> distinct (shuffle_public r ps) = distinct ps"
  using mset_eq_imp_distinct_iff by (auto simp: rnd_ok_def)

lemma left_next: "i < n \<Longrightarrow> 2 \<le> n \<Longrightarrow> peer_left i n = Inr j \<Longrightarrow> j < n \<and> j \<noteq> i"
  by (auto simp: peer_left_def split: if_splits)

lemma right_next: "i < n \<Longrightarrow> 2 \<le> n \<Longrightarrow> peer_right i n = Inr j \<Longrightarrow> j < n \<and> j \<noteq> i"
  by (auto simp: peer_right_def mod_Suc split: if_splits)

lemma circular_public_ok: "rnd_ok r \<Longrightarrow> public_graph_ok (circular_all_public r)"
  unfolding public_graph_ok_def
proof (intro allI impI conjI)
  fix ps :: "peer list" assume r: "rnd_ok r" and n: "2 \<le> length ps" and d: "distinct ps"
  show "mset (fst (circular_all_public r ps)) = mset ps"
    using r by (simp add: all_public_simps rnd_ok_def)
  show "deployment_sym (circular_all_public r ps)"
    unfolding deployment_sym_def all_public_simps shuffle_length [OF r]
    using circular_linked [OF n] ring_sym unfolding ring_edge_def by blast
  show "\<exists>c. fst (snd (circular_all_public r ps)) i = Inr c \<and> 0 < c \<and> c \<le> 3" for i
    using n by (simp add: all_public_simps circular_count_def)
  show "\<exists>m. edge (circular_all_public r ps) 0 i m" if "i < length ps" for i
    using n left_total [OF that]
    by (auto simp: edge_def circular_all_public_def circular_count_def Let_def)
  show "deployment_wf (circular_all_public r ps)"
    unfolding deployment_wf_def all_public_simps shuffle_length [OF r] shuffle_distinct [OF r]
  proof (intro conjI d allI impI)
    fix i assume i: "i < length ps"
    have *: "\<exists>v. (snd (snd (circular_all_public r ps)) ! k) i = Inr v \<and> (\<forall>m. v = Some m \<longrightarrow> m < length ps \<and> m \<noteq> i)"
      if "k < 2" for k
      using that left_total [OF i] right_total [OF i] left_next [OF i n] right_next [OF i n]
      by (auto simp: circular_all_public_def Let_def less_2_cases_or)
    have "\<exists>c. circular_count (length ps) i = Inr c \<and> c \<le> 2" using n by (simp add: circular_count_def)
    then obtain c where "circular_count (length ps) i = Inr c" "c \<le> 2" by blast
    with * show "\<exists>c. circular_count (length ps) i = Inr c \<and> c \<le> 2 \<and>
        (\<forall>k < c. \<exists>v. (snd (snd (circular_all_public r ps)) ! k) i = Inr v \<and>
            (\<forall>m. v = Some m \<longrightarrow> m < length ps \<and> m \<noteq> i))"
      by (intro exI [of _ c]) auto
  qed
qed

lemma crossed_public_ok: "rnd_ok r \<Longrightarrow> public_graph_ok (crossed_all_public r)"
  unfolding public_graph_ok_def
proof (intro allI impI conjI)
  fix ps :: "peer list" assume r: "rnd_ok r" and n: "2 \<le> length ps" and d: "distinct ps"
  show "mset (fst (crossed_all_public r ps)) = mset ps"
    using r by (simp add: all_public_simps rnd_ok_def)
  have sym: "linked (crossed_all_public r ps) j i" if i: "i < length ps" and l: "linked (crossed_all_public r ps) i j" for i j
  proof -
    have j: "j < length ps"
      using l [unfolded crossed_linked [OF n i]] across_bounds [OF i n] by (auto simp: ring_edge_def)
    show ?thesis
      using l ring_sym [of "length ps" i j] across_involutive [OF i]
      unfolding crossed_linked [OF n i] crossed_linked [OF n j] by auto
  qed
  then show "deployment_sym (crossed_all_public r ps)"
    by (simp add: deployment_sym_def all_public_simps shuffle_length [OF r])
  show "\<exists>c. fst (snd (crossed_all_public r ps)) i = Inr c \<and> 0 < c \<and> c \<le> 3" for i
    using n by (simp add: all_public_simps crossed_count_def)
  show "\<exists>m. edge (crossed_all_public r ps) 0 i m" if "i < length ps" for i
    using n left_total [OF that]
    by (auto simp: edge_def crossed_all_public_def crossed_count_def Let_def)
  show "deployment_wf (crossed_all_public r ps)"
    unfolding deployment_wf_def all_public_simps shuffle_length [OF r] shuffle_distinct [OF r]
  proof (intro conjI d allI impI)
    fix i assume i: "i < length ps"
    have *: "\<exists>v. (snd (snd (crossed_all_public r ps)) ! k) i = Inr v \<and> (\<forall>m. v = Some m \<longrightarrow> m < length ps \<and> m \<noteq> i)"
      if "k < 3" for k
      using that left_total [OF i] right_total [OF i] left_next [OF i n] right_next [OF i n] across_bounds [OF i n]
      by (auto simp: crossed_all_public_def Let_def less_3_cases)
    have "\<exists>c. crossed_count (length ps) i = Inr c \<and> c \<le> 3" using n by (simp add: crossed_count_def)
    then obtain c where "crossed_count (length ps) i = Inr c" "c \<le> 3" by blast
    with * show "\<exists>c. crossed_count (length ps) i = Inr c \<and> c \<le> 3 \<and>
        (\<forall>k < c. \<exists>v. (snd (snd (crossed_all_public r ps)) ! k) i = Inr v \<and>
            (\<forall>m. v = Some m \<longrightarrow> m < length ps \<and> m \<noteq> i))"
      by (intro exI [of _ c]) auto
  qed
qed

section \<open>Placing the private peers\<close>

type_synonym ports = "(peer \<times> peer list) list"

text \<open>\<open>peer_ports[k] = peer_ports.get(k, set())\<close> and the addition to the set of a key.\<close>

definition touch :: "peer \<Rightarrow> ports \<Rightarrow> ports" where
  "touch k ports = (case map_of ports k of None \<Rightarrow> AList.update k [] ports | Some _ \<Rightarrow> ports)"

definition port_add :: "peer \<Rightarrow> peer \<Rightarrow> ports \<Rightarrow> ports" where
  "port_add k x ports =
     (case map_of ports k of None \<Rightarrow> ports | Some s \<Rightarrow> AList.update k (set_add x s) ports)"

definition partition_sizes :: "nat \<Rightarrow> nat \<Rightarrow> nat list" where
  "partition_sizes n_private n_public =
     (if n_private \<ge> n_public
      then (let partition_size = n_private div n_public; remaining = n_private mod n_public in
            map (\<lambda>i. if i < remaining then partition_size + 1 else partition_size) [0..<n_public])
      else replicate n_private 1 @ replicate (n_public - n_private) 0)"

fun link_private :: "peer \<Rightarrow> peer list \<Rightarrow> ports \<Rightarrow> ports" where
  "link_private pub_peer [] ports = ports"
| "link_private pub_peer (priv_peer # ps) ports =
     link_private pub_peer ps
       (port_add priv_peer pub_peer (port_add pub_peer priv_peer (touch priv_peer ports)))"

text \<open>The neighbours of the \<open>pub_i\<close>-th public peer, with the assertions of the loop body.\<close>

definition public_neighbors :: "deployment \<Rightarrow> nat \<Rightarrow> nat list res" where
  "public_neighbors d pub_i =
     rbind (fst (snd d) pub_i) (\<lambda>c.
     rbind (require (0 < c) AssertionError) (\<lambda>_.
     rbind (require (c \<le> 3) AssertionError) (\<lambda>_.
     rbind (rmap (\<lambda>port_i. rbind (nth_res (snd (snd d)) port_i) (\<lambda>g. g pub_i)) [0..<c]) (\<lambda>rs.
       let pub_peer_peers = concat (map (\<lambda>r. case r of None \<Rightarrow> [] | Some m \<Rightarrow> [m]) rs) in
       rbind (require (pub_peer_peers \<noteq> []) AssertionError) (\<lambda>_. Inr pub_peer_peers)))))"

fun link_public :: "peer list \<Rightarrow> peer \<Rightarrow> nat list \<Rightarrow> ports \<Rightarrow> ports res" where
  "link_public peer_ids pub_peer [] ports = Inr ports"
| "link_public peer_ids pub_peer (peer_i # is) ports =
     rbind (nth_res peer_ids peer_i) (\<lambda>p. link_public peer_ids pub_peer is (port_add pub_peer p ports))"

fun port_loop ::
  "deployment \<Rightarrow> peer list \<Rightarrow> nat \<Rightarrow> nat list \<Rightarrow> nat list \<Rightarrow> nat \<Rightarrow> ports \<Rightarrow> ports res" where
  "port_loop d peer_ids n_public sizes [] priv_i ports = Inr ports"
| "port_loop d peer_ids n_public sizes (pub_i # rest) priv_i ports =
     rbind (nth_res peer_ids pub_i) (\<lambda>pub_peer.
     rbind (nth_res sizes pub_i) (\<lambda>partition_size.
     let ports1 = touch pub_peer ports in
     rbind (if n_public > 1
            then rbind (public_neighbors d pub_i) (\<lambda>ns. link_public peer_ids pub_peer ns ports1)
            else Inr ports1) (\<lambda>ports2.
     let priv_peers = take partition_size (drop (n_public + priv_i) peer_ids) in
     port_loop d peer_ids n_public sizes rest (priv_i + partition_size)
       (link_private pub_peer priv_peers ports2))))"

definition mixed_table :: "rnd \<Rightarrow> (peer list \<Rightarrow> deployment) \<Rightarrow> strategy_ctx \<Rightarrow> static_deployment res" where
  "mixed_table r all_public ctx =
     rbind (case public_peers ctx of
              [] \<Rightarrow> Inl StopIteration
            | [p] \<Rightarrow> Inr ([p], \<lambda>_. Inl (TypeError ''NoneType''), [])
            | _ \<Rightarrow> Inr (all_public (public_peers ctx))) (\<lambda>d.
       let n_public = length (public_peers ctx);
           peer_ids = fst d @ shuffle_private r (sc_private ctx);
           sizes = partition_sizes (length (sc_private ctx)) n_public in
       rbind (port_loop d peer_ids n_public sizes [0..<n_public] 0 []) (\<lambda>ports.
         rmap (\<lambda>peer. rbind (the_or KeyError (map_of ports peer)) (\<lambda>s. Inr (peer, iter_set r s))) peer_ids))"

definition crossed_generate ::
  "rnd \<Rightarrow> (peer list \<Rightarrow> deployment) \<Rightarrow> strategy_ctx \<Rightarrow> deployment res" where
  "crossed_generate r all_public ctx =
     (if length (public_peers ctx) > 1 \<and> sc_private ctx = [] then Inr (all_public (public_peers ctx))
      else rbind (mixed_table r all_public ctx) (\<lambda>sd. Inr (static_generate sd)))"

subsection \<open>The ports that the loop collects\<close>

lemma touch_keys [simp]: "fst ` set (touch k ports) = insert k (fst ` set ports)"
  by (auto simp: touch_def split: option.splits) (metis image_eqI fst_conv map_of_SomeD)

lemma touch_rel [simp]: "sd_rel (touch k ports) = sd_rel ports"
  by (auto simp: touch_def sd_rel_def split: option.splits if_splits)

lemma port_add_keys: "fst ` set (port_add k x ports) = fst ` set ports"
  by (auto simp: port_add_def map_of_eq_None_iff split: option.splits)
    (metis image_eqI fst_conv map_of_SomeD)

lemma port_add_rel:
  assumes "k \<in> fst ` set ports"
  shows "sd_rel (port_add k x ports) = insert (k, x) (sd_rel ports)"
proof -
  from assms obtain s where "map_of ports k = Some s" by (auto simp: map_of_in_keys)
  then show ?thesis by (auto simp: port_add_def sd_rel_def split: if_splits)
qed

lemma link_private_spec:
  assumes "p \<in> fst ` set ports"
  shows "fst ` set (link_private p qs ports) = fst ` set ports \<union> set qs
    \<and> sd_rel (link_private p qs ports) = sd_rel ports \<union> {p} \<times> set qs \<union> set qs \<times> {p}"
  using assms
proof (induction qs arbitrary: ports)
  case (Cons q qs)
  let ?p' = "port_add q p (port_add p q (touch q ports))"
  have k: "fst ` set ?p' = insert q (fst ` set ports)" by (simp add: port_add_keys)
  have "sd_rel ?p' = insert (q, p) (insert (p, q) (sd_rel ports))"
    using Cons.prems by (simp add: port_add_rel port_add_keys)
  moreover have "p \<in> fst ` set ?p'" using k Cons.prems by simp
  ultimately show ?case
    using Cons.IH [of ?p'] k by auto
qed simp

lemma link_public_spec:
  assumes "p \<in> fst ` set ports" and "\<forall>i \<in> set is. i < length ids"
  shows "\<exists>ports'. link_public ids p is ports = Inr ports' \<and> fst ` set ports' = fst ` set ports
    \<and> sd_rel ports' = sd_rel ports \<union> {p} \<times> ((!) ids ` set is)"
  using assms
proof (induction "is" arbitrary: ports)
  case (Cons i "is")
  have "p \<in> fst ` set (port_add p (ids ! i) ports)" using Cons.prems by (simp add: port_add_keys)
  from Cons.IH [OF this] Cons.prems obtain ports' where
    "link_public ids p is (port_add p (ids ! i) ports) = Inr ports'"
    "fst ` set ports' = fst ` set ports"
    "sd_rel ports' = insert (p, ids ! i) (sd_rel ports) \<union> {p} \<times> ((!) ids ` set is)"
    by (auto simp: port_add_keys port_add_rel)
  then show ?case using Cons.prems by auto
qed simp

lemma public_neighbors_spec:
  assumes wf: "deployment_wf d" and n: "n < length (fst d)"
    and c: "fst (snd d) n = Inr c" "0 < c" "c \<le> 3" and e: "edge d 0 n m0"
  shows "\<exists>ns. public_neighbors d n = Inr ns \<and> set ns = {m. linked d n m}"
proof -
  from wf n c(1) have len: "c \<le> length (snd (snd d))"
    and g: "\<forall>i < c. \<exists>r. (snd (snd d) ! i) n = Inr r"
    unfolding deployment_wf_def by force+
  from g have g': "(snd (snd d) ! i) n = Inr (projr ((snd (snd d) ! i) n))" if "i < c" for i
    using that by fastforce
  let ?rs = "map (\<lambda>i. projr ((snd (snd d) ! i) n)) [0..<c]"
  let ?ns = "concat (map (\<lambda>r. case r of None \<Rightarrow> [] | Some m \<Rightarrow> [m]) ?rs)"
  have rs: "rmap (\<lambda>i. rbind (nth_res (snd (snd d)) i) (\<lambda>f. f n)) [0..<c] = Inr ?rs"
    using len g' by (intro rmap_total) auto
  have set: "set ?ns = {m. linked d n m}"
    using c(1) len g' by (force simp: linked_def edge_def split: option.splits)
  have "m0 \<in> set ?ns" unfolding set using e by (auto simp: linked_def)
  then have ne: "?ns \<noteq> []" by (metis empty_iff empty_set)
  have "public_neighbors d n = Inr ?ns"
    unfolding public_neighbors_def c(1) rbind_simps rs Let_def
    using c(2,3) ne by (simp del: concat_eq_Nil_conv)
  then show ?thesis using set by blast
qed

definition part :: "peer list \<Rightarrow> nat \<Rightarrow> nat list \<Rightarrow> nat \<Rightarrow> peer set" where
  "part ids n_public sizes n =
     set (take (sizes ! n) (drop (n_public + sum_list (take n sizes)) ids))"

definition contrib :: "deployment \<Rightarrow> peer list \<Rightarrow> nat \<Rightarrow> nat list \<Rightarrow> nat \<Rightarrow> (peer \<times> peer) set" where
  "contrib d ids n_public sizes n =
     (if n_public > 1 then {(ids ! n, ids ! m) | m. linked d n m} else {})
     \<union> {ids ! n} \<times> part ids n_public sizes n \<union> part ids n_public sizes n \<times> {ids ! n}"

lemma port_loop_spec:
  assumes len: "length sizes = P" "P \<le> length ids"
    and nb: "P > 1 \<Longrightarrow> \<forall>n < P. \<exists>ns. public_neighbors d n = Inr ns \<and> set ns = {m. linked d n m}
        \<and> (\<forall>m. linked d n m \<longrightarrow> m < length ids)"
    and "k \<le> P"
  shows "\<exists>ports'. port_loop d ids P sizes [k..<P] (sum_list (take k sizes)) ports = Inr ports'
    \<and> sd_rel ports' = sd_rel ports \<union> (\<Union>n \<in> {k..<P}. contrib d ids P sizes n)
    \<and> fst ` set ports' = fst ` set ports \<union> (\<Union>n \<in> {k..<P}. insert (ids ! n) (part ids P sizes n))"
  using \<open>k \<le> P\<close>
proof (induction "P - k" arbitrary: k ports)
  case (Suc j)
  then have k: "k < P" by linarith
  let ?p = "ids ! k" and ?qs = "take (sizes ! k) (drop (P + sum_list (take k sizes)) ids)"
  have "\<exists>ports2. (if P > 1 then rbind (public_neighbors d k) (\<lambda>ns. link_public ids ?p ns (touch ?p ports))
      else Inr (touch ?p ports)) = Inr ports2 \<and> fst ` set ports2 = insert ?p (fst ` set ports)
      \<and> sd_rel ports2 = sd_rel ports \<union> (if P > 1 then {(?p, ids ! m) | m. linked d k m} else {})"
  proof (cases "P > 1")
    case True
    with nb k obtain ns where ns: "public_neighbors d k = Inr ns" "set ns = {m. linked d k m}"
      "\<forall>m. linked d k m \<longrightarrow> m < length ids" by blast
    from ns(2,3) have "\<forall>i \<in> set ns. i < length ids" by auto
    from link_public_spec [of ?p "touch ?p ports", OF _ this] ns True show ?thesis by auto
  qed simp
  then obtain ports2 where p2: "(if P > 1 then rbind (public_neighbors d k) (\<lambda>ns. link_public ids ?p ns (touch ?p ports))
      else Inr (touch ?p ports)) = Inr ports2" and k2: "fst ` set ports2 = insert ?p (fst ` set ports)"
    and r2: "sd_rel ports2 = sd_rel ports \<union> (if P > 1 then {(?p, ids ! m) | m. linked d k m} else {})"
    by blast
  let ?p3 = "link_private ?p ?qs ports2"
  have in2: "?p \<in> fst ` set ports2" using k2 by simp
  have r3: "sd_rel ?p3 = sd_rel ports \<union> contrib d ids P sizes k"
    using conjunct2 [OF link_private_spec [OF in2, of ?qs]] r2 by (auto simp: contrib_def part_def)
  have k3: "fst ` set ?p3 = fst ` set ports \<union> insert ?p (part ids P sizes k)"
    using conjunct1 [OF link_private_spec [OF in2, of ?qs]] k2 by (auto simp: part_def)
  have sum: "sum_list (take (Suc k) sizes) = sum_list (take k sizes) + sizes ! k"
    using k len(1) by (simp add: take_Suc_conv_app_nth)
  have j: "j = P - Suc k" and k1: "Suc k \<le> P" using Suc.hyps(2) k by linarith+
  from Suc.hyps(1) [OF j k1, of ?p3] obtain ports' where
    all: "port_loop d ids P sizes [Suc k..<P] (sum_list (take (Suc k) sizes)) ?p3 = Inr ports'
      \<and> sd_rel ports' = sd_rel ?p3 \<union> (\<Union>n \<in> {Suc k..<P}. contrib d ids P sizes n)
      \<and> fst ` set ports' = fst ` set ?p3 \<union> (\<Union>n \<in> {Suc k..<P}. insert (ids ! n) (part ids P sizes n))" ..
  note l = all [THEN conjunct1] and r = all [THEN conjunct2, THEN conjunct1]
    and ks = all [THEN conjunct2, THEN conjunct2]
  have "port_loop d ids P sizes [k..<P] (sum_list (take k sizes)) ports = Inr ports'"
    using k len p2 l by (simp add: upt_conv_Cons Let_def sum)
  moreover have split: "{k..<P} = insert k {Suc k..<P}" using k by auto
  moreover have "sd_rel ports' = sd_rel ports \<union> (\<Union>n \<in> {k..<P}. contrib d ids P sizes n)"
    unfolding r r3 split UN_insert Un_assoc ..
  moreover have "fst ` set ports' = fst ` set ports \<union> (\<Union>n \<in> {k..<P}. insert (ids ! n) (part ids P sizes n))"
    unfolding ks k3 split UN_insert Un_assoc ..
  ultimately show ?case by blast
qed simp

lemma parts_cover:
  "k \<le> length sizes \<Longrightarrow> (\<Union>n < k. set (take (sizes ! n) (drop (sum_list (take n sizes)) xs))) = set (take (sum_list (take k sizes)) xs)"
proof (induction k)
  case (Suc k)
  then have "sum_list (take (Suc k) sizes) = sum_list (take k sizes) + sizes ! k"
    by (simp add: take_Suc_conv_app_nth)
  with Suc show ?case by (simp add: lessThan_Suc take_add Un_commute)
qed simp

lemma partition_sizes_length: "length (partition_sizes v P) = P"
  by (simp add: partition_sizes_def Let_def)

lemma sum_first:
  "(\<Sum>i \<leftarrow> [0..<n]. if i < k then a + 1 else (a :: nat)) = n * a + min k n"
  by (induction n) (auto simp: min_def)

lemma partition_sizes_sum: "0 < P \<Longrightarrow> sum_list (partition_sizes v P) = v"
proof (cases "v \<ge> P")
  case True
  assume "0 < P"
  then have "min (v mod P) P = v mod P" by (simp add: min_def less_imp_le)
  with True show ?thesis
    unfolding partition_sizes_def Let_def if_P [OF True] sum_first by simp
next
  case False
  then show ?thesis by (simp add: partition_sizes_def sum_list_replicate)
qed

text \<open>The private peers are spread evenly.\<close>

lemma partition_sizes_even:
  assumes "i < P"
  shows "partition_sizes v P ! i \<le> (v + P - 1) div P" and "v div P \<le> partition_sizes v P ! i"
proof -
  have up: "(v + P - 1) div P = v div P + 1" if "v mod P \<noteq> 0"
  proof (rule div_nat_eqI)
    obtain q m where v: "v = P * q + m" "m < P" "q = v div P" "m = v mod P"
      using assms by (metis less_nat_zero_code mod_less_divisor mult_div_mod_eq not_gr_zero)
    have m: "0 < m" using that v(4) by simp
    show "P * (v div P + 1) \<le> v + P - 1"
      unfolding v(3) [symmetric] using v(1) m by (simp add: algebra_simps)
    show "v + P - 1 < P * Suc (v div P + 1)"
      unfolding v(3) [symmetric] using v(1,2) m by (simp add: algebra_simps)
  qed
  have low: "v div P \<le> (v + P - 1) div P" using assms by (intro div_le_mono) simp
  show "partition_sizes v P ! i \<le> (v + P - 1) div P"
    using assms up low by (auto simp: partition_sizes_def Let_def nth_append)
  show "v div P \<le> partition_sizes v P ! i"
    using assms by (auto simp: partition_sizes_def Let_def nth_append)
qed

subsection \<open>The table is symmetric and keeps private peers apart\<close>

lemma contrib_pairs:
  assumes "n < P" and "length (fst d) = P" and "ids = fst d @ privs"
    and "P > 1 \<Longrightarrow> \<forall>m. linked d n m \<longrightarrow> m < P" and "(a, b) \<in> contrib d ids P sizes n"
  shows "(a \<in> set (fst d) \<and> b \<in> set ids) \<or> (b \<in> set (fst d) \<and> a \<in> set ids)"
proof -
  have p: "part ids P sizes n \<subseteq> set privs"
    using assms(2,3) by (auto simp: part_def dest!: in_set_takeD in_set_dropD)
  have n: "ids ! n \<in> set (fst d)" using assms(1-3) by (simp add: nth_append)
  show ?thesis
    using assms(2,3,4,5) p n by (auto simp: contrib_def nth_append split: if_splits)
qed

text \<open>The shape of the table: the public peers in the order of their graph, then the private ones, each of
  them in the part of one public peer.\<close>

definition mixed_shape :: "(peer list \<Rightarrow> deployment) \<Rightarrow> strategy_ctx \<Rightarrow> deployment \<Rightarrow> peer list \<Rightarrow> static_deployment \<Rightarrow> bool" where
  "mixed_shape f ctx d privs sd \<longleftrightarrow>
     (let P = length (public_peers ctx); sizes = partition_sizes (length (sc_private ctx)) P; ids = fst d @ privs in
      map fst sd = ids \<and> distinct ids \<and> sd_rel sd = (\<Union>n < P. contrib d ids P sizes n)
      \<and> (1 < P \<longrightarrow> d = f (public_peers ctx)) \<and> set (fst d) = set (public_peers ctx) \<and> length (fst d) = P
      \<and> set privs = set (sc_private ctx) \<and> (\<Union>n < P. part ids P sizes n) = set privs)"

lemma mixed_table_shape:
  assumes ctx: "ctx_ok ctx" and r: "rnd_ok r" and f: "public_graph_ok f"
  shows "\<exists>d privs sd. mixed_table r f ctx = Inr sd \<and> mixed_shape f ctx d privs sd"
proof -
  let ?pub = "public_peers ctx" and ?P = "length (public_peers ctx)"
  have ne: "?pub \<noteq> []" and dpub: "distinct ?pub" using ctx by (auto simp: ctx_ok_def public_peers_def)
  define d where "d = (if ?P = 1 then (?pub, \<lambda>_. Inl (TypeError ''NoneType''), []) else f ?pub)"
  have d: "(case ?pub of [] \<Rightarrow> Inl StopIteration
            | [p] \<Rightarrow> Inr ([p], \<lambda>_. Inl (TypeError ''NoneType''), [])
            | _ \<Rightarrow> Inr (f ?pub)) = Inr d"
    using ne by (auto simp: d_def split: list.splits)
  have big: "2 \<le> ?P" if "?P \<noteq> 1" using that ne by (cases ?pub) (auto simp: Suc_le_eq)
  have f1: "mset (fst (f ?pub)) = mset ?pub" "deployment_wf (f ?pub)" "deployment_sym (f ?pub)"
    "\<forall>n < ?P. \<exists>c. fst (snd (f ?pub)) n = Inr c \<and> 0 < c \<and> c \<le> 3" "\<forall>n < ?P. \<exists>m. edge (f ?pub) 0 n m"
    if "?P \<noteq> 1"
    using f big [OF that] dpub unfolding public_graph_ok_def by blast+
  have md: "mset (fst d) = mset ?pub" using f1(1) by (auto simp: d_def)
  have sd: "set (fst d) = set ?pub" by (metis md set_mset_mset)
  have ld: "length (fst d) = ?P" by (metis md size_mset)
  let ?privs = "shuffle_private r (sc_private ctx)"
  have mp: "mset ?privs = mset (sc_private ctx)" using r by (simp add: rnd_ok_def)
  have sp: "set ?privs = set (sc_private ctx)" by (metis mp set_mset_mset)
  have lp: "length ?privs = length (sc_private ctx)" by (metis mp size_mset)
  let ?ids = "fst d @ ?privs" and ?sizes = "partition_sizes (length (sc_private ctx)) ?P"
  have ids_d: "distinct ?ids"
  proof -
    have "distinct (fst d)" "distinct ?privs"
      using mset_eq_imp_distinct_iff [OF md] mset_eq_imp_distinct_iff [OF mp] dpub ctx
      by (simp_all add: ctx_ok_def)
    moreover have "set (fst d) \<inter> set ?privs = {}" unfolding sd sp by (auto simp: public_peers_def)
    ultimately show ?thesis by simp
  qed
  have lk: "m < ?P \<and> m \<noteq> n" if "?P > 1" "n < ?P" "linked d n m" for n m
  proof -
    have dd: "d = f ?pub" using that(1) by (simp add: d_def)
    have "deployment_wf d" unfolding dd using f1(2) that(1) by simp
    then show ?thesis using edge_bounds [of d n _ m] that ld by (auto simp: linked_def)
  qed
  have nb: "\<forall>n < ?P. \<exists>ns. public_neighbors d n = Inr ns \<and> set ns = {m. linked d n m}
        \<and> (\<forall>m. linked d n m \<longrightarrow> m < length ?ids)" if "?P > 1"
  proof (intro allI impI)
    fix n assume n: "n < ?P"
    have dd: "d = f ?pub" using that by (simp add: d_def)
    from f1 that n obtain c m0 where "deployment_wf d" "fst (snd d) n = Inr c" "0 < c" "c \<le> 3" "edge d 0 n m0"
      unfolding dd by (metis less_irrefl)
    from public_neighbors_spec [OF this(1) _ this(2-5)] n ld obtain ns
      where ns: "public_neighbors d n = Inr ns" "set ns = {m. linked d n m}" by auto
    show "\<exists>ns. public_neighbors d n = Inr ns \<and> set ns = {m. linked d n m}
        \<and> (\<forall>m. linked d n m \<longrightarrow> m < length ?ids)"
      using ns lk [OF that n] ld by fastforce
  qed
  from port_loop_spec [OF partition_sizes_length _ nb, of 0 "length (sc_private ctx)" "[]"] ld
  obtain ports where loop: "port_loop d ?ids ?P ?sizes [0..<?P] 0 [] = Inr ports"
    and rel: "sd_rel ports = (\<Union>n \<in> {0..<?P}. contrib d ?ids ?P ?sizes n)"
    and keys: "fst ` set ports = (\<Union>n \<in> {0..<?P}. insert (?ids ! n) (part ?ids ?P ?sizes n))"
    by (auto simp: sd_rel_def)
  have part: "part ?ids ?P ?sizes n = set (take (?sizes ! n) (drop (sum_list (take n ?sizes)) ?privs))" for n
    using ld by (simp add: part_def)
  have sum: "sum_list ?sizes = length ?privs"
    using ne lp by (simp add: partition_sizes_sum)
  have parts: "(\<Union>n < ?P. part ?ids ?P ?sizes n) = set ?privs"
    unfolding part using parts_cover [of ?P ?sizes ?privs] sum by (simp add: partition_sizes_length)
  have firsts: "(\<Union>n < ?P. {?ids ! n}) = set (fst d)"
    using ld by (force simp: nth_append in_set_conv_nth)
  have "fst ` set ports = (\<Union>n < ?P. {?ids ! n}) \<union> (\<Union>n < ?P. part ?ids ?P ?sizes n)"
    unfolding keys by (auto simp: atLeast0LessThan)
  then have kids: "fst ` set ports = set ?ids" unfolding parts firsts by simp
  let ?sd = "map (\<lambda>p. (p, iter_set r (the (map_of ports p)))) ?ids"
  have "rmap (\<lambda>peer. rbind (the_or KeyError (map_of ports peer)) (\<lambda>s. Inr (peer, iter_set r s))) ?ids = Inr ?sd"
  proof (rule rmap_total)
    fix p assume "p \<in> set ?ids"
    with kids obtain s where "map_of ports p = Some s" by (metis map_of_in_keys)
    then show "rbind (the_or KeyError (map_of ports p)) (\<lambda>s. Inr (p, iter_set r s))
        = Inr (p, iter_set r (the (map_of ports p)))" by simp
  qed
  then have tbl: "mixed_table r f ctx = Inr ?sd"
    unfolding mixed_table_def d rbind_simps Let_def loop by simp
  have fsts: "map fst ?sd = ?ids" by (simp add: comp_def)
  have mo: "map_of ?sd p = (if p \<in> set ?ids then Some (iter_set r (the (map_of ports p))) else None)" for p
    by (rule map_of_map_restrict [THEN fun_cong, THEN trans]) (simp add: restrict_map_def)
  have it: "set (iter_set r s) = set s" for s
    using r unfolding rnd_ok_def by (metis set_mset_mset)
  have "map_of ports p = None \<longleftrightarrow> p \<notin> set ?ids" for p
    using kids by (simp add: map_of_eq_None_iff)
  then have srel: "sd_rel ?sd = sd_rel ports"
    unfolding sd_rel_def mo by (auto simp: it split: if_splits) force+
  have "mixed_shape f ctx d ?privs ?sd"
    unfolding mixed_shape_def Let_def fsts srel rel atLeast0LessThan
    using ids_d sd ld sp parts by (simp add: d_def)
  with tbl show ?thesis by blast
qed

lemma mixed_shapeD:
  assumes "mixed_shape f ctx d privs sd"
  defines "P \<equiv> length (public_peers ctx)" and "ids \<equiv> fst d @ privs"
    and "sizes \<equiv> partition_sizes (length (sc_private ctx)) (length (public_peers ctx))"
  shows "map fst sd = ids" and "distinct ids" and "sd_rel sd = (\<Union>n < P. contrib d ids P sizes n)"
    and "1 < P \<Longrightarrow> d = f (public_peers ctx)" and "set (fst d) = set (public_peers ctx)" and "length (fst d) = P"
    and "set privs = set (sc_private ctx)" and "(\<Union>n < P. part ids P sizes n) = set privs"
  using assms unfolding mixed_shape_def Let_def by blast+

lemma mixed_public_graph:
  assumes "mixed_shape f ctx d privs sd" and "public_graph_ok f" and "ctx_ok ctx" and "1 < length (public_peers ctx)"
    and "n < length (public_peers ctx)" and "linked d n m"
  shows "m < length (public_peers ctx)" and "m \<noteq> n" and "linked d m n"
proof -
  have g: "deployment_wf d" "deployment_sym d"
    using assms(2-4) unfolding mixed_shapeD(4) [OF assms(1,4)] public_graph_ok_def
    by (auto simp: ctx_ok_def public_peers_def Suc_le_eq)
  have n: "n < length (fst d)" using assms(5) mixed_shapeD(6) [OF assms(1)] by simp
  from assms(6) obtain i where "edge d i n m" by (auto simp: linked_def)
  from edge_bounds [OF g(1) n this] show "m < length (public_peers ctx)" "m \<noteq> n"
    by (simp_all add: mixed_shapeD(6) [OF assms(1)])
  show "linked d m n" using g(2) n assms(6) by (simp add: deployment_sym_def)
qed

lemma mixed_shape_ok:
  assumes shape: "mixed_shape f ctx d privs sd" and f: "public_graph_ok f" and ctx: "ctx_ok ctx"
  shows "sd_ok sd" and "set (map fst sd) = set (sc_peers ctx)"
    and "(a, b) \<in> sd_rel sd \<Longrightarrow> a \<notin> set (sc_private ctx) \<or> b \<notin> set (sc_private ctx)"
proof -
  let ?P = "length (public_peers ctx)" and ?ids = "fst d @ privs"
    and ?sizes = "partition_sizes (length (sc_private ctx)) (length (public_peers ctx))"
  note S = mixed_shapeD [OF shape] and G = mixed_public_graph [OF shape f ctx]
  have lk: "\<forall>m. linked d n m \<longrightarrow> m < ?P" if "1 < ?P" "n < ?P" for n using G(1) [OF that] by blast
  have pairs: "(a \<in> set (fst d) \<and> b \<in> set ?ids) \<or> (b \<in> set (fst d) \<and> a \<in> set ?ids)" if "(a, b) \<in> sd_rel sd" for a b
    using that contrib_pairs [OF _ S(6) refl] lk unfolding S(3) by fastforce
  have "sym (sd_rel sd)"
  proof (rule symI)
    fix a b assume "(a, b) \<in> sd_rel sd"
    then obtain n where n: "n < ?P" and ab: "(a, b) \<in> contrib d ?ids ?P ?sizes n" unfolding S(3) by blast
    from ab consider (pub) m where "1 < ?P" "linked d n m" "a = ?ids ! n" "b = ?ids ! m"
      | (priv) "(b, a) \<in> contrib d ?ids ?P ?sizes n"
      unfolding contrib_def by (auto split: if_splits)
    then show "(b, a) \<in> sd_rel sd"
    proof cases
      case pub
      with G [OF _ n] have "m < ?P" "(b, a) \<in> contrib d ?ids ?P ?sizes m" unfolding contrib_def by auto
      then show ?thesis unfolding S(3) by blast
    qed (use n in \<open>unfold S(3), blast\<close>)
  qed
  moreover have "irrefl (sd_rel sd)"
  proof (rule irreflI, rule notI)
    fix a assume "(a, a) \<in> sd_rel sd"
    then obtain n where n: "n < ?P" and aa: "(a, a) \<in> contrib d ?ids ?P ?sizes n" unfolding S(3) by blast
    have "?ids ! n \<in> set (fst d)" using n S(6) by (simp add: nth_append)
    moreover have "part ?ids ?P ?sizes n \<subseteq> set privs" using S(8) n by blast
    moreover have "set (fst d) \<inter> set privs = {}" using S(2) by simp
    ultimately obtain m where m: "1 < ?P" "linked d n m" "?ids ! n = ?ids ! m"
      using aa unfolding contrib_def by (auto split: if_splits)
    from G(1,2) [OF m(1) n m(2)] m(3) S(2) n S(6) show False
      by (metis length_append nth_eq_iff_index_eq trans_less_add1)
  qed
  ultimately show "sd_ok sd" unfolding sd_ok_def S(1) using S(2) by blast
  show "set (map fst sd) = set (sc_peers ctx)"
    unfolding S(1) set_append S(5,7) using ctx by (auto simp: ctx_ok_def public_peers_def)
  show "a \<notin> set (sc_private ctx) \<or> b \<notin> set (sc_private ctx)" if "(a, b) \<in> sd_rel sd"
    using pairs [OF that] unfolding S(5) by (auto simp: public_peers_def)
qed

lemma mixed_table_ok:
  assumes "ctx_ok ctx" and "rnd_ok r" and "public_graph_ok f"
  shows "\<exists>sd. mixed_table r f ctx = Inr sd \<and> sd_ok sd \<and> set (map fst sd) = set (sc_peers ctx)
    \<and> (\<forall>a b. (a, b) \<in> sd_rel sd \<longrightarrow> a \<notin> set (sc_private ctx) \<or> b \<notin> set (sc_private ctx))"
proof -
  from mixed_table_shape [OF assms] obtain d privs sd
    where "mixed_table r f ctx = Inr sd" and "mixed_shape f ctx d privs sd" by blast
  with mixed_shape_ok [OF _ assms(3,1)] show ?thesis by blast
qed

lemma crossed_generate_ok:
  assumes ctx: "ctx_ok ctx" and r: "rnd_ok r" and f: "public_graph_ok f"
  shows "\<exists>d. crossed_generate r f ctx = Inr d \<and> deployment_wf d \<and> deployment_sym d
    \<and> set (fst d) = set (sc_peers ctx) \<and> private_ok ctx d"
proof (cases "length (public_peers ctx) > 1 \<and> sc_private ctx = []")
  case True
  then have pub: "public_peers ctx = sc_peers ctx" by (simp add: public_peers_def)
  have *: "mset (fst (f (public_peers ctx))) = mset (public_peers ctx)"
    "deployment_wf (f (public_peers ctx))" "deployment_sym (f (public_peers ctx))"
    using f True ctx unfolding public_graph_ok_def by (auto simp: ctx_ok_def public_peers_def Suc_le_eq)
  from *(1) have "set (fst (f (public_peers ctx))) = set (sc_peers ctx)"
    unfolding pub by (metis set_mset_mset)
  then show ?thesis using True *(2,3) by (simp add: crossed_generate_def private_ok_def)
next
  case False
  from mixed_table_ok [OF ctx r f] obtain sd where sd: "mixed_table r f ctx = Inr sd" "sd_ok sd"
    "set (map fst sd) = set (sc_peers ctx)"
    "\<And>a b. (a, b) \<in> sd_rel sd \<Longrightarrow> a \<notin> set (sc_private ctx) \<or> b \<notin> set (sc_private ctx)" by blast
  then show ?thesis
    using False static_generate_ok [OF sd(2)] static_private_ok [OF sd(2,4)]
    by (intro exI [of _ "static_generate sd"]) (auto simp: crossed_generate_def)
qed

definition crossed_strategy :: "rnd \<Rightarrow> strategy_ctx \<Rightarrow> deployment res" where
  "crossed_strategy r = crossed_generate r (crossed_all_public r)"

definition circular_strategy :: "rnd \<Rightarrow> strategy_ctx \<Rightarrow> deployment res" where
  "circular_strategy r = crossed_generate r (circular_all_public r)"

interpretation crossed: backbone_strategy crossed_strategy
  using crossed_generate_ok [OF _ _ crossed_public_ok]
  by unfold_locales (metis crossed_strategy_def old.sum.inject(2))+

interpretation circular: backbone_strategy circular_strategy
  using crossed_generate_ok [OF _ _ circular_public_ok]
  by unfold_locales (metis circular_strategy_def old.sum.inject(2))+

section \<open>The full mesh\<close>

definition fullmesh_table :: "strategy_ctx \<Rightarrow> static_deployment" where
  "fullmesh_table ctx =
     map (\<lambda>a. (a, filter (\<lambda>b. b \<noteq> a \<and> (a \<notin> set (sc_private ctx) \<or> b \<notin> set (sc_private ctx))) (sc_peers ctx)))
       (sc_peers ctx)"

definition fullmesh_strategy :: "rnd \<Rightarrow> strategy_ctx \<Rightarrow> deployment res" where
  "fullmesh_strategy r ctx = Inr (static_generate (fullmesh_table ctx))"

lemma fullmesh_rel:
  "(a, b) \<in> sd_rel (fullmesh_table ctx) \<longleftrightarrow> a \<in> set (sc_peers ctx) \<and> b \<in> set (sc_peers ctx) \<and> a \<noteq> b
     \<and> (a \<notin> set (sc_private ctx) \<or> b \<notin> set (sc_private ctx))"
proof -
  have "map_of (fullmesh_table ctx) a = (if a \<in> set (sc_peers ctx)
      then Some (filter (\<lambda>b. b \<noteq> a \<and> (a \<notin> set (sc_private ctx) \<or> b \<notin> set (sc_private ctx))) (sc_peers ctx))
      else None)"
    unfolding fullmesh_table_def
    by (rule map_of_map_restrict [THEN fun_cong, THEN trans]) (simp add: restrict_map_def)
  then show ?thesis by (auto simp: sd_rel_def)
qed

lemma fullmesh_ok:
  assumes "ctx_ok ctx"
  shows "sd_ok (fullmesh_table ctx)" and "set (map fst (fullmesh_table ctx)) = set (sc_peers ctx)"
proof -
  have "map fst (fullmesh_table ctx) = sc_peers ctx" by (simp add: fullmesh_table_def comp_def)
  with assms show "sd_ok (fullmesh_table ctx)" and "set (map fst (fullmesh_table ctx)) = set (sc_peers ctx)"
    by (auto simp: sd_ok_def ctx_ok_def fullmesh_rel intro!: symI irreflI)
qed

interpretation fullmesh: backbone_strategy fullmesh_strategy
proof (unfold_locales, goal_cases)
  case (1 r ctx d) then show ?case using static_generate_ok(1) [OF fullmesh_ok(1)] by (auto simp: fullmesh_strategy_def)
next
  case (2 r ctx d) then show ?case using static_generate_ok(2) [OF fullmesh_ok(1)] by (auto simp: fullmesh_strategy_def)
next
  case (3 r ctx d) then show ?case using fullmesh_ok(2) by (auto simp: fullmesh_strategy_def)
next
  case (4 r ctx d) then show ?case
    using static_private_ok [OF fullmesh_ok(1)] by (auto simp: fullmesh_strategy_def fullmesh_rel)
qed

text \<open>The private peers are all placed, spread evenly: of \<open>v\<close> private and \<open>P\<close> public peers each public one gets
  between the floor and the ceiling of \<open>v / P\<close>.\<close>

theorem partition_spread:
  assumes "0 < P"
  shows "length (partition_sizes v P) = P \<and> sum_list (partition_sizes v P) = v
    \<and> (\<forall>i < P. v div P \<le> partition_sizes v P ! i \<and> partition_sizes v P ! i \<le> (v + P - 1) div P)"
  using assms partition_sizes_length partition_sizes_sum partition_sizes_even by blast

theorem partition_spread_witness: "sum_list (partition_sizes 7 3) = 7 \<and> partition_sizes 7 3 ! 0 = 3 \<and> partition_sizes 7 3 ! 2 \<le> 3"
  using partition_spread [of 3 7] by (simp add: partition_sizes_def upt_rec)

end
