(* ===== verification/Strategy_Random.thy ===== *)
theory Strategy_Random
  imports Strategy_Crossed
begin

text \<open>
  The random strategy (\<open>random_deployment_strategy.py\<close>). The samples are a stream of numbers
  (\<open>rnd_sample\<close>), of which the \<open>k\<close>-th call of \<open>random.sample\<close> takes the \<open>k\<close>-th modulo the length of
  its list; nothing is assumed of them. An incomplete spanning tree is a value that carries its
  edges. Sets are duplicate-free lists.
\<close>

section \<open>The graph\<close>

record rgraph =
  rg_min_edges :: nat
  rg_ok_edges :: nat
  rg_max_edges :: nat
  rg_peers :: "peer list"
  rg_private :: "peer list"
  rg_peer_edges :: ports
  rg_full :: "peer list"
  rg_ok :: "peer list"
  rg_min :: "peer list"

definition rgraph_init :: "peer list \<Rightarrow> nat \<Rightarrow> nat \<Rightarrow> nat \<Rightarrow> peer list \<Rightarrow> rgraph" where
  "rgraph_init peers min_e ok_e max_e private =
     \<lparr>rg_min_edges = min_e, rg_ok_edges = ok_e, rg_max_edges = max_e, rg_peers = peers,
      rg_private = private, rg_peer_edges = map (\<lambda>p. (p, [])) peers,
      rg_full = [], rg_ok = [], rg_min = []\<rparr>"

definition rg_public :: "rgraph \<Rightarrow> peer list" where
  "rg_public g = filter (\<lambda>p. p \<notin> set (rg_private g)) (rg_peers g)"

definition update_peer_status :: "peer \<Rightarrow> nat \<Rightarrow> rgraph \<Rightarrow> rgraph" where
  "update_peer_status p n_edges g =
     (if n_edges \<ge> rg_max_edges g
      then g\<lparr>rg_ok := removeAll p (rg_ok g), rg_min := removeAll p (rg_min g), rg_full := set_add p (rg_full g)\<rparr>
      else if n_edges \<ge> rg_ok_edges g
      then g\<lparr>rg_ok := set_add p (rg_ok g), rg_min := removeAll p (rg_min g)\<rparr>
      else if n_edges \<ge> rg_min_edges g
      then g\<lparr>rg_min := set_add p (rg_min g)\<rparr>
      else g)"

definition edges_of :: "rgraph \<Rightarrow> peer \<Rightarrow> peer list" where
  "edges_of g p = (case map_of (rg_peer_edges g) p of None \<Rightarrow> [] | Some s \<Rightarrow> s)"

definition store_edge :: "peer \<Rightarrow> peer \<Rightarrow> rgraph \<Rightarrow> rgraph" where
  "store_edge a b g =
     (let g1 = g\<lparr>rg_peer_edges := touch b (touch a (rg_peer_edges g))\<rparr> in
      if length (edges_of g1 a) < rg_max_edges g \<and> length (edges_of g1 b) < rg_max_edges g
      then (let g2 = g1\<lparr>rg_peer_edges := port_add a b (rg_peer_edges g1)\<rparr>;
                g3 = update_peer_status a (length (edges_of g2 a)) g2;
                g4 = g3\<lparr>rg_peer_edges := port_add b a (rg_peer_edges g3)\<rparr>
            in update_peer_status b (length (edges_of g4 b)) g4)
      else g1)"

section \<open>A random spanning tree\<close>

definition pick_random :: "(nat \<Rightarrow> nat) \<Rightarrow> nat \<Rightarrow> peer list \<Rightarrow> peer res" where
  "pick_random sample k ps =
     (if ps = [] then Inl (ValueError ''Sample larger than population'')
      else Inr (ps ! (sample k mod length ps)))"

text \<open>The result: the edges, and whether the tree is complete.\<close>

function span_loop ::
  "(nat \<Rightarrow> nat) \<Rightarrow> rgraph \<Rightarrow> nat \<Rightarrow> peer list \<Rightarrow> peer \<Rightarrow> (peer \<times> peer) list
   \<Rightarrow> (nat \<times> bool \<times> (peer \<times> peer) list) res" where
  "span_loop sample g k visited current edges =
     (if length visited < length (rg_peers g)
      then (let current_public = (current \<in> set (rg_public g));
                neighbors = filter (\<lambda>p. p \<notin> set visited)
                              (if \<not> current_public then rg_public g else rg_peers g) in
            if neighbors = [] then Inr (k, False, edges)
            else rbind (pick_random sample k neighbors) (\<lambda>other.
                 rbind (require (current_public \<or> other \<in> set (rg_public g)) AssertionError) (\<lambda>_.
                   span_loop sample g (k + 1) (set_add other visited) other (edges @ [(current, other)]))))
      else Inr (k, True, edges))"
  by pat_completeness auto

lemma pick_random_in: "pick_random sample k ps = Inr x \<Longrightarrow> x \<in> set ps"
  by (auto simp: pick_random_def split: if_splits)

termination span_loop
proof (relation "measure (\<lambda>(_, g, _, visited, _, _). length (rg_peers g) - length visited)", simp, goal_cases)
  case (1 sample g k visited current edges x xa other)
  have "other \<notin> set visited" using pick_random_in [OF 1(5)] 1(3) by auto
  then show ?case using 1(1) by (simp add: set_add_def)
qed

definition new_spanning_tree :: "(nat \<Rightarrow> nat) \<Rightarrow> nat \<Rightarrow> rgraph \<Rightarrow> (nat \<times> bool \<times> (peer \<times> peer) list) res" where
  "new_spanning_tree sample k g =
     rbind (pick_random sample k (rg_peers g)) (\<lambda>current.
       span_loop sample g (k + 1) [current] current [])"

section \<open>Trying until the degrees are met\<close>

definition store_edges :: "(peer \<times> peer) list \<Rightarrow> rgraph \<Rightarrow> rgraph" where
  "store_edges es g = foldl (\<lambda>g (a, b). store_edge a b g) g es"

definition test_partial :: "rgraph \<Rightarrow> bool" where
  "test_partial g \<longleftrightarrow> length (rg_ok g) + length (rg_full g) + length (rg_min g) \<ge> length (rg_peers g)"

definition status_disjoint :: "rgraph \<Rightarrow> bool" where
  "status_disjoint g \<longleftrightarrow> set (rg_ok g) \<inter> set (rg_full g) = {} \<and> set (rg_ok g) \<inter> set (rg_min g) = {}
     \<and> set (rg_full g) \<inter> set (rg_min g) = {}"

text \<open>The argument is the number of tries left. The \<open>finally\<close> block checks the status sets only
  when a try succeeded. The class has no \<open>log\<close>, which the failure path uses before it raises.\<close>

fun generate_edges :: "(nat \<Rightarrow> nat) \<Rightarrow> nat \<Rightarrow> nat \<Rightarrow> rgraph \<Rightarrow> rgraph res" where
  "generate_edges sample 0 k g = Inr g"
| "generate_edges sample (Suc left) k g =
     rbind (new_spanning_tree sample k g) (\<lambda>(k', complete, tree).
       if complete
       then (let g' = store_edges tree g in
             if length (rg_ok g') + length (rg_full g') \<ge> length (rg_peers g')
             then rbind (require (status_disjoint g') AssertionError) (\<lambda>_. Inr g')
             else generate_edges sample left k' g')
       else (let keep = (length (rg_private g) \<ge> length (rg_public g));
                 g' = (if keep then store_edges tree g else g) in
             if keep \<and> test_partial g' then Inr g'
             else if left > 0 then generate_edges sample left k' g'
             else if test_partial g' then Inr g'
             else Inl (AttributeError ''log'')))"

definition edge_limits :: "strategy_ctx \<Rightarrow> nat \<times> nat \<times> nat" where
  "edge_limits ctx =
     (let peers_count = length (sc_peers ctx);
          public_count = length (public_peers ctx); private_count = length (sc_private ctx) in
      if peers_count \<le> 1 then (0, 0, 0)
      else if peers_count \<le> 3 then (1, peers_count - 1, peers_count)
      else (1, 2, if public_count < private_count then 3 + private_count - public_count else 3))"

definition random_table :: "nat \<Rightarrow> rnd \<Rightarrow> strategy_ctx \<Rightarrow> static_deployment res" where
  "random_table max_tries r ctx =
     (case edge_limits ctx of (min_peers, ok_peers, max_peers) \<Rightarrow>
       rbind (require (max (max max_peers min_peers) ok_peers = max_peers) (RuntimeError ''invalid max_peers setting'')) (\<lambda>_.
       rbind (require (min (min max_peers min_peers) ok_peers = min_peers) (RuntimeError ''invalid min_peers setting'')) (\<lambda>_.
       rbind (require (\<not> (ok_peers > max_peers \<or> ok_peers < min_peers)) (RuntimeError ''invalid ok_peers setting'')) (\<lambda>_.
       rbind (generate_edges (rnd_sample r) max_tries 0
                (rgraph_init (sc_peers ctx) min_peers ok_peers max_peers (sc_private ctx))) (\<lambda>g.
         Inr (map (\<lambda>(p, s). (p, iter_set r s)) (rg_peer_edges g)))))))"

definition random_strategy :: "rnd \<Rightarrow> strategy_ctx \<Rightarrow> deployment res" where
  "random_strategy r ctx = rbind (random_table 100000 r ctx) (\<lambda>sd. Inr (static_generate sd))"

section \<open>The invariant of the graph\<close>

abbreviation deg :: "rgraph \<Rightarrow> peer \<Rightarrow> nat" where
  "deg g p \<equiv> length (edges_of g p)"

text \<open>The status sets agree with the degrees.\<close>

definition status_ok :: "rgraph \<Rightarrow> peer \<Rightarrow> bool" where
  "status_ok g p \<longleftrightarrow>
     (p \<in> set (rg_full g) \<longrightarrow> rg_max_edges g \<le> deg g p)
     \<and> (p \<in> set (rg_ok g) \<longrightarrow> rg_ok_edges g \<le> deg g p \<and> deg g p < rg_max_edges g)
     \<and> (p \<in> set (rg_min g) \<longrightarrow> rg_min_edges g \<le> deg g p \<and> deg g p < rg_ok_edges g \<and> deg g p < rg_max_edges g)"

definition half_ok :: "rgraph \<Rightarrow> bool" where
  "half_ok g \<longleftrightarrow> distinct (map fst (rg_peer_edges g)) \<and> fst ` set (rg_peer_edges g) = set (rg_peers g)
     \<and> (\<forall>p. status_ok g p \<and> deg g p \<le> rg_max_edges g \<and> distinct (edges_of g p))"

definition good_edge :: "rgraph \<Rightarrow> peer \<times> peer \<Rightarrow> bool" where
  "good_edge g e \<longleftrightarrow> fst e \<in> set (rg_peers g) \<and> snd e \<in> set (rg_peers g) \<and> fst e \<noteq> snd e
     \<and> (fst e \<in> set (rg_public g) \<or> snd e \<in> set (rg_public g))"

definition rgraph_ok :: "rgraph \<Rightarrow> bool" where
  "rgraph_ok g \<longleftrightarrow> half_ok g \<and> sym (sd_rel (rg_peer_edges g)) \<and> (\<forall>e \<in> sd_rel (rg_peer_edges g). good_edge g e)"

definition rg_same :: "rgraph \<Rightarrow> rgraph \<Rightarrow> bool" where
  "rg_same g g' \<longleftrightarrow> rg_min_edges g' = rg_min_edges g \<and> rg_ok_edges g' = rg_ok_edges g
     \<and> rg_max_edges g' = rg_max_edges g \<and> rg_peers g' = rg_peers g \<and> rg_private g' = rg_private g"

definition half_edge :: "peer \<Rightarrow> peer \<Rightarrow> rgraph \<Rightarrow> rgraph" where
  "half_edge a b g = (let g2 = g\<lparr>rg_peer_edges := port_add a b (rg_peer_edges g)\<rparr> in
     update_peer_status a (deg g2 a) g2)"

lemma edges_of_status [simp]:
  "edges_of (g\<lparr>rg_ok := x\<rparr>) = edges_of g" "edges_of (g\<lparr>rg_min := x\<rparr>) = edges_of g"
  "edges_of (g\<lparr>rg_full := x\<rparr>) = edges_of g"
  by (auto simp: edges_of_def fun_eq_iff)

lemma update_status_simps [simp]:
  "rg_peer_edges (update_peer_status p n g) = rg_peer_edges g"
  "rg_same g (update_peer_status p n g)"
  "edges_of (update_peer_status p n g) = edges_of g"
  by (auto simp: update_peer_status_def rg_same_def edges_of_def fun_eq_iff)

lemma edges_of_port_add:
  assumes "a \<in> fst ` set (rg_peer_edges g)"
  shows "edges_of (g\<lparr>rg_peer_edges := port_add a b (rg_peer_edges g)\<rparr>) p
    = (if p = a then set_add b (edges_of g a) else edges_of g p)"
proof -
  from assms obtain s where "map_of (rg_peer_edges g) a = Some s" by (auto simp: map_of_in_keys)
  then show ?thesis by (simp add: edges_of_def port_add_def)
qed

lemma status_ok_update:
  assumes "\<And>q. q \<noteq> p \<Longrightarrow> status_ok g q"
    and "p \<in> set (rg_full g) \<Longrightarrow> rg_max_edges g \<le> deg g p"
    and "p \<in> set (rg_ok g) \<Longrightarrow> rg_ok_edges g \<le> deg g p"
    and "p \<in> set (rg_min g) \<Longrightarrow> rg_min_edges g \<le> deg g p"
  shows "status_ok (update_peer_status p (deg g p) g) q"
proof (cases "q = p")
  case True
  then show ?thesis
    using assms(2-4) by (auto simp: status_ok_def update_peer_status_def)
next
  case False
  then show ?thesis
    using assms(1) [OF False] by (auto simp: status_ok_def update_peer_status_def)
qed

lemma half_edge_ok:
  assumes "half_ok g" and a: "a \<in> set (rg_peers g)" and room: "deg g a < rg_max_edges g"
  shows "half_ok (half_edge a b g)" and "rg_same g (half_edge a b g)"
    and "sd_rel (rg_peer_edges (half_edge a b g)) = insert (a, b) (sd_rel (rg_peer_edges g))"
    and "p \<noteq> a \<Longrightarrow> deg (half_edge a b g) p = deg g p"
proof -
  let ?g2 = "g\<lparr>rg_peer_edges := port_add a b (rg_peer_edges g)\<rparr>"
  have k: "a \<in> fst ` set (rg_peer_edges g)" using assms by (simp add: half_ok_def)
  note e = edges_of_port_add [OF k]
  have st: "status_ok g q" for q using assms(1) by (simp add: half_ok_def)
  have "status_ok ?g2 q" if "q \<noteq> a" for q using st [of q] that by (simp add: status_ok_def e)
  moreover have "a \<notin> set (rg_full g)" using st [of a] room by (auto simp: status_ok_def)
  moreover have "deg ?g2 a \<ge> deg g a" by (simp add: e length_set_add)
  ultimately have st2: "status_ok (half_edge a b g) q" for q
    unfolding half_edge_def Let_def using st [of a]
    by (intro status_ok_update) (auto simp: status_ok_def)
  have same: "rg_same g (half_edge a b g)"
    using update_status_simps(2) [of ?g2] by (simp add: half_edge_def rg_same_def Let_def)
  then show "rg_same g (half_edge a b g)" .
  have ed: "edges_of (half_edge a b g) q = (if q = a then set_add b (edges_of g a) else edges_of g q)" for q
    by (simp add: half_edge_def Let_def e)
  then show "p \<noteq> a \<Longrightarrow> deg (half_edge a b g) p = deg g p" by simp
  have pe: "rg_peer_edges (half_edge a b g) = port_add a b (rg_peer_edges g)" by (simp add: half_edge_def Let_def)
  then show "sd_rel (rg_peer_edges (half_edge a b g)) = insert (a, b) (sd_rel (rg_peer_edges g))"
    using k by (simp add: port_add_rel)
  have "distinct (map fst (port_add a b (rg_peer_edges g)))"
    using assms(1) by (auto simp: port_add_def half_ok_def split: option.splits)
  then show "half_ok (half_edge a b g)"
    using assms same st2 by (auto simp: half_ok_def pe port_add_keys rg_same_def ed length_set_add)
qed

lemma touch_present: "k \<in> fst ` set ports \<Longrightarrow> touch k ports = ports"
  by (auto simp: touch_def map_of_in_keys split: option.splits)

lemma store_edge_eq:
  assumes "half_ok g" and "a \<in> set (rg_peers g)" and "b \<in> set (rg_peers g)"
  shows "store_edge a b g = (if deg g a < rg_max_edges g \<and> deg g b < rg_max_edges g
    then half_edge b a (half_edge a b g) else g)"
  using assms by (simp add: store_edge_def half_edge_def Let_def half_ok_def touch_present)

lemma good_edge_same: "rg_same g g' \<Longrightarrow> good_edge g' e = good_edge g e"
  by (simp add: rg_same_def good_edge_def rg_public_def)

lemma store_edge_ok:
  assumes g: "rgraph_ok g" and e: "good_edge g (a, b)"
  shows "rgraph_ok (store_edge a b g)" and "rg_same g (store_edge a b g)"
proof -
  have h: "half_ok g" using g by (simp add: rgraph_ok_def)
  have ab: "a \<in> set (rg_peers g)" "b \<in> set (rg_peers g)" "a \<noteq> b" using e by (simp_all add: good_edge_def)
  have "rgraph_ok (store_edge a b g) \<and> rg_same g (store_edge a b g)"
  proof (cases "deg g a < rg_max_edges g \<and> deg g b < rg_max_edges g")
    case True
    let ?g1 = "half_edge a b g"
    note A = half_edge_ok [OF h ab(1), of b]
    have s1: "rg_same g ?g1" using A(2) True by simp
    have h1: "half_ok ?g1" using A(1) True by simp
    have b1: "b \<in> set (rg_peers ?g1)" "deg ?g1 b < rg_max_edges ?g1"
      using s1 ab True A(4) [of b] by (simp_all add: rg_same_def)
    note B = half_edge_ok [OF h1 b1, of a]
    have same: "rg_same g (half_edge b a ?g1)" using s1 B(2) by (simp add: rg_same_def)
    have rel: "sd_rel (rg_peer_edges (half_edge b a ?g1)) = insert (b, a) (insert (a, b) (sd_rel (rg_peer_edges g)))"
      using A(3) B(3) True by simp
    have "good_edge g (b, a)" using e by (auto simp: good_edge_def)
    then have "rgraph_ok (half_edge b a ?g1)"
      using B(1) e g unfolding rgraph_ok_def rel good_edge_same [OF same]
      by (auto simp: sym_def)
    then show ?thesis using same store_edge_eq [OF h ab(1,2)] True by simp
  next
    case False
    then show ?thesis using store_edge_eq [OF h ab(1,2)] g by (auto simp: rg_same_def)
  qed
  then show "rgraph_ok (store_edge a b g)" and "rg_same g (store_edge a b g)" by simp_all
qed

lemma store_edges_ok:
  assumes "rgraph_ok g" and "\<forall>e \<in> set es. good_edge g e"
  shows "rgraph_ok (store_edges es g) \<and> rg_same g (store_edges es g)"
  using assms
proof (induction es arbitrary: g)
  case (Cons e es)
  obtain a b where e: "e = (a, b)" by (cases e)
  note S = store_edge_ok [OF Cons.prems(1), of a b]
  have "good_edge g (a, b)" using Cons.prems(2) e by simp
  note S = S [OF this]
  have "\<forall>e \<in> set es. good_edge (store_edge a b g) e" using Cons.prems(2) good_edge_same [OF S(2)] by simp
  from Cons.IH [OF S(1) this] S(2) show ?case by (simp add: store_edges_def e rg_same_def)
qed (simp add: store_edges_def rg_same_def)

lemma half_ok_disjoint: "half_ok g \<Longrightarrow> status_disjoint g"
  unfolding half_ok_def status_ok_def status_disjoint_def by fastforce

text \<open>The edges of a tree, complete or not, join a public peer; the assertion in its loop holds.\<close>

lemma span_loop_ok:
  assumes "set visited \<subseteq> set (rg_peers g)" and "current \<in> set visited"
    and "\<forall>e \<in> set edges. good_edge g e" and "distinct visited"
  shows "\<exists>k' c es. span_loop sample g k visited current edges = Inr (k', c, es) \<and> (\<forall>e \<in> set es. good_edge g e)"
  using assms
proof (induction sample g k visited current edges rule: span_loop.induct)
  case (1 sample g k visited current edges)
  let ?pub = "current \<in> set (rg_public g)"
  let ?nb = "filter (\<lambda>p. p \<notin> set visited) (if \<not> ?pub then rg_public g else rg_peers g)"
  show ?case
  proof (cases "length visited < length (rg_peers g) \<and> ?nb \<noteq> []")
    case False
    then show ?thesis using 1(4) by (subst span_loop.simps) (auto simp: Let_def)
  next
    case True
    then obtain other where o: "pick_random sample k ?nb = Inr other" by (auto simp: pick_random_def)
    have in_nb: "other \<in> set ?nb" using pick_random_in [OF o] .
    have pub: "?pub \<or> other \<in> set (rg_public g)" using in_nb by (auto split: if_splits)
    have other: "other \<in> set (rg_peers g)" "other \<notin> set visited"
      using in_nb by (auto simp: rg_public_def split: if_splits)
    have ge: "good_edge g (current, other)"
      using other 1(2,3) pub by (auto simp: good_edge_def)
    have step: "span_loop sample g k visited current edges
        = span_loop sample g (k + 1) (set_add other visited) other (edges @ [(current, other)])"
      using True o pub by (subst span_loop.simps) (simp add: Let_def)
    show ?thesis unfolding step
      by (rule "1.IH" [OF _ refl refl _ o]) (use True pub other ge 1 in auto)
  qed
qed

lemma new_spanning_tree_ok:
  assumes "rg_peers g \<noteq> []"
  shows "\<exists>k' c es. new_spanning_tree sample k g = Inr (k', c, es) \<and> (\<forall>e \<in> set es. good_edge g e)"
proof -
  from assms obtain p where p: "pick_random sample k (rg_peers g) = Inr p" by (auto simp: pick_random_def)
  from span_loop_ok [of "[p]" g p "[]" sample "k + 1"] pick_random_in [OF p] p show ?thesis
    by (auto simp: new_spanning_tree_def)
qed

lemma generate_edges_ok:
  assumes "rgraph_ok g" and "rg_peers g \<noteq> []"
  shows "(\<exists>g'. generate_edges sample n k g = Inr g' \<and> rgraph_ok g' \<and> rg_same g g')
    \<or> generate_edges sample n k g = Inl (AttributeError ''log'')"
  using assms
proof (induction n arbitrary: k g)
  case (Suc n)
  from new_spanning_tree_ok [OF Suc.prems(2)] obtain k' c es
    where t: "new_spanning_tree sample k g = Inr (k', c, es)" and es: "\<forall>e \<in> set es. good_edge g e" by blast
  note S = store_edges_ok [OF Suc.prems(1) es]
  have d: "status_disjoint (store_edges es g)" using S half_ok_disjoint by (simp add: rgraph_ok_def)
  have p: "rg_peers (store_edges es g) \<noteq> []" using S Suc.prems(2) by (simp add: rg_same_def)
  from Suc.IH [OF conjunct1 [OF S] p, of k'] S
  have I1: "(\<exists>g'. generate_edges sample n k' (store_edges es g) = Inr g' \<and> rgraph_ok g' \<and> rg_same g g')
    \<or> generate_edges sample n k' (store_edges es g) = Inl (AttributeError ''log'')"
    by (auto simp: rg_same_def)
  have I0: "rg_same g g" by (simp add: rg_same_def)
  show ?case
    using S d I1 I0 Suc.prems Suc.IH [OF Suc.prems, of k'] by (simp add: t Let_def)
qed (auto simp: rg_same_def)

section \<open>The table\<close>

lemma rgraph_init_ok:
  assumes "distinct peers"
  shows "rgraph_ok (rgraph_init peers mn ok mx priv)" 
proof -
  have mo: "map_of (map (\<lambda>p. (p, [])) peers) p = (if p \<in> set peers then Some [] else None)" for p :: peer
    by (induction peers) auto
  let ?g = "rgraph_init peers mn ok mx priv"
  have e: "edges_of ?g p = []" for p by (simp add: edges_of_def rgraph_init_def mo)
  have rel: "sd_rel (rg_peer_edges ?g) = {}" by (auto simp: sd_rel_def rgraph_init_def mo split: if_splits)
  have "status_ok ?g p" for p by (simp add: status_ok_def rgraph_init_def)
  then show ?thesis
    using assms unfolding rgraph_ok_def half_ok_def rel e
    by (simp add: sym_def comp_def image_image) (simp add: rgraph_init_def comp_def image_image)
qed

text \<open>The limits always pass the three checks.\<close>

lemma edge_limits_ok:
  assumes "edge_limits ctx = (mn, ok, mx)"
  shows "mn \<le> ok" and "ok \<le> mx"
  using assms by (auto simp: edge_limits_def Let_def split: if_splits)

lemma random_table_ok:
  assumes ctx: "ctx_ok ctx" and r: "rnd_ok r" and tbl: "random_table n r ctx = Inr sd"
  shows "sd_ok sd" and "set (map fst sd) = set (sc_peers ctx)"
    and "(a, b) \<in> sd_rel sd \<Longrightarrow> a \<notin> set (sc_private ctx) \<or> b \<notin> set (sc_private ctx)"
    and "(a, ps) \<in> set sd \<Longrightarrow> distinct ps \<and> length ps \<le> snd (snd (edge_limits ctx))"
proof -
  obtain mn ok mx where lim: "edge_limits ctx = (mn, ok, mx)" by (cases "edge_limits ctx")
  let ?g0 = "rgraph_init (sc_peers ctx) mn ok mx (sc_private ctx)"
  have g0: "rgraph_ok ?g0" "rg_peers ?g0 \<noteq> []"
    using ctx rgraph_init_ok [of "sc_peers ctx"] by (auto simp: ctx_ok_def public_peers_def rgraph_init_def)
  from tbl edge_limits_ok [OF lim] obtain g where ge: "generate_edges (rnd_sample r) n 0 ?g0 = Inr g"
    and sd: "sd = map (\<lambda>(p, s). (p, iter_set r s)) (rg_peer_edges g)"
    by (auto simp: random_table_def lim res_simps)
  from generate_edges_ok [OF g0, of "rnd_sample r" n 0] ge have g: "rgraph_ok g" "rg_same ?g0 g" by auto
  have it: "set (iter_set r s) = set s" "length (iter_set r s) = length s" "distinct (iter_set r s) = distinct s" for s
    using r unfolding rnd_ok_def by (metis set_mset_mset, metis size_mset, metis mset_eq_imp_distinct_iff)
  have fsts: "map fst sd = map fst (rg_peer_edges g)" by (simp add: sd comp_def case_prod_beta)
  have mo: "map_of sd p = map_option (iter_set r) (map_of (rg_peer_edges g) p)" for p
    unfolding sd by (simp add: map_of_map)
  have rel: "sd_rel sd = sd_rel (rg_peer_edges g)" unfolding sd_rel_def mo by (auto simp: it)
  have h: "half_ok g" using g(1) by (simp add: rgraph_ok_def)
  have good: "good_edge g e" if "e \<in> sd_rel sd" for e using that g(1) unfolding rel rgraph_ok_def by blast
  show "sd_ok sd" unfolding sd_ok_def
    using g(1) h good by (auto simp: fsts half_ok_def rel rgraph_ok_def good_edge_def irrefl_def)
  show "set (map fst sd) = set (sc_peers ctx)"
    using h g(2) unfolding fsts by (simp add: half_ok_def rg_same_def rgraph_init_def)
  show "a \<notin> set (sc_private ctx) \<or> b \<notin> set (sc_private ctx)" if "(a, b) \<in> sd_rel sd"
    using good [OF that] g(2) by (auto simp: good_edge_def rg_public_def rg_same_def rgraph_init_def)
  show "distinct ps \<and> length ps \<le> snd (snd (edge_limits ctx))" if "(a, ps) \<in> set sd"
  proof -
    from that obtain s where s: "(a, s) \<in> set (rg_peer_edges g)" "ps = iter_set r s" by (auto simp: sd)
    have "distinct (map fst (rg_peer_edges g))" using h by (simp add: half_ok_def)
    with s(1) have "edges_of g a = s" by (simp add: edges_of_def)
    then have "distinct s \<and> length s \<le> rg_max_edges g" using h unfolding half_ok_def by metis
    then show ?thesis using s(2) it g(2) lim by (simp add: rg_same_def rgraph_init_def)
  qed
qed

text \<open>The only exception the strategy can raise is the missing attribute of its failure path.\<close>

lemma random_table_error:
  assumes "ctx_ok ctx" and "random_table n r ctx = Inl e"
  shows "e = AttributeError ''log''"
proof -
  obtain mn ok mx where lim: "edge_limits ctx = (mn, ok, mx)" by (cases "edge_limits ctx")
  have g0: "rgraph_ok (rgraph_init (sc_peers ctx) mn ok mx (sc_private ctx))"
    "rg_peers (rgraph_init (sc_peers ctx) mn ok mx (sc_private ctx)) \<noteq> []"
    using assms(1) rgraph_init_ok [of "sc_peers ctx"] by (auto simp: ctx_ok_def public_peers_def rgraph_init_def)
  from generate_edges_ok [OF g0, of "rnd_sample r" n 0] assms(2) edge_limits_ok [OF lim]
  show ?thesis by (auto simp: random_table_def lim rbind_Inl_conv)
qed

interpretation random: backbone_strategy random_strategy
proof (unfold_locales, goal_cases)
  case (1 r ctx d) then show ?case
    using static_generate_ok(1) [OF random_table_ok(1)] by (auto simp: random_strategy_def res_simps)
next
  case (2 r ctx d) then show ?case
    using static_generate_ok(2) [OF random_table_ok(1)] by (auto simp: random_strategy_def res_simps)
next
  case (3 r ctx d) then show ?case
    using random_table_ok(2) by (auto simp: random_strategy_def res_simps)
next
  case (4 r ctx d)
  from 4(3) obtain sd where sd: "random_table 100000 r ctx = Inr sd" "d = static_generate sd"
    by (auto simp: random_strategy_def res_simps)
  show ?case unfolding sd(2)
    by (rule static_private_ok [OF random_table_ok(1) [OF 4(2,1) sd(1)]]) (rule random_table_ok(3) [OF 4(2,1) sd(1)])
qed


definition demo_random_ctx :: strategy_ctx where
  "demo_random_ctx = \<lparr>sc_peers = [1, 2], sc_private = []\<rparr>"

definition demo_random :: rnd where
  "demo_random = \<lparr>shuffle_public = \<lambda>xs. xs, shuffle_private = \<lambda>xs. xs, iter_set = \<lambda>xs. xs, rnd_sample = \<lambda>n. n\<rparr>"


end
