(* ===== verification/Vpn_Keymat.thy ===== *)
theory Vpn_Keymat
  imports Paired_Map Uno_Text
begin

text \<open>
  Key material of the VPNs (\<open>uno/registry/vpn_keymat.py\<close>, \<open>wg_key.py\<close>): the maps of paired keys, the
  material of a star VPN and of a mesh. A key object is a record; new key material comes from an
  external command (\<open>wg genkey\<close>), so it is the argument \<open>gen\<close>, read at a counter that advances. The calls
  on the database are recorded in order. A subclass of \<open>VpnKeysMap\<close> is the record of its overrides.
\<close>

section \<open>Keys\<close>

record 'm wkey =
  wk_id :: string
  wk_material :: 'm
  wk_dropped :: bool
  wk_saved :: bool

datatype 'm db_call = SaveKey "'m wkey" | DeleteKey "'m wkey" | DeleteDropped string

text \<open>A new key is in the database as soon as it is made: \<open>new_child\<close> saves it.\<close>

definition new_key :: "(nat \<Rightarrow> 'm) \<Rightarrow> string \<Rightarrow> nat \<Rightarrow> 'm wkey \<times> nat" where
  "new_key gen kid n = (\<lparr>wk_id = kid, wk_material = gen n, wk_dropped = False, wk_saved = True\<rparr>, n + 1)"

definition drop_mark :: "'m wkey \<Rightarrow> 'm wkey" where
  "drop_mark k = k\<lparr>wk_dropped := True, wk_saved := False\<rparr>"

text \<open>\<open>KEYS\<close>, \<open>iterate_keys\<close>, \<open>load_key\<close> and \<open>generate_val\<close> of a subclass.\<close>

record ('m, 'k) keys_class =
  kc_iterate :: "'k \<Rightarrow> 'm wkey list"
  kc_update :: "('m wkey \<Rightarrow> 'm wkey) \<Rightarrow> 'k \<Rightarrow> 'k"
  kc_load :: "'k pmap \<Rightarrow> peer \<times> peer \<Rightarrow> 'm wkey \<Rightarrow> string option \<Rightarrow> 'k pmap res"
  kc_generate :: "(nat \<Rightarrow> 'm) \<Rightarrow> string \<Rightarrow> peer \<times> peer \<Rightarrow> nat \<Rightarrow> 'k \<times> nat"

definition map_key_id :: "string \<Rightarrow> peer \<times> peer \<Rightarrow> string option \<Rightarrow> string" where
  "map_key_id prefix pair extra =
     prefix @ '':'' @ json_pair pair @ (case extra of None \<Rightarrow> [] | Some e \<Rightarrow> if e = [] then [] else CHR '':'' # e)"

text \<open>The preshared keys: one key per pair.\<close>

definition psk_class :: "('m, 'm wkey) keys_class" where
  "psk_class = \<lparr>kc_iterate = \<lambda>k. [k], kc_update = \<lambda>f k. f k,
     kc_load = \<lambda>loaded pair key _. Inr (AList.update pair key loaded),
     kc_generate = \<lambda>gen prefix pair n. new_key gen (map_key_id prefix pair None) n\<rparr>"

text \<open>The paired keys: a list with the key of each end.\<close>

definition list_insert :: "nat \<Rightarrow> 'a \<Rightarrow> 'a list \<Rightarrow> 'a list" where
  "list_insert i x xs = take i xs @ x # drop i xs"

definition paired_load ::
  "'m wkey list pmap \<Rightarrow> peer \<times> peer \<Rightarrow> 'm wkey \<Rightarrow> string option \<Rightarrow> 'm wkey list pmap res" where
  "paired_load loaded pair key key_id =
     (case key_id of
        None \<Rightarrow> Inl (TypeError ''int'')
      | Some s \<Rightarrow>
          (case read_nat s of
             None \<Rightarrow> Inl (ValueError ''int'')
           | Some key_i \<Rightarrow>
               let pair_keys = (case map_of loaded pair of None \<Rightarrow> [] | Some ks \<Rightarrow> ks)
               in Inr (AList.update pair (list_insert key_i key pair_keys) loaded)))"

definition paired_generate ::
  "(nat \<Rightarrow> 'm) \<Rightarrow> string \<Rightarrow> peer \<times> peer \<Rightarrow> nat \<Rightarrow> 'm wkey list \<times> nat" where
  "paired_generate gen prefix pair n =
     (let (k0, n1) = new_key gen (map_key_id prefix pair None @ '':'' @ show_nat 0) n;
          (k1, n2) = new_key gen (map_key_id prefix pair None @ '':'' @ show_nat 1) n1
      in ([k0, k1], n2))"

definition paired_class :: "('m, 'm wkey list) keys_class" where
  "paired_class = \<lparr>kc_iterate = \<lambda>ks. ks, kc_update = map, kc_load = paired_load, kc_generate = paired_generate\<rparr>"

section \<open>The map of keys\<close>

record ('m, 'k) keys_map =
  km_prefix :: string
  km_prefer_dropped :: bool
  km_readonly :: bool
  km_content :: "'k pmap"
  km_dropped :: "'k pmap"
  km_deleted :: "'k pmap"
  km_gen :: nat
  km_calls :: "'m db_call list"

text \<open>\<open>_load_content\<close>: the keys of the table whose id has the prefix, in the table's order.\<close>

fun load_keys ::
  "('m, 'k) keys_class \<Rightarrow> string \<Rightarrow> bool \<Rightarrow> 'm wkey list \<Rightarrow> 'k pmap \<Rightarrow> 'k pmap res" where
  "load_keys kc prefix dropped [] loaded = Inr loaded"
| "load_keys kc prefix dropped (key # rows) loaded =
     (if sql_like (prefix @ '':%'') (wk_id key) \<and> wk_dropped key = dropped then
        (let key_id = drop (length prefix + 1) (wk_id key);
             (pair_str, extra) = (case find_char (CHR '':'') key_id of
                 Some (Suc i) \<Rightarrow> (take (Suc i) key_id, Some (drop (Suc (Suc i)) key_id))
               | _ \<Rightarrow> (key_id, None)) in
         rbind (the_or (ValueError ''json'') (read_json_pair pair_str)) (\<lambda>pair.
         rbind (kc_load kc loaded pair key (if extra = Some [] then None else extra)) (\<lambda>loaded'.
           load_keys kc prefix dropped rows loaded')))
      else load_keys kc prefix dropped rows loaded)"

definition load_content ::
  "('m, 'k) keys_class \<Rightarrow> string \<Rightarrow> bool \<Rightarrow> 'm wkey list \<Rightarrow> 'k pmap res" where
  "load_content kc prefix prefer_dropped rows =
     (if prefer_dropped then
        rbind (load_keys kc prefix True rows []) (\<lambda>loaded.
        rbind (load_keys kc prefix False rows []) (\<lambda>others.
          Inr (foldl (\<lambda>l (pair, key). if map_of l pair = None then AList.update pair key l else l) loaded others)))
      else load_keys kc prefix False rows [])"

text \<open>\<open>assert_pair\<close>: in read-only mode the dispatch returns the value alone, not a pair with a flag.\<close>

datatype 'k asserted = Asserted 'k bool | Bare 'k

definition km_assert_pair ::
  "('m, 'k) keys_class \<Rightarrow> (nat \<Rightarrow> 'm) \<Rightarrow> peer \<Rightarrow> peer \<Rightarrow> ('m, 'k) keys_map
   \<Rightarrow> ('k asserted \<times> ('m, 'k) keys_map) res" where
  "km_assert_pair kc gen peer_a peer_b self =
     (if km_readonly self
      then (case get_pair peer_a peer_b (km_content self) of
              Inl _ \<Rightarrow> Inl (RuntimeError ''MissingKeyMaterial'')
            | Inr v \<Rightarrow> Inr (Bare v, self))
      else rbind (assert_pair (\<lambda>a b n. let (v, n') = kc_generate kc gen (km_prefix self) (pair_key a b) n in Inr (Some v, n'))
                    peer_a peer_b NoVal (km_content self, km_gen self)) (\<lambda>((v, asserted), m, n).
             Inr (Asserted v asserted, self\<lparr>km_content := m, km_gen := n,
               km_calls := km_calls self @ (if asserted then map SaveKey (kc_iterate kc v) else [])\<rparr>)))"

text \<open>\<open>_drop_pair\<close> marks the key objects, which the caller's map still holds.\<close>

definition drop_pair ::
  "('m, 'k) keys_class \<Rightarrow> peer \<times> peer \<Rightarrow> 'k \<Rightarrow> bool \<Rightarrow> ('m, 'k) keys_map \<Rightarrow> ('m, 'k) keys_map res" where
  "drop_pair kc pair keys delete self =
     (if km_readonly self then Inl (RuntimeError ''readonly'')
      else (let keys' = kc_update kc drop_mark keys in
        Inr (if delete \<and> map_of (km_deleted self) pair = None
             then self\<lparr>km_deleted := AList.update pair keys' (km_deleted self)\<rparr>
             else if \<not> delete \<and> map_of (km_dropped self) pair = None
             then self\<lparr>km_dropped := AList.update pair keys' (km_dropped self)\<rparr>
             else self)))"

definition wants_delete :: "bool \<Rightarrow> (peer \<times> bool) list \<Rightarrow> peer \<times> peer \<Rightarrow> bool" where
  "wants_delete delete delete_map pair \<longleftrightarrow> delete \<or> map_of delete_map (fst pair) = Some True
     \<or> map_of delete_map (snd pair) = Some True"

fun drop_pairs ::
  "('m, 'k) keys_class \<Rightarrow> bool \<Rightarrow> (peer \<times> bool) list \<Rightarrow> 'k pmap \<Rightarrow> ('m, 'k) keys_map \<Rightarrow> ('m, 'k) keys_map res" where
  "drop_pairs kc delete delete_map [] self = Inr self"
| "drop_pairs kc delete delete_map ((pair, keys) # ps) self =
     rbind (drop_pair kc pair keys (wants_delete delete delete_map pair) self)
       (drop_pairs kc delete delete_map ps)"

text \<open>\<open>save\<close> after the changed keys of the content: dropped keys are saved and forgotten; deleted keys
  are deleted from the database and stay in \<open>deleted\<close>.\<close>

definition km_save :: "('m, 'k) keys_class \<Rightarrow> ('m, 'k) keys_map \<Rightarrow> ('m, 'k) keys_map" where
  "km_save kc self =
     self\<lparr>km_dropped := [],
          km_calls := km_calls self
            @ map SaveKey (concat (map (kc_iterate kc \<circ> snd) (km_dropped self)))
            @ map DeleteKey (concat (map (kc_iterate kc \<circ> snd) (km_deleted self)))\<rparr>"

definition mark_saved :: "'m wkey \<Rightarrow> 'm wkey" where
  "mark_saved k = k\<lparr>wk_saved := True\<rparr>"

definition km_db_save :: "('m, 'k) keys_class \<Rightarrow> ('m, 'k) keys_map \<Rightarrow> ('m, 'k) keys_map" where
  "km_db_save kc self =
     km_save kc (self\<lparr>km_content := map (\<lambda>(p, k). (p, kc_update kc mark_saved k)) (km_content self),
       km_calls := km_calls self @ map SaveKey (filter (\<lambda>k. \<not> wk_saved k)
         (concat (map (kc_iterate kc \<circ> snd) (km_content self))))\<rparr>)"

definition km_purge_peer ::
  "('m, 'k) keys_class \<Rightarrow> peer \<Rightarrow> bool \<Rightarrow> (peer \<times> bool) list \<Rightarrow> ('m, 'k) keys_map
   \<Rightarrow> ('k pmap \<times> ('m, 'k) keys_map) res" where
  "km_purge_peer kc peer delete delete_map self =
     (if km_readonly self then Inr ([], self)
      else rbind (purge_peer peer (km_content self)) (\<lambda>(purged, m).
           rbind (drop_pairs kc delete delete_map purged (self\<lparr>km_content := m\<rparr>)) (\<lambda>self1.
             Inr (map (\<lambda>(p, k). (p, kc_update kc drop_mark k)) purged, if \<exists>pk \<in> set purged. wants_delete delete delete_map (fst pk)
                          then km_db_save kc self1 else self1))))"

definition km_drop_keys ::
  "('m, 'k) keys_class \<Rightarrow> bool \<Rightarrow> (peer \<times> bool) list \<Rightarrow> ('m, 'k) keys_map \<Rightarrow> (nat \<times> ('m, 'k) keys_map) res" where
  "km_drop_keys kc delete delete_map self =
     (if km_readonly self then Inr (0, self)
      else rbind (drop_pairs kc delete delete_map (km_content self) self) (\<lambda>self1.
           let self2 = self1\<lparr>km_content := []\<rparr> in
           Inr (length (km_content self),
                if \<exists>pk \<in> set (km_content self). wants_delete delete delete_map (fst pk)
                then km_db_save kc self2 else self2)))"

definition km_clean_dropped :: "('m, 'k) keys_map \<Rightarrow> ('m, 'k) keys_map" where
  "km_clean_dropped self = self\<lparr>km_calls := km_calls self @ [DeleteDropped (km_prefix self @ '':%'')]\<rparr>"

section \<open>The material of a star: one root, its peers\<close>

record ('m, 'p) central_keymat =
  cm_prefix :: string
  cm_peer_ids :: "peer list"
  cm_prefer_dropped :: bool
  cm_readonly :: bool
  cm_root_key :: "'m wkey option"
  cm_peer_keys :: "(peer \<times> 'm wkey) list"
  cm_psks :: "('p, 'p wkey) keys_map"
  cm_dropped :: "'m wkey list"
  cm_deleted :: "'m wkey list"
  cm_gen :: nat
  cm_calls :: "'m db_call list"

definition cm_prefix_peer :: "string \<Rightarrow> peer \<Rightarrow> string" where
  "cm_prefix_peer prefix peer_id = prefix @ '':peer:'' @ show_int peer_id"

text \<open>Keys are compared by their id and their dropped flag (\<open>EQ_PROPERTIES\<close>).\<close>

definition key_in :: "'m wkey \<Rightarrow> 'm wkey list \<Rightarrow> bool" where
  "key_in k ks \<longleftrightarrow> (\<exists>k' \<in> set ks. wk_id k' = wk_id k \<and> wk_dropped k' = wk_dropped k)"

fun assert_peers ::
  "(nat \<Rightarrow> 'm) \<Rightarrow> (nat \<Rightarrow> 'p) \<Rightarrow> peer list \<Rightarrow> ('m, 'p) central_keymat \<Rightarrow> ('m, 'p) central_keymat res" where
  "assert_peers gen pgen [] self = Inr self"
| "assert_peers gen pgen (peer_id # ps) self =
     (let self1 = (case map_of (cm_peer_keys self) peer_id of
            None \<Rightarrow> (let (k, n) = new_key gen (cm_prefix_peer (cm_prefix self) peer_id) (cm_gen self)
                     in self\<lparr>cm_peer_keys := AList.update peer_id k (cm_peer_keys self), cm_gen := n,
                          cm_calls := cm_calls self @ [SaveKey k]\<rparr>)
          | Some _ \<Rightarrow> self) in
      rbind (km_assert_pair psk_class pgen 0 peer_id (cm_psks self1)) (\<lambda>(_, psks).
        assert_peers gen pgen ps (self1\<lparr>cm_psks := psks\<rparr>)))"

definition cm_assert_keys ::
  "(nat \<Rightarrow> 'm) \<Rightarrow> (nat \<Rightarrow> 'p) \<Rightarrow> ('m, 'p) central_keymat \<Rightarrow> ('m, 'p) central_keymat res" where
  "cm_assert_keys gen pgen self =
     (if cm_readonly self then Inr self
      else (let self1 = (case cm_root_key self of
              None \<Rightarrow> (let (k, n) = new_key gen (cm_prefix self @ '':root'') (cm_gen self)
                       in self\<lparr>cm_root_key := Some k, cm_gen := n, cm_calls := cm_calls self @ [SaveKey k]\<rparr>)
            | Some _ \<Rightarrow> self)
            in assert_peers gen pgen (cm_peer_ids self1) self1))"

definition cm_drop_key :: "'m wkey \<Rightarrow> bool \<Rightarrow> ('m, 'p) central_keymat \<Rightarrow> ('m, 'p) central_keymat res" where
  "cm_drop_key key delete self =
     (if cm_readonly self then Inl (RuntimeError ''readonly'')
      else (let key' = drop_mark key in
        Inr (if delete \<and> \<not> key_in key' (cm_deleted self) then self\<lparr>cm_deleted := cm_deleted self @ [key']\<rparr>
             else if \<not> delete \<and> \<not> key_in key' (cm_dropped self) then self\<lparr>cm_dropped := cm_dropped self @ [key']\<rparr>
             else self)))"

text \<open>\<open>save\<close> of the object, after the keys that \<open>collect_changes\<close> found in it and in its map.\<close>

definition unsaved :: "'m wkey list \<Rightarrow> 'm wkey list" where
  "unsaved = filter (\<lambda>k. \<not> wk_saved k)"

definition cm_db_save :: "('m, 'p) central_keymat \<Rightarrow> ('m, 'p) central_keymat" where
  "cm_db_save self =
     self\<lparr>cm_calls := cm_calls self
            @ map SaveKey (unsaved ((case cm_root_key self of None \<Rightarrow> [] | Some k \<Rightarrow> [k])
                @ map snd (cm_peer_keys self) @ cm_dropped self))
            @ map DeleteKey (cm_deleted self),
          cm_root_key := map_option mark_saved (cm_root_key self),
          cm_peer_keys := map (\<lambda>(p, k). (p, mark_saved k)) (cm_peer_keys self),
          cm_psks := km_db_save psk_class (cm_psks self),
          cm_dropped := [], cm_deleted := []\<rparr>"

fun purge_gone_loop ::
  "peer set \<Rightarrow> bool \<Rightarrow> (peer \<times> bool) list \<Rightarrow> peer list \<Rightarrow> peer list \<times> peer list
   \<Rightarrow> ('m, 'p) central_keymat \<Rightarrow> ((peer list \<times> peer list) \<times> ('m, 'p) central_keymat) res" where
  "purge_gone_loop peer_ids delete delete_map [] acc self = Inr (acc, self)"
| "purge_gone_loop peer_ids delete delete_map (peer_id # ps) (deleted, dropped) self =
     (if peer_id \<in> peer_ids then purge_gone_loop peer_ids delete delete_map ps (deleted, dropped) self
      else (let delete_key = (delete \<or> map_of delete_map peer_id = Some True) in
        rbind (the_or KeyError (map_of (cm_peer_keys self) peer_id)) (\<lambda>key.
        rbind (cm_drop_key key delete_key self) (\<lambda>self1.
        let self2 = self1\<lparr>cm_peer_keys := AList.delete peer_id (cm_peer_keys self1)\<rparr> in
        rbind (km_purge_peer psk_class peer_id delete delete_map (cm_psks self2)) (\<lambda>(_, psks).
          purge_gone_loop peer_ids delete delete_map ps
            (if delete_key then (deleted @ [peer_id], dropped) else (deleted, dropped @ [peer_id]))
            (self2\<lparr>cm_psks := psks\<rparr>))))))"

definition cm_purge_gone_peers ::
  "peer list \<Rightarrow> bool \<Rightarrow> (peer \<times> bool) list \<Rightarrow> ('m, 'p) central_keymat \<Rightarrow> (peer list \<times> ('m, 'p) central_keymat) res" where
  "cm_purge_gone_peers peer_ids delete delete_map self =
     (if cm_readonly self then Inr ([], self)
      else rbind (purge_gone_loop (set peer_ids) delete delete_map (map fst (cm_peer_keys self)) ([], []) self)
        (\<lambda>((deleted, dropped), self1).
          Inr (deleted @ dropped, if deleted \<noteq> [] then cm_db_save self1 else self1)))"

fun drop_peer_keys ::
  "bool \<Rightarrow> (peer \<times> bool) list \<Rightarrow> (peer \<times> 'm wkey) list \<Rightarrow> ('m, 'p) central_keymat \<Rightarrow> ('m, 'p) central_keymat res" where
  "drop_peer_keys delete delete_map [] self = Inr self"
| "drop_peer_keys delete delete_map ((peer_id, key) # ks) self =
     rbind (cm_drop_key key (delete \<or> map_of delete_map peer_id = Some True) self)
       (drop_peer_keys delete delete_map ks)"

definition cm_drop_keys ::
  "bool \<Rightarrow> (peer \<times> bool) list \<Rightarrow> ('m, 'p) central_keymat \<Rightarrow> (nat \<times> ('m, 'p) central_keymat) res" where
  "cm_drop_keys delete delete_map self =
     (if cm_readonly self then Inr (0, self)
      else
        (let dropping = (case cm_root_key self of None \<Rightarrow> [] | Some k \<Rightarrow> [(0, k)]) @ cm_peer_keys self;
             deleted = filter (\<lambda>(p, _). delete \<or> map_of delete_map p = Some True) dropping in
         rbind (drop_peer_keys delete delete_map dropping self) (\<lambda>self1.
         let self2 = self1\<lparr>cm_root_key := None, cm_peer_keys := []\<rparr> in
         rbind (km_drop_keys psk_class delete delete_map (cm_psks self2)) (\<lambda>(count_preshared, psks).
         let self3 = self2\<lparr>cm_psks := psks\<rparr> in
           Inr (card (fst ` set dropping) + count_preshared,
                if deleted \<noteq> [] then cm_db_save self3 else self3)))))"

definition cm_clean_dropped :: "('m, 'p) central_keymat \<Rightarrow> ('m, 'p) central_keymat" where
  "cm_clean_dropped self =
     self\<lparr>cm_calls := cm_calls self @ [DeleteDropped (cm_prefix self @ '':%'')],
          cm_psks := km_clean_dropped (cm_psks self)\<rparr>"

datatype ('m, 'p) material = KeyOf "'m wkey" | PskOf "'p wkey"

text \<open>\<open>get_peer_material\<close>: every \<open>KeyError\<close> becomes \<open>MissingKeyMaterial\<close>.\<close>

definition missing :: "'a res \<Rightarrow> 'a res" where
  "missing r = (case r of Inl KeyError \<Rightarrow> Inl (RuntimeError ''MissingKeyMaterial'') | _ \<Rightarrow> r)"

definition cm_get_peer_material ::
  "peer \<Rightarrow> bool \<Rightarrow> ('m, 'p) central_keymat \<Rightarrow> ('m, 'p) material list res" where
  "cm_get_peer_material peer private self =
     missing
       (if peer = 0 then
          rbind (if private then rbind (the_or KeyError (cm_root_key self)) (\<lambda>k. Inr [KeyOf k]) else Inr []) (\<lambda>rs.
          rbind (rmap (\<lambda>p. if \<not> private then rbind (the_or KeyError (map_of (cm_peer_keys self) p)) (\<lambda>k. Inr (KeyOf k))
                           else rbind (get_pair 0 p (km_content (cm_psks self))) (\<lambda>k. Inr (PskOf k)))
                  (cm_peer_ids self)) (\<lambda>ks. Inr (rs @ ks)))
        else if private then
          rbind (the_or KeyError (map_of (cm_peer_keys self) peer)) (\<lambda>k.
          rbind (get_pair 0 peer (km_content (cm_psks self))) (\<lambda>psk. Inr [KeyOf k, PskOf psk]))
        else rbind (the_or KeyError (cm_root_key self)) (\<lambda>k. Inr [KeyOf k]))"

section \<open>The material of a mesh\<close>

record ('m, 'p) p2p_keymat =
  pp_prefix :: string
  pp_readonly :: bool
  pp_pair_keys :: "('m, 'm wkey list) keys_map"
  pp_psks :: "('p, 'p wkey) keys_map"

definition empty_keys_map :: "string \<Rightarrow> bool \<Rightarrow> bool \<Rightarrow> ('m, 'k) keys_map" where
  "empty_keys_map prefix prefer_dropped readonly =
     \<lparr>km_prefix = prefix, km_prefer_dropped = prefer_dropped, km_readonly = readonly, km_content = [],
      km_dropped = [], km_deleted = [], km_gen = 0, km_calls = []\<rparr>"

definition pp_get_pair_material ::
  "peer \<Rightarrow> peer \<Rightarrow> ('m, 'p) p2p_keymat \<Rightarrow> ('m wkey list \<times> 'p wkey) res" where
  "pp_get_pair_material peer_a peer_b self =
     missing (rbind (get_pair peer_a peer_b (km_content (pp_pair_keys self))) (\<lambda>keys.
              rbind (get_pair peer_a peer_b (km_content (pp_psks self))) (\<lambda>psk. Inr (keys, psk))))"

definition unpack :: "'k asserted \<Rightarrow> ('k \<times> bool) res" where
  "unpack v = (case v of Asserted k b \<Rightarrow> Inr (k, b) | Bare _ \<Rightarrow> Inl (TypeError ''cannot unpack''))"

text \<open>\<open>load_nested\<close> builds the two maps writable, so the second case of \<open>unpack\<close> is not reached here.\<close>

definition pp_assert_pair ::
  "(nat \<Rightarrow> 'm) \<Rightarrow> (nat \<Rightarrow> 'p) \<Rightarrow> peer \<Rightarrow> peer \<Rightarrow> ('m, 'p) p2p_keymat
   \<Rightarrow> ((('m wkey list \<times> 'p wkey) \<times> bool) \<times> ('m, 'p) p2p_keymat) res" where
  "pp_assert_pair gen pgen peer_a peer_b self =
     (if pp_readonly self
      then rbind (pp_get_pair_material peer_a peer_b self) (\<lambda>kp. Inr ((kp, False), self))
      else rbind (km_assert_pair paired_class gen peer_a peer_b (pp_pair_keys self)) (\<lambda>(ak, pk).
           rbind (unpack ak) (\<lambda>(keys, asserted_k).
           rbind (km_assert_pair psk_class pgen peer_a peer_b (pp_psks self)) (\<lambda>(ap, ps).
           rbind (unpack ap) (\<lambda>(psk, asserted_p).
             Inr (((keys, psk), asserted_k \<or> asserted_p), self\<lparr>pp_pair_keys := pk, pp_psks := ps\<rparr>))))))"

definition pp_drop_keys :: "bool \<Rightarrow> ('m, 'p) p2p_keymat \<Rightarrow> (nat \<times> ('m, 'p) p2p_keymat) res" where
  "pp_drop_keys delete self =
     (if pp_readonly self then Inr (0, self)
      else rbind (km_drop_keys paired_class delete [] (pp_pair_keys self)) (\<lambda>(ck, pk).
           rbind (km_drop_keys psk_class delete [] (pp_psks self)) (\<lambda>(cp, ps).
             Inr (ck + cp, self\<lparr>pp_pair_keys := if delete \<and> ck > 0 then km_db_save paired_class pk else pk,
                                pp_psks := if delete \<and> cp > 0 then km_db_save psk_class ps else ps\<rparr>))))"

text \<open>The keys of one peer: its own of every pair (with the preshared keys), or the other ends'.\<close>

definition pick_list :: "peer \<Rightarrow> peer \<Rightarrow> peer \<Rightarrow> 'a list \<Rightarrow> 'a res" where
  "pick_list peer_a peer_b peer_target val =
     (if fst (pair_key peer_a peer_b) = peer_target then nth_res val 0 else nth_res val 1)"

definition pp_get_peer_material ::
  "peer \<Rightarrow> bool \<Rightarrow> ('m, 'p) p2p_keymat \<Rightarrow> ('m, 'p) material list res" where
  "pp_get_peer_material peer private self =
     rbind (rmap (\<lambda>(pair, keys).
              rbind (if fst pair \<noteq> peer then Inr (fst pair)
                     else if snd pair \<noteq> peer then Inr (snd pair) else Inl StopIteration) (\<lambda>other.
              rbind (pick_list peer other (if private then peer else other) keys) (\<lambda>k. Inr (KeyOf k))))
             (filter (\<lambda>(pair, _). mentions peer pair) (km_content (pp_pair_keys self)))) (\<lambda>ks.
       Inr (ks @ (if private then map (PskOf \<circ> snd) (filter (\<lambda>(pair, _). mentions peer pair) (km_content (pp_psks self)))
                  else [])))"

section \<open>The maps are pair stores\<close>

lemma km_assert_eq:
  "\<not> km_readonly self \<Longrightarrow> km_assert_pair kc gen a b self =
     (case map_of (km_content self) (pair_key a b) of
        Some v \<Rightarrow> Inr (Asserted v False, self)
      | None \<Rightarrow> (let (v, n) = kc_generate kc gen (km_prefix self) (pair_key a b) (km_gen self)
                 in Inr (Asserted v True, self\<lparr>km_content := AList.update (pair_key a b) v (km_content self), km_gen := n,
                      km_calls := km_calls self @ map SaveKey (kc_iterate kc v)\<rparr>)))"
  by (auto simp: km_assert_pair_def assert_pair_def stored_val_def Let_def split: option.splits prod.splits)

definition km_ok :: "('m, 'k) keys_map \<Rightarrow> bool" where
  "km_ok self \<longleftrightarrow> pmap_ok (km_content self) \<and> \<not> km_readonly self"

definition km_look :: "('m, 'k) keys_map \<Rightarrow> peer \<Rightarrow> peer \<Rightarrow> 'k option" where
  "km_look self a b = map_of (km_content self) (pair_key a b)"

definition km_put ::
  "('m, 'k) keys_class \<Rightarrow> (nat \<Rightarrow> 'm) \<Rightarrow> ('m, 'k) keys_map \<Rightarrow> peer \<Rightarrow> peer \<Rightarrow> ('k \<times> ('m, 'k) keys_map) res" where
  "km_put kc gen self a b =
     rbind (km_assert_pair kc gen a b self) (\<lambda>(v, self'). rbind (unpack v) (\<lambda>(k, _). Inr (k, self')))"

lemma km_put_eq:
  "\<not> km_readonly self \<Longrightarrow> km_put kc gen self a b =
     (case km_look self a b of
        Some v \<Rightarrow> Inr (v, self)
      | None \<Rightarrow> (let (v, n) = kc_generate kc gen (km_prefix self) (pair_key a b) (km_gen self)
                 in Inr (v, self\<lparr>km_content := AList.update (pair_key a b) v (km_content self), km_gen := n,
                      km_calls := km_calls self @ map SaveKey (kc_iterate kc v)\<rparr>)))"
  by (auto simp: km_put_def km_assert_eq km_look_def unpack_def split: option.splits prod.splits)

interpretation km: pair_store km_ok km_look "km_put kc gen"
proof (unfold_locales, goal_cases)
  case (1 m a b) show ?case by (simp add: km_look_def pair_key_commute)
next
  case (2 m a b v m') then show ?case
    by (auto simp: km_ok_def km_put_eq km_look_def split: option.splits prod.splits)
next
  case (3 m a b v m' c d w) then show ?case
    by (auto simp: km_ok_def km_put_eq km_look_def split: option.splits prod.splits)
next
  case (4 m a b v) then show ?case by (simp add: km_ok_def km_put_eq)
next
  case (5 m a b v m') then show ?case
    by (auto simp: km_ok_def km_put_eq split: option.splits prod.splits)
qed

lemma km_put_total: "km_ok self \<Longrightarrow> \<exists>v self'. km_put kc gen self a b = Inr (v, self')"
  by (auto simp: km_ok_def km_put_eq split: option.splits prod.splits)

definition pp_ok :: "('m, 'p) p2p_keymat \<Rightarrow> bool" where
  "pp_ok self \<longleftrightarrow> \<not> pp_readonly self \<and> km_ok (pp_pair_keys self) \<and> km_ok (pp_psks self)"

definition pp_look :: "('m, 'p) p2p_keymat \<Rightarrow> peer \<Rightarrow> peer \<Rightarrow> ('m wkey list \<times> 'p wkey) option" where
  "pp_look self a b = (case (km_look (pp_pair_keys self) a b, km_look (pp_psks self) a b) of
     (Some k, Some p) \<Rightarrow> Some (k, p) | _ \<Rightarrow> None)"

definition pp_put ::
  "(nat \<Rightarrow> 'm) \<Rightarrow> (nat \<Rightarrow> 'p) \<Rightarrow> ('m, 'p) p2p_keymat \<Rightarrow> peer \<Rightarrow> peer
   \<Rightarrow> (('m wkey list \<times> 'p wkey) \<times> ('m, 'p) p2p_keymat) res" where
  "pp_put gen pgen self a b = rbind (pp_assert_pair gen pgen a b self) (\<lambda>((kp, _), self'). Inr (kp, self'))"

lemma pp_put_eq:
  "\<not> pp_readonly self \<Longrightarrow> pp_put gen pgen self a b =
     rbind (km_put paired_class gen (pp_pair_keys self) a b) (\<lambda>(k, pk).
     rbind (km_put psk_class pgen (pp_psks self) a b) (\<lambda>(p, ps).
       Inr ((k, p), self\<lparr>pp_pair_keys := pk, pp_psks := ps\<rparr>)))"
  unfolding pp_put_def pp_assert_pair_def km_put_def
  by (cases "km_assert_pair paired_class gen a b (pp_pair_keys self)";
      cases "unpack (fst (projr (km_assert_pair paired_class gen a b (pp_pair_keys self))))";
      cases "km_assert_pair psk_class pgen a b (pp_psks self)";
      cases "unpack (fst (projr (km_assert_pair psk_class pgen a b (pp_psks self))))")
    (auto simp: split: prod.splits)

lemma pp_put_Inr:
  assumes "pp_ok self" and "pp_put gen pgen self a b = Inr (kp, self')"
  obtains pk ps where "km_put paired_class gen (pp_pair_keys self) a b = Inr (fst kp, pk)"
    and "km_put psk_class pgen (pp_psks self) a b = Inr (snd kp, ps)"
    and "self' = self\<lparr>pp_pair_keys := pk, pp_psks := ps\<rparr>"
  using assms by (auto simp: pp_ok_def pp_put_eq res_simps)

lemma pp_look_Some:
  "pp_look self a b = Some kp \<longleftrightarrow>
     km_look (pp_pair_keys self) a b = Some (fst kp) \<and> km_look (pp_psks self) a b = Some (snd kp)"
  by (cases kp) (auto simp: pp_look_def split: option.splits)

interpretation pp: pair_store pp_ok pp_look "pp_put gen pgen"
proof (unfold_locales, goal_cases)
  case (1 m a b) show ?case by (simp add: pp_look_def km_look_def pair_key_commute)
next
  case (2 m a b v m')
  from 2 obtain pk ps where "km_put paired_class gen (pp_pair_keys m) a b = Inr (fst v, pk)"
    and "km_put psk_class pgen (pp_psks m) a b = Inr (snd v, ps)" and "m' = m\<lparr>pp_pair_keys := pk, pp_psks := ps\<rparr>"
    by (rule pp_put_Inr)
  with 2(1) show ?case by (auto simp: pp_look_Some pp_ok_def intro: km.put_look)
next
  case (3 m a b v m' c d w)
  from 3(1,2) obtain pk ps where "km_put paired_class gen (pp_pair_keys m) a b = Inr (fst v, pk)"
    and "km_put psk_class pgen (pp_psks m) a b = Inr (snd v, ps)" and "m' = m\<lparr>pp_pair_keys := pk, pp_psks := ps\<rparr>"
    by (rule pp_put_Inr)
  with 3(1,3) show ?case by (auto simp: pp_look_Some pp_ok_def dest: km.put_keeps)
next
  case (4 m a b v)
  then show ?case
    by (simp add: pp_look_Some pp_ok_def pp_put_eq km.put_hit [where v = "fst v"] km.put_hit [where v = "snd v"])
next
  case (5 m a b v m')
  from 5 obtain pk ps where "km_put paired_class gen (pp_pair_keys m) a b = Inr (fst v, pk)"
    and "km_put psk_class pgen (pp_psks m) a b = Inr (snd v, ps)" and "m' = m\<lparr>pp_pair_keys := pk, pp_psks := ps\<rparr>"
    by (rule pp_put_Inr)
  with 5(1) show ?case by (auto simp: pp_ok_def dest: km.put_invar)
qed

lemma pp_put_total:
  assumes "pp_ok self" shows "\<exists>kp self'. pp_put gen pgen self a b = Inr (kp, self')"
proof -
  have ok: "km_ok (pp_pair_keys self)" "km_ok (pp_psks self)" "\<not> pp_readonly self"
    using assms by (simp_all add: pp_ok_def)
  obtain k pk where "km_put paired_class gen (pp_pair_keys self) a b = Inr (k, pk)"
    using km_put_total [OF ok(1)] by blast
  moreover obtain p ps where "km_put psk_class pgen (pp_psks self) a b = Inr (p, ps)"
    using km_put_total [OF ok(2)] by blast
  ultimately show ?thesis using ok(3) by (simp add: pp_put_eq)
qed

section \<open>What a star asserts\<close>

definition cm_ok :: "('m, 'p) central_keymat \<Rightarrow> bool" where
  "cm_ok self \<longleftrightarrow> \<not> cm_readonly self \<and> km_ok (cm_psks self) \<and> distinct (map fst (cm_peer_keys self))"

definition has_material :: "('m, 'p) central_keymat \<Rightarrow> peer \<Rightarrow> bool" where
  "has_material self p \<longleftrightarrow> map_of (cm_peer_keys self) p \<noteq> None \<and> km_look (cm_psks self) 0 p \<noteq> None"

text \<open>\<open>self'\<close> has the keys of \<open>self\<close>, and perhaps more.\<close>

definition cm_extends :: "('m, 'p) central_keymat \<Rightarrow> ('m, 'p) central_keymat \<Rightarrow> bool" where
  "cm_extends self self' \<longleftrightarrow>
     cm_prefix self' = cm_prefix self \<and> cm_peer_ids self' = cm_peer_ids self
     \<and> (cm_root_key self \<noteq> None \<longrightarrow> cm_root_key self' = cm_root_key self)
     \<and> (\<forall>p k. map_of (cm_peer_keys self) p = Some k \<longrightarrow> map_of (cm_peer_keys self') p = Some k)
     \<and> (\<forall>a b k. km_look (cm_psks self) a b = Some k \<longrightarrow> km_look (cm_psks self') a b = Some k)"

lemma cm_extends_refl [simp]: "cm_extends self self"
  by (simp add: cm_extends_def)

lemma cm_extends_trans: "cm_extends a b \<Longrightarrow> cm_extends b c \<Longrightarrow> cm_extends a c"
  unfolding cm_extends_def by auto

lemma has_material_extends: "cm_extends a b \<Longrightarrow> has_material a p \<Longrightarrow> has_material b p"
  unfolding cm_extends_def has_material_def by (metis not_None_eq)

lemma assert_peers_spec:
  assumes "cm_ok self"
  shows "\<exists>self'. assert_peers gen pgen ps self = Inr self' \<and> cm_ok self' \<and> cm_extends self self'
    \<and> cm_root_key self' = cm_root_key self \<and> (\<forall>p \<in> set ps. has_material self' p)"
  using assms
proof (induction ps arbitrary: self)
  case (Cons p ps)
  define self1 where "self1 = (case map_of (cm_peer_keys self) p of
            None \<Rightarrow> (let (k, n) = new_key gen (cm_prefix_peer (cm_prefix self) p) (cm_gen self)
                     in self\<lparr>cm_peer_keys := AList.update p k (cm_peer_keys self), cm_gen := n,
                          cm_calls := cm_calls self @ [SaveKey k]\<rparr>)
          | Some _ \<Rightarrow> self)"
  have ok1: "cm_ok self1" using Cons.prems
    by (auto simp: self1_def cm_ok_def new_key_def split: option.splits)
  have ex1: "cm_extends self self1" and r1: "cm_root_key self1 = cm_root_key self"
    and k1: "map_of (cm_peer_keys self1) p \<noteq> None"
    by (auto simp: self1_def cm_extends_def new_key_def split: option.splits)
  have kok: "km_ok (cm_psks self1)" using ok1 by (simp add: cm_ok_def)
  then obtain v psks where put: "km_put psk_class pgen (cm_psks self1) 0 p = Inr (v, psks)"
    using km_put_total by blast
  then obtain av where asr: "km_assert_pair psk_class pgen 0 p (cm_psks self1) = Inr (av, psks)"
    by (auto simp: km_put_def res_simps)
  let ?self2 = "self1\<lparr>cm_psks := psks\<rparr>"
  have ok2: "cm_ok ?self2" using ok1 km.put_invar [OF kok put] by (simp add: cm_ok_def)
  have ex2: "cm_extends self1 ?self2" using km.put_keeps [OF kok put] by (auto simp: cm_extends_def)
  have m2: "has_material ?self2 p" using k1 km.put_look [OF kok put] by (simp add: has_material_def)
  from Cons.IH [OF ok2] obtain self' where s': "assert_peers gen pgen ps ?self2 = Inr self'" "cm_ok self'"
    "cm_extends ?self2 self'" "cm_root_key self' = cm_root_key ?self2" "\<forall>p \<in> set ps. has_material self' p" by blast
  have "assert_peers gen pgen (p # ps) self = Inr self'"
    using asr s'(1) by (simp add: self1_def [symmetric])
  moreover have "cm_extends self self'" using ex1 ex2 s'(3) cm_extends_trans by blast
  moreover have "has_material self' p" using has_material_extends [OF s'(3) m2] .
  ultimately show ?case using s' r1 by simp
qed simp

lemma cm_assert_keys_spec:
  assumes "cm_ok self"
  shows "\<exists>self'. cm_assert_keys gen pgen self = Inr self' \<and> cm_ok self' \<and> cm_extends self self'
    \<and> cm_root_key self' \<noteq> None \<and> (\<forall>p \<in> set (cm_peer_ids self). has_material self' p)"
proof -
  define self1 where "self1 = (case cm_root_key self of
              None \<Rightarrow> (let (k, n) = new_key gen (cm_prefix self @ '':root'') (cm_gen self)
                       in self\<lparr>cm_root_key := Some k, cm_gen := n, cm_calls := cm_calls self @ [SaveKey k]\<rparr>)
            | Some _ \<Rightarrow> self)"
  have "cm_ok self1" "cm_extends self self1" "cm_root_key self1 \<noteq> None" "cm_peer_ids self1 = cm_peer_ids self"
    using assms by (auto simp: self1_def cm_ok_def cm_extends_def new_key_def split: option.splits)
  moreover from assert_peers_spec [OF this(1), of gen pgen "cm_peer_ids self1"] obtain self' where
    "assert_peers gen pgen (cm_peer_ids self1) self1 = Inr self'" "cm_ok self'" "cm_extends self1 self'"
    "cm_root_key self' = cm_root_key self1" "\<forall>p \<in> set (cm_peer_ids self1). has_material self' p" by blast
  moreover have "cm_assert_keys gen pgen self = assert_peers gen pgen (cm_peer_ids self1) self1"
    using assms by (simp add: cm_assert_keys_def cm_ok_def self1_def Let_def)
  ultimately show ?thesis using cm_extends_trans by fastforce
qed

text \<open>A material that has everything is left as it is.\<close>

lemma assert_peers_id:
  assumes "cm_ok self" and "\<forall>p \<in> set ps. has_material self p"
  shows "assert_peers gen pgen ps self = Inr self"
  using assms
proof (induction ps)
  case (Cons p ps)
  then obtain k v where "map_of (cm_peer_keys self) p = Some k" "km_look (cm_psks self) 0 p = Some v"
    by (auto simp: has_material_def)
  with Cons show ?case by (simp add: cm_ok_def km_ok_def km_assert_eq km_look_def)
qed simp

lemma missing_Inr [simp]: "missing (Inr x) = Inr x"
  by (simp add: missing_def)

lemma cm_get_peer_material_private:
  "p \<noteq> 0 \<Longrightarrow> map_of (cm_peer_keys self) p = Some k \<Longrightarrow> km_look (cm_psks self) 0 p = Some psk
    \<Longrightarrow> cm_get_peer_material p True self = Inr [KeyOf k, PskOf psk]"
  by (simp add: cm_get_peer_material_def get_pair_def km_look_def)

section \<open>What dropping keys does\<close>

lemma drop_pairs_spec:
  assumes "\<not> km_readonly self"
  shows "\<exists>self'. drop_pairs kc del dm ps self = Inr self' \<and> \<not> km_readonly self'
    \<and> km_content self' = km_content self \<and> km_prefix self' = km_prefix self
    \<and> km_calls self' = km_calls self \<and> km_gen self' = km_gen self
    \<and> (\<forall>p k. map_of (km_dropped self) p = Some k \<longrightarrow> map_of (km_dropped self') p = Some k)
    \<and> (\<forall>p k. map_of (km_deleted self) p = Some k \<longrightarrow> map_of (km_deleted self') p = Some k)
    \<and> (\<forall>p. p \<notin> fst ` set ps \<longrightarrow> map_of (km_dropped self') p = map_of (km_dropped self) p
          \<and> map_of (km_deleted self') p = map_of (km_deleted self) p)
    \<and> (distinct (map fst ps) \<longrightarrow> (\<forall>(p, k) \<in> set ps.
          (wants_delete del dm p \<and> map_of (km_deleted self) p = None
             \<longrightarrow> map_of (km_deleted self') p = Some (kc_update kc drop_mark k))
          \<and> (\<not> wants_delete del dm p \<and> map_of (km_dropped self) p = None
             \<longrightarrow> map_of (km_dropped self') p = Some (kc_update kc drop_mark k))))"
  using assms
proof (induction ps arbitrary: self)
  case (Cons pk ps)
  obtain p k where pk: "pk = (p, k)" by (cases pk)
  define self1 where "self1 = projr (drop_pair kc p k (wants_delete del dm p) self)"
  have d: "drop_pair kc p k (wants_delete del dm p) self = Inr self1"
    using Cons.prems by (simp add: self1_def drop_pair_def Let_def)
  have s1: "\<not> km_readonly self1" "km_content self1 = km_content self" "km_prefix self1 = km_prefix self"
    "km_calls self1 = km_calls self" "km_gen self1 = km_gen self"
    "\<And>q v. map_of (km_dropped self) q = Some v \<Longrightarrow> map_of (km_dropped self1) q = Some v"
    "\<And>q v. map_of (km_deleted self) q = Some v \<Longrightarrow> map_of (km_deleted self1) q = Some v"
    "\<And>q. q \<noteq> p \<Longrightarrow> map_of (km_dropped self1) q = map_of (km_dropped self) q"
    "\<And>q. q \<noteq> p \<Longrightarrow> map_of (km_deleted self1) q = map_of (km_deleted self) q"
    "wants_delete del dm p \<Longrightarrow> map_of (km_deleted self) p = None \<Longrightarrow> map_of (km_deleted self1) p = Some (kc_update kc drop_mark k)"
    "\<not> wants_delete del dm p \<Longrightarrow> map_of (km_dropped self) p = None \<Longrightarrow> map_of (km_dropped self1) p = Some (kc_update kc drop_mark k)"
    using Cons.prems by (auto simp: self1_def drop_pair_def Let_def split: if_splits)
  from Cons.IH [OF s1(1)] obtain self' where I: "drop_pairs kc del dm ps self1 = Inr self'"
    "\<not> km_readonly self'" "km_content self' = km_content self1" "km_prefix self' = km_prefix self1"
    "km_calls self' = km_calls self1" "km_gen self' = km_gen self1"
    "\<forall>p k. map_of (km_dropped self1) p = Some k \<longrightarrow> map_of (km_dropped self') p = Some k"
    "\<forall>p k. map_of (km_deleted self1) p = Some k \<longrightarrow> map_of (km_deleted self') p = Some k"
    "\<forall>p. p \<notin> fst ` set ps \<longrightarrow> map_of (km_dropped self') p = map_of (km_dropped self1) p
          \<and> map_of (km_deleted self') p = map_of (km_deleted self1) p"
    "distinct (map fst ps) \<longrightarrow> (\<forall>(p, k) \<in> set ps.
          (wants_delete del dm p \<and> map_of (km_deleted self1) p = None
             \<longrightarrow> map_of (km_deleted self') p = Some (kc_update kc drop_mark k))
          \<and> (\<not> wants_delete del dm p \<and> map_of (km_dropped self1) p = None
             \<longrightarrow> map_of (km_dropped self') p = Some (kc_update kc drop_mark k)))"
    by (elim exE conjE) (rule that)
  show ?case
  proof (intro exI [of _ self'] conjI allI impI)
    show "drop_pairs kc del dm (pk # ps) self = Inr self'" by (simp add: pk d I(1))
    show "\<not> km_readonly self'" "km_content self' = km_content self" "km_prefix self' = km_prefix self"
      "km_calls self' = km_calls self" "km_gen self' = km_gen self"
      using I(2-6) s1(1-5) by simp_all
    show "map_of (km_dropped self') q = Some v" if "map_of (km_dropped self) q = Some v" for q v
      using I(7) s1(6) that by blast
    show "map_of (km_deleted self') q = Some v" if "map_of (km_deleted self) q = Some v" for q v
      using I(8) s1(7) that by blast
    show "map_of (km_dropped self') q = map_of (km_dropped self) q" if "q \<notin> fst ` set (pk # ps)" for q
      using I(9) s1(8) that by (simp add: pk del: split_paired_All)
    show "map_of (km_deleted self') q = map_of (km_deleted self) q" if "q \<notin> fst ` set (pk # ps)" for q
      using I(9) s1(9) that by (simp add: pk del: split_paired_All)
    show "\<forall>(p, k) \<in> set (pk # ps).
          (wants_delete del dm p \<and> map_of (km_deleted self) p = None
             \<longrightarrow> map_of (km_deleted self') p = Some (kc_update kc drop_mark k))
          \<and> (\<not> wants_delete del dm p \<and> map_of (km_dropped self) p = None
             \<longrightarrow> map_of (km_dropped self') p = Some (kc_update kc drop_mark k))" if dist: "distinct (map fst (pk # ps))"
    proof -
      have p: "p \<notin> fst ` set ps" and dps: "distinct (map fst ps)" using dist by (auto simp: pk)
      have hd: "(wants_delete del dm p \<and> map_of (km_deleted self) p = None
             \<longrightarrow> map_of (km_deleted self') p = Some (kc_update kc drop_mark k))
          \<and> (\<not> wants_delete del dm p \<and> map_of (km_dropped self) p = None
             \<longrightarrow> map_of (km_dropped self') p = Some (kc_update kc drop_mark k))"
        using I(9) p s1(10,11) by (simp del: split_paired_All)
      have neq: "fst qv \<noteq> p" if "qv \<in> set ps" for qv using that p by blast
      show ?thesis
      proof (rule ballI)
        fix qv assume "qv \<in> set (pk # ps)"
        then consider "qv = (p, k)" | "qv \<in> set ps" by (auto simp: pk)
        then show "case qv of (p, k) \<Rightarrow>
          (wants_delete del dm p \<and> map_of (km_deleted self) p = None
             \<longrightarrow> map_of (km_deleted self') p = Some (kc_update kc drop_mark k))
          \<and> (\<not> wants_delete del dm p \<and> map_of (km_dropped self) p = None
             \<longrightarrow> map_of (km_dropped self') p = Some (kc_update kc drop_mark k))"
        proof cases
          case 1 then show ?thesis using hd by simp
        next
          case 2
          then show ?thesis
            using bspec [OF mp [OF I(10) dps] 2] s1(8,9) [OF neq [OF 2]] by (simp add: case_prod_beta)
        qed
      qed
    qed
  qed
qed auto

text \<open>After \<open>drop_keys\<close> the map is empty, and each key it held, marked as dropped, is either
  recorded in \<open>dropped\<close>, or was saved, or was deleted from the database.\<close>

definition disposed_of :: "('m, 'k) keys_class \<Rightarrow> ('m, 'k) keys_map \<Rightarrow> peer \<times> peer \<Rightarrow> 'k \<Rightarrow> bool \<Rightarrow> bool" where
  "disposed_of kc self pair k deleted \<longleftrightarrow>
     (\<forall>key \<in> set (kc_iterate kc (kc_update kc drop_mark k)).
        if deleted then DeleteKey key \<in> set (km_calls self)
        else map_of (km_dropped self) pair = Some (kc_update kc drop_mark k) \<or> SaveKey key \<in> set (km_calls self))"

lemma km_drop_keys_spec:
  assumes ok: "km_ok self" and k: "map_of (km_content self) p = Some k"
    and fresh: "map_of (km_dropped self) p = None" "map_of (km_deleted self) p = None"
  shows "\<exists>self'. km_drop_keys kc del dm self = Inr (length (km_content self), self')
    \<and> km_content self' = [] \<and> disposed_of kc self' p k (wants_delete del dm p)"
proof -
  have ro: "\<not> km_readonly self" and dist: "distinct (map fst (km_content self))"
    using ok by (simp_all add: km_ok_def pmap_ok_def)
  from drop_pairs_spec [OF ro, of kc del dm "km_content self"] dist obtain self1 where
    d: "drop_pairs kc del dm (km_content self) self = Inr self1"
    and all: "\<forall>(p, k) \<in> set (km_content self).
          (wants_delete del dm p \<and> map_of (km_deleted self) p = None
             \<longrightarrow> map_of (km_deleted self1) p = Some (kc_update kc drop_mark k))
          \<and> (\<not> wants_delete del dm p \<and> map_of (km_dropped self) p = None
             \<longrightarrow> map_of (km_dropped self1) p = Some (kc_update kc drop_mark k))"
    by blast
  let ?self2 = "self1\<lparr>km_content := []\<rparr>"
  let ?any = "\<exists>pk \<in> set (km_content self). wants_delete del dm (fst pk)"
  let ?self' = "if ?any then km_db_save kc ?self2 else ?self2"
  have pk: "(p, k) \<in> set (km_content self)" using k by (rule map_of_SomeD)
  have r: "km_drop_keys kc del dm self = Inr (length (km_content self), ?self')"
    using ro by (simp add: km_drop_keys_def d Let_def)
  have c: "km_content ?self' = []" by (simp add: km_db_save_def km_save_def)
  have key: "key \<in> set (concat (map (kc_iterate kc \<circ> snd) m))"
    if "map_of m p = Some (kc_update kc drop_mark k)" "key \<in> set (kc_iterate kc (kc_update kc drop_mark k))" for m key
    using map_of_SomeD [OF that(1)] that(2) by force
  have "disposed_of kc ?self' p k (wants_delete del dm p)"
  proof (cases "wants_delete del dm p")
    case True
    with pk have any: "?any" by force
    have "map_of (km_deleted self1) p = Some (kc_update kc drop_mark k)"
      using all pk True fresh(2) by blast
    then show ?thesis using True any key [of "km_deleted self1"]
      by (auto simp: disposed_of_def km_db_save_def km_save_def)
  next
    case False
    have "map_of (km_dropped self1) p = Some (kc_update kc drop_mark k)"
      using all pk False fresh(1) by blast
    then show ?thesis using False key [of "km_dropped self1"]
      by (auto simp: disposed_of_def km_db_save_def km_save_def)
  qed
  with r c show ?thesis by blast
qed

section \<open>Purging the peers that are gone\<close>

text \<open>The material of a pair, whatever its saved flag.\<close>

definition km_mat :: "('m, 'm wkey) keys_map \<Rightarrow> peer \<times> peer \<Rightarrow> 'm option" where
  "km_mat self p = map_option wk_material (map_of (km_content self) p)"

lemma km_mat_db_save [simp]: "km_mat (km_db_save psk_class self) p = km_mat self p"
  by (simp add: km_mat_def km_db_save_def km_save_def psk_class_def map_of_map option.map_comp
      comp_def mark_saved_def case_prod_beta option.map_ident)

lemma km_db_save_simps [simp]:
  "km_readonly (km_db_save kc self) = km_readonly self"
  "map fst (km_content (km_db_save kc self)) = map fst (km_content self)"
  by (simp_all add: km_db_save_def km_save_def comp_def case_prod_beta)

lemma km_ok_db_save [simp]: "km_ok (km_db_save kc self) = km_ok self"
proof -
  have "fst ` set (km_content (km_db_save kc self)) = fst ` set (km_content self)"
    by (simp add: km_db_save_def km_save_def image_image case_prod_beta)
  moreover have "distinct (map fst (km_content (km_db_save kc self))) = distinct (map fst (km_content self))"
    by (simp only: km_db_save_simps)
  ultimately show ?thesis unfolding km_ok_def pmap_ok_def by (simp only: km_db_save_simps)
qed

lemma km_purge_peer_spec:
  assumes "km_ok self"
  shows "\<exists>purged self'. km_purge_peer psk_class q del dm self = Inr (purged, self') \<and> km_ok self'
    \<and> (\<forall>p. km_mat self' p = (if mentions q p then None else km_mat self p))"
proof -
  have ro: "\<not> km_readonly self" and pm: "pmap_ok (km_content self)" using assms by (simp_all add: km_ok_def)
  from purge_peer_spec [OF pm, of q] obtain purged m where
    p: "purge_peer q (km_content self) = Inr (purged, m)"
      "\<forall>k. map_of m k = (if mentions q k then None else map_of (km_content self) k)" by blast
  have m: "pmap_ok m" using purge_loop_ok [of q _ "km_content self" "[]" purged m] p(1) pm
    by (auto simp: purge_peer_def)
  from drop_pairs_spec [of "self\<lparr>km_content := m\<rparr>" psk_class del dm purged] ro obtain self1 where
    d: "drop_pairs psk_class del dm purged (self\<lparr>km_content := m\<rparr>) = Inr self1"
      "\<not> km_readonly self1" "km_content self1 = m" by auto
  let ?self' = "if \<exists>pk \<in> set purged. wants_delete del dm (fst pk) then km_db_save psk_class self1 else self1"
  have "km_purge_peer psk_class q del dm self
      = Inr (map (\<lambda>(p, k). (p, kc_update psk_class drop_mark k)) purged, ?self')"
    using ro by (simp add: km_purge_peer_def p(1) d(1))
  moreover have "km_ok ?self'" using m d by (simp add: km_ok_def [of self1])
  moreover have "km_mat self1 x = (if mentions q x then None else km_mat self x)" for x
    using p(2) d(3) by (simp add: km_mat_def del: split_paired_All)
  then have "\<forall>x. km_mat ?self' x = (if mentions q x then None else km_mat self x)" by simp
  ultimately show ?thesis by blast
qed

lemma purge_gone_loop_spec:
  assumes "cm_ok self" and "distinct ps" and "\<forall>p \<in> set ps. map_of (cm_peer_keys self) p \<noteq> None"
  shows "\<exists>del' dr' self'. purge_gone_loop ids del dm ps (dl, dr) self = Inr ((del', dr'), self') \<and> cm_ok self'
    \<and> set del' \<union> set dr' = set dl \<union> set dr \<union> (set ps - ids)
    \<and> (\<forall>p. map_of (cm_peer_keys self') p = (if p \<in> set ps - ids then None else map_of (cm_peer_keys self) p))
    \<and> (\<forall>x. km_mat (cm_psks self') x = (if \<exists>p \<in> set ps - ids. mentions p x then None else km_mat (cm_psks self) x))
    \<and> cm_root_key self' = cm_root_key self"
  using assms
proof (induction ps arbitrary: dl dr self)
  case (Cons p ps)
  show ?case
  proof (cases "p \<in> ids")
    case True
    from Cons.IH [of self dl dr] Cons.prems obtain d' r' self' where
      "purge_gone_loop ids del dm ps (dl, dr) self = Inr ((d', r'), self')" "cm_ok self'"
      "set d' \<union> set r' = set dl \<union> set dr \<union> (set ps - ids)"
      "\<forall>p. map_of (cm_peer_keys self') p = (if p \<in> set ps - ids then None else map_of (cm_peer_keys self) p)"
      "\<forall>x. km_mat (cm_psks self') x = (if \<exists>p \<in> set ps - ids. mentions p x then None else km_mat (cm_psks self) x)"
      "cm_root_key self' = cm_root_key self"
      by auto
    moreover have "set (p # ps) - ids = set ps - ids" using True by auto
    ultimately show ?thesis using True by (intro exI [of _ d'] exI [of _ r'] exI [of _ self']) simp
  next
    case False
    from Cons.prems(3) obtain key where key: "map_of (cm_peer_keys self) p = Some key" by auto
    let ?dk = "del \<or> map_of dm p = Some True"
    have "\<exists>s1. cm_drop_key key ?dk self = Inr s1 \<and> cm_psks s1 = cm_psks self \<and> cm_peer_keys s1 = cm_peer_keys self
        \<and> cm_readonly s1 = cm_readonly self \<and> cm_root_key s1 = cm_root_key self"
      using Cons.prems(1) by (auto simp: cm_drop_key_def Let_def cm_ok_def)
    then obtain s1 where s1: "cm_drop_key key ?dk self = Inr s1" "cm_psks s1 = cm_psks self"
      "cm_peer_keys s1 = cm_peer_keys self" "cm_readonly s1 = cm_readonly self" "cm_root_key s1 = cm_root_key self" by blast
    let ?s2 = "s1\<lparr>cm_peer_keys := AList.delete p (cm_peer_keys s1)\<rparr>"
    have "km_ok (cm_psks ?s2)" using Cons.prems(1) s1(2) by (simp add: cm_ok_def)
    from km_purge_peer_spec [OF this, of p del dm] s1(2) obtain purged psks where
      pp: "km_purge_peer psk_class p del dm (cm_psks ?s2) = Inr (purged, psks)" "km_ok psks"
        "\<forall>x. km_mat psks x = (if mentions p x then None else km_mat (cm_psks self) x)" by auto
    let ?s3 = "?s2\<lparr>cm_psks := psks\<rparr>"
    have ok3: "cm_ok ?s3" using Cons.prems(1) s1 pp(2) by (auto simp: cm_ok_def)
    have keys3: "\<forall>x. map_of (cm_peer_keys ?s3) x = (if x = p then None else map_of (cm_peer_keys self) x)"
      using s1(3) by simp
    have "\<forall>x \<in> set ps. map_of (cm_peer_keys ?s3) x \<noteq> None" using keys3 Cons.prems(2,3) by auto
    from Cons.IH [OF ok3 _ this, of "if ?dk then dl @ [p] else dl" "if ?dk then dr else dr @ [p]"] Cons.prems(2)
    obtain d' r' self' where I: "purge_gone_loop ids del dm ps
          (if ?dk then dl @ [p] else dl, if ?dk then dr else dr @ [p]) ?s3 = Inr ((d', r'), self')" "cm_ok self'"
      "set d' \<union> set r' = set (if ?dk then dl @ [p] else dl) \<union> set (if ?dk then dr else dr @ [p]) \<union> (set ps - ids)"
      "\<forall>x. map_of (cm_peer_keys self') x = (if x \<in> set ps - ids then None else map_of (cm_peer_keys ?s3) x)"
      "\<forall>x. km_mat (cm_psks self') x = (if \<exists>p \<in> set ps - ids. mentions p x then None else km_mat (cm_psks ?s3) x)"
      "cm_root_key self' = cm_root_key ?s3"
      by (metis distinct.simps(2))
    have "purge_gone_loop ids del dm (p # ps) (dl, dr) self = Inr ((d', r'), self')"
      using False I(1) key s1(1) pp(1) by (auto simp: Let_def split: if_splits)
    moreover have "set d' \<union> set r' = set dl \<union> set dr \<union> (set (p # ps) - ids)"
      using I(3) False by auto
    moreover have "\<forall>x. map_of (cm_peer_keys self') x = (if x \<in> set (p # ps) - ids then None else map_of (cm_peer_keys self) x)"
    proof
      fix x
      show "map_of (cm_peer_keys self') x = (if x \<in> set (p # ps) - ids then None else map_of (cm_peer_keys self) x)"
        unfolding I(4) [rule_format, of x] keys3 [rule_format, of x] using False by auto
    qed
    moreover have "\<forall>x. km_mat (cm_psks self') x = (if \<exists>q \<in> set (p # ps) - ids. mentions q x then None else km_mat (cm_psks self) x)"
    proof
      fix x
      have "km_mat (cm_psks ?s3) x = (if mentions p x then None else km_mat (cm_psks self) x)" using pp(3) by simp
      then show "km_mat (cm_psks self') x = (if \<exists>q \<in> set (p # ps) - ids. mentions q x then None else km_mat (cm_psks self) x)"
        unfolding I(5) [rule_format, of x] using False by auto
    qed
    ultimately show ?thesis using I(2,6) s1(5)
      by (intro exI [of _ d'] exI [of _ r'] exI [of _ self'] conjI) (assumption | simp)+
  qed
qed simp

lemma cm_purge_spec:
  assumes "cm_ok self"
  shows "\<exists>gone self'. cm_purge_gone_peers ids del dm self = Inr (gone, self') \<and> cm_ok self'
    \<and> set gone = fst ` set (cm_peer_keys self) - set ids
    \<and> fst ` set (cm_peer_keys self') = fst ` set (cm_peer_keys self) \<inter> set ids
    \<and> (\<forall>x. km_mat (cm_psks self') x = (if \<exists>p \<in> set gone. mentions p x then None else km_mat (cm_psks self) x))
    \<and> (cm_root_key self' = None \<longleftrightarrow> cm_root_key self = None)"
proof -
  have ro: "\<not> cm_readonly self" and dist: "distinct (map fst (cm_peer_keys self))"
    using assms by (simp_all add: cm_ok_def)
  have "\<forall>p \<in> set (map fst (cm_peer_keys self)). map_of (cm_peer_keys self) p \<noteq> None"
    by (simp add: map_of_eq_None_iff)
  from purge_gone_loop_spec [OF assms dist this, of "set ids" del dm "[]" "[]"] obtain d' r' s1 where
    L: "purge_gone_loop (set ids) del dm (map fst (cm_peer_keys self)) ([], []) self = Inr ((d', r'), s1)" "cm_ok s1"
      "set d' \<union> set r' = fst ` set (cm_peer_keys self) - set ids"
      "\<forall>p. map_of (cm_peer_keys s1) p = (if p \<in> fst ` set (cm_peer_keys self) - set ids then None else map_of (cm_peer_keys self) p)"
      "\<forall>x. km_mat (cm_psks s1) x = (if \<exists>p \<in> fst ` set (cm_peer_keys self) - set ids. mentions p x then None else km_mat (cm_psks self) x)"
      "cm_root_key s1 = cm_root_key self"
    by auto
  let ?s2 = "if d' \<noteq> [] then cm_db_save s1 else s1"
  have r: "cm_purge_gone_peers ids del dm self = Inr (d' @ r', ?s2)"
    using ro by (simp add: cm_purge_gone_peers_def L(1))
  have "fst ` set (cm_peer_keys s1) = fst ` set (cm_peer_keys self) \<inter> set ids"
    using L(4) by (auto simp: set_eq_iff) (metis DiffI map_of_in_keys option.distinct(1) image_eqI fst_conv)+
  moreover have "fst ` set (cm_peer_keys (cm_db_save s1)) = fst ` set (cm_peer_keys s1)"
    by (simp add: cm_db_save_def image_image case_prod_beta)
  ultimately have k: "fst ` set (cm_peer_keys ?s2) = fst ` set (cm_peer_keys self) \<inter> set ids"
    by simp
  have ok: "cm_ok ?s2" using L(2) by (auto simp: cm_ok_def cm_db_save_def comp_def case_prod_beta)
  have m: "km_mat (cm_psks ?s2) x = km_mat (cm_psks s1) x" for x by (simp add: cm_db_save_def)
  have g: "set (d' @ r') = fst ` set (cm_peer_keys self) - set ids" using L(3) by simp
  show ?thesis
    using r ok k L(5,6) unfolding m [symmetric] g [symmetric]
    by (intro exI [of _ "d' @ r'"] exI [of _ ?s2]) (auto simp: m cm_db_save_def simp del: split_paired_All)
qed

section \<open>Saved keys load back\<close>

definition rows_of :: "('m, 'k) keys_class \<Rightarrow> 'k pmap \<Rightarrow> 'm wkey list" where
  "rows_of kc m = concat (map (kc_iterate kc \<circ> snd) m)"

definition psk_named :: "string \<Rightarrow> 'm wkey pmap \<Rightarrow> bool" where
  "psk_named prefix m \<longleftrightarrow> (\<forall>(p, k) \<in> set m. wk_id k = map_key_id prefix p None \<and> \<not> wk_dropped k)"

definition paired_named :: "string \<Rightarrow> 'm wkey list pmap \<Rightarrow> bool" where
  "paired_named prefix m \<longleftrightarrow> (\<forall>(p, ks) \<in> set m. \<exists>k0 k1. ks = [k0, k1]
     \<and> wk_id k0 = map_key_id prefix p None @ '':'' @ show_nat 0 \<and> \<not> wk_dropped k0
     \<and> wk_id k1 = map_key_id prefix p None @ '':'' @ show_nat 1 \<and> \<not> wk_dropped k1)"

lemma map_key_id_like: "CHR ''%'' \<notin> set prefix \<Longrightarrow> sql_like (prefix @ '':%'') (map_key_id prefix p None @ s)"
  using sql_like_prefix [of "prefix @ '':''" "json_pair p @ s"] by (simp add: map_key_id_def)

lemma map_key_id_drop: "drop (length prefix + 1) (map_key_id prefix p None @ s) = json_pair p @ s"
  by (simp add: map_key_id_def)

lemma json_pair_Suc: "\<exists>i. length (json_pair p) = Suc i"
  by (simp add: json_pair_def)

text \<open>One row: the pair is read from the id, with the text after the second colon.\<close>

lemma load_keys_plain:
  assumes "CHR ''%'' \<notin> set prefix" and "wk_id k = map_key_id prefix p None" and "\<not> wk_dropped k"
  shows "load_keys kc prefix False (k # rows) loaded =
    rbind (kc_load kc loaded p k None) (load_keys kc prefix False rows)"
proof -
  have "find_char (CHR '':'') (json_pair p) = None" by (simp add: find_char_None json_pair_no_colon)
  then show ?thesis
    using assms map_key_id_like [OF assms(1), of p "[]"] map_key_id_drop [of prefix p "[]"]
    by (simp add: Let_def)
qed

lemma load_keys_extra:
  assumes "CHR ''%'' \<notin> set prefix" and "wk_id k = map_key_id prefix p None @ '':'' @ e" and "\<not> wk_dropped k"
    and "e \<noteq> []"
  shows "load_keys kc prefix False (k # rows) loaded =
    rbind (kc_load kc loaded p k (Some e)) (load_keys kc prefix False rows)"
proof -
  obtain i where i: "length (json_pair p) = Suc i" using json_pair_Suc by blast
  have "find_char (CHR '':'') (json_pair p @ CHR '':'' # e) = Some (Suc i)"
    using find_char_append [OF json_pair_no_colon, of p e] i by simp
  moreover have "take (Suc i) (json_pair p @ CHR '':'' # e) = json_pair p"
    "drop (Suc (Suc i)) (json_pair p @ CHR '':'' # e) = e" using i by simp_all
  ultimately show ?thesis
    using assms map_key_id_like [OF assms(1), of p "CHR '':'' # e"] map_key_id_drop [of prefix p "CHR '':'' # e"]
    by (simp add: Let_def)
qed

lemma load_psks:
  assumes "CHR ''%'' \<notin> set prefix" and "psk_named prefix m" and "distinct (map fst (loaded @ m))"
  shows "load_keys psk_class prefix False (rows_of psk_class m) loaded = Inr (loaded @ m)"
  using assms(2,3)
proof (induction m arbitrary: loaded)
  case (Cons pk m)
  obtain p k where pk: "pk = (p, k)" by (cases pk)
  have "AList.update p k loaded = loaded @ [(p, k)]"
    using Cons.prems(2) by (intro update_new) (auto simp: pk)
  moreover have "load_keys psk_class prefix False (rows_of psk_class (pk # m)) loaded
      = load_keys psk_class prefix False (rows_of psk_class m) (AList.update p k loaded)"
    using load_keys_plain [OF assms(1), of k p psk_class "rows_of psk_class m" loaded] Cons.prems(1)
    by (simp add: pk rows_of_def psk_class_def psk_named_def)
  ultimately show ?case using Cons.IH [of "loaded @ [(p, k)]"] Cons.prems by (simp add: pk psk_named_def)
qed (simp add: rows_of_def)

lemma load_paired:
  assumes "CHR ''%'' \<notin> set prefix" and "paired_named prefix m" and "distinct (map fst (loaded @ m))"
  shows "load_keys paired_class prefix False (rows_of paired_class m) loaded = Inr (loaded @ m)"
  using assms(2,3)
proof (induction m arbitrary: loaded)
  case (Cons pk m)
  obtain p ks where pk: "pk = (p, ks)" by (cases pk)
  from Cons.prems(1) obtain k0 k1 where ks: "ks = [k0, k1]"
    and k0: "wk_id k0 = map_key_id prefix p None @ '':'' @ show_nat 0" "\<not> wk_dropped k0"
    and k1: "wk_id k1 = map_key_id prefix p None @ '':'' @ show_nat 1" "\<not> wk_dropped k1"
    by (auto simp: pk paired_named_def)
  have new: "map_of loaded p = None" using Cons.prems(2) by (auto simp: pk map_of_eq_None_iff)
  have up: "AList.update p v loaded = loaded @ [(p, v)]" for v
    using Cons.prems(2) by (intro update_new) (auto simp: pk)
  have "load_keys paired_class prefix False (rows_of paired_class (pk # m)) loaded
      = load_keys paired_class prefix False (rows_of paired_class m)
          (AList.update p [k0, k1] (AList.update p [k0] loaded))"
    using load_keys_extra [OF assms(1) k0, of paired_class "k1 # rows_of paired_class m" loaded]
      load_keys_extra [OF assms(1) k1, of paired_class "rows_of paired_class m" "AList.update p [k0] loaded"] new
    by (simp add: pk ks rows_of_def paired_class_def paired_load_def list_insert_def)
  moreover have "AList.update p [k0, k1] (AList.update p [k0] loaded) = loaded @ [(p, ks)]"
    unfolding up ks using Cons.prems(2) by (induction loaded) (auto simp: pk)
  ultimately show ?case using Cons.IH [of "loaded @ [(p, ks)]"] Cons.prems by (simp add: pk paired_named_def)
qed (simp add: rows_of_def)

text \<open>Whatever a map asserts has the names that load back.\<close>

lemma psk_named_assert:
  assumes "km_ok self" and "psk_named (km_prefix self) (km_content self)"
    and "km_put psk_class gen self a b = Inr (v, self')"
  shows "psk_named (km_prefix self') (km_content self') \<and> km_prefix self' = km_prefix self"
proof (cases "km_look self a b")
  case None
  then have "pair_key a b \<notin> fst ` set (km_content self)" by (simp add: km_look_def map_of_eq_None_iff)
  then show ?thesis using assms None
    by (auto simp: km_ok_def km_put_eq psk_class_def new_key_def update_new psk_named_def)
qed (use assms in \<open>simp add: km_ok_def km_put_eq\<close>)

lemma paired_named_assert:
  assumes "km_ok self" and "paired_named (km_prefix self) (km_content self)"
    and "km_put paired_class gen self a b = Inr (v, self')"
  shows "paired_named (km_prefix self') (km_content self') \<and> km_prefix self' = km_prefix self"
proof (cases "km_look self a b")
  case None
  then have "pair_key a b \<notin> fst ` set (km_content self)" by (simp add: km_look_def map_of_eq_None_iff)
  then show ?thesis using assms None
    by (auto simp: km_ok_def km_put_eq paired_class_def paired_generate_def new_key_def update_new paired_named_def)
qed (use assms in \<open>simp add: km_ok_def km_put_eq\<close>)

section \<open>Properties\<close>

section \<open>What the keys of a network promise\<close>



definition demo_central :: "(nat, nat) central_keymat" where
  "demo_central = \<lparr>cm_prefix = ''u:vpn:root'', cm_peer_ids = [1, 2], cm_prefer_dropped = False, cm_readonly = False,
     cm_root_key = None, cm_peer_keys = [], cm_psks = empty_keys_map ''u:vpn:root'' False False, cm_dropped = [],
     cm_deleted = [], cm_gen = 0, cm_calls = []\<rparr>"

lemma demo_central_ok: "cm_ok demo_central"
  by (simp add: cm_ok_def demo_central_def km_ok_def empty_keys_map_def)


text \<open>Purging leaves exactly the keys of the peers that are still there: the peers reported as gone are those
  with a key that are not in the list, they lose their key and every pre-shared key that mentions them, and
  nothing else changes.\<close>

theorem purge_keeps_present_peers:
  assumes "cm_ok self"
  shows "\<exists>gone self'. cm_purge_gone_peers ids del dm self = Inr (gone, self') \<and> cm_ok self'
    \<and> set gone = fst ` set (cm_peer_keys self) - set ids
    \<and> fst ` set (cm_peer_keys self') = fst ` set (cm_peer_keys self) \<inter> set ids
    \<and> (\<forall>x. km_mat (cm_psks self') x = (if \<exists>p \<in> set gone. mentions p x then None else km_mat (cm_psks self) x))
    \<and> (cm_root_key self' = None \<longleftrightarrow> cm_root_key self = None)"
  using cm_purge_spec [OF assms] by blast

theorem purge_keeps_present_peers_witness:
  "\<exists>self1 gone self'. cm_assert_keys (\<lambda>n. n) (\<lambda>n. n + 10) demo_central = Inr self1
    \<and> cm_purge_gone_peers [1] True [] self1 = Inr (gone, self') \<and> 2 \<notin> fst ` set (cm_peer_keys self')"
proof -
  from cm_assert_keys_spec [OF demo_central_ok] obtain self1 where
    "cm_assert_keys (\<lambda>n. n) (\<lambda>n. n + 10) demo_central = Inr self1" "cm_ok self1" by blast
  with purge_keeps_present_peers [of self1 "[1]" True "[]"] show ?thesis by fastforce
qed

section \<open>Generated keys load back\<close>

fun km_puts ::
  "('m, 'k) keys_class \<Rightarrow> (nat \<Rightarrow> 'm) \<Rightarrow> (peer \<times> peer) list \<Rightarrow> ('m, 'k) keys_map \<Rightarrow> ('m, 'k) keys_map res" where
  "km_puts kc gen [] self = Inr self"
| "km_puts kc gen ((a, b) # ps) self = rbind (km_put kc gen self a b) (\<lambda>(_, self'). km_puts kc gen ps self')"

lemma km_puts_keep:
  assumes step: "\<And>s a b v s'. I s \<Longrightarrow> km_ok s \<Longrightarrow> km_put kc gen s a b = Inr (v, s') \<Longrightarrow> I s'"
    and "km_puts kc gen ps self = Inr self'" and "I self" and "km_ok self"
  shows "I self' \<and> km_ok self'"
  using assms(2-4)
proof (induction ps arbitrary: self)
  case (Cons p ps)
  obtain a b where p: "p = (a, b)" by (cases p)
  from Cons.prems(1) obtain v self1 where put: "km_put kc gen self a b = Inr (v, self1)"
    and rest: "km_puts kc gen ps self1 = Inr self'"
    by (auto simp: p res_simps)
  from Cons.IH [OF rest step [OF Cons.prems(2,3) put] km.put_invar [OF Cons.prems(3) put]] show ?case .
qed simp

text \<open>C17: The keys that any sequence of requests generates, pre-shared keys and pairs of keys alike, load back from
  their database rows as the same dictionary: the key id determines the pair of peers and the end.\<close>

theorem keys_load_back:
  assumes "CHR ''%'' \<notin> set prefix"
    and "km_puts psk_class gen ps (empty_keys_map prefix pd False) = Inr psks"
    and "km_puts paired_class gen' ps' (empty_keys_map prefix pd False) = Inr paired"
  shows "load_content psk_class prefix False (rows_of psk_class (km_content psks)) = Inr (km_content psks)
    \<and> load_content paired_class prefix False (rows_of paired_class (km_content paired)) = Inr (km_content paired)"
proof -
  have ok: "km_ok (empty_keys_map prefix pd False)" by (simp add: km_ok_def empty_keys_map_def)
  have "(psk_named prefix (km_content psks) \<and> km_prefix psks = prefix) \<and> km_ok psks"
    by (rule km_puts_keep [where I = "\<lambda>m. psk_named prefix (km_content m) \<and> km_prefix m = prefix", OF _ assms(2) _ ok])
       (metis psk_named_assert, simp add: psk_named_def empty_keys_map_def)
  moreover have "(paired_named prefix (km_content paired) \<and> km_prefix paired = prefix) \<and> km_ok paired"
    by (rule km_puts_keep [where I = "\<lambda>m. paired_named prefix (km_content m) \<and> km_prefix m = prefix", OF _ assms(3) _ ok])
       (metis paired_named_assert, simp add: paired_named_def empty_keys_map_def)
  ultimately show ?thesis
    using load_psks [OF assms(1), of "km_content psks" "[]"] load_paired [OF assms(1), of "km_content paired" "[]"]
    by (simp add: load_content_def km_ok_def pmap_ok_def)
qed

lemma km_puts_total: "km_ok self \<Longrightarrow> \<exists>self'. km_puts kc gen ps self = Inr self'"
proof (induction ps arbitrary: self)
  case (Cons p ps)
  obtain a b where p: "p = (a, b)" by (cases p)
  from km_put_total [OF Cons.prems] obtain v self1 where put: "km_put kc gen self a b = Inr (v, self1)" by blast
  from Cons.IH [OF km.put_invar [OF Cons.prems put]] put show ?case by (simp add: p)
qed simp

theorem keys_load_back_witness:
  "\<exists>psks :: (nat, nat wkey) keys_map. km_puts psk_class (\<lambda>n. n) [(0, 1), (2, 0)] (empty_keys_map ''u'' False False) = Inr psks
    \<and> load_content psk_class ''u'' False (rows_of psk_class (km_content psks)) = Inr (km_content psks)"
proof -
  have ok: "km_ok (empty_keys_map ''u'' False False)" by (simp add: km_ok_def empty_keys_map_def)
  obtain psks :: "(nat, nat wkey) keys_map" where p: "km_puts psk_class (\<lambda>n. n) [(0, 1), (2, 0)] (empty_keys_map ''u'' False False) = Inr psks"
    using km_puts_total [OF ok] by blast
  obtain paired :: "(nat, nat wkey list) keys_map" where q: "km_puts paired_class (\<lambda>n. n) [(2, 1)] (empty_keys_map ''u'' False False) = Inr paired"
    using km_puts_total [OF ok] by blast
  have "CHR ''%'' \<notin> set ''u''" by simp
  from keys_load_back [OF this p q] p show ?thesis by blast
qed

section \<open>Deleting the key of a pair twice\<close>

lemma drop_pairs_deleted:
  assumes "drop_pairs kc True dm ps self = Inr self'" and "(q, k) \<in> set (km_deleted self')"
  shows "(q, k) \<in> set (km_deleted self)
    \<or> (map_of (km_deleted self) q = None \<and> (\<exists>k0. (q, k0) \<in> set ps \<and> k = kc_update kc drop_mark k0))"
  using assms
proof (induction ps arbitrary: self)
  case (Cons p ps)
  obtain r k0 where p: "p = (r, k0)" by (cases p)
  from Cons.prems(1) obtain self1 where d: "drop_pair kc r k0 True self = Inr self1"
    and rest: "drop_pairs kc True dm ps self1 = Inr self'"
    by (auto simp: p res_simps wants_delete_def)
  from d have self1: "self1 = (if map_of (km_deleted self) r = None
      then self\<lparr>km_deleted := km_deleted self @ [(r, kc_update kc drop_mark k0)]\<rparr> else self)"
    by (auto simp: drop_pair_def Let_def update_new map_of_eq_None_iff split: if_splits)
  from Cons.IH [OF rest Cons.prems(2)] show ?case
    by (auto simp: p self1 map_add_def split: if_splits option.splits)
qed simp

text \<open>A pair whose key was deleted once keeps that key in \<open>deleted\<close>: when all keys are dropped again with \<open>delete\<close>,
  the key generated in between is not deleted from the database, and the old one is deleted a second time.\<close>

theorem second_delete_skipped:
  assumes "km_ok self" and "map_of (km_content self) p = Some k" and "map_of (km_deleted self) p = Some old"
    and "km_drop_keys psk_class True dm self = Inr (n, self')"
    and "\<forall>(q, k') \<in> set (km_content self). q \<noteq> p \<longrightarrow> wk_id k' \<noteq> wk_id k"
    and "\<forall>k' \<in> snd ` set (km_deleted self). wk_material k' \<noteq> wk_material k"
  shows "DeleteKey (drop_mark k) \<notin> set (drop (length (km_calls self)) (km_calls self'))
    \<and> DeleteKey old \<in> set (drop (length (km_calls self)) (km_calls self')) \<and> km_content self' = []"
proof -
  have ro: "\<not> km_readonly self" using assms(1) by (simp add: km_ok_def)
  from drop_pairs_spec [OF ro, of psk_class True dm "km_content self"] obtain self1
    where d: "drop_pairs psk_class True dm (km_content self) self = Inr self1" and calls: "km_calls self1 = km_calls self"
      and old: "map_of (km_deleted self1) p = Some old" using assms(3) by blast
  have "self' = km_db_save psk_class (self1\<lparr>km_content := []\<rparr>)"
    using assms(2,4) map_of_SomeD [OF assms(2)] ro by (auto simp: km_drop_keys_def d wants_delete_def Let_def split: if_splits)
  then have new: "drop (length (km_calls self)) (km_calls self') =
      map SaveKey (map snd (km_dropped self1)) @ map DeleteKey (map snd (km_deleted self1))"
    and c: "km_content self' = []"
    by (simp_all add: km_db_save_def km_save_def psk_class_def calls comp_def concat_map_singleton)
  have "drop_mark k \<notin> snd ` set (km_deleted self1)"
  proof
    assume "drop_mark k \<in> snd ` set (km_deleted self1)"
    then obtain q where "(q, drop_mark k) \<in> set (km_deleted self1)" by force
    from drop_pairs_deleted [OF d this] assms(3) consider "(q, drop_mark k) \<in> set (km_deleted self)"
      | k0 where "q \<noteq> p" "(q, k0) \<in> set (km_content self)" "drop_mark k = drop_mark k0"
      unfolding psk_class_def keys_class.simps by (metis option.distinct(1))
    then show False
    proof cases
      case 1
      with assms(6) have "wk_material (drop_mark k) \<noteq> wk_material k" by (metis image_eqI snd_conv)
      then show False by (simp add: drop_mark_def)
    next
      case 2
      from arg_cong [OF 2(3), of wk_id] have "wk_id k0 = wk_id k" by (simp add: drop_mark_def)
      with assms(5) 2(1,2) show False by blast
    qed
  qed
  moreover have "old \<in> snd ` set (km_deleted self1)" using map_of_SomeD [OF old] by force
  ultimately show ?thesis unfolding new using c by auto
qed

theorem second_delete_skipped_witness:
  "\<exists>k old n self'. km_drop_keys psk_class True []
      (\<lparr>km_prefix = ''u'', km_prefer_dropped = False, km_readonly = False, km_content = [((1, 2), k)], km_dropped = [],
        km_deleted = [((1, 2), old)], km_gen = 2, km_calls = []\<rparr> :: (nat, nat wkey) keys_map) = Inr (n, self')
    \<and> DeleteKey (drop_mark k) \<notin> set (km_calls self') \<and> DeleteKey old \<in> set (km_calls self')"
proof -
  define k :: "nat wkey" where "k = \<lparr>wk_id = ''u:[1, 2]'', wk_material = 1, wk_dropped = False, wk_saved = True\<rparr>"
  define old :: "nat wkey" where "old = \<lparr>wk_id = ''u:[1, 2]'', wk_material = 0, wk_dropped = True, wk_saved = False\<rparr>"
  define m :: "(nat, nat wkey) keys_map" where "m = \<lparr>km_prefix = ''u'', km_prefer_dropped = False, km_readonly = False,
    km_content = [((1, 2), k)], km_dropped = [], km_deleted = [((1, 2), old)], km_gen = 2, km_calls = []\<rparr>"
  have "km_ok m" by (simp add: m_def km_ok_def pmap_ok_def)
  moreover have "map_of (km_content m) (1, 2) = Some k" "map_of (km_deleted m) (1, 2) = Some old" by (simp_all add: m_def)
  moreover obtain n self' where "km_drop_keys psk_class True [] m = Inr (n, self')"
    by (simp add: m_def km_drop_keys_def drop_pair_def Let_def)
  moreover have "\<forall>(q, k') \<in> set (km_content m). q \<noteq> (1, 2) \<longrightarrow> wk_id k' \<noteq> wk_id k"
    "\<forall>k' \<in> snd ` set (km_deleted m). wk_material k' \<noteq> wk_material k" by (simp_all add: m_def k_def old_def)
  ultimately show ?thesis using second_delete_skipped [of m "(1, 2)" k old "[]" n self'] by (auto simp: m_def)
qed

end
