(* ===== verification/Wg.thy ===== *)
theory Wg
  imports Uno_Net
begin

text \<open>
  WireGuard interfaces (\<open>uno/core/wg.py\<close>): the configuration records with their serialization, the
  life cycle of an interface, its allowed addresses and its statistics. External commands
  (\<open>ip\<close>, \<open>wg\<close>) are recorded in the order they are run; which of them succeed is an argument.
\<close>

section \<open>Configuration\<close>

record wg_intf =
  wi_name :: string
  wi_privkey :: "string option"
  wi_address :: ipv4
  wi_netmask :: nat
  wi_port :: "int option"
  wi_endpoint :: "string option"
  wi_mtu :: "int option"

record wg_peer =
  wp_id :: int
  wp_pubkey :: string
  wp_psk :: "string option"
  wp_address :: ipv4
  wp_allowed :: "string list"
  wp_endpoint :: "string option"
  wp_keepalive :: "int option"

record wg_config =
  wc_intf :: wg_intf
  wc_peers :: "wg_peer list"
  wc_tunnel :: bool
  wc_tunnel_root :: bool
  wc_masquerade :: "bool option"
  wc_forward :: "bool option"
  wc_generation_ts :: string

definition jopt :: "('a \<Rightarrow> json) \<Rightarrow> 'a option \<Rightarrow> json" where
  "jopt f v = (case v of None \<Rightarrow> JNull | Some x \<Rightarrow> f x)"

definition entry_if :: "bool \<Rightarrow> string \<Rightarrow> json \<Rightarrow> (string \<times> json) list" where
  "entry_if c k v = (if c then [(k, v)] else [])"

definition intf_serialize :: "bool \<Rightarrow> wg_intf \<Rightarrow> (string \<times> json) list" where
  "intf_serialize public c =
     [(''name'', JStr (wi_name c)),
      (''privkey'', if \<not> public then jopt JStr (wi_privkey c) else JNull),
      (''address'', JStr (show_ipv4 (wi_address c))),
      (''netmask'', JInt (int (wi_netmask c)))]
     @ entry_if (wi_port c \<noteq> None) ''port'' (jopt JInt (wi_port c))
     @ entry_if (wi_endpoint c \<noteq> None) ''endpoint'' (jopt JStr (wi_endpoint c))
     @ entry_if (wi_mtu c \<noteq> None) ''mtu'' (jopt JInt (wi_mtu c))"

definition peer_serialize :: "bool \<Rightarrow> wg_peer \<Rightarrow> (string \<times> json) list" where
  "peer_serialize public c =
     [(''id'', JInt (wp_id c)),
      (''pubkey'', JStr (wp_pubkey c)),
      (''psk'', if \<not> public then JStr (case wp_psk c of None \<Rightarrow> ''None'' | Some s \<Rightarrow> s) else JNull),
      (''address'', JStr (show_ipv4 (wp_address c)))]
     @ entry_if (wp_allowed c \<noteq> []) ''allowed'' (JList (map JStr (wp_allowed c)))
     @ entry_if (wp_endpoint c \<noteq> None) ''endpoint'' (jopt JStr (wp_endpoint c))
     @ entry_if (truthy (jopt JInt (wp_keepalive c))) ''keepalive'' (jopt JInt (wp_keepalive c))"

definition config_serialize :: "bool \<Rightarrow> wg_config \<Rightarrow> (string \<times> json) list" where
  "config_serialize public c =
     [(''intf'', JObj (intf_serialize public (wc_intf c)))]
     @ entry_if (wc_peers c \<noteq> []) ''peers'' (JList (map (JObj \<circ> peer_serialize public) (wc_peers c)))
     @ [(''generation_ts'', JStr (wc_generation_ts c))]
     @ entry_if (wc_tunnel c) ''tunnel'' (JBool True)
     @ entry_if (wc_tunnel_root c) ''tunnel_root'' (JBool True)
     @ entry_if (wc_masquerade c = Some True) ''masquerade'' (JBool True)
     @ entry_if (wc_forward c = Some True) ''forward'' (JBool True)"

subsection \<open>Reading it back\<close>

definition jreq :: "string \<Rightarrow> (string \<times> json) list \<Rightarrow> json res" where
  "jreq k d = the_or KeyError (map_of d k)"

fun as_str :: "json \<Rightarrow> string res" where
  "as_str (JStr s) = Inr s" | "as_str _ = Inl (TypeError ''str'')"

fun as_opt_str :: "json \<Rightarrow> string option res" where
  "as_opt_str (JStr s) = Inr (Some s)" | "as_opt_str JNull = Inr None" | "as_opt_str _ = Inl (TypeError ''str'')"

fun as_int :: "json \<Rightarrow> int res" where
  "as_int (JInt i) = Inr i" | "as_int _ = Inl (TypeError ''int'')"

fun as_opt_int :: "json \<Rightarrow> int option res" where
  "as_opt_int (JInt i) = Inr (Some i)" | "as_opt_int JNull = Inr None" | "as_opt_int _ = Inl (TypeError ''int'')"

fun as_opt_bool :: "json \<Rightarrow> bool option res" where
  "as_opt_bool (JBool b) = Inr (Some b)" | "as_opt_bool JNull = Inr None" | "as_opt_bool _ = Inl (TypeError ''bool'')"

fun as_obj :: "json \<Rightarrow> (string \<times> json) list res" where
  "as_obj (JObj d) = Inr d" | "as_obj _ = Inl (TypeError ''dict'')"

fun as_list :: "json \<Rightarrow> json list res" where
  "as_list (JList xs) = Inr xs" | "as_list JNull = Inr []" | "as_list _ = Inl (TypeError ''list'')"

text \<open>The constructor computes the interface's subnet, so it raises for an impossible netmask.\<close>

definition intf_deserialize :: "(string \<times> json) list \<Rightarrow> wg_intf res" where
  "intf_deserialize d =
     rbind (rbind (jreq ''name'' d) as_str) (\<lambda>name.
     rbind (rbind (jreq ''privkey'' d) as_opt_str) (\<lambda>privkey.
     rbind (rbind (rbind (jreq ''address'' d) as_str) read_ipv4) (\<lambda>address.
     rbind (rbind (jreq ''netmask'' d) as_int) (\<lambda>netmask.
     rbind (as_opt_int (jget ''port'' d)) (\<lambda>port.
     rbind (as_opt_str (jget ''endpoint'' d)) (\<lambda>endpoint.
     rbind (as_opt_int (jget ''mtu'' d)) (\<lambda>mtu.
     rbind (require (0 \<le> netmask) (ValueError ''netmask'')) (\<lambda>_.
     rbind (ip_network False address (nat netmask)) (\<lambda>_.
       Inr \<lparr>wi_name = name, wi_privkey = privkey, wi_address = address, wi_netmask = nat netmask,
            wi_port = port, wi_endpoint = endpoint, wi_mtu = mtu\<rparr>)))))))))"

text \<open>The constructor sorts the allowed addresses.\<close>

definition peer_deserialize :: "(string \<times> json) list \<Rightarrow> wg_peer res" where
  "peer_deserialize d =
     rbind (rbind (jreq ''id'' d) as_int) (\<lambda>i.
     rbind (rbind (jreq ''pubkey'' d) as_str) (\<lambda>pubkey.
     rbind (rbind (jreq ''psk'' d) as_opt_str) (\<lambda>psk.
     rbind (rbind (rbind (jreq ''address'' d) as_str) read_ipv4) (\<lambda>address.
     rbind (rbind (as_list (jget ''allowed'' d)) (rmap as_str)) (\<lambda>allowed.
     rbind (as_opt_str (jget ''endpoint'' d)) (\<lambda>endpoint.
     rbind (as_opt_int (jget ''keepalive'' d)) (\<lambda>keepalive.
       Inr \<lparr>wp_id = i, wp_pubkey = pubkey, wp_psk = psk, wp_address = address,
            wp_allowed = sort allowed, wp_endpoint = endpoint, wp_keepalive = keepalive\<rparr>)))))))"

definition config_deserialize :: "(string \<times> json) list \<Rightarrow> wg_config res" where
  "config_deserialize d =
     rbind (rbind (rbind (jreq ''intf'' d) as_obj) intf_deserialize) (\<lambda>intf.
     rbind (rbind (as_list (jget ''peers'' d)) (rmap (\<lambda>p. rbind (as_obj p) (peer_deserialize)))) (\<lambda>peers.
     rbind (rbind (jreq ''generation_ts'' d) as_str) (\<lambda>ts.
     rbind (as_opt_bool (jget ''masquerade'' d)) (\<lambda>masquerade.
     rbind (as_opt_bool (jget ''forward'' d)) (\<lambda>forward.
       Inr \<lparr>wc_intf = intf, wc_peers = peers, wc_tunnel = truthy (jget ''tunnel'' d),
            wc_tunnel_root = truthy (jget ''tunnel_root'' d), wc_masquerade = masquerade, wc_forward = forward,
            wc_generation_ts = ts\<rparr>)))))"

definition intf_ok :: "wg_intf \<Rightarrow> bool" where
  "intf_ok c \<longleftrightarrow> wi_address c < 2 ^ 32 \<and> wi_netmask c \<le> 32"

definition peer_ok :: "wg_peer \<Rightarrow> bool" where
  "peer_ok c \<longleftrightarrow> wp_address c < 2 ^ 32 \<and> wp_psk c \<noteq> None \<and> wp_keepalive c \<noteq> Some 0
     \<and> sorted (wp_allowed c)"

definition config_ok :: "wg_config \<Rightarrow> bool" where
  "config_ok c \<longleftrightarrow> intf_ok (wc_intf c) \<and> (\<forall>p \<in> set (wc_peers c). peer_ok p)"

lemma ip_network_False: "p \<le> 32 \<Longrightarrow> \<exists>n. ip_network False a p = Inr n"
  by (auto simp: ip_network_def)

lemma intf_roundtrip: "intf_ok c \<Longrightarrow> intf_deserialize (intf_serialize False c) = Inr c"
  using ip_network_False [of "wi_netmask c" "wi_address c"]
  by (cases "wi_privkey c"; cases "wi_port c"; cases "wi_endpoint c"; cases "wi_mtu c")
    (auto simp: intf_deserialize_def intf_serialize_def jreq_def jget_def jopt_def entry_if_def intf_ok_def)

lemma rmap_as_str [simp]: "rmap as_str (map JStr xs) = Inr xs"
  by (induction xs) auto

lemma peer_roundtrip:
  "peer_ok c \<Longrightarrow> peer_deserialize (peer_serialize False c) = Inr c"
  by (cases "wp_psk c"; cases "wp_endpoint c"; cases "wp_keepalive c")
    (auto simp: peer_deserialize_def peer_serialize_def jreq_def jget_def jopt_def entry_if_def peer_ok_def
      sorted_sort_id)

text \<open>A flag that is off is left out, and reads back as \<open>None\<close>.\<close>

definition flag_back :: "bool option \<Rightarrow> bool option" where
  "flag_back b = (if b = Some True then Some True else None)"

lemma config_roundtrip:
  assumes ok: "config_ok c"
  shows "config_deserialize (config_serialize False c)
    = Inr (c\<lparr>wc_masquerade := flag_back (wc_masquerade c), wc_forward := flag_back (wc_forward c)\<rparr>)"
proof -
  have i: "intf_deserialize (intf_serialize False (wc_intf c)) = Inr (wc_intf c)"
    using ok by (intro intf_roundtrip) (simp add: config_ok_def)
  have "rmap (\<lambda>p. rbind (as_obj p) (peer_deserialize)) (map (JObj \<circ> peer_serialize False) ps) = Inr ps"
    if "set ps \<subseteq> set (wc_peers c)" for ps
    using that
  proof (induction ps)
    case (Cons p ps)
    then have "peer_deserialize (peer_serialize False p) = Inr p"
      using ok by (intro peer_roundtrip) (auto simp: config_ok_def)
    with Cons show ?case by simp
  qed simp
  then show ?thesis
    using i by (auto simp: config_deserialize_def config_serialize_def jreq_def jget_def entry_if_def flag_back_def)
qed

text \<open>The public form carries neither private nor preshared keys.\<close>

lemma public_no_secrets:
  "map_of (intf_serialize True c) ''privkey'' = Some JNull"
  "map_of (peer_serialize True p) ''psk'' = Some JNull"
  by (simp_all add: intf_serialize_def peer_serialize_def)

section \<open>Life cycle of an interface\<close>

type_synonym command = "string list"

text \<open>The commands run so far, each with its success; \<open>runs\<close> says whether the next one succeeds.\<close>

type_synonym cmd_trace = "(command \<times> bool) list"

record wg_iface =
  wx_created :: bool
  wx_up :: bool
  wx_trace :: cmd_trace

type_synonym exec = "cmd_trace \<Rightarrow> command \<Rightarrow> bool"

definition exec_command :: "exec \<Rightarrow> command \<Rightarrow> (wg_iface, unit) op" where
  "exec_command runs c s =
     (let ok = runs (wx_trace s) c; s' = s\<lparr>wx_trace := wx_trace s @ [(c, ok)]\<rparr> in
      if ok then (Inr (), s') else (Inl (RuntimeError ''command failed''), s'))"

definition wg_error :: "string \<Rightarrow> py_error" where
  "wg_error msg = RuntimeError msg"

definition wg_try :: "exec \<Rightarrow> command \<Rightarrow> string \<Rightarrow> (wg_iface, unit) op" where
  "wg_try runs c msg = op_catch (exec_command runs c) (\<lambda>_. op_raise (wg_error msg))"

definition wg_try_ignore :: "exec \<Rightarrow> bool \<Rightarrow> command \<Rightarrow> string \<Rightarrow> (wg_iface, unit) op" where
  "wg_try_ignore runs ignore_errors c msg =
     op_catch (exec_command runs c) (\<lambda>_. if \<not> ignore_errors then op_raise (wg_error msg) else op_return ())"

definition wg_create :: "exec \<Rightarrow> wg_intf \<Rightarrow> (wg_iface, unit) op" where
  "wg_create runs c =
     op_bind (op_catch (op_then (exec_command runs [''ip'', ''link'', ''show'', wi_name c]) (op_return True))
                (\<lambda>_. op_return False)) (\<lambda>exists.
     op_then (if exists then wg_try runs [''ip'', ''link'', ''delete'', ''dev'', wi_name c] ''failed to delete''
              else op_return ())
     (op_then (wg_try runs [''ip'', ''link'', ''add'', ''dev'', wi_name c, ''type'', ''wireguard''] ''failed to create'')
     (op_then (case wi_mtu c of
                 None \<Rightarrow> op_return ()
               | Some mtu \<Rightarrow> if mtu = 0 then op_return ()
                   else wg_try runs [''ip'', ''link'', ''set'', ''dev'', wi_name c, ''mtu'', show_int mtu] ''failed to set MTU'')
     (op_modify (\<lambda>s. s\<lparr>wx_created := True\<rparr>)))))"

definition wg_delete :: "exec \<Rightarrow> wg_intf \<Rightarrow> bool \<Rightarrow> (wg_iface, unit) op" where
  "wg_delete runs c ignore_errors =
     op_then (wg_try_ignore runs ignore_errors [''ip'', ''link'', ''delete'', ''dev'', wi_name c] ''failed to delete'')
     (op_modify (\<lambda>s. s\<lparr>wx_created := False\<rparr>))"

text \<open>\<open>generated\<close>: whether the configuration file could be written; \<open>wg_conf\<close> is its path.\<close>

definition wg_bring_up :: "exec \<Rightarrow> wg_intf \<Rightarrow> bool \<Rightarrow> string \<Rightarrow> (wg_iface, unit) op" where
  "wg_bring_up runs c generated wg_conf =
     op_then (if generated then op_return () else op_raise (wg_error ''failed to generate configuration''))
     (op_then (wg_try runs [''ip'', ''link'', ''set'', ''down'', ''dev'', wi_name c] ''failed to disable'')
     (op_then (wg_try runs [''ip'', ''address'', ''flush'', ''dev'', wi_name c] ''failed to reset'')
     (op_then (wg_try runs [''ip'', ''address'', ''add'', ''dev'', wi_name c,
                 show_ipv4 (wi_address c) @ ''/'' @ show_nat (wi_netmask c)] ''failed to configure address'')
     (op_then (wg_try runs [''wg'', ''setconf'', wi_name c, wg_conf] ''failed to set configuration'')
     (op_then (wg_try runs [''ip'', ''link'', ''set'', ''up'', ''dev'', wi_name c] ''failed to enable'')
     (op_modify (\<lambda>s. s\<lparr>wx_up := True\<rparr>)))))))"

definition wg_tear_down :: "exec \<Rightarrow> wg_intf \<Rightarrow> bool \<Rightarrow> (wg_iface, unit) op" where
  "wg_tear_down runs c ignore_errors =
     op_then (wg_try_ignore runs ignore_errors [''ip'', ''link'', ''set'', ''down'', ''dev'', wi_name c] ''failed to disable'')
     (op_then (wg_try_ignore runs ignore_errors [''ip'', ''address'', ''flush'', ''dev'', wi_name c] ''failed to reset'')
     (op_modify (\<lambda>s. s\<lparr>wx_up := False\<rparr>)))"

definition wg_start :: "exec \<Rightarrow> wg_intf \<Rightarrow> bool \<Rightarrow> bool \<Rightarrow> string \<Rightarrow> (wg_iface, unit) op" where
  "wg_start runs c noop generated wg_conf =
     (if \<not> noop then op_then (wg_create runs c) (wg_bring_up runs c generated wg_conf)
      else op_modify (\<lambda>s. s\<lparr>wx_up := True, wx_created := True\<rparr>))"

definition wg_stop :: "exec \<Rightarrow> wg_intf \<Rightarrow> bool \<Rightarrow> (wg_iface, unit) op" where
  "wg_stop runs c assert_stopped s =
     op_then (\<lambda>s. if wx_up s \<or> assert_stopped then wg_tear_down runs c assert_stopped s else (Inr (), s))
       (\<lambda>s. if wx_created s \<or> assert_stopped then wg_delete runs c assert_stopped s else (Inr (), s)) s"

lemma wg_try_cases:
  obtains "wg_try runs c msg s = (Inr (), s\<lparr>wx_trace := wx_trace s @ [(c, True)]\<rparr>)" "runs (wx_trace s) c"
  | "wg_try runs c msg s = (Inl (wg_error msg), s\<lparr>wx_trace := wx_trace s @ [(c, False)]\<rparr>)" "\<not> runs (wx_trace s) c"
  by (cases "runs (wx_trace s) c") (auto simp: wg_try_def exec_command_def op_simps Let_def)

lemma wg_try_eq: "wg_try runs c msg s =
    (if runs (wx_trace s) c then Inr () else Inl (wg_error msg),
     s\<lparr>wx_trace := wx_trace s @ [(c, runs (wx_trace s) c)]\<rparr>)"
  by (simp add: wg_try_def exec_command_def op_simps Let_def)

lemma wg_try_ignore_eq: "wg_try_ignore runs ig c msg s =
    (if runs (wx_trace s) c \<or> ig then Inr () else Inl (wg_error msg),
     s\<lparr>wx_trace := wx_trace s @ [(c, runs (wx_trace s) c)]\<rparr>)"
  by (simp add: wg_try_ignore_def exec_command_def op_simps Let_def)

lemma wg_create_flags:
  "wg_create runs c s = (r, s') \<Longrightarrow> wx_up s' = wx_up s \<and> wx_created s' = (case r of Inl _ \<Rightarrow> wx_created s | Inr _ \<Rightarrow> True)"
  by (auto simp: wg_create_def op_simps wg_try_eq exec_command_def Let_def
      split: if_splits prod.splits sum.splits option.splits)

lemma wg_bring_up_flags:
  "wg_bring_up runs c g p s = (r, s') \<Longrightarrow> wx_created s' = wx_created s \<and> wx_up s' = (case r of Inl _ \<Rightarrow> wx_up s | Inr _ \<Rightarrow> True)"
  by (auto simp: wg_bring_up_def op_simps wg_try_eq split: if_splits prod.splits sum.splits)

lemma wg_start_flags:
  assumes "wg_start runs c False g p s = (r, s')"
  shows "r = Inr () \<Longrightarrow> wx_created s' \<and> wx_up s'" and "r \<noteq> Inr () \<Longrightarrow> wx_up s' = wx_up s"
  using assms
  by (auto simp: wg_start_def op_then_def op_bind_def split: prod.splits sum.splits
      dest!: wg_create_flags wg_bring_up_flags)

lemma wg_stop_assert:
  "\<exists>s'. wg_stop runs c True s = (Inr (), s') \<and> \<not> wx_up s' \<and> \<not> wx_created s'"
  by (auto simp: wg_stop_def wg_tear_down_def wg_delete_def op_simps wg_try_ignore_eq)

lemma wg_stop_flags:
  assumes "wg_stop runs c a s = (Inr (), s')"
  shows "\<not> wx_up s' \<and> \<not> wx_created s'"
  using assms
  by (auto simp: wg_stop_def wg_tear_down_def wg_delete_def op_simps wg_try_ignore_eq
      split: if_splits prod.splits sum.splits)

text \<open>What the kernel holds: the effect of the commands that succeeded on the existence of the link.\<close>

fun link_exists :: "string \<Rightarrow> cmd_trace \<Rightarrow> bool \<Rightarrow> bool" where
  "link_exists name [] e = e"
| "link_exists name ((c, ok) # cs) e =
     link_exists name cs
       (if ok \<and> c = [''ip'', ''link'', ''add'', ''dev'', name, ''type'', ''wireguard''] then True
        else if ok \<and> c = [''ip'', ''link'', ''delete'', ''dev'', name] then False
        else e)"

lemma link_exists_append: "link_exists n (xs @ ys) e = link_exists n ys (link_exists n xs e)"
  by (induction xs arbitrary: e) auto

lemma wg_create_exists:
  assumes "wg_create runs c s = (r, s')" and "r = Inr ()"
  shows "link_exists (wi_name c) (wx_trace s') e"
  using assms
  by (auto simp: wg_create_def op_simps wg_try_eq exec_command_def Let_def link_exists_append
      split: if_splits prod.splits sum.splits option.splits)

section \<open>Allowed addresses\<close>

text \<open>The kernel's table, which \<open>wg show\<close> lists and \<open>wg set\<close> updates.\<close>

type_synonym allowed_table = "(string \<times> ipv4_network list) list"

definition allowed_of :: "allowed_table \<Rightarrow> string \<Rightarrow> ipv4_network list" where
  "allowed_of tbl pubkey = (case map_of tbl pubkey of None \<Rightarrow> [] | Some ips \<Rightarrow> ips)"

definition allow_ips_for_peer :: "wg_config \<Rightarrow> nat \<Rightarrow> ipv4_network list \<Rightarrow> allowed_table \<Rightarrow> allowed_table res" where
  "allow_ips_for_peer c peer_i addresses tbl =
     rbind (nth_res (wc_peers c) peer_i) (\<lambda>peer.
       let allowed_ips_nic = allowed_of tbl (wp_pubkey peer);
           not_yet_allowed = filter (\<lambda>a. a \<notin> set allowed_ips_nic) addresses in
       if not_yet_allowed \<noteq> []
       then Inr (AList.update (wp_pubkey peer) (allowed_ips_nic @ remdups not_yet_allowed) tbl)
       else Inr tbl)"

definition disallow_ips_for_peer :: "wg_config \<Rightarrow> nat \<Rightarrow> ipv4_network list \<Rightarrow> allowed_table \<Rightarrow> allowed_table res" where
  "disallow_ips_for_peer c peer_i addresses tbl =
     rbind (nth_res (wc_peers c) peer_i) (\<lambda>peer.
       let allowed_ips_nic = allowed_of tbl (wp_pubkey peer);
           allowed = filter (\<lambda>a. a \<notin> set addresses) allowed_ips_nic in
       if set allowed \<noteq> set allowed_ips_nic
       then Inr (AList.update (wp_pubkey peer) allowed tbl)
       else Inr tbl)"

lemma allow_ips_spec:
  assumes "allow_ips_for_peer c i addrs tbl = Inr tbl'"
  shows "set (allowed_of tbl' k) = set (allowed_of tbl k)
    \<union> (if i < length (wc_peers c) \<and> k = wp_pubkey (wc_peers c ! i) then set addrs else {})"
proof -
  from assms have i: "i < length (wc_peers c)" by (auto simp: allow_ips_for_peer_def res_simps)
  let ?k = "wp_pubkey (wc_peers c ! i)"
  let ?new = "filter (\<lambda>a. a \<notin> set (allowed_of tbl ?k)) addrs"
  show ?thesis
  proof (cases "?new = []")
    case True
    then have "set addrs \<subseteq> set (allowed_of tbl ?k)" by (auto simp: filter_empty_conv)
    with True assms i show ?thesis by (auto simp: allow_ips_for_peer_def Let_def)
  next
    case False
    then have "tbl' = AList.update ?k (allowed_of tbl ?k @ remdups ?new) tbl"
      using assms i by (simp add: allow_ips_for_peer_def Let_def)
    then show ?thesis using i by (auto simp: allowed_of_def split: option.splits if_splits)
  qed
qed

lemma disallow_ips_spec:
  assumes "disallow_ips_for_peer c i addrs tbl = Inr tbl'"
  shows "set (allowed_of tbl' k) = set (allowed_of tbl k)
    - (if i < length (wc_peers c) \<and> k = wp_pubkey (wc_peers c ! i) then set addrs else {})"
proof -
  from assms have i: "i < length (wc_peers c)" by (auto simp: disallow_ips_for_peer_def res_simps)
  let ?k = "wp_pubkey (wc_peers c ! i)"
  let ?new = "filter (\<lambda>a. a \<notin> set addrs) (allowed_of tbl ?k)"
  show ?thesis
  proof (cases "set ?new = set (allowed_of tbl ?k)")
    case True
    then have "set addrs \<inter> set (allowed_of tbl ?k) = {}" by auto
    with True assms i show ?thesis by (auto simp: disallow_ips_for_peer_def Let_def)
  next
    case False
    then have "tbl' = AList.update ?k ?new tbl"
      using assms i by (simp add: disallow_ips_for_peer_def Let_def)
    then show ?thesis using i by (auto simp: allowed_of_def split: option.splits if_splits)
  qed
qed

section \<open>Statistics\<close>

definition find_peer :: "wg_config \<Rightarrow> string \<Rightarrow> wg_peer option" where
  "find_peer c pubkey = find (\<lambda>p. wp_pubkey p = pubkey) (wc_peers c)"

definition map_peer_ids :: "wg_config \<Rightarrow> (string \<times> 'a) list \<Rightarrow> (int \<times> 'a) list \<times> (string \<times> 'a) list" where
  "map_peer_ids c stats =
     (foldl (\<lambda>d (pubkey, v). case find_peer c pubkey of None \<Rightarrow> d | Some p \<Rightarrow> AList.update (wp_id p) v d) [] stats,
      foldl (\<lambda>d (pubkey, v). case find_peer c pubkey of None \<Rightarrow> AList.update pubkey v d | Some p \<Rightarrow> d) [] stats)"

record peer_stat =
  st_handshake :: int
  st_online :: bool
  st_recv :: int
  st_send :: int
  st_endpoint :: "string \<times> string"
  st_allowed :: "ipv4_network list"

definition handshake_online :: "int \<Rightarrow> int \<Rightarrow> bool" where
  "handshake_online now handshake \<longleftrightarrow> now - handshake \<le> 150"

text \<open>The four tables that \<open>wg show\<close> prints are arguments; a peer missing from one raises.\<close>

definition wg_stat_peers ::
  "int \<Rightarrow> string list \<Rightarrow> (string \<times> int) list \<Rightarrow> (string \<times> int \<times> int) list
   \<Rightarrow> (string \<times> string \<times> string) list \<Rightarrow> allowed_table \<Rightarrow> (string \<times> peer_stat) list res" where
  "wg_stat_peers now peer_keys handshakes transfers endpoints allowed =
     rmap (\<lambda>pubkey.
       rbind (the_or KeyError (map_of handshakes pubkey)) (\<lambda>handshake.
       rbind (the_or KeyError (map_of transfers pubkey)) (\<lambda>transfer.
       rbind (the_or KeyError (map_of endpoints pubkey)) (\<lambda>endpoint.
       rbind (the_or KeyError (map_of allowed pubkey)) (\<lambda>ips.
         Inr (pubkey, \<lparr>st_handshake = handshake, st_online = handshake_online now handshake,
              st_recv = fst transfer, st_send = snd transfer, st_endpoint = endpoint, st_allowed = ips\<rparr>)))))) peer_keys"

lemma foldl_update_keys:
  "fst ` set (foldl (\<lambda>d (k, v). if P k then AList.update (f k) v d else d) d0 xs)
    = fst ` set d0 \<union> f ` {k. P k \<and> k \<in> fst ` set xs}"
proof (induction xs arbitrary: d0)
  case (Cons x xs)
  obtain k v where "x = (k, v)" by (cases x)
  then show ?case using Cons [of "if P k then AList.update (f k) v d0 else d0"] by auto
qed simp

text \<open>Every peer the command lists is in exactly one of the two tables.\<close>

lemma map_peer_ids_keys:
  "fst ` set (fst (map_peer_ids c stats)) = (\<lambda>k. wp_id (the (find_peer c k))) ` {k \<in> fst ` set stats. find_peer c k \<noteq> None}"
  "fst ` set (snd (map_peer_ids c stats)) = {k \<in> fst ` set stats. find_peer c k = None}"
proof -
  have f: "(\<lambda>d (pubkey, v). case find_peer c pubkey of None \<Rightarrow> d | Some p \<Rightarrow> AList.update (wp_id p) v d)
      = (\<lambda>d (k, v). if find_peer c k \<noteq> None then AList.update (wp_id (the (find_peer c k))) v d else d)"
    by (auto simp: fun_eq_iff split: option.splits)
  have g: "(\<lambda>d (pubkey, v). case find_peer c pubkey of None \<Rightarrow> AList.update pubkey v d | Some p \<Rightarrow> d)
      = (\<lambda>d (k, v). if find_peer c k = None then AList.update k v d else d)"
    by (auto simp: fun_eq_iff split: option.splits)
  show "fst ` set (fst (map_peer_ids c stats)) = (\<lambda>k. wp_id (the (find_peer c k))) ` {k \<in> fst ` set stats. find_peer c k \<noteq> None}"
    unfolding map_peer_ids_def f fst_conv foldl_update_keys by auto
  show "fst ` set (snd (map_peer_ids c stats)) = {k \<in> fst ` set stats. find_peer c k = None}"
    unfolding map_peer_ids_def g snd_conv foldl_update_keys by auto
qed

section \<open>What the interface promises\<close>

lemma wg_bring_up_exists:
  "wg_bring_up runs c g p s = (Inr (), s') \<Longrightarrow> link_exists n (wx_trace s') e = link_exists n (wx_trace s) e"
  by (auto simp: wg_bring_up_def op_simps wg_try_eq link_exists_append split: if_splits prod.splits sum.splits)

lemma wg_start_exists:
  assumes "wg_start runs c False g p s = (Inr (), s')"
  shows "link_exists (wi_name c) (wx_trace s') e"
proof -
  from assms obtain s1 where "wg_create runs c s = (Inr (), s1)" "wg_bring_up runs c g p s1 = (Inr (), s')"
    by (auto simp: wg_start_def op_then_Inr)
  with wg_create_exists [of runs c s "Inr ()" s1] show ?thesis by (simp add: wg_bring_up_exists)
qed

lemma wg_tear_down_exists:
  "wg_tear_down runs c ig s = (Inr (), s') \<Longrightarrow> link_exists n (wx_trace s') e = link_exists n (wx_trace s) e
    \<and> wx_created s' = wx_created s"
  by (auto simp: wg_tear_down_def op_simps wg_try_ignore_eq link_exists_append split: if_splits prod.splits sum.splits)

text \<open>C38: After a successful start the kernel has the interface, and a successful stop that does not ignore errors
  removes it again, whatever commands the two ran and whatever was there before.\<close>

theorem interface_start_stop:
  assumes "wg_start runs c False g p s = (Inr (), s1)" and "wg_stop runs c False s1 = (Inr (), s2)"
  shows "link_exists (wi_name c) (wx_trace s1) e \<and> \<not> link_exists (wi_name c) (wx_trace s2) e
    \<and> \<not> wx_up s2 \<and> \<not> wx_created s2"
proof -
  have f: "wx_created s1" "wx_up s1" using wg_start_flags(1) [OF assms(1)] by simp_all
  from assms(2) f obtain s' where "wg_tear_down runs c False s1 = (Inr (), s')"
    and d: "(if wx_created s' then wg_delete runs c False s' else (Inr (), s')) = (Inr (), s2)"
    by (auto simp: wg_stop_def op_then_Inr)
  with wg_tear_down_exists f(1) have "wg_delete runs c False s' = (Inr (), s2)" by fastforce
  then have "\<not> link_exists (wi_name c) (wx_trace s2) e"
    by (auto simp: wg_delete_def op_simps wg_try_ignore_eq link_exists_append split: if_splits)
  with wg_start_exists [OF assms(1)] wg_stop_flags [OF assms(2)] show ?thesis by blast
qed

definition demo_intf :: wg_intf where
  "demo_intf = \<lparr>wi_name = ''wg0'', wi_privkey = None, wi_address = 10, wi_netmask = 24, wi_port = None,
     wi_endpoint = None, wi_mtu = Some 1320\<rparr>"

definition demo_iface :: wg_iface where
  "demo_iface = \<lparr>wx_created = False, wx_up = False, wx_trace = []\<rparr>"

theorem interface_start_stop_witness:
  "\<exists>s1 s2. wg_start (\<lambda>_ _. True) demo_intf False True ''f'' demo_iface = (Inr (), s1)
    \<and> wg_stop (\<lambda>_ _. True) demo_intf False s1 = (Inr (), s2) \<and> \<not> link_exists ''wg0'' (wx_trace s2) True"
proof -
  have n: "wi_name demo_intf = ''wg0''" by (simp add: demo_intf_def)
  obtain s1 where a: "wg_start (\<lambda>_ _. True) demo_intf False True ''f'' demo_iface = (Inr (), s1)"
    by (simp add: wg_start_def wg_create_def wg_bring_up_def op_simps wg_try_eq exec_command_def demo_intf_def Let_def)
  obtain s2 where b: "wg_stop (\<lambda>_ _. True) demo_intf False s1 = (Inr (), s2)"
    by (cases "wx_up s1"; cases "wx_created s1")
       (simp_all add: wg_stop_def wg_tear_down_def wg_delete_def op_simps wg_try_ignore_eq)
  from interface_start_stop [OF a b, of True] a b n show ?thesis by auto
qed

text \<open>An interface whose MTU cannot be set stays behind: \<open>create\<close> raises, the object does not know of the
  interface, and a stop that does not ignore errors succeeds without removing it.\<close>

theorem mtu_failure_leaks_interface:
  assumes "wi_mtu c = Some mtu" and "mtu \<noteq> 0"
    and "\<And>tr cmd. runs tr cmd \<longleftrightarrow> cmd \<noteq> [''ip'', ''link'', ''set'', ''dev'', wi_name c, ''mtu'', show_int mtu]"
    and "wg_start runs c False g p \<lparr>wx_created = False, wx_up = False, wx_trace = tr\<rparr> = (r, s1)"
  shows "r = Inl (wg_error ''failed to set MTU'') \<and> link_exists (wi_name c) (wx_trace s1) e
    \<and> wg_stop runs c False s1 = (Inr (), s1)"
  using assms(1,2,4)
  by (auto simp: wg_start_def wg_create_def op_simps wg_try_eq exec_command_def Let_def assms(3) link_exists_append
      wg_stop_def)

theorem mtu_failure_leaks_interface_witness:
  "\<exists>r s1. wg_start (\<lambda>tr cmd. cmd \<noteq> [''ip'', ''link'', ''set'', ''dev'', ''wg0'', ''mtu'', show_int 1320]) demo_intf False True ''f''
      \<lparr>wx_created = False, wx_up = False, wx_trace = []\<rparr> = (r, s1) \<and> link_exists ''wg0'' (wx_trace s1) False"
proof -
  let ?runs = "\<lambda>tr cmd. cmd \<noteq> [''ip'', ''link'', ''set'', ''dev'', ''wg0'', ''mtu'', show_int 1320]"
  have c: "wi_mtu demo_intf = Some 1320" "wi_name demo_intf = ''wg0''" by (simp_all add: demo_intf_def)
  obtain r s1 where s: "wg_start ?runs demo_intf False True ''f'' \<lparr>wx_created = False, wx_up = False, wx_trace = []\<rparr> = (r, s1)"
    by (cases "wg_start ?runs demo_intf False True ''f'' \<lparr>wx_created = False, wx_up = False, wx_trace = []\<rparr>")
  from mtu_failure_leaks_interface [OF c(1) _ _ s, of False] s c(2) show ?thesis by auto
qed

text \<open>C39: A configuration read back from its serialised form is the configuration, with the two flags that are not
  true lost: a false flag comes back as absent.\<close>

theorem wg_config_roundtrip:
  assumes "config_ok c"
  shows "config_deserialize (config_serialize False c)
    = Inr (c\<lparr>wc_masquerade := flag_back (wc_masquerade c), wc_forward := flag_back (wc_forward c)\<rparr>)"
  by (rule config_roundtrip [OF assms])

theorem wg_config_roundtrip_witness:
  "\<exists>c'. config_deserialize (config_serialize False \<lparr>wc_intf = demo_intf, wc_peers = [], wc_tunnel = True,
      wc_tunnel_root = True, wc_masquerade = Some True, wc_forward = Some False, wc_generation_ts = ''t''\<rparr>) = Inr c'
    \<and> wc_masquerade c' = flag_back (Some True) \<and> wc_intf c' = demo_intf"
proof -
  have "config_ok \<lparr>wc_intf = demo_intf, wc_peers = [], wc_tunnel = True,
      wc_tunnel_root = True, wc_masquerade = Some True, wc_forward = Some False, wc_generation_ts = ''t''\<rparr>"
    by (simp add: config_ok_def intf_ok_def demo_intf_def)
  from wg_config_roundtrip [OF this] show ?thesis by simp
qed

text \<open>Allowing addresses for a peer adds exactly these to what the interface accepts from it, disallowing them
  removes exactly these, and no other peer is affected.\<close>

theorem allowed_addresses_updated:
  assumes "allow_ips_for_peer c i addrs tbl = Inr tbl1" and "disallow_ips_for_peer c i addrs' tbl1 = Inr tbl2"
    and "i < length (wc_peers c)"
  shows "set (allowed_of tbl1 k) = set (allowed_of tbl k) \<union> (if k = wp_pubkey (wc_peers c ! i) then set addrs else {})
    \<and> set (allowed_of tbl2 k) = set (allowed_of tbl1 k) - (if k = wp_pubkey (wc_peers c ! i) then set addrs' else {})"
  using allow_ips_spec [OF assms(1), of k] disallow_ips_spec [OF assms(2), of k] assms(3) by simp

theorem allowed_addresses_updated_witness:
  "\<exists>tbl1 tbl2. allow_ips_for_peer \<lparr>wc_intf = demo_intf, wc_peers = [\<lparr>wp_id = 1, wp_pubkey = ''k'', wp_psk = None, wp_address = 1,
        wp_allowed = [], wp_endpoint = None, wp_keepalive = None\<rparr>], wc_tunnel = True, wc_tunnel_root = True,
        wc_masquerade = None, wc_forward = None, wc_generation_ts = ''t''\<rparr> 0 [\<lparr>network_address = 0, prefixlen = 24\<rparr>] [] = Inr tbl1
    \<and> set (allowed_of tbl1 ''k'') = {\<lparr>network_address = 0, prefixlen = 24\<rparr>} \<and> set (allowed_of tbl2 ''k'') = {}"
proof -
  let ?c = "\<lparr>wc_intf = demo_intf, wc_peers = [\<lparr>wp_id = 1, wp_pubkey = ''k'', wp_psk = None, wp_address = 1,
        wp_allowed = [], wp_endpoint = None, wp_keepalive = None\<rparr>], wc_tunnel = True, wc_tunnel_root = True,
        wc_masquerade = None, wc_forward = None, wc_generation_ts = ''t''\<rparr>"
  obtain tbl1 where a: "allow_ips_for_peer ?c 0 [\<lparr>network_address = 0, prefixlen = 24\<rparr>] [] = Inr tbl1"
    by (cases "allow_ips_for_peer ?c 0 [\<lparr>network_address = 0, prefixlen = 24\<rparr>] []")
      (auto simp: allow_ips_for_peer_def Let_def split: if_splits)
  obtain tbl2 where b: "disallow_ips_for_peer ?c 0 [\<lparr>network_address = 0, prefixlen = 24\<rparr>] tbl1 = Inr tbl2"
    by (cases "disallow_ips_for_peer ?c 0 [\<lparr>network_address = 0, prefixlen = 24\<rparr>] tbl1")
      (auto simp: disallow_ips_for_peer_def Let_def split: if_splits)
  have "set (allowed_of [] ''k'') = ({} :: ipv4_network set)" by (simp add: allowed_of_def)
  with allowed_addresses_updated [OF a b, of "''k''"] a show ?thesis by auto
qed

end
