(* ===== verification/Vpn_Config.thy ===== *)
theory Vpn_Config
  imports Strategy Vpn_Keymat Wg
begin

text \<open>
  The WireGuard configurations derived from the key material and the deployed links
  (\<open>uno/registry/vpn_config.py\<close>, \<open>vpn_settings.py\<close>): a star around a root and a mesh of point to point
  links. The claims are that both ends of a tunnel are configured consistently.
\<close>

section \<open>Settings\<close>

record vpn_settings =
  vs_port :: int
  vs_peer_port :: "int option"
  vs_subnet :: ipv4_network
  vs_interface :: string
  vs_allowed_ips :: "string list"
  vs_peer_mtu :: "int option"
  vs_masquerade :: bool
  vs_forward :: bool
  vs_tunnel :: bool
  vs_keepalive :: "int option"

definition net :: "nat \<Rightarrow> nat \<Rightarrow> nat \<Rightarrow> nat \<Rightarrow> nat \<Rightarrow> ipv4_network" where
  "net a b c d p = \<lparr>network_address = a * 2 ^ 24 + b * 2 ^ 16 + c * 2 ^ 8 + d, prefixlen = p\<rparr>"

definition root_vpn_settings :: vpn_settings where
  "root_vpn_settings = \<lparr>vs_port = 63447, vs_peer_port = Some 63448, vs_subnet = net 10 255 128 0 22,
     vs_interface = ''uwg-v{}'', vs_allowed_ips = [], vs_peer_mtu = Some 1320, vs_masquerade = True,
     vs_forward = False, vs_tunnel = False, vs_keepalive = Some 25\<rparr>"

definition particles_vpn_settings :: vpn_settings where
  "particles_vpn_settings = \<lparr>vs_port = 63449, vs_peer_port = None, vs_subnet = net 10 254 0 0 16,
     vs_interface = ''uwg-p{}'', vs_allowed_ips = [], vs_peer_mtu = Some 1320, vs_masquerade = True,
     vs_forward = True, vs_tunnel = True, vs_keepalive = Some 25\<rparr>"

definition backbone_vpn_settings :: vpn_settings where
  "backbone_vpn_settings = \<lparr>vs_port = 63450, vs_peer_port = None, vs_subnet = net 10 255 192 0 20,
     vs_interface = ''uwg-b{}'', vs_allowed_ips = [], vs_peer_mtu = Some 1320, vs_masquerade = False,
     vs_forward = True, vs_tunnel = False, vs_keepalive = Some 25\<rparr>"

definition base_ip :: "vpn_settings \<Rightarrow> ipv4" where
  "base_ip s = network_address (vs_subnet s)"

text \<open>\<open>str.format\<close> with one positional field.\<close>

fun format1 :: "string \<Rightarrow> string \<Rightarrow> string" where
  "format1 (a # b # cs) x = (if a = CHR ''{'' \<and> b = CHR ''}'' then x @ format1 cs x else a # format1 (b # cs) x)"
| "format1 cs x = cs"

section \<open>A star\<close>

record ('m, 'p) central_vpn =
  cv_settings :: vpn_settings
  cv_keymat :: "('m, 'p) central_keymat"
  cv_peer_ids :: "peer list"
  cv_root_endpoint :: "string option"
  cv_peer_endpoints :: "(peer \<times> string option) list"

definition root_ip :: "('m, 'p) central_vpn \<Rightarrow> ipv4 res" where
  "root_ip self = ip_add (base_ip (cv_settings self)) 1"

definition peer_ip :: "('m, 'p) central_vpn \<Rightarrow> peer \<Rightarrow> ipv4 res" where
  "peer_ip self p = rbind (root_ip self) (\<lambda>ip.
     if p < 0 \<and> int ip + p < 0 then Inl AddressValueError
     else if p < 0 then Inr (nat (int ip + p)) else ip_add ip (nat p))"

definition cv_peer_port :: "('m, 'p) central_vpn \<Rightarrow> int" where
  "cv_peer_port self = (case vs_peer_port (cv_settings self) of
     None \<Rightarrow> vs_port (cv_settings self) | Some p \<Rightarrow> if p = 0 then vs_port (cv_settings self) else p)"

definition endpoint_str :: "string \<Rightarrow> int \<Rightarrow> string" where
  "endpoint_str host port = host @ '':'' @ show_int port"

text \<open>A dictionary's \<open>get\<close> of an optional value; an empty string counts as no endpoint where the
  code tests truth, not where it tests \<open>is None\<close>.\<close>

definition endpoint_of :: "(peer \<times> string option) list \<Rightarrow> peer \<Rightarrow> string option" where
  "endpoint_of eps p = Option.bind (map_of eps p) (\<lambda>e. e)"

definition endpoint_true :: "string option \<Rightarrow> bool" where
  "endpoint_true e \<longleftrightarrow> e \<noteq> None \<and> e \<noteq> Some []"

definition keepalive_of :: "bool \<Rightarrow> vpn_settings \<Rightarrow> int option" where
  "keepalive_of c s = (if c then vs_keepalive s else None)"

definition ask_material ::
  "('m, 'p) central_vpn \<Rightarrow> peer \<Rightarrow> ('m wkey \<times> 'p wkey) res" where
  "ask_material self p =
     rbind (cm_get_peer_material p True (cv_keymat self)) (\<lambda>ms.
       case ms of [KeyOf k, PskOf psk] \<Rightarrow> Inr (k, psk) | _ \<Rightarrow> Inl (ValueError ''unpack''))"

definition root_peer ::
  "('m \<Rightarrow> string) \<Rightarrow> ('p \<Rightarrow> string) \<Rightarrow> ('m, 'p) central_vpn \<Rightarrow> peer \<Rightarrow> wg_peer res" where
  "root_peer pub psk_str self peer_id =
     rbind (ask_material self peer_id) (\<lambda>(peer_key, peer_psk).
     rbind (peer_ip self peer_id) (\<lambda>ip.
       let peer_endpoint = endpoint_of (cv_peer_endpoints self) peer_id in
       Inr \<lparr>wp_id = peer_id, wp_pubkey = pub (wk_material peer_key), wp_psk = Some (psk_str (wk_material peer_psk)),
            wp_address = ip, wp_allowed = [show_ipv4 ip],
            wp_endpoint = map_option (\<lambda>h. endpoint_str h (cv_peer_port self)) peer_endpoint,
            wp_keepalive = keepalive_of (endpoint_true peer_endpoint) (cv_settings self)\<rparr>))"

definition root_config ::
  "('m \<Rightarrow> string) \<Rightarrow> ('m \<Rightarrow> string) \<Rightarrow> ('p \<Rightarrow> string) \<Rightarrow> string \<Rightarrow> ('m, 'p) central_vpn \<Rightarrow> wg_config res" where
  "root_config pub priv psk_str now self =
     (let s = cv_settings self in
      rbind (root_ip self) (\<lambda>ip.
      rbind (the_or (AttributeError ''private'') (cm_root_key (cv_keymat self))) (\<lambda>root_key.
      rbind (ipv4_netmask_to_cidr (netmask_of (prefixlen (vs_subnet s)))) (\<lambda>nm.
      rbind (rmap (root_peer pub psk_str self) (cv_peer_ids self)) (\<lambda>peers.
        Inr \<lparr>wc_intf = \<lparr>wi_name = format1 (vs_interface s) ''1'', wi_privkey = Some (priv (wk_material root_key)),
               wi_address = ip, wi_netmask = nm,
               wi_port = (case cv_root_endpoint self of None \<Rightarrow> None | Some _ \<Rightarrow> Some (vs_port s)),
               wi_endpoint = map_option (\<lambda>h. endpoint_str h (vs_port s)) (cv_root_endpoint self),
               wi_mtu = vs_peer_mtu s\<rparr>,
             wc_peers = peers, wc_tunnel = vs_tunnel s, wc_tunnel_root = True,
             wc_masquerade = Some (vs_masquerade s), wc_forward = Some (vs_forward s),
             wc_generation_ts = now\<rparr>)))))"

definition central_peer_config ::
  "('m \<Rightarrow> string) \<Rightarrow> ('m \<Rightarrow> string) \<Rightarrow> ('p \<Rightarrow> string) \<Rightarrow> string \<Rightarrow> ('m, 'p) central_vpn \<Rightarrow> peer \<Rightarrow> wg_config res" where
  "central_peer_config pub priv psk_str now self peer_id =
     (let s = cv_settings self; peer_endpoint = endpoint_of (cv_peer_endpoints self) peer_id;
          own = endpoint_true peer_endpoint in
      rbind (ask_material self peer_id) (\<lambda>(peer_key, peer_psk).
      rbind (peer_ip self peer_id) (\<lambda>ip.
      rbind (root_ip self) (\<lambda>rip.
      rbind (ipv4_netmask_to_cidr (netmask_of (prefixlen (vs_subnet s)))) (\<lambda>nm.
      rbind (the_or (AttributeError ''public'') (cm_root_key (cv_keymat self))) (\<lambda>root_key.
        Inr \<lparr>wc_intf = \<lparr>wi_name = format1 (vs_interface s) ''0'', wi_privkey = Some (priv (wk_material peer_key)),
               wi_address = ip, wi_netmask = nm,
               wi_port = (if own then Some (cv_peer_port self) else None),
               wi_endpoint = (if own then map_option (\<lambda>h. endpoint_str h (cv_peer_port self)) peer_endpoint else None),
               wi_mtu = vs_peer_mtu s\<rparr>,
             wc_peers = [\<lparr>wp_id = 0, wp_pubkey = pub (wk_material root_key), wp_psk = Some (psk_str (wk_material peer_psk)),
               wp_address = rip, wp_allowed = [show_ipv4 rip],
               wp_endpoint = (if cv_root_endpoint self = None \<or> own then None
                              else map_option (\<lambda>h. endpoint_str h (vs_port s)) (cv_root_endpoint self)),
               wp_keepalive = keepalive_of (\<not> own) s\<rparr>],
             wc_tunnel = vs_tunnel s, wc_tunnel_root = False,
             wc_masquerade = Some (vs_masquerade s), wc_forward = Some (vs_forward s),
             wc_generation_ts = now\<rparr>))))))"

section \<open>A mesh of links\<close>

record p2p_vpn =
  pv_settings :: vpn_settings
  pv_deployment :: links_map
  pv_peer_ids :: "peer list"
  pv_peer_endpoints :: "(peer \<times> string option) list"

text \<open>The configuration of one end of a link, from what the two ends contribute.\<close>

definition p2p_config ::
  "('k \<Rightarrow> string) \<Rightarrow> ('k \<Rightarrow> string) \<Rightarrow> ('p \<Rightarrow> string) \<Rightarrow> string \<Rightarrow> vpn_settings
   \<Rightarrow> peer \<Rightarrow> link \<Rightarrow> nat \<Rightarrow> string option \<Rightarrow> string option \<Rightarrow> 'k \<Rightarrow> 'k \<Rightarrow> 'p \<Rightarrow> nat \<Rightarrow> wg_config" where
  "p2p_config pub priv psk_str now st b l b_port a_end b_end own_key other_key psk nm =
     (case l of (a_port, a_addr, b_addr, _) \<Rightarrow>
       \<lparr>wc_intf = \<lparr>wi_name = format1 (vs_interface st) (show_nat a_port),
          wi_privkey = Some (priv own_key), wi_address = a_addr, wi_netmask = nm,
          wi_port = Some (if endpoint_true a_end then vs_port st + int a_port else 0),
          wi_endpoint = (if endpoint_true a_end
             then map_option (\<lambda>h. endpoint_str h (vs_port st + int a_port)) a_end else None),
          wi_mtu = vs_peer_mtu st\<rparr>,
        wc_peers = [\<lparr>wp_id = b, wp_pubkey = pub other_key, wp_psk = Some (psk_str psk), wp_address = b_addr,
          wp_allowed = sort (show_net (vs_subnet st) # vs_allowed_ips st),
          wp_endpoint = (if endpoint_true b_end
             then map_option (\<lambda>h. endpoint_str h (vs_port st + int b_port)) b_end else None),
          wp_keepalive = keepalive_of (a_end = None) st\<rparr>],
        wc_tunnel = vs_tunnel st, wc_tunnel_root = False,
        wc_masquerade = Some (vs_masquerade st), wc_forward = Some (vs_forward st),
        wc_generation_ts = now\<rparr>)"

text \<open>One link, as seen from \<open>peer\<close>. The key store is the argument \<open>put\<close>, the \<open>assert_pair\<close> of the
  key material.\<close>

definition p2p_link_config ::
  "('k \<Rightarrow> string) \<Rightarrow> ('k \<Rightarrow> string) \<Rightarrow> ('p \<Rightarrow> string) \<Rightarrow> ('s \<Rightarrow> peer \<Rightarrow> peer \<Rightarrow> (('k list \<times> 'p) \<times> 's) res)
   \<Rightarrow> string \<Rightarrow> p2p_vpn \<Rightarrow> peer \<Rightarrow> peer \<times> link \<Rightarrow> 's \<Rightarrow> (wg_config \<times> 's) res" where
  "p2p_link_config pub priv psk_str put now self peer bl s =
     (case bl of (b, l) \<Rightarrow>
       rbind (the_or KeyError (map_of (pv_deployment self) b)) (\<lambda>b_cfg.
       rbind (the_or KeyError (map_of (pd_peers b_cfg) peer)) (\<lambda>(b_port, _).
       rbind (put s peer b) (\<lambda>((keys, psk), s').
       rbind (the_or KeyError (map_of (pv_peer_endpoints self) peer)) (\<lambda>a_end.
       rbind (the_or KeyError (map_of (pv_peer_endpoints self) b)) (\<lambda>b_end.
       rbind (pick_list peer b peer keys) (\<lambda>own_key.
       rbind (pick_list peer b b keys) (\<lambda>other_key.
       rbind (ipv4_netmask_to_cidr (netmask_of (prefixlen (snd (snd (snd l)))))) (\<lambda>nm.
         Inr (p2p_config pub priv psk_str now (pv_settings self) b l b_port a_end b_end own_key other_key psk nm, s'))))))))))"

fun p2p_links ::
  "(peer \<times> link \<Rightarrow> 's \<Rightarrow> (wg_config \<times> 's) res) \<Rightarrow> (peer \<times> link) list \<Rightarrow> 's \<Rightarrow> (wg_config list \<times> 's) res" where
  "p2p_links f [] s = Inr ([], s)"
| "p2p_links f (l # ls) s = rbind (f l s) (\<lambda>(c, s1). rbind (p2p_links f ls s1) (\<lambda>(cs, s2). Inr (c # cs, s2)))"

definition p2p_peer_config ::
  "('k \<Rightarrow> string) \<Rightarrow> ('k \<Rightarrow> string) \<Rightarrow> ('p \<Rightarrow> string) \<Rightarrow> ('s \<Rightarrow> peer \<Rightarrow> peer \<Rightarrow> (('k list \<times> 'p) \<times> 's) res)
   \<Rightarrow> string \<Rightarrow> p2p_vpn \<Rightarrow> peer \<Rightarrow> 's \<Rightarrow> (wg_config list \<times> 's) res" where
  "p2p_peer_config pub priv psk_str put now self peer s =
     (case map_of (pv_deployment self) peer of
        None \<Rightarrow> Inr ([], s)
      | Some cfg \<Rightarrow> p2p_links (p2p_link_config pub priv psk_str put now self peer) (pd_peers cfg) s)"

section \<open>The two ends of a star's tunnel\<close>

lemma root_config_peer:
  assumes "root_config pub priv psk_str now self = Inr rc" and "p \<in> set (cv_peer_ids self)"
  shows "\<exists>e \<in> set (wc_peers rc). root_peer pub psk_str self p = Inr e"
proof -
  from assms(1) have "rmap (root_peer pub psk_str self) (cv_peer_ids self) = Inr (wc_peers rc)"
    by (auto simp: root_config_def Let_def res_simps)
  then show ?thesis using assms(2)
    by (metis in_set_conv_nth rmap_Inr_length rmap_Inr_nth)
qed

text \<open>The tunnel between the root and the peer \<open>p\<close>: each end trusts the other's key, both share the
  preshared key, each allows exactly the other's address, and when the root has an address exactly
  one end dials the other.\<close>

definition star_tunnel_ok ::
  "('m \<Rightarrow> string) \<Rightarrow> ('m \<Rightarrow> string) \<Rightarrow> wg_config \<Rightarrow> wg_peer \<Rightarrow> wg_config \<Rightarrow> wg_peer \<Rightarrow> bool" where
  "star_tunnel_ok pub priv rc e pc r \<longleftrightarrow>
     (\<exists>rk k. wi_privkey (wc_intf rc) = Some (priv rk) \<and> wp_pubkey r = pub rk
           \<and> wi_privkey (wc_intf pc) = Some (priv k) \<and> wp_pubkey e = pub k)
     \<and> wp_psk e = wp_psk r
     \<and> wp_address e = wi_address (wc_intf pc) \<and> wp_address r = wi_address (wc_intf rc)
     \<and> wp_allowed e = [show_ipv4 (wp_address e)] \<and> wp_allowed r = [show_ipv4 (wp_address r)]
     \<and> wi_netmask (wc_intf rc) = wi_netmask (wc_intf pc)
     \<and> wp_endpoint e = wi_endpoint (wc_intf pc)
     \<and> wp_endpoint r = (if wi_endpoint (wc_intf pc) = None then wi_endpoint (wc_intf rc) else None)
     \<and> (wp_keepalive e = None \<or> wp_keepalive r = None)"

lemma endpoint_true_iff: "e \<noteq> Some [] \<Longrightarrow> endpoint_true e \<longleftrightarrow> e \<noteq> None"
  by (simp add: endpoint_true_def)

lemma star_tunnel:
  assumes rc: "root_config pub priv psk_str now self = Inr rc"
    and pc: "central_peer_config pub priv psk_str now self p = Inr pc"
    and p: "p \<in> set (cv_peer_ids self)"
    and ep: "endpoint_of (cv_peer_endpoints self) p \<noteq> Some []"
  shows "\<exists>e \<in> set (wc_peers rc). \<exists>r. wc_peers pc = [r] \<and> wp_id e = p \<and> wp_id r = 0 \<and> star_tunnel_ok pub priv rc e pc r"
proof -
  from root_config_peer [OF rc p] obtain e where e: "e \<in> set (wc_peers rc)" and re: "root_peer pub psk_str self p = Inr e"
    by blast
  let ?s = "cv_settings self" and ?pe = "endpoint_of (cv_peer_endpoints self) p"
  have own: "endpoint_true ?pe \<longleftrightarrow> ?pe \<noteq> None" using ep by (rule endpoint_true_iff)
  from rc obtain rip rk nm where R: "root_ip self = Inr rip" "cm_root_key (cv_keymat self) = Some rk"
    "ipv4_netmask_to_cidr (netmask_of (prefixlen (vs_subnet ?s))) = Inr nm"
    "wi_privkey (wc_intf rc) = Some (priv (wk_material rk))" "wi_address (wc_intf rc) = rip"
    "wi_netmask (wc_intf rc) = nm"
    "wi_endpoint (wc_intf rc) = map_option (\<lambda>h. endpoint_str h (vs_port ?s)) (cv_root_endpoint self)"
    by (auto simp: root_config_def Let_def res_simps)
  from re obtain k psk ip where E: "ask_material self p = Inr (k, psk)" "peer_ip self p = Inr ip"
    "e = \<lparr>wp_id = p, wp_pubkey = pub (wk_material k), wp_psk = Some (psk_str (wk_material psk)),
            wp_address = ip, wp_allowed = [show_ipv4 ip],
            wp_endpoint = map_option (\<lambda>h. endpoint_str h (cv_peer_port self)) ?pe,
            wp_keepalive = keepalive_of (endpoint_true ?pe) ?s\<rparr>"
    by (auto simp: root_peer_def Let_def res_simps)
  let ?r = "\<lparr>wp_id = 0, wp_pubkey = pub (wk_material rk), wp_psk = Some (psk_str (wk_material psk)),
               wp_address = rip, wp_allowed = [show_ipv4 rip],
               wp_endpoint = (if cv_root_endpoint self = None \<or> endpoint_true ?pe then None
                              else map_option (\<lambda>h. endpoint_str h (vs_port ?s)) (cv_root_endpoint self)),
               wp_keepalive = keepalive_of (\<not> endpoint_true ?pe) ?s\<rparr>"
  have P: "wc_peers pc = [?r]" "wi_privkey (wc_intf pc) = Some (priv (wk_material k))"
    "wi_address (wc_intf pc) = ip" "wi_netmask (wc_intf pc) = nm"
    "wi_endpoint (wc_intf pc) = (if endpoint_true ?pe then map_option (\<lambda>h. endpoint_str h (cv_peer_port self)) ?pe else None)"
    using pc by (auto simp: central_peer_config_def Let_def R E(1,2))
  have "star_tunnel_ok pub priv rc e pc ?r"
    unfolding star_tunnel_ok_def using R(4-7) P(2-5) own
    by (auto simp: E(3) keepalive_of_def)
  then show ?thesis using e P(1) E(3) by (intro bexI [OF _ e] exI [of _ ?r]) simp
qed

section \<open>The two ends of a mesh's link\<close>

definition links_mirror :: "links_map \<Rightarrow> bool" where
  "links_mirror lm \<longleftrightarrow> (\<forall>a b i x y n. link_of lm a b = Some (i, x, y, n) \<longrightarrow>
     a \<noteq> b \<and> 0 < prefixlen n \<and> prefixlen n \<le> 32 \<and> (\<exists>j. link_of lm b a = Some (j, y, x, n)))"

text \<open>The two ends of a link trust each other's key, share the preshared key and the netmask, know
  each other's address, and dial the endpoint the other listens on.\<close>

definition link_match :: "('k \<Rightarrow> string) \<Rightarrow> ('k \<Rightarrow> string) \<Rightarrow> peer \<Rightarrow> peer \<Rightarrow> wg_config \<Rightarrow> wg_config \<Rightarrow> bool" where
  "link_match pub priv a b c c' \<longleftrightarrow>
     (\<exists>r r' k k'. wc_peers c = [r] \<and> wc_peers c' = [r'] \<and> wp_id r = b \<and> wp_id r' = a
        \<and> wi_privkey (wc_intf c) = Some (priv k) \<and> wp_pubkey r' = pub k
        \<and> wi_privkey (wc_intf c') = Some (priv k') \<and> wp_pubkey r = pub k'
        \<and> wp_psk r = wp_psk r' \<and> wi_netmask (wc_intf c) = wi_netmask (wc_intf c')
        \<and> wp_address r = wi_address (wc_intf c') \<and> wp_address r' = wi_address (wc_intf c)
        \<and> wp_endpoint r = wi_endpoint (wc_intf c') \<and> wp_endpoint r' = wi_endpoint (wc_intf c))"

locale link_keys = pair_store invar look put
  for invar :: "'s \<Rightarrow> bool"
    and look :: "'s \<Rightarrow> peer \<Rightarrow> peer \<Rightarrow> ('k list \<times> 'p) option"
    and put :: "'s \<Rightarrow> peer \<Rightarrow> peer \<Rightarrow> (('k list \<times> 'p) \<times> 's) res" +
  assumes put_total: "invar s \<Longrightarrow> \<exists>kp s'. put s a b = Inr (kp, s')"
    and two_keys: "invar s \<Longrightarrow> put s a b = Inr ((keys, psk), s') \<Longrightarrow> length keys = 2"
begin

text \<open>What a configuration says, in terms of the final state of the key store.\<close>

definition end_config ::
  "('k \<Rightarrow> string) \<Rightarrow> ('k \<Rightarrow> string) \<Rightarrow> ('p \<Rightarrow> string) \<Rightarrow> string \<Rightarrow> p2p_vpn \<Rightarrow> peer \<Rightarrow> 's \<Rightarrow> peer \<Rightarrow> wg_config \<Rightarrow> bool" where
  "end_config pub priv psk_str now self a s b c \<longleftrightarrow>
     (\<exists>l j x a_end b_end keys psk own other.
        link_of (pv_deployment self) a b = Some l \<and> link_of (pv_deployment self) b a = Some (j, x)
        \<and> map_of (pv_peer_endpoints self) a = Some a_end \<and> map_of (pv_peer_endpoints self) b = Some b_end
        \<and> look s a b = Some (keys, psk) \<and> pick_list a b a keys = Inr own \<and> pick_list a b b keys = Inr other
        \<and> c = p2p_config pub priv psk_str now (pv_settings self) b l j a_end b_end own other psk (prefixlen (snd (snd (snd l)))))"

lemma end_config_mono:
  assumes "end_config pub priv psk_str now self a s b c"
    and "\<And>x y w. look s x y = Some w \<Longrightarrow> look s' x y = Some w"
  shows "end_config pub priv psk_str now self a s' b c"
  using assms(1) unfolding end_config_def
  by (elim exE conjE) (intro exI conjI, assumption+, erule assms(2), assumption+)

lemma link_of_map:
  "link_of lm a b = Some l \<longleftrightarrow> (\<exists>p. map_of lm a = Some p \<and> map_of (pd_peers p) b = Some l)"
  by (auto simp: link_of_def bind_eq_Some_conv)

lemma link_config_spec:
  assumes mir: "links_mirror (pv_deployment self)" and inv: "invar s"
    and l: "link_of (pv_deployment self) a b = Some l"
    and ea: "map_of (pv_peer_endpoints self) a = Some a_end" and eb: "map_of (pv_peer_endpoints self) b = Some b_end"
  shows "\<exists>c s'. p2p_link_config pub priv psk_str put now self a (b, l) s = Inr (c, s') \<and> invar s'
    \<and> (\<forall>x y w. look s x y = Some w \<longrightarrow> look s' x y = Some w) \<and> end_config pub priv psk_str now self a s' b c"
proof -
  obtain i x y n where lx: "l = (i, x, y, n)" by (cases l)
  from mir l obtain j where j: "link_of (pv_deployment self) b a = Some (j, y, x, n)" and ab: "a \<noteq> b"
    and n: "0 < prefixlen n" "prefixlen n \<le> 32"
    unfolding links_mirror_def lx by blast
  from j obtain bc where bc: "map_of (pv_deployment self) b = Some bc" "map_of (pd_peers bc) a = Some (j, y, x, n)"
    by (auto simp: link_of_map)
  from put_total [OF inv] obtain keys psk s' where p: "put s a b = Inr ((keys, psk), s')" by (metis surj_pair)
  have two: "length keys = 2" by (rule two_keys [OF inv p])
  have pick: "\<exists>k. pick_list a b t keys = Inr k" for t using two by (simp add: pick_list_def)
  from pick obtain own where own: "pick_list a b a keys = Inr own" by blast
  from pick obtain other where other: "pick_list a b b keys = Inr other" by blast
  let ?c = "p2p_config pub priv psk_str now (pv_settings self) b l j a_end b_end own other psk (prefixlen n)"
  have "p2p_link_config pub priv psk_str put now self a (b, l) s = Inr (?c, s')"
    using n by (simp add: p2p_link_config_def bc p ea eb own other lx netmask_to_cidr_netmask_of)
  moreover have "end_config pub priv psk_str now self a s' b ?c"
    unfolding end_config_def using l j ea eb own other put_look [OF inv p] by (auto simp: lx)
  ultimately show ?thesis using put_invar [OF inv p] put_keeps [OF inv p] by blast
qed

lemma links_spec:
  assumes mir: "links_mirror (pv_deployment self)" and ea: "map_of (pv_peer_endpoints self) a = Some a_end"
    and "invar s"
    and "\<forall>(b, l) \<in> set ls. link_of (pv_deployment self) a b = Some l \<and> map_of (pv_peer_endpoints self) b \<noteq> None"
  shows "\<exists>cs s'. p2p_links (p2p_link_config pub priv psk_str put now self a) ls s = Inr (cs, s') \<and> invar s'
    \<and> (\<forall>x y w. look s x y = Some w \<longrightarrow> look s' x y = Some w)
    \<and> length cs = length ls
    \<and> (\<forall>i < length ls. end_config pub priv psk_str now self a s' (fst (ls ! i)) (cs ! i))"
  using assms(3,4)
proof (induction ls arbitrary: s)
  case (Cons bl ls)
  obtain b l where bl: "bl = (b, l)" by (cases bl)
  from Cons.prems(2) obtain b_end where b: "link_of (pv_deployment self) a b = Some l"
    "map_of (pv_peer_endpoints self) b = Some b_end" by (auto simp: bl)
  from link_config_spec [OF mir Cons.prems(1) b(1) ea b(2)] obtain c s1 where
    1: "p2p_link_config pub priv psk_str put now self a (b, l) s = Inr (c, s1)" "invar s1"
      "\<forall>x y w. look s x y = Some w \<longrightarrow> look s1 x y = Some w" "end_config pub priv psk_str now self a s1 b c"
    by blast
  from Cons.prems(2) have "\<forall>(b, l) \<in> set ls. link_of (pv_deployment self) a b = Some l
      \<and> map_of (pv_peer_endpoints self) b \<noteq> None" by simp
  from Cons.IH [OF 1(2) this] obtain cs s2 where
    2: "p2p_links (p2p_link_config pub priv psk_str put now self a) ls s1 = Inr (cs, s2)" "invar s2"
      "\<forall>x y w. look s1 x y = Some w \<longrightarrow> look s2 x y = Some w" "length cs = length ls"
      "\<forall>i < length ls. end_config pub priv psk_str now self a s2 (fst (ls ! i)) (cs ! i)" by blast
  have e: "end_config pub priv psk_str now self a s2 b c"
    by (rule end_config_mono [OF 1(4)]) (use 2(3) in blast)
  have "end_config pub priv psk_str now self a s2 (fst ((bl # ls) ! i)) ((c # cs) ! i)" if "i < length (bl # ls)" for i
    using that e 2(5) by (cases i) (auto simp: bl)
  moreover have "p2p_links (p2p_link_config pub priv psk_str put now self a) (bl # ls) s = Inr (c # cs, s2)"
    using 1(1) 2(1) by (simp add: bl)
  ultimately show ?case using 1(3) 2(2,3,4) by (intro exI [of _ "c # cs"] exI [of _ s2]) simp
qed simp

lemma ends_match:
  assumes "end_config pub priv psk_str now self a s b c" and "end_config pub priv psk_str now self b s a c'"
    and "links_mirror (pv_deployment self)"
  shows "link_match pub priv a b c c'"
proof -
  from assms(1) obtain l j x a_end b_end keys psk own other where A:
    "link_of (pv_deployment self) a b = Some l" "link_of (pv_deployment self) b a = Some (j, x)"
    "map_of (pv_peer_endpoints self) a = Some a_end" "map_of (pv_peer_endpoints self) b = Some b_end"
    "look s a b = Some (keys, psk)" "pick_list a b a keys = Inr own" "pick_list a b b keys = Inr other"
    "c = p2p_config pub priv psk_str now (pv_settings self) b l j a_end b_end own other psk (prefixlen (snd (snd (snd l))))"
    unfolding end_config_def by (elim exE conjE)
  from assms(2) obtain l' j' x' a_end' b_end' keys' psk' own' other' where B:
    "link_of (pv_deployment self) b a = Some l'" "link_of (pv_deployment self) a b = Some (j', x')"
    "map_of (pv_peer_endpoints self) b = Some a_end'" "map_of (pv_peer_endpoints self) a = Some b_end'"
    "look s b a = Some (keys', psk')" "pick_list b a b keys' = Inr own'" "pick_list b a a keys' = Inr other'"
    "c' = p2p_config pub priv psk_str now (pv_settings self) a l' j' a_end' b_end' own' other' psk' (prefixlen (snd (snd (snd l'))))"
    unfolding end_config_def by (elim exE conjE)
  obtain i u v n where l: "l = (i, u, v, n)" by (cases l)
  from assms(3) A(1) obtain k where m: "link_of (pv_deployment self) b a = Some (k, v, u, n)"
    unfolding links_mirror_def l by blast
  have l': "l' = (k, v, u, n)" using B(1) m by simp
  have j: "j = k" "x = (v, u, n)" using A(2) m by simp_all
  have j': "j' = i" using B(2) A(1) l by simp
  have ends: "a_end' = b_end" "b_end' = a_end" using A(3,4) B(3,4) by simp_all
  have keys: "keys' = keys" "psk' = psk" using A(5) B(5) look_commute [of s a b] by simp_all
  have "own' = other" "other' = own"
    using A(6,7) B(6,7) keys by (simp_all add: pick_list_def pair_key_commute [of b a])
  then show ?thesis
    unfolding link_match_def A(8) B(8) by (simp add: p2p_config_def l l' j j' ends keys) blast
qed

lemma peer_config_spec:
  assumes mir: "links_mirror (pv_deployment self)" and inv: "invar s"
    and dist: "\<And>p d. map_of (pv_deployment self) p = Some d \<Longrightarrow> distinct (map fst (pd_peers d))"
    and eps: "\<And>p. p \<in> fst ` set (pv_deployment self) \<Longrightarrow> map_of (pv_peer_endpoints self) p \<noteq> None"
  shows "\<exists>cs s'. p2p_peer_config pub priv psk_str put now self a s = Inr (cs, s') \<and> invar s'
    \<and> (\<forall>x y w. look s x y = Some w \<longrightarrow> look s' x y = Some w)
    \<and> (\<forall>b. link_of (pv_deployment self) a b \<noteq> None \<longrightarrow> (\<exists>c \<in> set cs. end_config pub priv psk_str now self a s' b c))
    \<and> (\<forall>c \<in> set cs. \<exists>b. link_of (pv_deployment self) a b \<noteq> None \<and> end_config pub priv psk_str now self a s' b c)"
proof (cases "map_of (pv_deployment self) a")
  case None
  then show ?thesis using inv by (simp add: p2p_peer_config_def link_of_def)
next
  case (Some d)
  have da: "distinct (map fst (pd_peers d))" using dist [OF Some] .
  have lk: "link_of (pv_deployment self) a b = map_of (pd_peers d) b" for b by (simp add: link_of_def Some)
  have "a \<in> fst ` set (pv_deployment self)" using Some by (auto simp: map_of_in_keys)
  then obtain a_end where ea: "map_of (pv_peer_endpoints self) a = Some a_end" using eps by blast
  have "\<forall>(b, l) \<in> set (pd_peers d). link_of (pv_deployment self) a b = Some l \<and> map_of (pv_peer_endpoints self) b \<noteq> None"
  proof clarify
    fix b i u v n assume "(b, i, u, v, n) \<in> set (pd_peers d)"
    then have l: "link_of (pv_deployment self) a b = Some (i, u, v, n)" using da by (simp add: lk)
    with mir obtain j where "link_of (pv_deployment self) b a = Some (j, v, u, n)" unfolding links_mirror_def by blast
    then have "b \<in> fst ` set (pv_deployment self)" by (auto simp: link_of_map map_of_in_keys)
    with eps l show "link_of (pv_deployment self) a b = Some (i, u, v, n) \<and> map_of (pv_peer_endpoints self) b \<noteq> None" by blast
  qed
  from links_spec [OF mir ea inv this, of pub priv psk_str now] obtain cs s' where
    L: "p2p_links (p2p_link_config pub priv psk_str put now self a) (pd_peers d) s = Inr (cs, s')" "invar s'"
      "\<forall>x y w. look s x y = Some w \<longrightarrow> look s' x y = Some w" "length cs = length (pd_peers d)"
      "\<forall>i < length (pd_peers d). end_config pub priv psk_str now self a s' (fst (pd_peers d ! i)) (cs ! i)" by blast
  have "\<exists>c \<in> set cs. end_config pub priv psk_str now self a s' b c" if "link_of (pv_deployment self) a b \<noteq> None" for b
  proof -
    from that obtain l where "map_of (pd_peers d) b = Some l" by (auto simp: lk)
    then obtain i where "i < length (pd_peers d)" "pd_peers d ! i = (b, l)" by (meson in_set_conv_nth map_of_SomeD)
    then show ?thesis using L(4,5) by (metis fst_conv nth_mem)
  qed
  moreover have "\<exists>b. link_of (pv_deployment self) a b \<noteq> None \<and> end_config pub priv psk_str now self a s' b c" if "c \<in> set cs" for c
  proof -
    from that obtain i where i: "i < length (pd_peers d)" "c = cs ! i" using L(4) by (metis in_set_conv_nth)
    then have "fst (pd_peers d ! i) \<in> fst ` set (pd_peers d)" by simp
    then have "link_of (pv_deployment self) a (fst (pd_peers d ! i)) \<noteq> None" by (auto simp: lk map_of_eq_None_iff)
    then show ?thesis using L(5) i by blast
  qed
  ultimately show ?thesis using L(1-3) by (auto simp: p2p_peer_config_def Some)
qed

end

section \<open>The key material provides the contract\<close>

definition pp_inv :: "('m, 'p) p2p_keymat \<Rightarrow> bool" where
  "pp_inv self \<longleftrightarrow> pp_ok self \<and> (\<forall>ks \<in> snd ` set (km_content (pp_pair_keys self)). length ks = 2)"

lemma pp_inv_put:
  assumes "pp_inv self" and "pp_put gen pgen self a b = Inr (kp, self')"
  shows "pp_inv self' \<and> length (fst kp) = 2"
proof -
  have ok: "pp_ok self" using assms(1) by (simp add: pp_inv_def)
  from pp_put_Inr [OF ok assms(2)] obtain pk ps where
    k: "km_put paired_class gen (pp_pair_keys self) a b = Inr (fst kp, pk)"
    and s': "self' = self\<lparr>pp_pair_keys := pk, pp_psks := ps\<rparr>" by blast
  have ro: "\<not> km_readonly (pp_pair_keys self)" using ok by (simp add: pp_ok_def km_ok_def)
  have "(\<forall>ks \<in> snd ` set (km_content pk). length ks = 2) \<and> length (fst kp) = 2"
  proof (cases "km_look (pp_pair_keys self) a b")
    case None
    then have n: "pair_key a b \<notin> fst ` set (km_content (pp_pair_keys self))"
      by (simp add: km_look_def map_of_eq_None_iff)
    then show ?thesis using k ro None assms(1)
      by (cases kp) (auto simp: km_put_eq paired_class_def paired_generate_def update_new [OF n] new_key_def pp_inv_def)
  next
    case (Some v)
    then have "v \<in> snd ` set (km_content (pp_pair_keys self))"
      by (force simp: km_look_def dest: map_of_SomeD)
    then show ?thesis using k ro Some assms(1) by (auto simp: km_put_eq pp_inv_def)
  qed
  moreover have "pp_ok self'" using pp.put_invar [OF ok assms(2)] .
  ultimately show ?thesis by (simp add: pp_inv_def s')
qed

interpretation ppk: link_keys pp_inv pp_look "pp_put gen pgen"
proof (unfold_locales, goal_cases)
  case (1 m a b) show ?case by (rule pp.look_commute)
next
  case (2 m a b v m') then show ?case by (intro pp.put_look [OF _ 2(2)]) (simp add: pp_inv_def)
next
  case (3 m a b v m' c d w) then show ?case using pp.put_keeps by (metis pp_inv_def)
next
  case (4 m a b v) then show ?case by (intro pp.put_hit) (simp_all add: pp_inv_def)
next
  case (5 m a b v m') then show ?case using pp_inv_put by blast
next
  case (6 s a b) then show ?case using pp_put_total by (auto simp: pp_inv_def)
next
  case (7 s a b keys psk s') then show ?case using pp_inv_put [OF 7] by simp
qed

section \<open>The deployments of the strategies are mirrored\<close>

lemma deploy_mirror_links:
  assumes "\<And>a b i x y net. link_of lm a b = Some (i, x, y, net) \<Longrightarrow> \<exists>j. link_of lm b a = Some (j, y, x, net)"
    and "\<And>a b i x y net. link_of lm a b = Some (i, x, y, net) \<Longrightarrow>
      a \<noteq> b \<and> (\<exists>v. pm_look s' a b = Some v \<and> net = snd v)"
    and "alloc_inv s'"
  shows "links_mirror lm"
  unfolding links_mirror_def
proof (intro allI impI conjI)
  fix a b i x y n assume l: "link_of lm a b = Some (i, x, y, n)"
  from assms(2) [OF l] obtain v where v: "a \<noteq> b" "pm_look s' a b = Some v" "n = snd v" by blast
  show "a \<noteq> b" by (rule v(1))
  have "prefixlen n = 31" using alloc_in_subnet(5) [OF assms(3) v(2)] v(3) by simp
  then show "0 < prefixlen n" "prefixlen n \<le> 32" by simp_all
  show "\<exists>j. link_of lm b a = Some (j, y, x, n)" using assms(1) [OF l] .
qed

text \<open>C18: In a centralised VPN the configuration of the root and that of each peer describe the same tunnel: each
  has the public key of the other's private key, both have the same pre-shared key, addresses and endpoints
  are crossed, exactly one address is allowed each way, and at most one side sends keep-alives.\<close>

theorem star_tunnels_match:
  assumes "root_config pub priv psk_str now self = Inr rc" and "central_peer_config pub priv psk_str now self p = Inr pc"
    and "p \<in> set (cv_peer_ids self)" and "endpoint_of (cv_peer_endpoints self) p \<noteq> Some []"
  shows "\<exists>e \<in> set (wc_peers rc). \<exists>r. wc_peers pc = [r] \<and> wp_id e = p \<and> wp_id r = 0 \<and> star_tunnel_ok pub priv rc e pc r"
  by (rule star_tunnel [OF assms])

definition demo_star :: "(string, string) central_vpn" where
  "demo_star = \<lparr>cv_settings = \<lparr>vs_port = 1, vs_peer_port = Some 2, vs_subnet = \<lparr>network_address = 8, prefixlen = 29\<rparr>,
       vs_interface = ''wg-{}'', vs_allowed_ips = [], vs_peer_mtu = None, vs_masquerade = True, vs_forward = False,
       vs_tunnel = False, vs_keepalive = Some 25\<rparr>,
     cv_keymat = \<lparr>cm_prefix = ''r'', cm_peer_ids = [1], cm_prefer_dropped = False, cm_readonly = False,
       cm_root_key = Some \<lparr>wk_id = ''r:root'', wk_material = ''R'', wk_dropped = False, wk_saved = True\<rparr>,
       cm_peer_keys = [(1, \<lparr>wk_id = ''r:peer:1'', wk_material = ''A'', wk_dropped = False, wk_saved = True\<rparr>)],
       cm_psks = (empty_keys_map ''r'' False False)\<lparr>km_content :=
         [((0, 1), \<lparr>wk_id = ''r:[0, 1]'', wk_material = ''P'', wk_dropped = False, wk_saved = True\<rparr>)]\<rparr>,
       cm_dropped = [], cm_deleted = [], cm_gen = 0, cm_calls = []\<rparr>,
     cv_peer_ids = [1], cv_root_endpoint = Some ''host'', cv_peer_endpoints = [(1, None)]\<rparr>"

theorem star_tunnels_match_witness:
  "\<exists>rc pc r. root_config (\<lambda>k. ''+'' @ k) (\<lambda>k. k) (\<lambda>k. k) ''t'' demo_star = Inr rc
    \<and> central_peer_config (\<lambda>k. ''+'' @ k) (\<lambda>k. k) (\<lambda>k. k) ''t'' demo_star 1 = Inr pc
    \<and> wc_peers pc = [r] \<and> wp_id r = 0"
proof -
  have nm: "ipv4_netmask_to_cidr (netmask_of 29) = Inr 29" by (rule netmask_to_cidr_netmask_of) simp_all
  have mat: "cm_get_peer_material 1 True (cv_keymat demo_star) = Inr
      [KeyOf \<lparr>wk_id = ''r:peer:1'', wk_material = ''A'', wk_dropped = False, wk_saved = True\<rparr>,
       PskOf \<lparr>wk_id = ''r:[0, 1]'', wk_material = ''P'', wk_dropped = False, wk_saved = True\<rparr>]"
    by (rule cm_get_peer_material_private) (simp_all add: demo_star_def km_look_def pair_key_def)
  obtain rc where rc: "root_config (\<lambda>k. ''+'' @ k) (\<lambda>k. k) (\<lambda>k. k) ''t'' demo_star = Inr rc"
    using nm mat by (simp add: root_config_def root_peer_def ask_material_def peer_ip_def root_ip_def ip_add_def base_ip_def
        demo_star_def Let_def)
  obtain pc where pc: "central_peer_config (\<lambda>k. ''+'' @ k) (\<lambda>k. k) (\<lambda>k. k) ''t'' demo_star 1 = Inr pc"
    using nm mat by (simp add: central_peer_config_def ask_material_def peer_ip_def root_ip_def ip_add_def base_ip_def
        demo_star_def Let_def)
  have "1 \<in> set (cv_peer_ids demo_star)" "endpoint_of (cv_peer_endpoints demo_star) 1 \<noteq> Some []"
    by (simp_all add: demo_star_def endpoint_of_def)
  from star_tunnels_match [OF rc pc this] rc pc show ?thesis by blast
qed

end
