(* ===== verification/Uvn.thy ===== *)
theory Uvn
  imports Deployment Vpn_Config
begin

text \<open>
  The UVN and its cells and particles (\<open>uno/registry/uvn.py\<close>, \<open>cell.py\<close>, \<open>particle.py\<close>,
  \<open>uvn_settings.py\<close>, \<open>timing_profile.py\<close>): detection of clashing networks, validation, the peers of a
  cell in a deployment and the ports of the agents. Cells are compared by their id.
\<close>

section \<open>Objects\<close>

record cell =
  cell_id :: int
  cell_name :: string
  cell_address :: "string option"
  cell_excluded :: bool
  cell_allowed_lans :: "ipv4_network list"
  cell_enable_particles_vpn :: bool
  cell_owner :: "int option"

record particle =
  particle_id :: int
  particle_name :: string
  particle_excluded :: bool
  particle_owner :: "int option"

datatype timing_profile = DEFAULT | FAST

datatype strategy_kind = CROSSED | CIRCULAR | STATIC | RANDOM | FULL_MESH

record uvn_settings =
  us_root_vpn :: vpn_settings
  us_particles_vpn :: vpn_settings
  us_backbone_vpn :: vpn_settings
  us_timing_profile :: timing_profile
  us_enable_particles_vpn :: bool
  us_enable_root_vpn :: bool
  us_enable_dds_security :: bool
  us_dds_domain :: int
  us_strategy :: strategy_kind
  us_strategy_args :: "static_deployment option"

definition default_uvn_settings :: uvn_settings where
  "default_uvn_settings = \<lparr>us_root_vpn = root_vpn_settings, us_particles_vpn = particles_vpn_settings,
     us_backbone_vpn = backbone_vpn_settings, us_timing_profile = DEFAULT, us_enable_particles_vpn = True,
     us_enable_root_vpn = True, us_enable_dds_security = False, us_dds_domain = 46,
     us_strategy = CROSSED, us_strategy_args = None\<rparr>"

record uvn =
  uvn_id :: int
  uvn_name :: string
  uvn_address :: "string option"
  uvn_settings :: uvn_settings
  uvn_all_cells :: "cell list"
  uvn_all_particles :: "particle list"
  uvn_owner :: "int option"

definition uvn_cells :: "uvn \<Rightarrow> cell list" where
  "uvn_cells u = filter (\<lambda>c. \<not> cell_excluded c) (uvn_all_cells u)"

definition uvn_excluded_cells :: "uvn \<Rightarrow> cell list" where
  "uvn_excluded_cells u = filter cell_excluded (uvn_all_cells u)"

definition uvn_private_cells :: "uvn \<Rightarrow> cell list" where
  "uvn_private_cells u = filter (\<lambda>c. cell_address c = None) (uvn_all_cells u)"

definition uvn_particles :: "uvn \<Rightarrow> particle list" where
  "uvn_particles u = filter (\<lambda>p. \<not> particle_excluded p) (uvn_all_particles u)"

definition uvn_excluded_particles :: "uvn \<Rightarrow> particle list" where
  "uvn_excluded_particles u = filter particle_excluded (uvn_all_particles u)"

definition cell_private :: "cell \<Rightarrow> bool" where
  "cell_private c \<longleftrightarrow> cell_address c = None"

definition cell_relay :: "cell \<Rightarrow> bool" where
  "cell_relay c \<longleftrightarrow> length (cell_allowed_lans c) = 0"

definition cell_particles_vpn_enabled :: "uvn \<Rightarrow> cell \<Rightarrow> bool" where
  "cell_particles_vpn_enabled u c \<longleftrightarrow>
     us_enable_particles_vpn (uvn_settings u) \<and> cell_enable_particles_vpn c \<and> endpoint_true (cell_address c)"

section \<open>Timing profile\<close>

fun liveliness_lease_duration :: "timing_profile \<Rightarrow> nat" where
  "liveliness_lease_duration FAST = 5" | "liveliness_lease_duration DEFAULT = 60"

fun liveliness_assert_period :: "timing_profile \<Rightarrow> nat" where
  "liveliness_assert_period FAST = 2" | "liveliness_assert_period DEFAULT = 20"

fun liveliness_detection_period :: "timing_profile \<Rightarrow> nat" where
  "liveliness_detection_period FAST = 6" | "liveliness_detection_period DEFAULT = 30"

fun initial_announcements :: "timing_profile \<Rightarrow> nat" where
  "initial_announcements FAST = 60" | "initial_announcements DEFAULT = 60"

fun initial_announcement_period :: "timing_profile \<Rightarrow> nat \<times> nat" where
  "initial_announcement_period FAST = (1, 5)" | "initial_announcement_period DEFAULT = (3, 15)"

fun ospf_dead_interval :: "timing_profile \<Rightarrow> nat" where
  "ospf_dead_interval FAST = 5" | "ospf_dead_interval DEFAULT = 60"

fun ospf_hello_interval :: "timing_profile \<Rightarrow> nat" where
  "ospf_hello_interval FAST = 1" | "ospf_hello_interval DEFAULT = 15"

fun ospf_retransmit_interval :: "timing_profile \<Rightarrow> nat" where
  "ospf_retransmit_interval FAST = 2" | "ospf_retransmit_interval DEFAULT = 5"

fun tester_max_delay :: "timing_profile \<Rightarrow> nat" where
  "tester_max_delay FAST = 30" | "tester_max_delay DEFAULT = 3600"

fun max_service_trigger_delay :: "timing_profile \<Rightarrow> nat" where
  "max_service_trigger_delay FAST = 30" | "max_service_trigger_delay DEFAULT = 3600"

fun status_min_delay :: "timing_profile \<Rightarrow> nat" where
  "status_min_delay FAST = 10" | "status_min_delay DEFAULT = 30"

section \<open>Clashing networks\<close>

type_synonym 'r clashes = "(ipv4_network \<times> ('r \<times> ipv4_network) list) list"

definition clash_add :: "ipv4_network \<Rightarrow> 'r \<times> ipv4_network \<Rightarrow> 'r clashes \<Rightarrow> 'r clashes" where
  "clash_add subnet rn by_subnet =
     AList.update subnet (set_add rn (case map_of by_subnet subnet of None \<Rightarrow> [] | Some m \<Rightarrow> m)) by_subnet"

text \<open>The body of the inner loop: one network of one record.\<close>

definition clash_step ::
  "ipv4_network list \<Rightarrow> 'r \<times> ipv4_network \<Rightarrow> 'r clashes \<times> ipv4_network list \<Rightarrow> 'r clashes \<times> ipv4_network list" where
  "clash_step checked rn st =
     (case st of (by_subnet, explored) \<Rightarrow>
       let n = snd rn;
           by1 = clash_add n rn by_subnet;
           by2 = foldl (\<lambda>by subnet. if overlaps subnet n \<or> overlaps n subnet then clash_add subnet rn by else by)
                   by1 (if checked \<noteq> [] then checked else explored)
       in (by2, set_add n explored))"

definition detect_network_clashes ::
  "'r list \<Rightarrow> ('r \<Rightarrow> ipv4_network list) \<Rightarrow> ipv4_network list \<Rightarrow> 'r clashes" where
  "detect_network_clashes records get_networks checked =
     (let visits = concat (map (\<lambda>r. map (Pair r) (get_networks r)) records);
          (by_subnet, _) = foldl (\<lambda>st rn. clash_step checked rn st) (map (\<lambda>n. (n, [])) checked, []) visits
      in filter (\<lambda>(n, matches). (checked = [] \<or> n \<in> set checked) \<and> matches \<noteq> []) by_subnet)"

section \<open>Validation\<close>

definition validate_cell :: "uvn \<Rightarrow> cell \<Rightarrow> unit res" where
  "validate_cell u c =
     rbind (if cell_allowed_lans c \<noteq> [] then
              (let clashes = detect_network_clashes (filter (\<lambda>c'. cell_id c' \<noteq> cell_id c) (uvn_cells u))
                               cell_allowed_lans (cell_allowed_lans c)
               in require (clashes = []) (RuntimeError ''ClashingNetworks''))
            else require (\<not> cell_private c) (ValueError ''private cells must have at least one network''))
       (\<lambda>_. require (\<not> (cell_private c \<and> \<not> endpoint_true (uvn_address u) \<and> us_enable_root_vpn (uvn_settings u)))
              (ValueError ''private cells require a registry address''))"

definition validate_uvn :: "uvn \<Rightarrow> unit res" where
  "validate_uvn u = rbind (rmap (validate_cell u) (uvn_all_cells u)) (\<lambda>_. Inr ())"

section \<open>The deployment as a cell sees it\<close>

definition deployment_peers :: "uvn \<Rightarrow> cell \<Rightarrow> links_map \<Rightarrow> (cell \<times> nat) list res" where
  "deployment_peers u c deployment =
     (case map_of deployment (cell_id c) of
        None \<Rightarrow> Inr []
      | Some cell_cfg \<Rightarrow>
          rmap (\<lambda>(peer_id, _).
            rbind (the_or KeyError (map_of deployment peer_id)) (\<lambda>peer_cfg.
            rbind (the_or KeyError (map_of (pd_peers peer_cfg) (cell_id c))) (\<lambda>(peer_port_i, _).
            rbind (the_or StopIteration (find (\<lambda>c'. cell_id c' = peer_id) (uvn_cells u))) (\<lambda>peer_cell.
              Inr (peer_cell, peer_port_i)))))
            (sort_key (\<lambda>(_, (i, _)). i) (pd_peers cell_cfg)))"

definition agent_ports :: "uvn \<Rightarrow> int option list" where
  "agent_ports u =
     (let s = uvn_settings u in
      (if us_enable_root_vpn s then [vs_peer_port (us_root_vpn s)] else [])
      @ (if us_enable_particles_vpn s then [Some (vs_port (us_particles_vpn s))] else [])
      @ map (\<lambda>i. Some (vs_port (us_backbone_vpn s) + int i)) [0..<length (uvn_cells u)])"

text \<open>\<open>log_deployment\<close>: one line per link and end, with the arrows of the ends that can be dialled.\<close>

definition endpoint_text :: "uvn \<Rightarrow> cell \<Rightarrow> nat \<Rightarrow> string" where
  "endpoint_text u c port_i = (case cell_address c of
     None \<Rightarrow> ''private LAN''
   | Some a \<Rightarrow> endpoint_str a (vs_port (us_backbone_vpn (uvn_settings u)) + int port_i))"

definition log_deployment :: "uvn \<Rightarrow> links_map \<Rightarrow> (cell \<times> nat \<times> string \<times> cell \<times> nat \<times> string \<times> bool \<times> bool) list res" where
  "log_deployment u deployment =
     rbind (rmap (\<lambda>(a_id, a_cfg).
       rbind (the_or KeyError (find (\<lambda>c. cell_id c = a_id) (uvn_cells u))) (\<lambda>a.
       rmap (\<lambda>(b_id, (a_port, _)).
         rbind (the_or KeyError (find (\<lambda>c. cell_id c = b_id) (uvn_cells u))) (\<lambda>b.
         rbind (the_or KeyError (map_of deployment b_id)) (\<lambda>b_cfg.
         rbind (the_or KeyError (map_of (pd_peers b_cfg) a_id)) (\<lambda>(b_port, _).
           Inr (a, a_port, endpoint_text u a a_port, b, b_port, endpoint_text u b b_port,
                \<not> cell_private a, \<not> cell_private b)))))
         (sort_key (\<lambda>(_, (i, _)). i) (pd_peers a_cfg))))
       (sort_key fst deployment)) (\<lambda>lines. Inr (concat lines))"

section \<open>What the clash detection finds\<close>

definition matches_of :: "'r clashes \<Rightarrow> ipv4_network \<Rightarrow> ('r \<times> ipv4_network) list" where
  "matches_of by_subnet n = (case map_of by_subnet n of None \<Rightarrow> [] | Some m \<Rightarrow> m)"

lemma clash_add_keys [simp]: "fst ` set (clash_add n rn by) = insert n (fst ` set by)"
  by (simp add: clash_add_def)

lemma clash_add_matches: "matches_of (clash_add n rn by) m = (if m = n then set_add rn (matches_of by n) else matches_of by m)"
  by (auto simp: clash_add_def matches_of_def)

lemma clash_add_distinct: "distinct (map fst by) \<Longrightarrow> distinct (map fst (clash_add n rn by))"
  by (auto simp: clash_add_def)

lemma clash_fold:
  defines "f \<equiv> \<lambda>n rn bs subnet. if overlaps subnet n \<or> overlaps n subnet then clash_add subnet rn bs else bs"
  shows "set (matches_of (foldl (f n rn) bs ss) m)
      = set (matches_of bs m) \<union> (if m \<in> set ss \<and> overlaps m n then {rn} else {})"
    and "fst ` set (foldl (f n rn) bs ss) = fst ` set bs \<union> {m \<in> set ss. overlaps m n}"
    and "distinct (map fst bs) \<Longrightarrow> distinct (map fst (foldl (f n rn) bs ss))"
  unfolding f_def
  by (induction ss arbitrary: bs) (auto simp: clash_add_matches overlaps_commute [of n] clash_add_distinct)

text \<open>With networks to check, one visit adds the record to the checked networks it overlaps.\<close>

lemma overlaps_refl: "valid_network n \<Longrightarrow> overlaps n n"
  by (auto simp: overlaps_iff_common hosts_def in_network_def valid_network_def
      intro: exI [of _ "network_address n"])

lemma clash_step_checked:
  assumes "checked \<noteq> []" and "m \<in> set checked" and "valid_network m"
  shows "set (matches_of (fst (clash_step checked rn st)) m)
    = set (matches_of (fst st) m) \<union> (if overlaps m (snd rn) then {rn} else {})"
  using assms overlaps_refl [OF assms(3)]
  by (cases st) (auto simp: clash_step_def Let_def clash_fold(1) clash_add_matches)

lemma clash_visits:
  assumes "checked \<noteq> []" and "m \<in> set checked" and "valid_network m"
  shows "set (matches_of (fst (foldl (\<lambda>st rn. clash_step checked rn st) st visits)) m)
    = set (matches_of (fst st) m) \<union> {rn \<in> set visits. overlaps m (snd rn)}"
  by (induction visits arbitrary: st) (auto simp: clash_step_checked [OF assms])

lemma clash_visits_keys:
  "fst ` set (fst (foldl (\<lambda>st rn. clash_step checked rn st) st visits)) \<supseteq> fst ` set (fst st)"
  "distinct (map fst (fst st)) \<Longrightarrow> distinct (map fst (fst (foldl (\<lambda>st rn. clash_step checked rn st) st visits)))"
proof -
  have step: "fst ` set (fst st) \<subseteq> fst ` set (fst (clash_step checked rn st))" for rn st
    by (cases st) (auto simp: clash_step_def Let_def clash_fold(2))
  show "fst ` set (fst (foldl (\<lambda>st rn. clash_step checked rn st) st visits)) \<supseteq> fst ` set (fst st)"
  proof (induction visits arbitrary: st)
    case (Cons v vs)
    show ?case using step [of st v] Cons.IH [of "clash_step checked v st"] by auto
  qed simp
  have d: "distinct (map fst (fst st)) \<Longrightarrow> distinct (map fst (fst (clash_step checked rn st)))" for rn st
    by (cases st) (simp add: clash_step_def Let_def clash_fold(3) clash_add_distinct)
  show "distinct (map fst (fst st)) \<Longrightarrow> distinct (map fst (fst (foldl (\<lambda>st rn. clash_step checked rn st) st visits)))"
  proof (induction visits arbitrary: st)
    case (Cons v vs)
    show ?case using Cons.IH [OF d [OF Cons.prems, of v]] by simp
  qed simp
qed

lemma detect_keys_distinct:
  assumes "distinct checked"
  shows "distinct (map fst (detect_network_clashes records nets checked))"
proof -
  have "distinct (map fst (map (\<lambda>n. (n, [])) checked))" using assms by (simp add: comp_def)
  then show ?thesis
    using clash_visits_keys(2) [of "(map (\<lambda>n. (n, [])) checked, [])" checked]
    by (auto simp: detect_network_clashes_def Let_def case_prod_beta intro!: distinct_keys_filter)
qed

lemma detect_spec:
  assumes "checked \<noteq> []" and d: "distinct checked" and v: "\<forall>n \<in> set checked. valid_network n"
  shows "(n, ms) \<in> set (detect_network_clashes records nets checked) \<Longrightarrow>
      n \<in> set checked \<and> ms \<noteq> [] \<and> set ms = {(r, m). r \<in> set records \<and> m \<in> set (nets r) \<and> overlaps n m}"
    and "n \<in> set checked \<Longrightarrow> r \<in> set records \<Longrightarrow> m \<in> set (nets r) \<Longrightarrow> overlaps n m \<Longrightarrow>
      n \<in> fst ` set (detect_network_clashes records nets checked)"
proof -
  let ?vs = "concat (map (\<lambda>r. map (Pair r) (nets r)) records)"
  let ?st0 = "(map (\<lambda>n. (n, [])) checked, []) :: 'a clashes \<times> ipv4_network list"
  let ?by = "fst (foldl (\<lambda>st rn. clash_step checked rn st) ?st0 ?vs)"
  have dist: "distinct (map fst ?by)"
    by (rule clash_visits_keys(2)) (simp add: d comp_def)
  have m0: "matches_of (map (\<lambda>n. (n, [])) checked) n = ([] :: ('a \<times> ipv4_network) list)" for n
    by (auto simp: matches_of_def split: option.splits dest!: map_of_SomeD)
  have mem: "set (matches_of ?by n) = {(r, m). r \<in> set records \<and> m \<in> set (nets r) \<and> overlaps n m}" if "n \<in> set checked" for n
    using clash_visits [OF assms(1) that, of ?st0 ?vs] v that by (auto simp: m0)
  have det: "detect_network_clashes records nets checked = filter (\<lambda>(n, ms). n \<in> set checked \<and> ms \<noteq> []) ?by"
    using assms(1) by (simp add: detect_network_clashes_def Let_def case_prod_beta)
  show "n \<in> set checked \<and> ms \<noteq> [] \<and> set ms = {(r, m). r \<in> set records \<and> m \<in> set (nets r) \<and> overlaps n m}"
    if "(n, ms) \<in> set (detect_network_clashes records nets checked)"
  proof -
    from that have *: "(n, ms) \<in> set ?by" "n \<in> set checked" "ms \<noteq> []" unfolding det by auto
    then have "matches_of ?by n = ms" using dist by (simp add: matches_of_def)
    with mem [OF *(2)] * show ?thesis by simp
  qed
  show "n \<in> fst ` set (detect_network_clashes records nets checked)"
    if n: "n \<in> set checked" and "r \<in> set records" "m \<in> set (nets r)" "overlaps n m"
  proof -
    have "(r, m) \<in> set (matches_of ?by n)" using mem [OF n] that by blast
    moreover have "n \<in> fst ` set ?by" using clash_visits_keys(1) [of ?st0 checked ?vs] n by force
    then obtain ms where "(n, ms) \<in> set ?by" by force
    moreover then have "matches_of ?by n = ms" using dist by (simp add: matches_of_def)
    ultimately have "(n, ms) \<in> set ?by" "ms \<noteq> []" by auto
    with n show ?thesis unfolding det by force
  qed
qed

text \<open>What validation accepts.\<close>

definition lans_ok :: "cell \<Rightarrow> bool" where
  "lans_ok c \<longleftrightarrow> distinct (cell_allowed_lans c) \<and> (\<forall>n \<in> set (cell_allowed_lans c). valid_network n)"

lemma no_clash_iff:
  assumes "lans_ok c" and "cell_allowed_lans c \<noteq> []" and "\<forall>c' \<in> set cs. lans_ok c'"
  shows "detect_network_clashes cs cell_allowed_lans (cell_allowed_lans c) = [] \<longleftrightarrow>
    (\<forall>c' \<in> set cs. \<forall>n \<in> set (cell_allowed_lans c). \<forall>m \<in> set (cell_allowed_lans c'). hosts n \<inter> hosts m = {})"
    (is "?D = [] \<longleftrightarrow> ?R")
proof -
  have v: "\<forall>n \<in> set (cell_allowed_lans c). valid_network n" and d: "distinct (cell_allowed_lans c)"
    using assms(1) by (simp_all add: lans_ok_def)
  have common: "overlaps n m \<longleftrightarrow> hosts n \<inter> hosts m \<noteq> {}"
    if "n \<in> set (cell_allowed_lans c)" "c' \<in> set cs" "m \<in> set (cell_allowed_lans c')" for n m c'
    using that v assms(3) by (intro overlaps_iff_common) (auto simp: lans_ok_def)
  show ?thesis
  proof
    assume "?D = []"
    with detect_spec(2) [OF assms(2) d v, of _ _ cs _ cell_allowed_lans] common show ?R by fastforce
  next
    assume R: ?R
    show "?D = []"
    proof (rule ccontr)
      assume "?D \<noteq> []"
      then obtain n ms where nm: "(n, ms) \<in> set ?D" by (metis list.set_intros(1) neq_Nil_conv prod.collapse)
      from detect_spec(1) [OF assms(2) d v nm] obtain c' m where
        "n \<in> set (cell_allowed_lans c)" "c' \<in> set cs" "m \<in> set (cell_allowed_lans c')" "overlaps n m" 
        by (metis (mono_tags, lifting) case_prodE list.set_sel(1) mem_Collect_eq)
      with R common show False by blast
    qed
  qed
qed

lemma validate_cell_Inr:
  assumes "\<forall>c \<in> set (uvn_all_cells u). lans_ok c" and "lans_ok c"
  shows "validate_cell u c = Inr () \<longleftrightarrow>
    (\<forall>c' \<in> set (uvn_cells u). cell_id c' \<noteq> cell_id c \<longrightarrow>
       (\<forall>n \<in> set (cell_allowed_lans c). \<forall>m \<in> set (cell_allowed_lans c'). hosts n \<inter> hosts m = {}))
    \<and> (cell_private c \<longrightarrow> cell_allowed_lans c \<noteq> []
         \<and> (endpoint_true (uvn_address u) \<or> \<not> us_enable_root_vpn (uvn_settings u)))"
proof -
  have c: "lans_ok c" and cs: "\<forall>c' \<in> set (filter (\<lambda>c'. cell_id c' \<noteq> cell_id c) (uvn_cells u)). lans_ok c'"
    using assms by (auto simp: uvn_cells_def)
  show ?thesis
  proof (cases "cell_allowed_lans c = []")
    case True
    then show ?thesis by (auto simp: validate_cell_def require_def)
  next
    case False
    then show ?thesis using no_clash_iff [OF c False cs]
      by (auto simp: validate_cell_def Let_def res_simps)
  qed
qed

lemma validate_uvn_Inr: "validate_uvn u = Inr () \<longleftrightarrow> (\<forall>c \<in> set (uvn_all_cells u). validate_cell u c = Inr ())"
proof
  assume "validate_uvn u = Inr ()"
  then obtain us where "rmap (validate_cell u) (uvn_all_cells u) = Inr us" by (auto simp: validate_uvn_def res_simps)
  then show "\<forall>c \<in> set (uvn_all_cells u). validate_cell u c = Inr ()"
    by (metis (full_types) in_set_conv_nth old.unit.exhaust rmap_Inr_nth)
next
  assume "\<forall>c \<in> set (uvn_all_cells u). validate_cell u c = Inr ()"
  then have "rmap (validate_cell u) (uvn_all_cells u) = Inr (map (\<lambda>_. ()) (uvn_all_cells u))" by (intro rmap_total) simp
  then show "validate_uvn u = Inr ()" by (simp add: validate_uvn_def)
qed

text \<open>C19: A UVN is valid if and only if the networks of any cell are disjoint from those of every other active cell,
  and each private cell has a network of its own and, when the root VPN is enabled, a registry to connect to.\<close>

theorem valid_uvn_networks_disjoint:
  assumes "\<forall>c \<in> set (uvn_all_cells u). lans_ok c"
  shows "validate_uvn u = Inr () \<longleftrightarrow>
    (\<forall>c \<in> set (uvn_all_cells u).
      (\<forall>c' \<in> set (uvn_cells u). cell_id c' \<noteq> cell_id c \<longrightarrow>
         (\<forall>n \<in> set (cell_allowed_lans c). \<forall>m \<in> set (cell_allowed_lans c'). hosts n \<inter> hosts m = {}))
      \<and> (cell_private c \<longrightarrow> cell_allowed_lans c \<noteq> []
           \<and> (endpoint_true (uvn_address u) \<or> \<not> us_enable_root_vpn (uvn_settings u))))"
  unfolding validate_uvn_Inr using validate_cell_Inr [OF assms] assms by blast

definition demo_lan_cell :: "int \<Rightarrow> ipv4 \<Rightarrow> cell" where
  "demo_lan_cell i a = \<lparr>cell_id = i, cell_name = ''c'', cell_address = Some ''h'', cell_excluded = False,
     cell_allowed_lans = [\<lparr>network_address = a, prefixlen = 30\<rparr>], cell_enable_particles_vpn = True, cell_owner = None\<rparr>"

definition demo_lan_uvn :: uvn where
  "demo_lan_uvn = \<lparr>uvn_id = 1, uvn_name = ''u'', uvn_address = None, uvn_settings = default_uvn_settings,
     uvn_all_cells = [demo_lan_cell 1 0, demo_lan_cell 2 4], uvn_all_particles = [], uvn_owner = None\<rparr>"

theorem valid_uvn_networks_disjoint_witness: "validate_uvn demo_lan_uvn = Inr ()"
proof -
  have ok: "\<forall>c \<in> set (uvn_all_cells demo_lan_uvn). lans_ok c"
    by (simp add: demo_lan_uvn_def demo_lan_cell_def lans_ok_def valid_network_def host_part_def net_size_def)
  have "hosts \<lparr>network_address = 0, prefixlen = 30\<rparr> \<inter> hosts \<lparr>network_address = 4, prefixlen = 30\<rparr> = {}"
    by (auto simp: hosts_def in_network_def)
  then show ?thesis unfolding valid_uvn_networks_disjoint [OF ok]
    by (simp add: demo_lan_uvn_def demo_lan_cell_def uvn_cells_def cell_private_def Int_commute)
qed

end
