(* ===== verification/Backbone.thy ===== *)
theory Backbone
  imports Strategy_Crossed Strategy_Random Uvn
begin

text \<open>
  The backbone of a UVN (\<open>uno/registry/registry.py\<close>): \<open>deployment_strategy\<close> selects the strategy of the
  settings, \<open>redeploy\<close> runs it over the cells with a fresh allocator on the backbone subnet, and
  \<open>UvnVpnConfig.backbone_vpn\<close> (\<open>uno/registry/vpn_config.py\<close>) hands the deployment to the peer to peer VPN.
\<close>

section \<open>Selecting and running the strategy\<close>

text \<open>\<open>deployment_strategy\<close> builds a strategy object without arguments: the static one reads its table of links
  at that time. The arguments of the settings are only handed to \<open>deploy\<close>.\<close>

definition deployment_strategy :: "strategy_kind \<Rightarrow> rnd \<Rightarrow> strategy_ctx \<Rightarrow> deployment res" where
  "deployment_strategy kind r ctx = (case kind of
     CROSSED \<Rightarrow> crossed_strategy r ctx
   | CIRCULAR \<Rightarrow> circular_strategy r ctx
   | RANDOM \<Rightarrow> random_strategy r ctx
   | FULL_MESH \<Rightarrow> fullmesh_strategy r ctx
   | STATIC \<Rightarrow> Inr (static_generate (ss_static_deployment (static_init None))))"

definition redeploy_ctx :: "uvn \<Rightarrow> strategy_ctx" where
  "redeploy_ctx u = \<lparr>sc_peers = map cell_id (uvn_cells u),
     sc_private = map cell_id (filter (\<lambda>c. \<not> endpoint_true (cell_address c)) (uvn_cells u))\<rparr>"

definition redeploy_links :: "rnd \<Rightarrow> uvn \<Rightarrow> (links_map \<times> link_map) res" where
  "redeploy_links r u =
     (let s = uvn_settings u in
      rbind (link_alloc_init (vs_subnet (us_backbone_vpn s))) (\<lambda>network_map.
        case us_strategy s of
          STATIC \<Rightarrow> rbind (static_deploy (static_init None) alloc_put (redeploy_ctx u) (us_strategy_args s) network_map)
                      (\<lambda>(_, deployed). Inr deployed)
        | _ \<Rightarrow> deploy (deployment_strategy (us_strategy s) r) alloc_put (redeploy_ctx u) network_map))"

text \<open>\<open>backbone_vpn\<close>: the networks of the cells are added to the allowed addresses of the settings, which
  keep what was there before.\<close>

definition inject_allowed_ips :: "uvn \<Rightarrow> uvn" where
  "inject_allowed_ips u =
     (let s = uvn_settings u; b = us_backbone_vpn s;
          lans = concat (map (\<lambda>c. map show_net (cell_allowed_lans c)) (uvn_cells u)) in
      u\<lparr>uvn_settings := s\<lparr>us_backbone_vpn := b\<lparr>vs_allowed_ips := sort (remdups (vs_allowed_ips b @ lans))\<rparr>\<rparr>\<rparr>)"

definition backbone_vpn :: "links_map option \<Rightarrow> uvn \<Rightarrow> (uvn \<times> p2p_vpn) option" where
  "backbone_vpn deployment u = (case deployment of
     None \<Rightarrow> None
   | Some lm \<Rightarrow>
      (let u' = inject_allowed_ips u; cells = sort_key cell_id (uvn_cells u') in
       Some (u', \<lparr>pv_settings = us_backbone_vpn (uvn_settings u'), pv_deployment = lm,
         pv_peer_ids = map cell_id cells, pv_peer_endpoints = map (\<lambda>c. (cell_id c, cell_address c)) cells\<rparr>)))"

section \<open>Links of every strategy\<close>

text \<open>A UVN whose cells can be deployed: the ids differ, the subnet has room for links, and one cell is public.\<close>

definition deployable :: "uvn \<Rightarrow> bool" where
  "deployable u \<longleftrightarrow> distinct (map cell_id (uvn_cells u)) \<and> subnet_ok (vs_subnet (us_backbone_vpn (uvn_settings u)))
     \<and> (\<exists>c \<in> set (uvn_cells u). endpoint_true (cell_address c))"

lemma redeploy_ctx_ok:
  assumes "deployable u"
  shows "ctx_ok (redeploy_ctx u)"
proof -
  have d: "distinct (map cell_id (uvn_cells u))" using assms by (simp add: deployable_def)
  then have inj: "inj_on cell_id (set (uvn_cells u))" by (simp add: distinct_map)
  obtain c where c: "c \<in> set (uvn_cells u)" "endpoint_true (cell_address c)" using assms by (auto simp: deployable_def)
  have "cell_id c \<notin> cell_id ` {c \<in> set (uvn_cells u). \<not> endpoint_true (cell_address c)}"
    using c inj by (auto dest: inj_onD)
  with c(1) have "cell_id c \<in> set (public_peers (redeploy_ctx u))"
    by (simp add: public_peers_def redeploy_ctx_def)
  then have "public_peers (redeploy_ctx u) \<noteq> []" by (metis list.set_cases list.distinct(1))
  moreover have "inj_on cell_id {c \<in> set (uvn_cells u). \<not> endpoint_true (cell_address c)}"
    by (rule inj_on_subset [OF inj]) blast
  moreover have "distinct (uvn_cells u)" using d by (simp add: distinct_map)
  ultimately show ?thesis using d
    by (simp add: ctx_ok_def redeploy_ctx_def distinct_map) blast
qed

lemma redeploy_links_eq:
  "redeploy_links r u =
     rbind (link_alloc_init (vs_subnet (us_backbone_vpn (uvn_settings u)))) (\<lambda>network_map.
       deploy (deployment_strategy (us_strategy (uvn_settings u)) r) alloc_put (redeploy_ctx u) network_map)"
proof (cases "us_strategy (uvn_settings u) = STATIC")
  case True
  have drop: "rbind (rbind m (\<lambda>r. Inr (x, r))) (\<lambda>(_, d). Inr d) = m" for m :: "(links_map \<times> link_map) res" and x :: static_strategy
    by (cases m) simp_all
  have "deployment_strategy STATIC r = (\<lambda>_. Inr (static_generate (ss_static_deployment (static_init None))))"
    by (rule ext) (simp only: deployment_strategy_def strategy_kind.case)
  then show ?thesis
    by (simp only: redeploy_links_def Let_def True strategy_kind.case static_deploy_def drop)
       (simp only: static_init_def static_strategy.simps)
next
  case False
  then have "(case us_strategy (uvn_settings u) of STATIC \<Rightarrow> x | _ \<Rightarrow> y) = y" for x y :: "(links_map \<times> link_map) res"
    by (cases "us_strategy (uvn_settings u)") simp_all
  then show ?thesis by (simp only: redeploy_links_def Let_def)
qed

lemma deployment_strategy_kinds:
  "deployment_strategy CROSSED r = crossed_strategy r" "deployment_strategy CIRCULAR r = circular_strategy r"
  "deployment_strategy RANDOM r = random_strategy r" "deployment_strategy FULL_MESH r = fullmesh_strategy r"
  by (rule ext, simp only: deployment_strategy_def strategy_kind.case)+

text \<open>What the deployed links promise: every peer is there, both ends carry the allocated addresses of
  their pair, and no link joins two private peers.\<close>

definition backbone_links_ok :: "strategy_ctx \<Rightarrow> links_map \<Rightarrow> link_map \<Rightarrow> bool" where
  "backbone_links_ok ctx lm s \<longleftrightarrow> fst ` set lm = set (sc_peers ctx)
    \<and> (\<forall>a b i x y net. link_of lm a b = Some (i, x, y, net) \<longrightarrow>
         (\<exists>j. link_of lm b a = Some (j, y, x, net))
         \<and> a \<in> set (sc_peers ctx) \<and> b \<in> set (sc_peers ctx) \<and> a \<noteq> b
         \<and> (a \<notin> set (sc_private ctx) \<or> b \<notin> set (sc_private ctx))
         \<and> (\<exists>v. pm_look s a b = Some v \<and> x = pick a b a (fst v) \<and> y = pick a b b (fst v) \<and> net = snd v))"

lemma backbone_links_okI:
  assumes "fst ` set lm = set (sc_peers ctx)"
    and "\<And>a b i x y net. link_of lm a b = Some (i, x, y, net) \<Longrightarrow> \<exists>j. link_of lm b a = Some (j, y, x, net)"
    and "\<And>a b i x y net. link_of lm a b = Some (i, x, y, net) \<Longrightarrow>
      a \<in> set (sc_peers ctx) \<and> b \<in> set (sc_peers ctx) \<and> a \<noteq> b
      \<and> (a \<notin> set (sc_private ctx) \<or> b \<notin> set (sc_private ctx))
      \<and> (\<exists>v. pm_look s a b = Some v \<and> x = pick a b a (fst v) \<and> y = pick a b b (fst v) \<and> net = snd v)"
  shows "backbone_links_ok ctx lm s"
  unfolding backbone_links_ok_def by (intro conjI allI impI assms(1)) (use assms(2,3) in fast)+

lemma strategy_mirror:
  assumes "kind \<noteq> STATIC" and "deploy (deployment_strategy kind r) alloc_put ctx s = Inr (lm, s')"
    and "rnd_ok r" and "ctx_ok ctx" and "pmap_ok (fst s)"
  shows "backbone_links_ok ctx lm s'"
proof (cases kind)
  case CROSSED
  note dep = assms(2) [unfolded CROSSED deployment_strategy_kinds]
  show ?thesis by (rule backbone_links_okI [OF crossed.deploy_mirror [OF dep assms(3-5)]])
next
  case CIRCULAR
  note dep = assms(2) [unfolded CIRCULAR deployment_strategy_kinds]
  show ?thesis by (rule backbone_links_okI [OF circular.deploy_mirror [OF dep assms(3-5)]])
next
  case RANDOM
  note dep = assms(2) [unfolded RANDOM deployment_strategy_kinds]
  show ?thesis by (rule backbone_links_okI [OF random.deploy_mirror [OF dep assms(3-5)]])
next
  case FULL_MESH
  note dep = assms(2) [unfolded FULL_MESH deployment_strategy_kinds]
  show ?thesis by (rule backbone_links_okI [OF fullmesh.deploy_mirror [OF dep assms(3-5)]])
qed (use assms(1) in simp)

section \<open>The allocator during a deployment\<close>

lemma deploy_links_keeps:
  assumes step: "\<And>s a b v s'. I s \<Longrightarrow> put s a b = Inr (v, s') \<Longrightarrow> I s'"
    and "deploy_links put d a n is acc s = Inr (ls, s')" and "I s"
  shows "I s'"
  using assms(2,3)
proof (induction "is" arbitrary: acc s)
  case (Cons i "is")
  obtain ids cnt conns where d: "d = (ids, cnt, conns)" by (cases d)
  show ?case using Cons step by (auto simp: d res_simps split: option.splits)
qed simp

lemma deploy_peers_keeps:
  assumes step: "\<And>s a b v s'. I s \<Longrightarrow> put s a b = Inr (v, s') \<Longrightarrow> I s'"
    and "deploy_peers put d ps acc s = Inr (lm, s')" and "I s"
  shows "I s'"
  using assms(2,3)
proof (induction ps arbitrary: acc s)
  case (Cons p ps)
  obtain n a where p: "p = (n, a)" by (cases p)
  from Cons.prems(1) obtain c ls s1 where "deploy_links put d a n [0..<c] [] s = Inr (ls, s1)"
    and rest: "deploy_peers put d ps (AList.update a \<lparr>pd_n = n, pd_peers = ls\<rparr> acc) s1 = Inr (lm, s')"
    by (auto simp: p res_simps)
  from deploy_links_keeps [where I = I and put = put, OF step this(1) Cons.prems(2)] have "I s1" .
  from Cons.IH [OF rest this] show ?case .
qed simp

lemma deploy_links_distinct:
  "deploy_links put d a n is acc s = Inr (ls, s') \<Longrightarrow> distinct (map fst acc) \<Longrightarrow> distinct (map fst ls)"
proof (induction "is" arbitrary: acc s)
  case (Cons i "is")
  obtain ids cnt conns where d: "d = (ids, cnt, conns)" by (cases d)
  from Cons.prems(1) obtain acc' s1 where rest: "deploy_links put d a n is acc' s1 = Inr (ls, s')"
    and acc': "acc' = acc \<or> (\<exists>k v. acc' = AList.update k v acc)"
    by (auto simp: d res_simps split: option.splits) blast
  have "distinct (map fst acc')" using acc' Cons.prems(2) by auto
  with Cons.IH [OF rest] show ?case .
qed simp

lemma deploy_peers_distinct:
  assumes "deploy_peers put d ps acc s = Inr (lm, s')"
    and "\<And>a e. map_of acc a = Some e \<Longrightarrow> distinct (map fst (pd_peers e))" and "map_of lm a = Some e"
  shows "distinct (map fst (pd_peers e))"
  using assms
proof (induction ps arbitrary: acc s)
  case (Cons p ps)
  obtain n b where p: "p = (n, b)" by (cases p)
  from Cons.prems(1) obtain c ls s1 where ls: "deploy_links put d b n [0..<c] [] s = Inr (ls, s1)"
    and rest: "deploy_peers put d ps (AList.update b \<lparr>pd_n = n, pd_peers = ls\<rparr> acc) s1 = Inr (lm, s')"
    by (auto simp: p res_simps)
  show ?case
  proof (rule Cons.IH [OF rest _ Cons.prems(3)])
    show "distinct (map fst (pd_peers e))"
      if "map_of (AList.update b \<lparr>pd_n = n, pd_peers = ls\<rparr> acc) a = Some e" for a e
      using that Cons.prems(2) deploy_links_distinct [OF ls] by (auto simp: map_of_update split: if_splits)
  qed
qed simp

text \<open>A deployment that is well formed succeeds when the allocator has a value for each pair of its peers.\<close>

lemma deploy_links_total:
  assumes wf: "deployment_wf d" and n: "n < length (fst d)" "fst d ! n = a" and c: "fst (snd d) n = Inr c"
    and step: "\<And>s b. Q s \<Longrightarrow> b \<in> set (fst d) \<Longrightarrow> a \<noteq> b \<Longrightarrow> \<exists>v s'. put s a b = Inr (v, s') \<and> Q s'"
    and "set is \<subseteq> {0..<c}" and "Q s"
  shows "\<exists>ls s'. deploy_links put d a n is acc s = Inr (ls, s') \<and> Q s'"
  using assms(6,7)
proof (induction "is" arbitrary: acc s)
  case (Cons i "is")
  obtain ids cnt conns where d: "d = (ids, cnt, conns)" by (cases d)
  have i: "i < c" using Cons.prems(1) by simp
  with wf n(1) c have len: "i < length conns" unfolding deployment_wf_def d by fastforce
  from wf n(1) c i obtain r where r: "(conns ! i) n = Inr r" and m: "\<And>m. r = Some m \<Longrightarrow> m < length ids \<and> m \<noteq> n"
    unfolding deployment_wf_def d by fastforce
  show ?case
  proof (cases r)
    case None
    with Cons len r show ?thesis by (simp add: d rbind_simps)
  next
    case (Some m)
    have "ids ! m \<in> set ids" "a \<noteq> ids ! m"
      using m [OF Some] n wf by (auto simp: d deployment_wf_def nth_eq_iff_index_eq)
    with step [OF Cons.prems(2), of "ids ! m"] obtain v s1 where put: "put s a (ids ! m) = Inr (v, s1)" and q: "Q s1"
      unfolding d fst_conv by blast
    obtain addrs net where v: "v = (addrs, net)" by (cases v)
    show ?thesis using Cons.IH [OF _ q] Cons.prems(1) put len r Some m [OF Some]
      by (simp add: d v rbind_simps)
  qed
qed simp

lemma deploy_peers_total:
  assumes wf: "deployment_wf d"
    and step: "\<And>s a b. Q s \<Longrightarrow> a \<in> set (fst d) \<Longrightarrow> b \<in> set (fst d) \<Longrightarrow> a \<noteq> b \<Longrightarrow> \<exists>v s'. put s a b = Inr (v, s') \<and> Q s'"
    and "\<forall>(n, a) \<in> set ps. n < length (fst d) \<and> fst d ! n = a" and "Q s"
  shows "\<exists>lm s'. deploy_peers put d ps acc s = Inr (lm, s') \<and> Q s'"
  using assms(3,4)
proof (induction ps arbitrary: acc s)
  case (Cons p ps)
  obtain n a where p: "p = (n, a)" by (cases p)
  have n: "n < length (fst d)" "fst d ! n = a" using Cons.prems(1) by (auto simp: p)
  then have a: "a \<in> set (fst d)" by auto
  from wf n(1) obtain c where c: "fst (snd d) n = Inr c" unfolding deployment_wf_def by blast
  have "\<exists>ls s1. deploy_links put d a n [0..<c] [] s = Inr (ls, s1) \<and> Q s1"
    by (rule deploy_links_total [where Q = Q, OF wf n c _ _ Cons.prems(2)]) (use step a in auto)
  then obtain ls s1 where "deploy_links put d a n [0..<c] [] s = Inr (ls, s1)" and q: "Q s1" by blast
  then show ?case using Cons.IH [OF _ q] Cons.prems(1) c by (simp add: p rbind_simps)
qed simp

text \<open>The pairs of distinct peers.\<close>

definition pairs_of :: "peer set \<Rightarrow> (peer \<times> peer) set" where
  "pairs_of S = {(a, b). a \<in> S \<and> b \<in> S \<and> a < b}"

lemma card_pairs_of:
  assumes "finite S"
  shows "finite (pairs_of S)" and "card (pairs_of S) \<le> card S * (card S - 1) div 2"
proof -
  have sub: "pairs_of S \<subseteq> S \<times> S" by (auto simp: pairs_of_def)
  then show fin: "finite (pairs_of S)" using assms by (metis finite_SigmaI finite_subset)
  let ?sw = "prod.swap ` pairs_of S" and ?d = "(\<lambda>a. (a, a)) ` S"
  have "card ?sw = card (pairs_of S)" by (rule card_image) (auto simp: inj_on_def prod.swap_def)
  moreover have "card ?d = card S" by (rule card_image) (simp add: inj_on_def)
  moreover have "pairs_of S \<union> ?sw \<union> ?d \<subseteq> S \<times> S" by (auto simp: pairs_of_def)
  then have "card (pairs_of S \<union> ?sw \<union> ?d) \<le> card S * card S"
    using card_mono [of "S \<times> S"] assms by (simp add: card_cartesian_product)
  moreover have "card (pairs_of S \<union> ?sw \<union> ?d) = card (pairs_of S \<union> ?sw) + card ?d"
    using fin assms by (intro card_Un_disjoint) (auto simp: pairs_of_def)
  moreover have "card (pairs_of S \<union> ?sw) = card (pairs_of S) + card ?sw"
    using fin by (intro card_Un_disjoint) (auto simp: pairs_of_def)
  ultimately have "2 * card (pairs_of S) \<le> card S * (card S - 1)"
    by (simp add: diff_mult_distrib2)
  then show "card (pairs_of S) \<le> card S * (card S - 1) div 2" by simp
qed

lemma pair_key_in_pairs: "a \<in> S \<Longrightarrow> b \<in> S \<Longrightarrow> a \<noteq> b \<Longrightarrow> pair_key a b \<in> pairs_of S"
  by (auto simp: pair_key_def pairs_of_def)

definition alloc_room :: "ipv4_network \<Rightarrow> peer set \<Rightarrow> link_map \<Rightarrow> bool" where
  "alloc_room n S ms \<longleftrightarrow> alloc_inv ms \<and> alloc_subnet (snd ms) = n \<and> fst ` set (fst ms) \<subseteq> pairs_of S"

lemma alloc_room_put:
  assumes "alloc_room n S ms" and "below_top n" and "finite S" and "card S * (card S - 1) div 2 \<le> capacity n"
    and "a \<in> S" and "b \<in> S" and "a \<noteq> b"
  shows "\<exists>v ms'. alloc_put ms a b = Inr (v, ms') \<and> alloc_room n S ms'"
proof -
  obtain m al where ms: "ms = (m, al)" by (cases ms)
  have inv: "alloc_inv (m, al)" and sub: "alloc_subnet al = n" and keys: "fst ` set m \<subseteq> pairs_of S"
    using assms(1) by (simp_all add: alloc_room_def ms)
  show ?thesis
  proof (cases "map_of m (pair_key a b)")
    case (Some v)
    have "alloc_put (m, al) a b = Inr (v, m, al)"
      by (rule pm.put_hit) (use inv Some in \<open>simp_all add: alloc_inv_def pm_look_def\<close>)
    with assms(1) show ?thesis by (auto simp: ms)
  next
    case None
    have k: "pair_key a b \<in> pairs_of S" by (rule pair_key_in_pairs [OF assms(5-7)])
    have "pair_key a b \<notin> fst ` set m" using None by (simp add: map_of_eq_None_iff)
    with k keys have "fst ` set m \<subset> pairs_of S" by blast
    from psubset_card_mono [OF card_pairs_of(1) [OF assms(3)] this]
    have "card (fst ` set m) < capacity n" using card_pairs_of(2) [OF assms(3)] assms(4) by linarith
    moreover have "card (fst ` set m) = length m"
      using inv by (auto simp: alloc_inv_def pmap_ok_def dest: distinct_card)
    ultimately have "alloc_put (m, al) a b = Inr (nth_link n (length m),
        m @ [(pair_key a b, nth_link n (length m))], al\<lparr>alloc_next_ip := alloc_next_ip al + 2\<rparr>)"
      using alloc_put_new [OF inv None] assms(2) by (simp add: sub)
    from alloc_put_inv [OF inv this] this keys k show ?thesis by (simp add: ms alloc_room_def sub)
  qed
qed


section \<open>What a redeployment promises\<close>

lemma redeploy_alloc_inv:
  assumes "deployable u" and "redeploy_links r u = Inr (lm, s)"
  shows "alloc_inv s \<and> alloc_subnet (snd s) = vs_subnet (us_backbone_vpn (uvn_settings u))"
proof -
  let ?n = "vs_subnet (us_backbone_vpn (uvn_settings u))"
  from assms(2) obtain s0 d where ini: "link_alloc_init ?n = Inr s0"
    and dp: "deploy_peers alloc_put d (enumerate 0 (fst d)) [] s0 = Inr (lm, s)"
    by (auto simp: redeploy_links_eq deploy_def res_simps)
  have "alloc_inv s0 \<and> alloc_subnet (snd s0) = ?n"
    using alloc_init_inv [OF _ ini] assms(1) by (simp add: deployable_def)
  then show ?thesis
    by (rule deploy_peers_keeps [where I = "\<lambda>s. alloc_inv s \<and> alloc_subnet (snd s) = ?n", OF _ dp, rotated])
       (metis alloc_put_inv)
qed

lemma redeploy_links_ok:
  assumes "deployable u" and "rnd_ok r" and "us_strategy (uvn_settings u) \<noteq> STATIC" and "redeploy_links r u = Inr (lm, s)"
  shows "backbone_links_ok (redeploy_ctx u) lm s"
proof -
  from assms(4) obtain s0 where ini: "link_alloc_init (vs_subnet (us_backbone_vpn (uvn_settings u))) = Inr s0"
    and dep: "deploy (deployment_strategy (us_strategy (uvn_settings u)) r) alloc_put (redeploy_ctx u) s0 = Inr (lm, s)"
    by (auto simp: redeploy_links_eq res_simps)
  have "pmap_ok (fst s0)" using ini by (auto simp: link_alloc_init_def res_simps)
  from strategy_mirror [OF assms(3) dep assms(2) redeploy_ctx_ok [OF assms(1)] this] show ?thesis .
qed

lemma hosts31: "even x \<Longrightarrow> hosts \<lparr>network_address = x, prefixlen = 31\<rparr> = {x, x + 1}"
  by (auto simp: hosts_def in_network_def host_part_def net_size_def)

lemma link_hosts:
  assumes "alloc_inv s" and "pm_look s a b = Some v" and "a \<noteq> b"
  shows "hosts (snd v) = {pick a b a (fst v), pick a b b (fst v)}" and "prefixlen (snd v) = 31"
    and "hosts (snd v) \<subseteq> hosts (alloc_subnet (snd s))"
proof -
  from pm_look_nth [OF assms(1,2)] obtain i where v: "v = nth_link (alloc_subnet (snd s)) i" .
  have "even (network_address (alloc_subnet (snd s)) + 2 + 2 * i)"
    using assms(1) subnet_ok_even [of "alloc_subnet (snd s)"] by (simp add: alloc_inv_def)
  from hosts31 [OF this] have h: "hosts (snd v) = {fst (fst v), snd (fst v)}"
    by (simp add: v nth_link_def link31_def)
  then show "hosts (snd v) = {pick a b a (fst v), pick a b b (fst v)}" by (simp only: pick_pair [OF assms(3)])
  show "prefixlen (snd v) = 31" by (rule alloc_in_subnet(5) [OF assms(1,2)])
  show "hosts (snd v) \<subseteq> hosts (alloc_subnet (snd s))"
    unfolding h using alloc_in_subnet(1,2) [OF assms(1,2)] by (simp add: hosts_def)
qed

text \<open>C5: A redeployment of the backbone with any strategy but the static one gives every active cell an entry; each
  link joins two distinct cells that are not both private, its two ends hold the same /31 network of the
  backbone subnet with the addresses swapped, and links of different pairs of cells share no address.\<close>

theorem redeploy_links_consistent:
  assumes "deployable u" and "rnd_ok r" and "us_strategy (uvn_settings u) \<noteq> STATIC"
    and "redeploy_links r u = Inr (lm, s)"
  shows "fst ` set lm = cell_id ` set (uvn_cells u)
    \<and> (\<forall>a b i x y net. link_of lm a b = Some (i, x, y, net) \<longrightarrow>
         (\<exists>j. link_of lm b a = Some (j, y, x, net)) \<and> a \<noteq> b
         \<and> (\<exists>c \<in> set (uvn_cells u). endpoint_true (cell_address c) \<and> cell_id c \<in> {a, b})
         \<and> {x, y} = hosts net \<and> prefixlen net = 31
         \<and> hosts net \<subseteq> hosts (vs_subnet (us_backbone_vpn (uvn_settings u)))
         \<and> (\<forall>c d j x' y' net'. link_of lm c d = Some (j, x', y', net') \<longrightarrow> {a, b} \<noteq> {c, d} \<longrightarrow> hosts net \<inter> hosts net' = {}))"
proof (intro conjI allI impI)
  note ok = redeploy_links_ok [OF assms, unfolded backbone_links_ok_def]
  note inv = redeploy_alloc_inv [OF assms(1,4)]
  have all: "(\<exists>j. link_of lm b a = Some (j, y, x, net))
      \<and> a \<in> set (sc_peers (redeploy_ctx u)) \<and> b \<in> set (sc_peers (redeploy_ctx u)) \<and> a \<noteq> b
      \<and> (a \<notin> set (sc_private (redeploy_ctx u)) \<or> b \<notin> set (sc_private (redeploy_ctx u)))
      \<and> (\<exists>v. pm_look s a b = Some v \<and> x = pick a b a (fst v) \<and> y = pick a b b (fst v) \<and> net = snd v)"
    if "link_of lm a b = Some (i, x, y, net)" for a b i x y net
    by (rule ok [THEN conjunct2, rule_format, OF that])
  show "fst ` set lm = cell_id ` set (uvn_cells u)" using ok by (simp add: redeploy_ctx_def)
  fix a b i x y net assume l: "link_of lm a b = Some (i, x, y, net)"
  from all [OF l] obtain v where v: "pm_look s a b = Some v" "x = pick a b a (fst v)" "y = pick a b b (fst v)" "net = snd v"
    by (elim conjE exE)
  have ab: "a \<noteq> b" using all [OF l] by (elim conjE)
  note h = link_hosts [OF conjunct1 [OF inv] v(1) ab]
  show "\<exists>j. link_of lm b a = Some (j, y, x, net)" using all [OF l] by (elim conjE)
  show "a \<noteq> b" by (rule ab)
  show "\<exists>c \<in> set (uvn_cells u). endpoint_true (cell_address c) \<and> cell_id c \<in> {a, b}"
    using all [OF l, THEN conjunct2] by (auto simp: redeploy_ctx_def)
  show "{x, y} = hosts net" "prefixlen net = 31" using h(1,2) by (simp_all only: v)
  show "hosts net \<subseteq> hosts (vs_subnet (us_backbone_vpn (uvn_settings u)))" using h(3) inv v(4) by simp
  fix c d j x' y' net' assume l': "link_of lm c d = Some (j, x', y', net')" and ne: "{a, b} \<noteq> {c, d}"
  from all [OF l'] obtain w where w: "pm_look s c d = Some w" "net' = snd w" by (elim conjE exE)
  have "pair_key a b \<noteq> pair_key c d" using ne by (auto simp: pair_key_eq_iff)
  from alloc_disjoint [OF conjunct1 [OF inv] v(1) w(1) this] show "hosts net \<inter> hosts net' = {}" by (simp add: v w)
qed

lemma strategy_total:
  assumes "kind \<in> {CROSSED, CIRCULAR, FULL_MESH}" and "rnd_ok r" and "ctx_ok ctx"
  shows "\<exists>d. deployment_strategy kind r ctx = Inr d \<and> deployment_wf d \<and> set (fst d) = set (sc_peers ctx)"
proof -
  consider "kind = CROSSED" | "kind = CIRCULAR" | "kind = FULL_MESH" using assms(1) by blast
  then show ?thesis
  proof cases
    case 1
    show ?thesis using crossed_generate_ok [OF assms(3,2) crossed_public_ok [OF assms(2)]]
      unfolding 1 deployment_strategy_kinds crossed_strategy_def by blast
  next
    case 2
    show ?thesis using crossed_generate_ok [OF assms(3,2) circular_public_ok [OF assms(2)]]
      unfolding 2 deployment_strategy_kinds circular_strategy_def by blast
  next
    case 3
    show ?thesis using static_generate_ok(1) [OF fullmesh_ok(1) [OF assms(3)]] fullmesh_ok(2) [OF assms(3)]
      unfolding 3 deployment_strategy_kinds fullmesh_strategy_def by simp
  qed
qed

lemma redeploy_total:
  assumes "deployable u" and "rnd_ok r" and "us_strategy (uvn_settings u) \<in> {CROSSED, CIRCULAR, FULL_MESH}"
    and "below_top (vs_subnet (us_backbone_vpn (uvn_settings u)))"
    and "length (uvn_cells u) * (length (uvn_cells u) - 1) div 2 \<le> capacity (vs_subnet (us_backbone_vpn (uvn_settings u)))"
  shows "\<exists>lm s. redeploy_links r u = Inr (lm, s)"
proof -
  let ?n = "vs_subnet (us_backbone_vpn (uvn_settings u))" and ?ctx = "redeploy_ctx u"
  note ctx = redeploy_ctx_ok [OF assms(1)]
  obtain s0 where ini: "link_alloc_init ?n = Inr s0"
  proof -
    have "network_address ?n + 2 < 2 ^ 32"
      using assms(1,4) net_size_even [of "prefixlen ?n"]
      unfolding deployable_def subnet_ok_def below_top_def broadcast_address_def by linarith
    then show ?thesis using that by (simp add: link_alloc_init_def ip_add_def rbind_simps)
  qed
  note i0 = alloc_init_inv [OF _ ini]
  from strategy_total [OF assms(3,2) ctx] obtain d where gen: "deployment_strategy (us_strategy (uvn_settings u)) r ?ctx = Inr d"
    and wf: "deployment_wf d" and ids: "set (fst d) = set (sc_peers ?ctx)" by blast
  have "card (set (fst d)) = length (uvn_cells u)"
    using ids assms(1) by (simp add: redeploy_ctx_def deployable_def distinct_card flip: set_map)
  with assms(5) have room: "card (set (fst d)) * (card (set (fst d)) - 1) div 2 \<le> capacity ?n" by simp
  have "alloc_room ?n (set (fst d)) s0" using i0 assms(1) by (simp add: alloc_room_def deployable_def)
  then have "\<exists>lm s'. deploy_peers alloc_put d (enumerate 0 (fst d)) [] s0 = Inr (lm, s') \<and> alloc_room ?n (set (fst d)) s'"
    by (intro deploy_peers_total [OF wf]) (use alloc_room_put [OF _ assms(4) _ room] in \<open>auto simp: in_set_enumerate_eq\<close>)
  then show ?thesis using ctx gen by (auto simp: redeploy_links_eq ini deploy_def ctx_ok_def rbind_simps)
qed

text \<open>In a full mesh the links join exactly the pairs that may be linked.\<close>

lemma fullmesh_redeploy:
  assumes "deployable u" and "us_strategy (uvn_settings u) = FULL_MESH" and "redeploy_links r u = Inr (lm, s)"
  shows "link_of lm a b \<noteq> None \<longleftrightarrow> (a, b) \<in> sd_rel (fullmesh_table (redeploy_ctx u))"
proof -
  let ?T = "fullmesh_table (redeploy_ctx u)" and ?d = "static_generate (fullmesh_table (redeploy_ctx u))"
  note ctx = redeploy_ctx_ok [OF assms(1)]
  note tbl = fullmesh_ok [OF ctx]
  have d: "distinct (map fst ?T)" using tbl(1) by (simp add: sd_ok_def)
  from assms(3) obtain s0 where ini: "link_alloc_init (vs_subnet (us_backbone_vpn (uvn_settings u))) = Inr s0"
    and dep: "deploy (fullmesh_strategy r) alloc_put (redeploy_ctx u) s0 = Inr (lm, s)"
    by (auto simp: redeploy_links_eq assms(2) deployment_strategy_kinds res_simps)
  have s0: "pmap_ok (fst s0)" using ini by (auto simp: link_alloc_init_def res_simps)
  have dp: "deploy_peers alloc_put ?d (enumerate 0 (fst ?d)) [] s0 = Inr (lm, s)"
    using dep ctx by (simp add: deploy_def fullmesh_strategy_def ctx_ok_def rbind_simps)
  note S = alloc_link.deploy_peers_summary [OF dp s0 static_generate_ok(1) [OF tbl(1)]]
  show ?thesis
  proof (cases "a \<in> set (map fst ?T) \<and> b \<in> set (map fst ?T)")
    case True
    then obtain n m where "n < length ?T" "a = fst (?T ! n)" "m < length ?T" "b = fst (?T ! m)"
      by (auto simp: in_set_conv_nth)
    with S(3) [of n m] static_linked [OF d, of n m] show ?thesis by simp
  next
    case False
    moreover have "a \<in> set (map fst ?T) \<and> b \<in> set (map fst ?T)" if l: "link_of lm a b \<noteq> None"
    proof -
      from l obtain l where "link_of lm a b = Some l" by blast
      from S(4) [OF this] show ?thesis by (metis static_fst nth_mem)
    qed
    moreover have "a \<in> set (map fst ?T) \<and> b \<in> set (map fst ?T)" if "(a, b) \<in> sd_rel ?T"
      using that tbl(2) by (simp add: fullmesh_rel)
    ultimately show ?thesis by blast
  qed
qed

definition demo_rnd :: rnd where
  "demo_rnd = \<lparr>shuffle_public = \<lambda>xs. xs, shuffle_private = \<lambda>xs. xs, iter_set = \<lambda>xs. xs, rnd_sample = \<lambda>n. n\<rparr>"

definition demo_backbone_cell :: "int \<Rightarrow> string option \<Rightarrow> cell" where
  "demo_backbone_cell i addr = \<lparr>cell_id = i, cell_name = ''c'', cell_address = addr, cell_excluded = False,
     cell_allowed_lans = [], cell_enable_particles_vpn = True, cell_owner = None\<rparr>"

definition demo_backbone_uvn :: "strategy_kind \<Rightarrow> uvn" where
  "demo_backbone_uvn kind = \<lparr>uvn_id = 1, uvn_name = ''u'', uvn_address = Some ''r'',
     uvn_settings = default_uvn_settings\<lparr>us_strategy := kind,
       us_backbone_vpn := backbone_vpn_settings\<lparr>vs_subnet := demo_subnet\<rparr>\<rparr>,
     uvn_all_cells = [demo_backbone_cell 1 (Some ''a''), demo_backbone_cell 2 (Some ''b''), demo_backbone_cell 3 None],
     uvn_all_particles = [], uvn_owner = None\<rparr>"

lemma demo_backbone:
  "rnd_ok demo_rnd" "deployable (demo_backbone_uvn kind)"
  "us_strategy (uvn_settings (demo_backbone_uvn kind)) = kind"
  "vs_subnet (us_backbone_vpn (uvn_settings (demo_backbone_uvn kind))) = demo_subnet"
  "length (uvn_cells (demo_backbone_uvn kind)) = 3"
  using demo_subnet_ok(1)
  by (simp_all add: rnd_ok_def demo_rnd_def deployable_def demo_backbone_uvn_def uvn_cells_def demo_backbone_cell_def
      endpoint_true_def)

lemma demo_backbone_deployed:
  assumes "kind \<in> {CROSSED, CIRCULAR, FULL_MESH}"
  shows "\<exists>lm s. redeploy_links demo_rnd (demo_backbone_uvn kind) = Inr (lm, s)"
  using redeploy_total [OF demo_backbone(2,1)] assms demo_subnet_ok(2,3) by (simp add: demo_backbone)

text \<open>C12: With the crossed, the circular and the full mesh strategy a redeployment never fails as long as the
  backbone subnet has a /31 link for each pair of active cells and does not end the address space.\<close>

theorem redeploy_succeeds:
  assumes "deployable u" and "rnd_ok r" and "us_strategy (uvn_settings u) \<in> {CROSSED, CIRCULAR, FULL_MESH}"
    and "below_top (vs_subnet (us_backbone_vpn (uvn_settings u)))"
    and "length (uvn_cells u) * (length (uvn_cells u) - 1) div 2 \<le> capacity (vs_subnet (us_backbone_vpn (uvn_settings u)))"
  shows "\<exists>lm s. redeploy_links r u = Inr (lm, s)"
  by (rule redeploy_total [OF assms])

theorem redeploy_links_consistent_witness:
  "\<exists>lm s i x y net. redeploy_links demo_rnd (demo_backbone_uvn FULL_MESH) = Inr (lm, s)
    \<and> link_of lm 1 3 = Some (i, x, y, net) \<and> (\<exists>j. link_of lm 3 1 = Some (j, y, x, net)) \<and> {x, y} = hosts net"
proof -
  obtain lm s where d: "redeploy_links demo_rnd (demo_backbone_uvn FULL_MESH) = Inr (lm, s)"
    using demo_backbone_deployed by blast
  have "link_of lm 1 3 \<noteq> None"
    using fullmesh_redeploy [OF demo_backbone(2,3) d]
    by (simp add: fullmesh_rel redeploy_ctx_def demo_backbone_uvn_def uvn_cells_def demo_backbone_cell_def endpoint_true_def)
  then obtain i x y net where l: "link_of lm 1 3 = Some (i, x, y, net)" by auto
  from redeploy_links_consistent [OF demo_backbone(2,1) _ d, unfolded demo_backbone(3), THEN conjunct2, rule_format, OF _ l]
  have "\<exists>j. link_of lm 3 1 = Some (j, y, x, net)" "{x, y} = hosts net" by simp_all
  with d l show ?thesis by blast
qed

theorem redeploy_succeeds_witness:
  "\<exists>lm s. redeploy_links demo_rnd (demo_backbone_uvn CROSSED) = Inr (lm, s)"
  using redeploy_succeeds [OF demo_backbone(2,1)] demo_subnet_ok(2,3) by (simp add: demo_backbone)

text \<open>The static strategy deploys no link, whatever table of links the settings give it.\<close>

theorem static_redeploy_empty:
  assumes "us_strategy (uvn_settings u) = STATIC" and "redeploy_links r u = Inr (lm, s)"
  shows "lm = []"
  using assms by (auto simp: redeploy_links_eq deploy_def deployment_strategy_def static_init_def static_generate_def
      EMPTY_DEPLOYMENT_def res_simps split: if_splits)

theorem static_redeploy_empty_witness:
  "\<exists>s. redeploy_links demo_rnd (demo_backbone_uvn STATIC) = Inr ([], s)"
proof -
  have "\<exists>lm s. redeploy_links demo_rnd (demo_backbone_uvn STATIC) = Inr (lm, s)"
    using redeploy_ctx_ok [OF demo_backbone(2)]
    by (simp add: redeploy_links_eq demo_backbone demo_subnet_ok(4) rbind_simps deploy_def ctx_ok_def
        deployment_strategy_def static_init_def static_generate_def EMPTY_DEPLOYMENT_def enumerate_eq_zip)
  then show ?thesis using static_redeploy_empty [OF demo_backbone(3)] by blast
qed

lemma end_config_peer:
  "ppk.end_config pub priv psk_str now vpn d k x c \<Longrightarrow> \<exists>r. wc_peers c = [r] \<and> wp_id r = x"
  by (auto simp: ppk.end_config_def p2p_config_def split: prod.splits)

text \<open>The configurations of two linked cells, with the peers that they name.\<close>

lemma backbone_ends:
  assumes "deployable u" and "rnd_ok r" and "us_strategy (uvn_settings u) \<noteq> STATIC"
    and "redeploy_links r u = Inr (lm, s)" and "backbone_vpn (Some lm) u = Some (u', vpn)" and "pp_inv km"
    and "link_of lm a b \<noteq> None"
  shows "\<exists>cs km1 cs' km2. p2p_peer_config pub priv psk_str (pp_put gen pgen) now vpn a km = Inr (cs, km1)
    \<and> p2p_peer_config pub priv psk_str (pp_put gen pgen) now vpn b km1 = Inr (cs', km2)
    \<and> (\<exists>c \<in> set cs. \<exists>c' \<in> set cs'. link_match pub priv a b c c')
    \<and> (\<forall>c \<in> set cs. \<exists>x r. link_of lm a x \<noteq> None \<and> wc_peers c = [r] \<and> wp_id r = x)
    \<and> (\<forall>c \<in> set cs'. \<exists>x r. link_of lm b x \<noteq> None \<and> wc_peers c = [r] \<and> wp_id r = x)"
proof -
  note ok = redeploy_links_ok [OF assms(1-4), unfolded backbone_links_ok_def]
  note inv = redeploy_alloc_inv [OF assms(1,4)]
  have vpn: "pv_deployment vpn = lm" "fst ` set (pv_peer_endpoints vpn) = cell_id ` set (uvn_cells u)"
    using assms(5) by (auto simp: backbone_vpn_def Let_def inject_allowed_ips_def uvn_cells_def image_image)
  have mir: "links_mirror (pv_deployment vpn)"
    unfolding vpn(1)
  proof (rule deploy_mirror_links [OF _ _ conjunct1 [OF inv]])
    fix a b i x y net assume "link_of lm a b = Some (i, x, y, net)"
    note l = ok [THEN conjunct2, rule_format, OF this]
    show "\<exists>j. link_of lm b a = Some (j, y, x, net)" using l by (elim conjE)
    show "a \<noteq> b \<and> (\<exists>v. pm_look s a b = Some v \<and> net = snd v)" using l by (elim conjE exE) (intro conjI exI)
  qed
  from assms(4) obtain d s0 where "deploy_peers alloc_put d (enumerate 0 (fst d)) [] s0 = Inr (lm, s)"
    by (auto simp: redeploy_links_eq deploy_def res_simps)
  from deploy_peers_distinct [OF this] have dist: "map_of (pv_deployment vpn) p = Some e \<Longrightarrow> distinct (map fst (pd_peers e))" for p e
    by (simp add: vpn)
  have eps: "p \<in> fst ` set (pv_deployment vpn) \<Longrightarrow> map_of (pv_peer_endpoints vpn) p \<noteq> None" for p
    using ok vpn by (simp add: map_of_eq_None_iff redeploy_ctx_def)
  have spec: "\<exists>cs s'. p2p_peer_config pub priv psk_str (pp_put gen pgen) now vpn a km = Inr (cs, s') \<and> pp_inv s'
      \<and> (\<forall>x y w. pp_look km x y = Some w \<longrightarrow> pp_look s' x y = Some w)
      \<and> (\<forall>b. link_of lm a b \<noteq> None \<longrightarrow> (\<exists>c \<in> set cs. ppk.end_config pub priv psk_str now vpn a s' b c))
      \<and> (\<forall>c \<in> set cs. \<exists>b. link_of lm a b \<noteq> None \<and> ppk.end_config pub priv psk_str now vpn a s' b c)"
    if "pp_inv km" for a km
    unfolding vpn(1) [symmetric] by (rule ppk.peer_config_spec [OF mir that]) (erule dist, erule eps)
  from spec [OF assms(6), of a]
  obtain cs km1 where one: "p2p_peer_config pub priv psk_str (pp_put gen pgen) now vpn a km = Inr (cs, km1)"
    and inv1: "pp_inv km1"
    and p1: "\<forall>c \<in> set cs. \<exists>x. link_of lm a x \<noteq> None \<and> ppk.end_config pub priv psk_str now vpn a km1 x c"
    and c: "\<And>b. link_of lm a b \<noteq> None \<Longrightarrow> \<exists>c \<in> set cs. ppk.end_config pub priv psk_str now vpn a km1 b c"
    by blast
  from spec [OF inv1, of b]
  obtain cs' km2 where two: "p2p_peer_config pub priv psk_str (pp_put gen pgen) now vpn b km1 = Inr (cs', km2)"
    and keep: "\<And>x y w. pp_look km1 x y = Some w \<Longrightarrow> pp_look km2 x y = Some w"
    and p2: "\<forall>c \<in> set cs'. \<exists>x. link_of lm b x \<noteq> None \<and> ppk.end_config pub priv psk_str now vpn b km2 x c"
    and c': "\<And>a. link_of lm b a \<noteq> None \<Longrightarrow> \<exists>c \<in> set cs'. ppk.end_config pub priv psk_str now vpn b km2 a c"
    by blast
  have "link_of lm b a \<noteq> None" using mir assms(7) unfolding vpn links_mirror_def by fastforce
  from c [OF assms(7)] c' [OF this] obtain e e' where e: "e \<in> set cs" "ppk.end_config pub priv psk_str now vpn a km1 b e"
    and e': "e' \<in> set cs'" "ppk.end_config pub priv psk_str now vpn b km2 a e'" by blast
  have peers: "\<forall>c \<in> set ds. \<exists>x r. link_of lm d x \<noteq> None \<and> wc_peers c = [r] \<and> wp_id r = x"
    if "\<forall>c \<in> set ds. \<exists>x. link_of lm d x \<noteq> None \<and> ppk.end_config pub priv psk_str now vpn d k x c" for d ds k
    using that end_config_peer by blast
  from ppk.ends_match [OF ppk.end_config_mono [OF e(2) keep] e'(2) mir] one two e(1) e'(1) peers [OF p1] peers [OF p2]
  show ?thesis by blast
qed

text \<open>C1: Both ends of every backbone link agree: after a redeployment, the WireGuard configurations of any two
  linked cells have one interface each for the link, with each other's public key, the same pre-shared key,
  and the other's address and endpoint, whichever key material was there before.\<close>

theorem backbone_tunnels_match:
  assumes "deployable u" and "rnd_ok r" and "us_strategy (uvn_settings u) \<noteq> STATIC"
    and "redeploy_links r u = Inr (lm, s)" and "backbone_vpn (Some lm) u = Some (u', vpn)" and "pp_inv km"
    and "link_of lm a b \<noteq> None"
  shows "\<exists>cs km1 cs' km2. p2p_peer_config pub priv psk_str (pp_put gen pgen) now vpn a km = Inr (cs, km1)
    \<and> p2p_peer_config pub priv psk_str (pp_put gen pgen) now vpn b km1 = Inr (cs', km2)
    \<and> (\<exists>c \<in> set cs. \<exists>c' \<in> set cs'. link_match pub priv a b c c')"
  using backbone_ends [OF assms, of pub priv psk_str gen pgen now] by blast

theorem backbone_tunnels_match_witness:
  "\<exists>lm s u' vpn c c'. redeploy_links demo_rnd (demo_backbone_uvn FULL_MESH) = Inr (lm, s)
    \<and> backbone_vpn (Some lm) (demo_backbone_uvn FULL_MESH) = Some (u', vpn) \<and> link_match (wk_material :: string wkey \<Rightarrow> string) wk_material 1 3 c c'"
proof -
  have km: "pp_inv \<lparr>pp_prefix = ''b'', pp_readonly = False, pp_pair_keys = empty_keys_map ''k'' False False,
      pp_psks = empty_keys_map ''p'' False False\<rparr>"
    by (simp add: pp_inv_def pp_ok_def km_ok_def empty_keys_map_def)
  obtain lm s where d: "redeploy_links demo_rnd (demo_backbone_uvn FULL_MESH) = Inr (lm, s)"
    using demo_backbone_deployed by blast
  obtain u' vpn where v: "backbone_vpn (Some lm) (demo_backbone_uvn FULL_MESH) = Some (u', vpn)"
    by (simp add: backbone_vpn_def Let_def)
  have l: "link_of lm 1 3 \<noteq> None"
    using fullmesh_redeploy [OF demo_backbone(2,3) d]
    by (simp add: fullmesh_rel redeploy_ctx_def demo_backbone_uvn_def uvn_cells_def demo_backbone_cell_def endpoint_true_def)
  have k: "FULL_MESH \<noteq> STATIC" by simp
  from backbone_tunnels_match [OF demo_backbone(2,1) _ d v km l, of wk_material wk_material wk_material "\<lambda>n. ''g''" "\<lambda>n. ''p''" "''t''"] d v k
  show ?thesis unfolding demo_backbone(3) by blast
qed

text \<open>In a full mesh two cells are linked if and only if they differ and at least one of them has an address.\<close>

theorem fullmesh_links_exact:
  assumes "deployable u" and "us_strategy (uvn_settings u) = FULL_MESH" and "redeploy_links r u = Inr (lm, s)"
    and "c \<in> set (uvn_cells u)" and "c' \<in> set (uvn_cells u)"
  shows "link_of lm (cell_id c) (cell_id c') \<noteq> None \<longleftrightarrow>
    cell_id c \<noteq> cell_id c' \<and> (endpoint_true (cell_address c) \<or> endpoint_true (cell_address c'))"
proof -
  have "inj_on cell_id (set (uvn_cells u))" using assms(1) by (simp add: deployable_def distinct_map)
  then have pub: "cell_id c \<notin> cell_id ` {c \<in> set (uvn_cells u). \<not> endpoint_true (cell_address c)} \<longleftrightarrow> endpoint_true (cell_address c)"
    if "c \<in> set (uvn_cells u)" for c
    using that by (auto dest: inj_onD)
  have mem: "set (sc_private (redeploy_ctx u)) = cell_id ` {c \<in> set (uvn_cells u). \<not> endpoint_true (cell_address c)}"
    and peers: "cell_id c \<in> set (sc_peers (redeploy_ctx u))" "cell_id c' \<in> set (sc_peers (redeploy_ctx u))"
    using assms(4,5) by (simp_all add: redeploy_ctx_def)
  show ?thesis
    unfolding fullmesh_redeploy [OF assms(1-3)] fullmesh_rel mem pub [OF assms(4)] pub [OF assms(5)]
    using peers by blast
qed

theorem fullmesh_links_exact_witness:
  "\<exists>lm s. redeploy_links demo_rnd (demo_backbone_uvn FULL_MESH) = Inr (lm, s) \<and> link_of lm 1 3 \<noteq> None \<and> link_of lm 1 1 = None"
proof -
  obtain lm s where d: "redeploy_links demo_rnd (demo_backbone_uvn FULL_MESH) = Inr (lm, s)"
    using demo_backbone_deployed by blast
  have "demo_backbone_cell 1 (Some ''a'') \<in> set (uvn_cells (demo_backbone_uvn FULL_MESH))"
    "demo_backbone_cell 3 None \<in> set (uvn_cells (demo_backbone_uvn FULL_MESH))"
    by (simp_all add: demo_backbone_uvn_def uvn_cells_def demo_backbone_cell_def)
  from fullmesh_links_exact [OF demo_backbone(2,3) d this(1,2)] fullmesh_links_exact [OF demo_backbone(2,3) d this(1,1)] d
  show ?thesis by (simp add: demo_backbone_cell_def endpoint_true_def)
qed

section \<open>Connected deployments\<close>

definition links_of :: "deployment \<Rightarrow> (nat \<times> nat) set" where
  "links_of d = {(n, m). n < length (fst d) \<and> m < length (fst d) \<and> linked d n m}"

definition deployment_conn :: "deployment \<Rightarrow> bool" where
  "deployment_conn d \<longleftrightarrow> (\<forall>n < length (fst d). \<forall>m < length (fst d). (n, m) \<in> (links_of d)\<^sup>*)"

lemma rtrancl_symI:
  assumes "sym R" and "\<And>x. x \<in> S \<Longrightarrow> (c, x) \<in> R\<^sup>*" and "x \<in> S" and "y \<in> S"
  shows "(x, y) \<in> R\<^sup>*"
  using assms by (meson rtrancl_trans sym_rtrancl symD)

lemma links_of_sym: "deployment_sym d \<Longrightarrow> sym (links_of d)"
  by (auto simp: links_of_def deployment_sym_def sym_def)

text \<open>A ring reaches every peer from the first.\<close>

lemma ring_conn:
  assumes "deployment_sym d" and "\<And>i. Suc i < length (fst d) \<Longrightarrow> linked d i (Suc i)"
  shows "deployment_conn d"
proof -
  have "(0, n) \<in> (links_of d)\<^sup>*" if "n < length (fst d)" for n
    using that
  proof (induction n)
    case (Suc n)
    then have "(n, Suc n) \<in> links_of d" using assms(2) by (simp add: links_of_def)
    with Suc show ?case by (meson Suc_lessD rtrancl.rtrancl_into_rtrancl)
  qed simp
  then show ?thesis unfolding deployment_conn_def
    using rtrancl_symI [OF links_of_sym [OF assms(1)], of "{..<length (fst d)}" 0] by simp
qed

definition public_conn :: "(peer list \<Rightarrow> deployment) \<Rightarrow> bool" where
  "public_conn f \<longleftrightarrow> (\<forall>ps. 2 \<le> length ps \<longrightarrow> distinct ps \<longrightarrow> deployment_conn (f ps))"

lemma ring_next: "Suc i < n \<Longrightarrow> ring_edge n i (Suc i)"
  by (simp add: ring_edge_def peer_right_def)

lemma public_conns:
  assumes "rnd_ok r"
  shows "public_conn (crossed_all_public r)" and "public_conn (circular_all_public r)"
proof -
  have sym: "deployment_sym (crossed_all_public r ps)" "deployment_sym (circular_all_public r ps)"
    if "2 \<le> length ps" "distinct ps" for ps
    using crossed_public_ok [OF assms] circular_public_ok [OF assms] that unfolding public_graph_ok_def by blast+
  show "public_conn (crossed_all_public r)" unfolding public_conn_def
    by (intro allI impI ring_conn sym(1)) (simp_all add: all_public_simps shuffle_length [OF assms] crossed_linked ring_next)
  show "public_conn (circular_all_public r)" unfolding public_conn_def
    by (intro allI impI ring_conn sym(2)) (simp_all add: all_public_simps shuffle_length [OF assms] circular_linked ring_next)
qed

text \<open>A table is connected when its relation is; the relation of a mixed table joins the graph of the public
  peers with one link for each private peer.\<close>

lemma static_conn:
  assumes ok: "sd_ok sd" and conn: "\<And>a b. a \<in> set (map fst sd) \<Longrightarrow> b \<in> set (map fst sd) \<Longrightarrow> (a, b) \<in> (sd_rel sd)\<^sup>*"
  shows "deployment_conn (static_generate sd)"
proof -
  have d: "distinct (map fst sd)" using ok by (simp add: sd_ok_def)
  have step: "\<exists>m. m < length sd \<and> b = fst (sd ! m) \<and> (n, m) \<in> (links_of (static_generate sd))\<^sup>*"
    if "(fst (sd ! n), b) \<in> (sd_rel sd)\<^sup>*" and n: "n < length sd" for n b
    using that(1)
  proof (induction rule: rtrancl_induct)
    case (step y z)
    then obtain m where m: "m < length sd" "y = fst (sd ! m)" "(n, m) \<in> (links_of (static_generate sd))\<^sup>*" by blast
    from step(2) ok have "(z, y) \<in> sd_rel sd" by (auto simp: sd_ok_def dest: symD)
    then have "z \<in> set (map fst sd)" by (force simp: sd_rel_def dest: map_of_SomeD)
    then obtain k where k: "k < length sd" "z = fst (sd ! k)" by (auto simp: in_set_conv_nth)
    with static_linked [OF d m(1) k(1)] step(2) m have "(m, k) \<in> links_of (static_generate sd)" by (simp add: links_of_def)
    with m(3) have "(n, k) \<in> (links_of (static_generate sd))\<^sup>*" by (rule rtrancl.rtrancl_into_rtrancl)
    with k show ?case by blast
  qed (use n in blast)
  show ?thesis unfolding deployment_conn_def
  proof (intro allI impI)
    fix n m assume nm: "n < length (fst (static_generate sd))" "m < length (fst (static_generate sd))"
    then have "(fst (sd ! n), fst (sd ! m)) \<in> (sd_rel sd)\<^sup>*" by (intro conn) simp_all
    from step [OF this] nm obtain k where "k < length sd" "fst (sd ! m) = fst (sd ! k)" "(n, k) \<in> (links_of (static_generate sd))\<^sup>*"
      by auto
    moreover then have "k = m" using nm(2) d by (metis length_map nth_eq_iff_index_eq nth_map static_fst)
    ultimately show "(n, m) \<in> (links_of (static_generate sd))\<^sup>*" by simp
  qed
qed

lemma mixed_conn:
  assumes shape: "mixed_shape f ctx d privs sd" and f: "public_graph_ok f" and ctx: "ctx_ok ctx" and conn: "public_conn f"
  shows "deployment_conn (static_generate sd)"
proof (rule static_conn)
  let ?P = "length (public_peers ctx)" and ?ids = "fst d @ privs"
    and ?sizes = "partition_sizes (length (sc_private ctx)) (length (public_peers ctx))"
  note S = mixed_shapeD [OF shape]
  note ok = mixed_shape_ok(1) [OF shape f ctx]
  show "sd_ok sd" by (rule ok)
  have P: "0 < ?P" using ctx by (simp add: ctx_ok_def)
  have pub: "(?ids ! 0, ?ids ! n) \<in> (sd_rel sd)\<^sup>*" if n: "n < ?P" for n
  proof (cases "1 < ?P")
    case True
    have "deployment_conn d" unfolding S(4) [OF True] using conn True ctx
      by (auto simp: public_conn_def ctx_ok_def public_peers_def Suc_le_eq)
    then have "(0, n) \<in> (links_of d)\<^sup>*" using n P S(6) by (simp add: deployment_conn_def)
    then show ?thesis
    proof (induction rule: rtrancl_induct)
      case (step m k)
      from step(2) have "m < ?P" "linked d m k" using S(6) by (simp_all add: links_of_def)
      then have "(?ids ! m, ?ids ! k) \<in> contrib d ?ids ?P ?sizes m" using True by (auto simp: contrib_def)
      then have "(?ids ! m, ?ids ! k) \<in> sd_rel sd" unfolding S(3) using \<open>m < ?P\<close> by blast
      with step(3) show ?case by (rule rtrancl.rtrancl_into_rtrancl)
    qed simp
  next
    case False
    with n show ?thesis by (cases n) auto
  qed
  have all: "(?ids ! 0, x) \<in> (sd_rel sd)\<^sup>*" if "x \<in> set (map fst sd)" for x
  proof (cases "x \<in> set privs")
    case True
    then obtain n where n: "n < ?P" "x \<in> part ?ids ?P ?sizes n" unfolding S(8) [symmetric] by blast
    then have "(?ids ! n, x) \<in> contrib d ?ids ?P ?sizes n" by (auto simp: contrib_def)
    then have "(?ids ! n, x) \<in> sd_rel sd" unfolding S(3) using n(1) by blast
    with pub [OF n(1)] show ?thesis by (rule rtrancl.rtrancl_into_rtrancl)
  next
    case False
    then have "x \<in> set (fst d)" using that unfolding S(1) by simp
    then obtain n where "n < length (fst d)" "x = fst d ! n" by (auto simp: in_set_conv_nth)
    with pub [of n] show ?thesis by (simp add: S(6) nth_append)
  qed
  show "(a, b) \<in> (sd_rel sd)\<^sup>*" if "a \<in> set (map fst sd)" "b \<in> set (map fst sd)" for a b
    by (rule rtrancl_symI [OF _ all that]) (use ok in \<open>simp add: sd_ok_def\<close>)
qed

lemma crossed_generate_conn:
  assumes ctx: "ctx_ok ctx" and r: "rnd_ok r" and f: "public_graph_ok f" and conn: "public_conn f"
    and d: "crossed_generate r f ctx = Inr d"
  shows "deployment_conn d"
proof (cases "length (public_peers ctx) > 1 \<and> sc_private ctx = []")
  case True
  then have "d = f (public_peers ctx)" using d by (simp add: crossed_generate_def)
  with conn True ctx show ?thesis by (auto simp: public_conn_def ctx_ok_def public_peers_def Suc_le_eq)
next
  case False
  from mixed_table_shape [OF ctx r f] obtain d' privs sd
    where "mixed_table r f ctx = Inr sd" and shape: "mixed_shape f ctx d' privs sd" by blast
  with d False have "d = static_generate sd" by (auto simp: crossed_generate_def)
  with mixed_conn [OF shape f ctx conn] show ?thesis by simp
qed

lemma fullmesh_conn:
  assumes ctx: "ctx_ok ctx"
  shows "deployment_conn (static_generate (fullmesh_table ctx))"
proof (rule static_conn)
  show ok: "sd_ok (fullmesh_table ctx)" by (rule fullmesh_ok(1) [OF ctx])
  from ctx obtain p where p: "p \<in> set (public_peers ctx)" unfolding ctx_ok_def
    by (metis list.set_intros(1) neq_Nil_conv)
  have all: "(p, x) \<in> (sd_rel (fullmesh_table ctx))\<^sup>*" if "x \<in> set (map fst (fullmesh_table ctx))" for x
    using that p unfolding fullmesh_ok(2) [OF ctx]
    by (cases "x = p") (auto simp: fullmesh_rel public_peers_def intro!: r_into_rtrancl)
  show "(a, b) \<in> (sd_rel (fullmesh_table ctx))\<^sup>*"
    if "a \<in> set (map fst (fullmesh_table ctx))" "b \<in> set (map fst (fullmesh_table ctx))" for a b
    by (rule rtrancl_symI [OF _ all that]) (use ok in \<open>simp add: sd_ok_def\<close>)
qed

lemma strategy_conn:
  assumes "kind \<in> {CROSSED, CIRCULAR, FULL_MESH}" and "rnd_ok r" and "ctx_ok ctx" and "deployment_strategy kind r ctx = Inr d"
  shows "deployment_conn d"
proof -
  consider "kind = CROSSED" | "kind = CIRCULAR" | "kind = FULL_MESH" using assms(1) by blast
  then show ?thesis
  proof cases
    case 1
    show ?thesis by (rule crossed_generate_conn [OF assms(3,2) crossed_public_ok [OF assms(2)] public_conns(1) [OF assms(2)]])
      (use assms(4) in \<open>simp only: 1 deployment_strategy_kinds crossed_strategy_def\<close>)
  next
    case 2
    show ?thesis by (rule crossed_generate_conn [OF assms(3,2) circular_public_ok [OF assms(2)] public_conns(2) [OF assms(2)]])
      (use assms(4) in \<open>simp only: 2 deployment_strategy_kinds circular_strategy_def\<close>)
  next
    case 3
    show ?thesis using fullmesh_conn [OF assms(3)] assms(4)
      unfolding 3 deployment_strategy_kinds fullmesh_strategy_def by simp
  qed
qed

text \<open>C4: The backbone never splits: after a redeployment with the crossed, the circular or the full mesh
  strategy there is a path of links between any two active cells, private cells included.\<close>

theorem backbone_connected:
  assumes "deployable u" and "rnd_ok r" and "us_strategy (uvn_settings u) \<in> {CROSSED, CIRCULAR, FULL_MESH}"
    and "redeploy_links r u = Inr (lm, s)" and "c \<in> set (uvn_cells u)" and "c' \<in> set (uvn_cells u)"
  shows "(cell_id c, cell_id c') \<in> {(a, b). link_of lm a b \<noteq> None}\<^sup>*"
proof -
  let ?ctx = "redeploy_ctx u"
  note ctx = redeploy_ctx_ok [OF assms(1)]
  from strategy_total [OF assms(3,2) ctx] obtain d where gen: "deployment_strategy (us_strategy (uvn_settings u)) r ?ctx = Inr d"
    and wf: "deployment_wf d" and ids: "set (fst d) = set (sc_peers ?ctx)" by blast
  from assms(4) obtain s0 where s0: "pmap_ok (fst s0)"
    and dp: "deploy_peers alloc_put d (enumerate 0 (fst d)) [] s0 = Inr (lm, s)"
  proof -
    from assms(4) obtain s0 where ini: "link_alloc_init (vs_subnet (us_backbone_vpn (uvn_settings u))) = Inr s0"
      and dep: "deploy (deployment_strategy (us_strategy (uvn_settings u)) r) alloc_put ?ctx s0 = Inr (lm, s)"
      by (auto simp: redeploy_links_eq res_simps)
    have "pmap_ok (fst s0)" using ini by (auto simp: link_alloc_init_def res_simps)
    moreover have "deploy_peers alloc_put d (enumerate 0 (fst d)) [] s0 = Inr (lm, s)"
      using dep ctx gen by (simp add: deploy_def ctx_ok_def)
    ultimately show ?thesis using that by blast
  qed
  note S = alloc_link.deploy_peers_summary [OF dp s0 wf]
  have "(fst d ! n, fst d ! m) \<in> {(a, b). link_of lm a b \<noteq> None}\<^sup>*" if "(n, m) \<in> (links_of d)\<^sup>*" for n m
    using that
  proof (induction rule: rtrancl_induct)
    case (step m k)
    from step(2) S(3) have "(fst d ! m, fst d ! k) \<in> {(a, b). link_of lm a b \<noteq> None}"
      unfolding links_of_def by blast
    with step(3) show ?case by (rule rtrancl.rtrancl_into_rtrancl)
  qed simp
  moreover have "cell_id c \<in> set (fst d)" "cell_id c' \<in> set (fst d)" unfolding ids using assms(5,6) by (simp_all add: redeploy_ctx_def)
  then obtain n m where "n < length (fst d)" "cell_id c = fst d ! n" "m < length (fst d)" "cell_id c' = fst d ! m"
    by (metis in_set_conv_nth)
  ultimately show ?thesis using strategy_conn [OF assms(3,2) ctx gen] by (simp add: deployment_conn_def)
qed

theorem backbone_connected_witness:
  "\<exists>lm s. redeploy_links demo_rnd (demo_backbone_uvn CIRCULAR) = Inr (lm, s) \<and> (2, 3) \<in> {(a, b). link_of lm a b \<noteq> None}\<^sup>*"
proof -
  obtain lm s where d: "redeploy_links demo_rnd (demo_backbone_uvn CIRCULAR) = Inr (lm, s)"
    using demo_backbone_deployed by blast
  have "demo_backbone_cell 2 (Some ''b'') \<in> set (uvn_cells (demo_backbone_uvn CIRCULAR))"
    "demo_backbone_cell 3 None \<in> set (uvn_cells (demo_backbone_uvn CIRCULAR))"
    by (simp_all add: demo_backbone_uvn_def uvn_cells_def demo_backbone_cell_def)
  from backbone_connected [OF demo_backbone(2,1) _ d this] d
  show ?thesis by (simp add: demo_backbone demo_backbone_cell_def)
qed

end
