(* ===== verification/Peers_List.thy ===== *)
theory Peers_List
  imports Uvn
begin

text \<open>
  The agent's table of peers (\<open>uno/agent/uvn_peer.py\<close>, \<open>uvn_peers_list.py\<close>): the properties of a
  peer with their tracked previous values, the updates, and \<open>_process_updates\<close>, which derives the
  status flags and the notifications from what changed. Events are the values the listeners receive;
  Python's sets are duplicate-free lists.
\<close>

section \<open>Peers\<close>

datatype peer_status = DECLARED | ONLINE | OFFLINE

datatype peer_owner = OwnerUvn int | OwnerCell int bool | OwnerParticle int bool

record lan =
  lan_nic :: string
  lan_subnet :: ipv4_network

text \<open>A tracked property is its value and, while changes are pending, the previous one.\<close>

record lan_status =
  ls_lan :: lan
  ls_reachable :: bool
  ls_prev :: "bool option"

record vpn_status =
  vi_intf :: string
  vi_online :: bool
  vi_prev :: "bool option"

record peer_rec =
  up_owner :: peer_owner
  up_name :: string
  up_status :: peer_status
  up_prev_status :: "peer_status option"
  up_registry_id :: "string option"
  up_prev_registry :: "string option option"
  up_routed :: "lan list"
  up_prev_routed :: "lan list option"
  up_instance :: "int option"
  up_writer :: "int option"
  up_ts_start :: "int option"
  up_known :: "lan_status list"
  up_vpn :: "vpn_status list"
  up_dirty :: bool

definition is_registry :: "peer_rec \<Rightarrow> bool" where
  "is_registry p = (case up_owner p of OwnerUvn _ \<Rightarrow> True | _ \<Rightarrow> False)"

definition is_cell :: "peer_rec \<Rightarrow> bool" where
  "is_cell p = (case up_owner p of OwnerCell _ _ \<Rightarrow> True | _ \<Rightarrow> False)"

definition is_active_cell :: "peer_rec \<Rightarrow> bool" where
  "is_active_cell p = (case up_owner p of OwnerCell _ excluded \<Rightarrow> \<not> excluded | _ \<Rightarrow> False)"

definition is_particle :: "peer_rec \<Rightarrow> bool" where
  "is_particle p = (case up_owner p of OwnerParticle _ _ \<Rightarrow> True | _ \<Rightarrow> False)"

definition is_active_particle :: "peer_rec \<Rightarrow> bool" where
  "is_active_particle p = (case up_owner p of OwnerParticle _ excluded \<Rightarrow> \<not> excluded | _ \<Rightarrow> False)"

definition reachable_networks :: "peer_rec \<Rightarrow> lan_status list" where
  "reachable_networks p = filter ls_reachable (up_known p)"

definition unreachable_networks :: "peer_rec \<Rightarrow> lan_status list" where
  "unreachable_networks p = filter (\<lambda>s. \<not> ls_reachable s) (up_known p)"

definition new_peer :: "peer_owner \<Rightarrow> string \<Rightarrow> peer_rec" where
  "new_peer owner name = \<lparr>up_owner = owner, up_name = name, up_status = DECLARED, up_prev_status = None,
     up_registry_id = None, up_prev_registry = None, up_routed = [], up_prev_routed = None,
     up_instance = None, up_writer = None, up_ts_start = None, up_known = [], up_vpn = [], up_dirty = False\<rparr>"

section \<open>Configuring a peer\<close>

text \<open>\<open>ResetValue\<close> goes through the descriptor's \<open>init\<close>: it restores the default and records nothing.\<close>

datatype 'a upd = Keep | Set_to 'a | Reset

record peer_update =
  pu_status :: "peer_status option"
  pu_registry_id :: "string upd"
  pu_routed :: "lan list option"
  pu_known :: "(lan \<times> bool) list option"
  pu_vpn :: "(string \<times> bool) list option"
  pu_instance :: "int upd"
  pu_writer :: "int upd"
  pu_ts_start :: "int upd"

definition no_update :: peer_update where
  "no_update = \<lparr>pu_status = None, pu_registry_id = Keep, pu_routed = None, pu_known = None, pu_vpn = None,
     pu_instance = Keep, pu_writer = Keep, pu_ts_start = Keep\<rparr>"

definition set_status :: "peer_status \<Rightarrow> peer_rec \<Rightarrow> peer_rec" where
  "set_status v p = (if up_status p \<noteq> v
     then p\<lparr>up_status := v, up_prev_status := Some (up_status p), up_dirty := True\<rparr> else p)"

definition set_registry_id :: "string upd \<Rightarrow> peer_rec \<Rightarrow> peer_rec" where
  "set_registry_id u p = (case u of
     Keep \<Rightarrow> p
   | Reset \<Rightarrow> p\<lparr>up_registry_id := None\<rparr>
   | Set_to v \<Rightarrow> (if up_registry_id p \<noteq> Some v
       then p\<lparr>up_registry_id := Some v, up_prev_registry := Some (up_registry_id p), up_dirty := True\<rparr> else p))"

definition set_routed :: "lan list \<Rightarrow> peer_rec \<Rightarrow> peer_rec" where
  "set_routed v p = (if set (up_routed p) \<noteq> set v
     then p\<lparr>up_routed := v, up_prev_routed := Some (up_routed p), up_dirty := True\<rparr> else p)"

definition set_simple ::
  "'a upd \<Rightarrow> (peer_rec \<Rightarrow> 'a option) \<Rightarrow> ('a option \<Rightarrow> peer_rec \<Rightarrow> peer_rec) \<Rightarrow> peer_rec \<Rightarrow> peer_rec" where
  "set_simple u get put p = (case u of
     Keep \<Rightarrow> p
   | Reset \<Rightarrow> put None p
   | Set_to v \<Rightarrow> (if get p \<noteq> Some v then (put (Some v) p)\<lparr>up_dirty := True\<rparr> else p))"

text \<open>\<open>configure_known_networks\<close>: the networks that are not in the new dictionary are forgotten.\<close>

definition lan_configure :: "lan_status list \<Rightarrow> lan \<times> bool \<Rightarrow> lan_status \<times> bool" where
  "lan_configure known lr =
     (let (st, is_new) = (case find (\<lambda>s. ls_lan s = fst lr) known of
            Some s \<Rightarrow> (s, False)
          | None \<Rightarrow> (\<lparr>ls_lan = fst lr, ls_reachable = False, ls_prev = None\<rparr>, True)) in
      if ls_reachable st \<noteq> snd lr
      then (st\<lparr>ls_reachable := snd lr, ls_prev := Some (ls_reachable st)\<rparr>, True) else (st, is_new))"

definition configure_known :: "(lan \<times> bool) list \<Rightarrow> peer_rec \<Rightarrow> peer_rec" where
  "configure_known lans p =
     (let results = map (lan_configure (up_known p)) lans; configured = map fst results;
          gone = \<exists>s \<in> set (up_known p). ls_lan s \<notin> fst ` set lans in
      p\<lparr>up_known := configured, up_dirty := up_dirty p \<or> (\<exists>r \<in> set results. snd r) \<or> gone\<rparr>)"

definition vpn_configure :: "vpn_status list \<Rightarrow> string \<times> bool \<Rightarrow> vpn_status \<times> bool" where
  "vpn_configure statuses io =
     (let (st, is_new) = (case find (\<lambda>s. vi_intf s = fst io) statuses of
            Some s \<Rightarrow> (s, False)
          | None \<Rightarrow> (\<lparr>vi_intf = fst io, vi_online = False, vi_prev = None\<rparr>, True)) in
      if vi_online st \<noteq> snd io
      then (st\<lparr>vi_online := snd io, vi_prev := Some (vi_online st)\<rparr>, True) else (st, is_new))"

definition configure_vpn :: "(string \<times> bool) list \<Rightarrow> peer_rec \<Rightarrow> peer_rec" where
  "configure_vpn stats p =
     (let results = map (vpn_configure (up_vpn p)) stats; configured = map fst results;
          gone = \<exists>s \<in> set (up_vpn p). vi_intf s \<notin> fst ` set stats in
      p\<lparr>up_vpn := configured, up_dirty := up_dirty p \<or> (\<exists>r \<in> set results. snd r) \<or> gone\<rparr>)"

definition opt_apply :: "('a \<Rightarrow> peer_rec \<Rightarrow> peer_rec) \<Rightarrow> 'a option \<Rightarrow> peer_rec \<Rightarrow> peer_rec" where
  "opt_apply f v p = (case v of None \<Rightarrow> p | Some x \<Rightarrow> f x p)"

definition peer_configure :: "peer_update \<Rightarrow> peer_rec \<Rightarrow> peer_rec" where
  "peer_configure u p =
     set_simple (pu_ts_start u) up_ts_start (\<lambda>v p. p\<lparr>up_ts_start := v\<rparr>)
    (set_simple (pu_writer u) up_writer (\<lambda>v p. p\<lparr>up_writer := v\<rparr>)
    (set_simple (pu_instance u) up_instance (\<lambda>v p. p\<lparr>up_instance := v\<rparr>)
    (opt_apply configure_vpn (pu_vpn u)
    (opt_apply configure_known (pu_known u)
    (opt_apply set_routed (pu_routed u)
    (set_registry_id (pu_registry_id u)
    (opt_apply set_status (pu_status u) p)))))))"

text \<open>After \<open>db.save\<close> nothing is pending.\<close>

definition clear_changed :: "peer_rec \<Rightarrow> peer_rec" where
  "clear_changed p = p\<lparr>up_prev_status := None, up_prev_registry := None, up_prev_routed := None,
     up_known := map (\<lambda>s. s\<lparr>ls_prev := None\<rparr>) (up_known p),
     up_vpn := map (\<lambda>s. s\<lparr>vi_prev := None\<rparr>) (up_vpn p), up_dirty := False\<rparr>"

section \<open>The list\<close>

record peers_list =
  pl_peers :: "peer_rec list"
  pl_local :: nat
  pl_registry_id :: "string option"
  pl_cell_lans :: "ipv4_network list list"
  st_all_cells_connected :: bool
  st_consistent_config_uvn :: bool
  st_routed_networks_discovered :: bool
  st_fully_routed_uvn :: bool
  st_registry_connected :: bool

definition pl_cells :: "peers_list \<Rightarrow> peer_rec list" where
  "pl_cells pl = filter is_active_cell (pl_peers pl)"

definition pl_excluded_cells :: "peers_list \<Rightarrow> peer_rec list" where
  "pl_excluded_cells pl = filter (\<lambda>p. is_cell p \<and> \<not> is_active_cell p) (pl_peers pl)"

definition pl_particles :: "peers_list \<Rightarrow> peer_rec list" where
  "pl_particles pl = filter is_active_particle (pl_peers pl)"

definition pl_excluded_particles :: "peers_list \<Rightarrow> peer_rec list" where
  "pl_excluded_particles pl = filter (\<lambda>p. is_particle p \<and> \<not> is_active_particle p) (pl_peers pl)"

definition local_peer :: "peers_list \<Rightarrow> peer_rec" where
  "local_peer pl = pl_peers pl ! pl_local pl"

definition other_cells :: "peers_list \<Rightarrow> peer_rec list" where
  "other_cells pl = filter (\<lambda>p. up_owner p \<noteq> up_owner (local_peer pl)) (pl_cells pl)"

definition online_cells :: "peers_list \<Rightarrow> peer_rec list" where
  "online_cells pl = filter (\<lambda>p. up_status p = ONLINE) (pl_cells pl)"

definition offline_cells :: "peers_list \<Rightarrow> peer_rec list" where
  "offline_cells pl = filter (\<lambda>p. up_status p = OFFLINE) (pl_cells pl)"

definition unseen_cells :: "peers_list \<Rightarrow> peer_rec list" where
  "unseen_cells pl = filter (\<lambda>p. up_status p = DECLARED) (pl_cells pl)"

definition online_particles :: "peers_list \<Rightarrow> peer_rec list" where
  "online_particles pl = filter (\<lambda>p. up_status p = ONLINE) (pl_particles pl)"

definition offline_particles :: "peers_list \<Rightarrow> peer_rec list" where
  "offline_particles pl = filter (\<lambda>p. up_status p \<noteq> ONLINE) (pl_particles pl)"

definition consistent_config_cells :: "peers_list \<Rightarrow> peer_rec list" where
  "consistent_config_cells pl = filter (\<lambda>p. up_registry_id p = pl_registry_id pl) (pl_cells pl)"

definition inconsistent_config_cells :: "peers_list \<Rightarrow> peer_rec list" where
  "inconsistent_config_cells pl = filter (\<lambda>p. up_registry_id p \<noteq> pl_registry_id pl) (pl_cells pl)"

definition expected_subnets :: "peers_list \<Rightarrow> ipv4_network list" where
  "expected_subnets pl = remdups (concat (pl_cell_lans pl))"

definition fully_routed_cells :: "peers_list \<Rightarrow> peer_rec list" where
  "fully_routed_cells pl =
     (if expected_subnets pl = [] then []
      else filter (\<lambda>c. let c_reachable = remdups (map (lan_subnet \<circ> ls_lan) (reachable_networks c)) in
             \<not> (length c_reachable < length (expected_subnets pl)
                \<or> set (expected_subnets pl) \<inter> set c_reachable \<noteq> set (expected_subnets pl))) (pl_cells pl))"

text \<open>\<open>__getitem__\<close>\<close>

datatype peer_ref = ByInt int | ByName string | ByHandle int | ByUvn int | ByCell int | ByParticle int | ByNone

definition pl_lookup :: "int \<Rightarrow> peers_list \<Rightarrow> peer_ref \<Rightarrow> peer_rec res" where
  "pl_lookup uvn_ident pl i = (case i of
     ByInt n \<Rightarrow> (if n = 0 then nth_res (pl_peers pl) 0
       else the_or KeyError (find (\<lambda>p. \<exists>e. up_owner p = OwnerCell n e) (pl_peers pl)))
   | ByName s \<Rightarrow> the_or KeyError (find (\<lambda>p. up_name p = s) (pl_peers pl))
   | ByHandle h \<Rightarrow> the_or KeyError (find (\<lambda>p. up_instance p = Some h) (pl_peers pl))
   | ByUvn u \<Rightarrow> the_or KeyError (find (\<lambda>_. u = uvn_ident) (take 1 (pl_peers pl)))
   | ByCell c \<Rightarrow> the_or KeyError (find (\<lambda>p. \<exists>e. up_owner p = OwnerCell c e) (pl_peers pl))
   | ByParticle c \<Rightarrow> the_or KeyError (find (\<lambda>p. \<exists>e. up_owner p = OwnerParticle c e) (pl_peers pl))
   | ByNone \<Rightarrow> nth_res (pl_peers pl) 0)"

definition peers_init :: "uvn \<Rightarrow> string option \<Rightarrow> nat \<Rightarrow> peers_list" where
  "peers_init u config_id local_i =
     \<lparr>pl_peers = new_peer (OwnerUvn (uvn_id u)) (uvn_name u)
        # map (\<lambda>c. new_peer (OwnerCell (cell_id c) (cell_excluded c)) (cell_name c)) (uvn_cells u @ uvn_excluded_cells u)
        @ map (\<lambda>p. new_peer (OwnerParticle (particle_id p) (particle_excluded p)) (particle_name p))
            (uvn_particles u @ uvn_excluded_particles u),
      pl_local = local_i, pl_registry_id = config_id,
      pl_cell_lans = map cell_allowed_lans (uvn_cells u),
      st_all_cells_connected = False, st_consistent_config_uvn = False, st_routed_networks_discovered = False,
      st_fully_routed_uvn = False, st_registry_connected = False\<rparr>"

section \<open>Deriving status flags and events\<close>

datatype event =
    EvVpnConnections "(peer_owner \<times> string) list" "(peer_owner \<times> string) list"
  | EvOnlineCells "peer_owner list" "peer_owner list"
  | EvAllCellsConnected
  | EvOnlineParticles "peer_owner list" "peer_owner list"
  | EvRegistryConnected
  | EvRoutedNetworks "(peer_owner \<times> lan) list" "(peer_owner \<times> lan) list"
  | EvRoutedNetworksDiscovered
  | EvConsistentConfigCells "peer_owner list" "peer_owner list"
  | EvConsistentConfigUvn
  | EvLocalReachable "lan list" "lan list"
  | EvReachable "(peer_owner \<times> lan) list" "(peer_owner \<times> lan) list"
  | EvFullyRoutedUvn

type_synonym pl_state = "peers_list \<times> event list"

definition notify :: "event \<Rightarrow> pl_state \<Rightarrow> pl_state" where
  "notify e st = (if up_status (local_peer (fst st)) \<noteq> ONLINE then st else (fst st, snd st @ [e]))"

definition minus_list :: "'a list \<Rightarrow> 'a list \<Rightarrow> 'a list" where
  "minus_list xs ys = filter (\<lambda>x. x \<notin> set ys) xs"

definition proc_vpn :: "pl_state \<Rightarrow> pl_state" where
  "proc_vpn st =
     (let sel = (\<lambda>on. concat (map (\<lambda>p. map (\<lambda>s. (up_owner p, vi_intf s))
                   (filter (\<lambda>s. vi_prev s \<noteq> None \<and> vi_online s = on) (up_vpn p))) (pl_peers (fst st)))) in
      if sel True \<noteq> [] \<or> sel False \<noteq> [] then notify (EvVpnConnections (sel True) (sel False)) st else st)"

definition changed_to :: "(peer_rec \<Rightarrow> bool) \<Rightarrow> peer_status \<Rightarrow> peers_list \<Rightarrow> peer_owner list" where
  "changed_to kind v pl =
     map up_owner (filter (\<lambda>p. kind p \<and> up_prev_status p \<noteq> None \<and> up_status p = v) (pl_peers pl))"

text \<open>A flag is written, and its event sent, only when its value changes.\<close>

definition set_flag :: "(peers_list \<Rightarrow> bool) \<Rightarrow> (bool \<Rightarrow> peers_list \<Rightarrow> peers_list) \<Rightarrow> bool \<Rightarrow> event \<Rightarrow> pl_state \<Rightarrow> pl_state" where
  "set_flag get put v e st = (if v \<noteq> get (fst st) then notify e (put v (fst st), snd st) else st)"

definition proc_cells :: "pl_state \<Rightarrow> pl_state" where
  "proc_cells st =
     (let gone = changed_to is_cell OFFLINE (fst st); new = changed_to is_cell ONLINE (fst st) in
      if gone \<noteq> [] \<or> new \<noteq> []
      then set_flag st_all_cells_connected (\<lambda>v pl. pl\<lparr>st_all_cells_connected := v\<rparr>)
             (length (online_cells (fst st)) = length (pl_cell_lans (fst st))) EvAllCellsConnected
             (notify (EvOnlineCells new gone) st)
      else st)"

definition proc_particles :: "pl_state \<Rightarrow> pl_state" where
  "proc_particles st =
     (let gone = changed_to is_particle OFFLINE (fst st); new = changed_to is_particle ONLINE (fst st) in
      if gone \<noteq> [] \<or> new \<noteq> [] then notify (EvOnlineParticles new gone) st else st)"

definition proc_registry :: "pl_state \<Rightarrow> pl_state" where
  "proc_registry st =
     (if changed_to is_registry OFFLINE (fst st) \<noteq> []
      then notify EvRegistryConnected ((fst st)\<lparr>st_registry_connected := False\<rparr>, snd st)
      else if changed_to is_registry ONLINE (fst st) \<noteq> []
      then notify EvRegistryConnected ((fst st)\<lparr>st_registry_connected := True\<rparr>, snd st)
      else st)"

definition proc_routed :: "pl_state \<Rightarrow> pl_state" where
  "proc_routed st =
     (let changed = filter (\<lambda>p. \<not> is_registry p \<and> up_prev_routed p \<noteq> None) (pl_peers (fst st));
          prev = concat (map (\<lambda>p. map (Pair (up_owner p)) (the (up_prev_routed p))) changed);
          current = concat (map (\<lambda>p. map (Pair (up_owner p)) (up_routed p)) changed);
          gone = minus_list prev current; new = minus_list current prev in
      if gone \<noteq> [] \<or> new \<noteq> []
      then set_flag st_routed_networks_discovered (\<lambda>v pl. pl\<lparr>st_routed_networks_discovered := v\<rparr>)
             ((lan_subnet ` (\<Union>c \<in> set (pl_cells (fst st)). set (up_routed c))) = set (concat (pl_cell_lans (fst st))))
             EvRoutedNetworksDiscovered (notify (EvRoutedNetworks new gone) st)
      else st)"

definition proc_config :: "pl_state \<Rightarrow> pl_state" where
  "proc_config st =
     (let rid = pl_registry_id (fst st);
          changed = filter (\<lambda>p. \<not> is_registry p \<and> up_prev_registry p \<noteq> None) (pl_peers (fst st));
          prev = map up_owner (filter (\<lambda>p. up_prev_registry p = Some rid) changed);
          current = map up_owner (filter (\<lambda>p. up_registry_id p = rid) changed);
          gone = minus_list prev current; new = minus_list current prev in
      if gone \<noteq> [] \<or> new \<noteq> []
      then set_flag st_consistent_config_uvn (\<lambda>v pl. pl\<lparr>st_consistent_config_uvn := v\<rparr>)
             (length (consistent_config_cells (fst st)) = length (pl_cell_lans (fst st)))
             EvConsistentConfigUvn (notify (EvConsistentConfigCells new gone) st)
      else st)"

definition changed_reachable :: "(peer_rec \<Rightarrow> bool) \<Rightarrow> (lan_status \<Rightarrow> bool) \<Rightarrow> peers_list \<Rightarrow> (peer_owner \<times> lan) list" where
  "changed_reachable who sel pl = concat (map (\<lambda>p. map (\<lambda>s. (up_owner p, ls_lan s))
     (filter (\<lambda>s. ls_prev s \<noteq> None \<and> sel s) (up_known p))) (filter who (pl_peers pl)))"

definition is_local :: "peers_list \<Rightarrow> peer_rec \<Rightarrow> bool" where
  "is_local pl p \<longleftrightarrow> up_owner p = up_owner (local_peer pl)"

definition proc_local_reachable :: "pl_state \<Rightarrow> pl_state" where
  "proc_local_reachable st =
     (let pl = fst st; prev = map snd (changed_reachable (is_local pl) (\<lambda>s. ls_prev s = Some True) pl);
          current = map ls_lan (reachable_networks (local_peer pl)) in
      if changed_reachable (is_local pl) (\<lambda>_. True) pl \<noteq> []
      then notify (EvLocalReachable (minus_list current prev) (minus_list prev current)) st
      else st)"

definition proc_remote_reachable :: "pl_state \<Rightarrow> pl_state" where
  "proc_remote_reachable st =
     (let pl = fst st; remote = (\<lambda>p. \<not> is_local pl p);
          prev = changed_reachable remote (\<lambda>s. ls_prev s = Some True) pl;
          current = concat (map (\<lambda>p. map (\<lambda>s. (up_owner p, ls_lan s)) (reachable_networks p))
                       (filter remote (pl_peers pl)));
          gone = minus_list prev current; new = minus_list current prev in
      if changed_reachable remote (\<lambda>_. True) pl \<noteq> [] \<and> (gone \<noteq> [] \<or> new \<noteq> [])
      then notify (EvReachable new gone) st
      else st)"

definition proc_fully_routed :: "pl_state \<Rightarrow> pl_state" where
  "proc_fully_routed st =
     (if changed_reachable (\<lambda>_. True) (\<lambda>_. True) (fst st) \<noteq> []
      then set_flag st_fully_routed_uvn (\<lambda>v pl. pl\<lparr>st_fully_routed_uvn := v\<rparr>)
             (length (fully_routed_cells (fst st)) = length (pl_cell_lans (fst st))) EvFullyRoutedUvn st
      else st)"

definition process_updates :: "peers_list \<Rightarrow> pl_state" where
  "process_updates pl =
     (if \<not> (\<exists>p \<in> set (pl_peers pl). up_dirty p) then (pl, [])
      else (case proc_fully_routed (proc_remote_reachable (proc_local_reachable (proc_config (proc_routed
              (proc_registry (proc_particles (proc_cells (proc_vpn (pl, []))))))))) of
        (pl', evs) \<Rightarrow> (pl'\<lparr>pl_peers := map clear_changed (pl_peers pl')\<rparr>, evs)))"

definition update_all :: "(peer_rec \<Rightarrow> bool) \<Rightarrow> peer_update \<Rightarrow> peers_list \<Rightarrow> pl_state" where
  "update_all who u pl =
     process_updates (pl\<lparr>pl_peers := map (\<lambda>p. if who p then peer_configure u p else p) (pl_peers pl)\<rparr>)"

definition update_peer :: "peer_owner \<Rightarrow> peer_update \<Rightarrow> peers_list \<Rightarrow> pl_state" where
  "update_peer owner = update_all (\<lambda>p. up_owner p = owner)"

definition go_online :: "peer_update \<Rightarrow> peers_list \<Rightarrow> pl_state" where
  "go_online upd_fields pl = update_peer (up_owner (local_peer pl)) (upd_fields\<lparr>pu_status := Some ONLINE\<rparr>) pl"

definition offline_update :: peer_update where
  "offline_update = \<lparr>pu_status = Some OFFLINE, pu_registry_id = Reset, pu_routed = Some [], pu_known = Some [],
     pu_vpn = Some [], pu_instance = Reset, pu_writer = Reset, pu_ts_start = Reset\<rparr>"

definition go_offline :: "peers_list \<Rightarrow> pl_state" where
  "go_offline pl = (if up_status (local_peer pl) = OFFLINE then (pl, []) else update_all (\<lambda>_. True) offline_update pl)"

section \<open>What an update does to a peer\<close>

text \<open>A peer with nothing pending, as \<open>db.save\<close> leaves it.\<close>

definition clean_peer :: "peer_rec \<Rightarrow> bool" where
  "clean_peer p \<longleftrightarrow> up_prev_status p = None \<and> up_prev_registry p = None \<and> up_prev_routed p = None
     \<and> (\<forall>s \<in> set (up_known p). ls_prev s = None) \<and> (\<forall>s \<in> set (up_vpn p). vi_prev s = None) \<and> \<not> up_dirty p"

definition pl_clean :: "peers_list \<Rightarrow> bool" where
  "pl_clean pl \<longleftrightarrow> (\<forall>p \<in> set (pl_peers pl). clean_peer p)"

named_theorems peer_simps "the fields of a configured peer"

lemma set_status_simps [peer_simps]:
  "up_owner (set_status v p) = up_owner p" "up_status (set_status v p) = v"
  "up_prev_status (set_status v p) = (if up_status p = v then up_prev_status p else Some (up_status p))"
  "up_registry_id (set_status v p) = up_registry_id p" "up_prev_registry (set_status v p) = up_prev_registry p"
  "up_routed (set_status v p) = up_routed p" "up_prev_routed (set_status v p) = up_prev_routed p"
  "up_known (set_status v p) = up_known p"
  "up_dirty (set_status v p) \<longleftrightarrow> up_dirty p \<or> up_status p \<noteq> v"
  by (simp_all add: set_status_def)

lemma set_registry_simps [peer_simps]:
  "up_owner (set_registry_id u p) = up_owner p" "up_status (set_registry_id u p) = up_status p"
  "up_prev_status (set_registry_id u p) = up_prev_status p"
  "up_registry_id (set_registry_id u p) = (case u of Keep \<Rightarrow> up_registry_id p | Reset \<Rightarrow> None | Set_to v \<Rightarrow> Some v)"
  "up_prev_registry (set_registry_id u p) = (case u of Set_to v \<Rightarrow>
     if up_registry_id p = Some v then up_prev_registry p else Some (up_registry_id p) | _ \<Rightarrow> up_prev_registry p)"
  "up_routed (set_registry_id u p) = up_routed p" "up_prev_routed (set_registry_id u p) = up_prev_routed p"
  "up_known (set_registry_id u p) = up_known p"
  "up_dirty (set_registry_id u p) \<longleftrightarrow> up_dirty p \<or> (\<exists>v. u = Set_to v \<and> up_registry_id p \<noteq> Some v)"
  by (auto simp: set_registry_id_def split: upd.splits)

lemma set_routed_simps [peer_simps]:
  "up_owner (set_routed v p) = up_owner p" "up_status (set_routed v p) = up_status p"
  "up_prev_status (set_routed v p) = up_prev_status p"
  "up_registry_id (set_routed v p) = up_registry_id p" "up_prev_registry (set_routed v p) = up_prev_registry p"
  "set (up_routed (set_routed v p)) = set v"
  "up_prev_routed (set_routed v p) = (if set (up_routed p) = set v then up_prev_routed p else Some (up_routed p))"
  "up_known (set_routed v p) = up_known p"
  "up_dirty (set_routed v p) \<longleftrightarrow> up_dirty p \<or> set (up_routed p) \<noteq> set v"
  by (simp_all add: set_routed_def)

lemma configure_known_simps [peer_simps]:
  "up_owner (configure_known v p) = up_owner p" "up_status (configure_known v p) = up_status p"
  "up_prev_status (configure_known v p) = up_prev_status p"
  "up_registry_id (configure_known v p) = up_registry_id p" "up_prev_registry (configure_known v p) = up_prev_registry p"
  "up_routed (configure_known v p) = up_routed p" "up_prev_routed (configure_known v p) = up_prev_routed p"
  "up_dirty p \<Longrightarrow> up_dirty (configure_known v p)"
  by (simp_all add: configure_known_def Let_def)

lemma configure_vpn_simps [peer_simps]:
  "up_owner (configure_vpn v p) = up_owner p" "up_status (configure_vpn v p) = up_status p"
  "up_prev_status (configure_vpn v p) = up_prev_status p"
  "up_registry_id (configure_vpn v p) = up_registry_id p" "up_prev_registry (configure_vpn v p) = up_prev_registry p"
  "up_routed (configure_vpn v p) = up_routed p" "up_prev_routed (configure_vpn v p) = up_prev_routed p"
  "up_known (configure_vpn v p) = up_known p"
  "up_dirty p \<Longrightarrow> up_dirty (configure_vpn v p)"
  by (simp_all add: configure_vpn_def Let_def)

text \<open>The properties that are only stored keep all the others.\<close>

lemma set_simple_keeps:
  assumes "\<And>v p. g (put v p) = g p" and "\<And>b p. g (p\<lparr>up_dirty := b\<rparr>) = g p"
  shows "g (set_simple u get put p) = g p"
  using assms by (simp add: set_simple_def split: upd.split)

lemma set_simple_dirty: "(\<And>v p. up_dirty (put v p) = up_dirty p) \<Longrightarrow> up_dirty p \<Longrightarrow> up_dirty (set_simple u get put p)"
  by (simp add: set_simple_def split: upd.split)

lemma peer_configure_simps [peer_simps]:
  "up_owner (peer_configure u p) = up_owner p"
  "up_status (peer_configure u p) = (case pu_status u of None \<Rightarrow> up_status p | Some v \<Rightarrow> v)"
  "up_prev_status (peer_configure u p) = (case pu_status u of None \<Rightarrow> up_prev_status p
     | Some v \<Rightarrow> if up_status p = v then up_prev_status p else Some (up_status p))"
  "up_registry_id (peer_configure u p) =
     (case pu_registry_id u of Keep \<Rightarrow> up_registry_id p | Reset \<Rightarrow> None | Set_to v \<Rightarrow> Some v)"
  "up_prev_registry (peer_configure u p) = (case pu_registry_id u of Set_to v \<Rightarrow>
     if up_registry_id p = Some v then up_prev_registry p else Some (up_registry_id p) | _ \<Rightarrow> up_prev_registry p)"
  "set (up_routed (peer_configure u p)) = (case pu_routed u of None \<Rightarrow> set (up_routed p) | Some v \<Rightarrow> set v)"
  "up_prev_routed (peer_configure u p) = (case pu_routed u of None \<Rightarrow> up_prev_routed p
     | Some v \<Rightarrow> if set (up_routed p) = set v then up_prev_routed p else Some (up_routed p))"
  by (simp_all add: peer_configure_def opt_apply_def set_simple_keeps peer_simps split: option.splits upd.splits)

lemma opt_configure_dirty:
  "up_dirty p \<Longrightarrow> up_dirty (opt_apply configure_known v p)"
  "up_dirty p \<Longrightarrow> up_dirty (opt_apply configure_vpn w p)"
  by (simp_all add: opt_apply_def peer_simps split: option.split)

lemma opt_set_dirty:
  "up_dirty (opt_apply set_status w p) \<longleftrightarrow> up_dirty p \<or> (\<exists>v. w = Some v \<and> up_status p \<noteq> v)"
  "up_dirty (opt_apply set_routed r p) \<longleftrightarrow> up_dirty p \<or> (\<exists>v. r = Some v \<and> set (up_routed p) \<noteq> set v)"
  by (simp_all add: opt_apply_def peer_simps split: option.split)

lemma opt_set_status_keeps:
  "up_registry_id (opt_apply set_status w p) = up_registry_id p" "up_routed (opt_apply set_status w p) = up_routed p"
  by (simp_all add: opt_apply_def peer_simps split: option.split)

lemma peer_configure_dirty:
  "up_dirty p \<or> (\<exists>v. pu_status u = Some v \<and> up_status p \<noteq> v)
     \<or> (\<exists>v. pu_registry_id u = Set_to v \<and> up_registry_id p \<noteq> Some v)
     \<or> (\<exists>v. pu_routed u = Some v \<and> set (up_routed p) \<noteq> set v) \<Longrightarrow> up_dirty (peer_configure u p)"
  unfolding peer_configure_def
  by (intro set_simple_dirty opt_configure_dirty)
    (simp_all add: peer_simps opt_set_dirty opt_set_status_keeps disj_assoc)

lemma clear_changed_simps [peer_simps]:
  "up_owner (clear_changed p) = up_owner p" "up_status (clear_changed p) = up_status p"
  "up_registry_id (clear_changed p) = up_registry_id p" "up_routed (clear_changed p) = up_routed p"
  "clean_peer (clear_changed p)"
  by (auto simp: clear_changed_def clean_peer_def)

lemma kind_simps [peer_simps]:
  "is_registry (clear_changed p) = is_registry p" "is_cell (clear_changed p) = is_cell p"
  "is_active_cell (clear_changed p) = is_active_cell p" "is_particle (clear_changed p) = is_particle p"
  "is_registry (peer_configure u p) = is_registry p" "is_cell (peer_configure u p) = is_cell p"
  "is_active_cell (peer_configure u p) = is_active_cell p" "is_particle (peer_configure u p) = is_particle p"
  by (simp_all add: is_registry_def is_cell_def is_active_cell_def is_particle_def peer_simps)

section \<open>What processing the updates does\<close>

named_theorems proc_simps "the steps of the processing"

lemma fst_notify [proc_simps]: "fst (notify e st) = fst st"
  by (simp add: notify_def)

lemma snd_notify [proc_simps]:
  "snd (notify e st) = (if up_status (local_peer (fst st)) = ONLINE then snd st @ [e] else snd st)"
  by (simp add: notify_def)

lemma set_flag_simps [proc_simps]:
  "fst (set_flag get put v e st) = (if v \<noteq> get (fst st) then put v (fst st) else fst st)"
  "snd (set_flag get put v e st) = (if v \<noteq> get (fst st) then snd (notify e (put v (fst st), snd st)) else snd st)"
  by (simp_all add: set_flag_def fst_notify)

text \<open>The parts of the list that the steps read; they write the flags only.\<close>

definition same_core :: "peers_list \<Rightarrow> peers_list \<Rightarrow> bool" where
  "same_core a b \<longleftrightarrow> pl_peers a = pl_peers b \<and> pl_local a = pl_local b \<and> pl_registry_id a = pl_registry_id b
     \<and> pl_cell_lans a = pl_cell_lans b"

lemma same_core_refl [simp]: "same_core a a"
  by (simp add: same_core_def)

lemma same_core_eqs:
  assumes "same_core a b"
  shows "pl_peers a = pl_peers b" "pl_cell_lans a = pl_cell_lans b" "local_peer a = local_peer b"
    "changed_to k v a = changed_to k v b" "online_cells a = online_cells b" "pl_cells a = pl_cells b"
    "consistent_config_cells a = consistent_config_cells b" "fully_routed_cells a = fully_routed_cells b"
    "changed_reachable w sel a = changed_reachable w sel b" "pl_registry_id a = pl_registry_id b"
  using assms
  by (simp_all add: same_core_def local_peer_def changed_to_def online_cells_def pl_cells_def
      consistent_config_cells_def fully_routed_cells_def expected_subnets_def changed_reachable_def)

lemma proc_core:
  "same_core (fst (proc_vpn st)) (fst st)" "same_core (fst (proc_cells st)) (fst st)"
  "same_core (fst (proc_particles st)) (fst st)" "same_core (fst (proc_registry st)) (fst st)"
  "same_core (fst (proc_routed st)) (fst st)" "same_core (fst (proc_config st)) (fst st)"
  "same_core (fst (proc_local_reachable st)) (fst st)" "same_core (fst (proc_remote_reachable st)) (fst st)"
  "same_core (fst (proc_fully_routed st)) (fst st)"
  by (simp_all add: same_core_def proc_vpn_def proc_cells_def proc_particles_def proc_registry_def proc_routed_def
      proc_config_def proc_local_reachable_def proc_remote_reachable_def proc_fully_routed_def Let_def proc_simps)

text \<open>When the step of a flag recomputes it.\<close>

definition cells_changed :: "peers_list \<Rightarrow> bool" where
  "cells_changed pl \<longleftrightarrow> changed_to is_cell OFFLINE pl \<noteq> [] \<or> changed_to is_cell ONLINE pl \<noteq> []"

definition config_changed :: "peers_list \<Rightarrow> bool" where
  "config_changed pl \<longleftrightarrow> (let changed = filter (\<lambda>p. \<not> is_registry p \<and> up_prev_registry p \<noteq> None) (pl_peers pl);
       prev = map up_owner (filter (\<lambda>p. up_prev_registry p = Some (pl_registry_id pl)) changed);
       current = map up_owner (filter (\<lambda>p. up_registry_id p = pl_registry_id pl) changed)
     in \<not> set prev \<subseteq> set current \<or> \<not> set current \<subseteq> set prev)"

lemma minus_list_Nil: "minus_list xs ys = [] \<longleftrightarrow> set xs \<subseteq> set ys"
  by (auto simp: minus_list_def filter_empty_conv)

lemma flag_all_cells:
  "st_all_cells_connected (fst (proc_vpn st)) = st_all_cells_connected (fst st)"
  "st_all_cells_connected (fst (proc_cells st)) = (if cells_changed (fst st)
     then length (online_cells (fst st)) = length (pl_cell_lans (fst st)) else st_all_cells_connected (fst st))"
  "st_all_cells_connected (fst (proc_particles st)) = st_all_cells_connected (fst st)"
  "st_all_cells_connected (fst (proc_registry st)) = st_all_cells_connected (fst st)"
  "st_all_cells_connected (fst (proc_routed st)) = st_all_cells_connected (fst st)"
  "st_all_cells_connected (fst (proc_config st)) = st_all_cells_connected (fst st)"
  "st_all_cells_connected (fst (proc_local_reachable st)) = st_all_cells_connected (fst st)"
  "st_all_cells_connected (fst (proc_remote_reachable st)) = st_all_cells_connected (fst st)"
  "st_all_cells_connected (fst (proc_fully_routed st)) = st_all_cells_connected (fst st)"
  by (simp_all add: proc_vpn_def proc_cells_def proc_particles_def proc_registry_def proc_routed_def cells_changed_def
      proc_config_def proc_local_reachable_def proc_remote_reachable_def proc_fully_routed_def Let_def proc_simps)

lemma flag_config:
  "st_consistent_config_uvn (fst (proc_vpn st)) = st_consistent_config_uvn (fst st)"
  "st_consistent_config_uvn (fst (proc_cells st)) = st_consistent_config_uvn (fst st)"
  "st_consistent_config_uvn (fst (proc_particles st)) = st_consistent_config_uvn (fst st)"
  "st_consistent_config_uvn (fst (proc_registry st)) = st_consistent_config_uvn (fst st)"
  "st_consistent_config_uvn (fst (proc_routed st)) = st_consistent_config_uvn (fst st)"
  "st_consistent_config_uvn (fst (proc_config st)) = (if config_changed (fst st)
     then length (consistent_config_cells (fst st)) = length (pl_cell_lans (fst st)) else st_consistent_config_uvn (fst st))"
  "st_consistent_config_uvn (fst (proc_local_reachable st)) = st_consistent_config_uvn (fst st)"
  "st_consistent_config_uvn (fst (proc_remote_reachable st)) = st_consistent_config_uvn (fst st)"
  "st_consistent_config_uvn (fst (proc_fully_routed st)) = st_consistent_config_uvn (fst st)"
  by (simp_all add: proc_vpn_def proc_cells_def proc_particles_def proc_registry_def proc_routed_def config_changed_def
      proc_config_def proc_local_reachable_def proc_remote_reachable_def proc_fully_routed_def Let_def proc_simps
      minus_list_Nil)

lemma event_all_cells:
  "EvAllCellsConnected \<in> set (snd (proc_vpn st)) \<longleftrightarrow> EvAllCellsConnected \<in> set (snd st)"
  "EvAllCellsConnected \<in> set (snd (proc_cells st)) \<longleftrightarrow> EvAllCellsConnected \<in> set (snd st)
     \<or> st_all_cells_connected (fst (proc_cells st)) \<noteq> st_all_cells_connected (fst st) \<and> up_status (local_peer (fst st)) = ONLINE"
  "EvAllCellsConnected \<in> set (snd (proc_particles st)) \<longleftrightarrow> EvAllCellsConnected \<in> set (snd st)"
  "EvAllCellsConnected \<in> set (snd (proc_registry st)) \<longleftrightarrow> EvAllCellsConnected \<in> set (snd st)"
  "EvAllCellsConnected \<in> set (snd (proc_routed st)) \<longleftrightarrow> EvAllCellsConnected \<in> set (snd st)"
  "EvAllCellsConnected \<in> set (snd (proc_config st)) \<longleftrightarrow> EvAllCellsConnected \<in> set (snd st)"
  "EvAllCellsConnected \<in> set (snd (proc_local_reachable st)) \<longleftrightarrow> EvAllCellsConnected \<in> set (snd st)"
  "EvAllCellsConnected \<in> set (snd (proc_remote_reachable st)) \<longleftrightarrow> EvAllCellsConnected \<in> set (snd st)"
  "EvAllCellsConnected \<in> set (snd (proc_fully_routed st)) \<longleftrightarrow> EvAllCellsConnected \<in> set (snd st)"
  by (auto simp add: proc_vpn_def proc_cells_def proc_particles_def proc_registry_def proc_routed_def
      proc_config_def proc_local_reachable_def proc_remote_reachable_def proc_fully_routed_def Let_def proc_simps
      local_peer_def)

lemma proc_silent:
  assumes "up_status (local_peer (fst st)) \<noteq> ONLINE"
  shows "snd (proc_vpn st) = snd st" "snd (proc_cells st) = snd st" "snd (proc_particles st) = snd st"
    "snd (proc_registry st) = snd st" "snd (proc_routed st) = snd st" "snd (proc_config st) = snd st"
    "snd (proc_local_reachable st) = snd st" "snd (proc_remote_reachable st) = snd st"
    "snd (proc_fully_routed st) = snd st"
  using assms
  by (simp_all add: proc_vpn_def proc_cells_def proc_particles_def proc_registry_def proc_routed_def
      proc_config_def proc_local_reachable_def proc_remote_reachable_def proc_fully_routed_def Let_def proc_simps
      local_peer_def)

text \<open>The result of the nine steps, read from the list they started with.\<close>

lemma process_updates_core:
  assumes "\<exists>p \<in> set (pl_peers pl). up_dirty p"
  shows "pl_peers (fst (process_updates pl)) = map clear_changed (pl_peers pl)"
    and "pl_registry_id (fst (process_updates pl)) = pl_registry_id pl"
    and "pl_cell_lans (fst (process_updates pl)) = pl_cell_lans pl"
    and "pl_local (fst (process_updates pl)) = pl_local pl"
  using assms proc_core
  by (simp_all add: process_updates_def same_core_def case_prod_beta)

lemma process_updates_flags:
  assumes "\<exists>p \<in> set (pl_peers pl). up_dirty p"
  shows "st_all_cells_connected (fst (process_updates pl)) = (if cells_changed pl
      then length (online_cells pl) = length (pl_cell_lans pl) else st_all_cells_connected pl)"
    and "st_consistent_config_uvn (fst (process_updates pl)) = (if config_changed pl
      then length (consistent_config_cells pl) = length (pl_cell_lans pl) else st_consistent_config_uvn pl)"
proof -
  have c: "cells_changed (fst st) = cells_changed (fst st')" "config_changed (fst st) = config_changed (fst st')"
    if "same_core (fst st) (fst st')" for st st' :: pl_state
    using same_core_eqs [OF that] by (simp_all add: cells_changed_def config_changed_def)
  note core = proc_core [THEN same_core_eqs(5)] proc_core [THEN same_core_eqs(2)] proc_core [THEN same_core_eqs(7)]
    proc_core [THEN c(1)] proc_core [THEN c(2)]
  show "st_all_cells_connected (fst (process_updates pl)) = (if cells_changed pl
      then length (online_cells pl) = length (pl_cell_lans pl) else st_all_cells_connected pl)"
    using assms by (simp add: process_updates_def case_prod_beta flag_all_cells core)
  show "st_consistent_config_uvn (fst (process_updates pl)) = (if config_changed pl
      then length (consistent_config_cells pl) = length (pl_cell_lans pl) else st_consistent_config_uvn pl)"
    using assms by (simp add: process_updates_def case_prod_beta flag_config core)
qed

lemma process_updates_event:
  assumes "\<exists>p \<in> set (pl_peers pl). up_dirty p"
  shows "EvAllCellsConnected \<in> set (snd (process_updates pl)) \<longleftrightarrow>
    up_status (local_peer pl) = ONLINE \<and> st_all_cells_connected (fst (process_updates pl)) \<noteq> st_all_cells_connected pl"
  using assms
  by (auto simp add: process_updates_def case_prod_beta event_all_cells flag_all_cells
      proc_core [THEN same_core_eqs(3)])

lemma process_updates_silent:
  assumes "up_status (local_peer pl) \<noteq> ONLINE"
  shows "snd (process_updates pl) = []"
  using assms
  by (simp add: process_updates_def case_prod_beta proc_silent proc_core [THEN same_core_eqs(3)])

section \<open>Consecutive updates\<close>

text \<open>The flags say what they are derived from.\<close>

definition flags_ok :: "peers_list \<Rightarrow> bool" where
  "flags_ok pl \<longleftrightarrow>
     st_all_cells_connected pl = (length (online_cells pl) = length (pl_cell_lans pl))
     \<and> st_consistent_config_uvn pl = (length (consistent_config_cells pl) = length (pl_cell_lans pl))"

lemma online_cells_clear: "length (online_cells (pl\<lparr>pl_peers := map clear_changed ps\<rparr>))
    = length (online_cells (pl\<lparr>pl_peers := ps\<rparr>))"
  by (simp add: online_cells_def pl_cells_def filter_map comp_def peer_simps)

lemma consistent_cells_clear: "length (consistent_config_cells (pl\<lparr>pl_peers := map clear_changed ps\<rparr>))
    = length (consistent_config_cells (pl\<lparr>pl_peers := ps\<rparr>))"
  by (simp add: consistent_config_cells_def pl_cells_def filter_map comp_def peer_simps)

definition configure_all :: "(peer_rec \<Rightarrow> bool) \<Rightarrow> peer_update \<Rightarrow> peers_list \<Rightarrow> peers_list" where
  "configure_all who u pl = pl\<lparr>pl_peers := map (\<lambda>p. if who p then peer_configure u p else p) (pl_peers pl)\<rparr>"

lemma configure_all_fields [simp]:
  "pl_registry_id (configure_all who u pl) = pl_registry_id pl" "pl_cell_lans (configure_all who u pl) = pl_cell_lans pl"
  "pl_local (configure_all who u pl) = pl_local pl"
  "st_all_cells_connected (configure_all who u pl) = st_all_cells_connected pl"
  "st_consistent_config_uvn (configure_all who u pl) = st_consistent_config_uvn pl"
  by (simp_all add: configure_all_def)

lemma configured_clean:
  assumes "clean_peer p"
  shows "up_prev_status (peer_configure u p) \<noteq> None \<longleftrightarrow> up_status (peer_configure u p) \<noteq> up_status p"
    and "up_prev_registry (peer_configure u p) =
      (if (\<forall>v. pu_registry_id u = Set_to v \<longrightarrow> up_registry_id p = Some v) then None else Some (up_registry_id p))"
    and "up_status (peer_configure u p) \<noteq> up_status p \<Longrightarrow> up_dirty (peer_configure u p)"
    and "up_prev_registry (peer_configure u p) \<noteq> None \<Longrightarrow> up_dirty (peer_configure u p)"
  using assms peer_configure_dirty [of p u]
  by (auto simp: clean_peer_def peer_simps split: option.splits upd.splits if_splits)

text \<open>Each peer of the configured list and the peer it was.\<close>

lemma configured_peers:
  assumes "pl_clean pl" and "q \<in> set (pl_peers (configure_all who u pl))"
  obtains p where "p \<in> set (pl_peers pl)" "clean_peer p" "q = (if who p then peer_configure u p else p)"
  using assms by (auto simp: configure_all_def pl_clean_def)

lemma cells_changed_dirty:
  assumes "pl_clean pl" and "cells_changed (configure_all who u pl)"
  shows "\<exists>p \<in> set (pl_peers (configure_all who u pl)). up_dirty p"
proof -
  obtain q where q: "q \<in> set (pl_peers (configure_all who u pl))" "up_prev_status q \<noteq> None"
    using assms(2) by (auto simp: cells_changed_def changed_to_def filter_empty_conv)
  from configured_peers [OF assms(1) q(1)] obtain p where p: "clean_peer p" "q = (if who p then peer_configure u p else p)" .
  then have "up_dirty q" using q(2) configured_clean(1,3) [OF p(1), of u] by (auto simp: clean_peer_def split: if_splits)
  with q(1) show ?thesis by blast
qed

lemma config_changed_dirty:
  assumes "pl_clean pl" and "config_changed (configure_all who u pl)"
  shows "\<exists>p \<in> set (pl_peers (configure_all who u pl)). up_dirty p"
proof -
  obtain q where q: "q \<in> set (pl_peers (configure_all who u pl))" "up_prev_registry q \<noteq> None"
    using assms(2) by (auto simp: config_changed_def Let_def)
  from configured_peers [OF assms(1) q(1)] obtain p where p: "clean_peer p" "q = (if who p then peer_configure u p else p)" .
  then have "up_dirty q" using q(2) configured_clean(4) [OF p(1), of u] by (auto simp: clean_peer_def split: if_splits)
  with q(1) show ?thesis by blast
qed

text \<open>A cell that changed its status, without being DECLARED again, was reported.\<close>

lemma unchanged_online:
  assumes "pl_clean pl" and "pu_status u \<noteq> Some DECLARED" and nc: "\<not> cells_changed (configure_all who u pl)"
  shows "length (online_cells (configure_all who u pl)) = length (online_cells pl)"
proof -
  have same: "up_status (if who p then peer_configure u p else p) = up_status p"
    if p: "p \<in> set (pl_peers pl)" "is_active_cell p" for p
  proof (rule ccontr)
    assume d: "up_status (if who p then peer_configure u p else p) \<noteq> up_status p"
    then have w: "who p" and d': "up_status (peer_configure u p) \<noteq> up_status p" by (auto split: if_splits)
    let ?q = "peer_configure u p"
    have "clean_peer p" using assms(1) p(1) by (simp add: pl_clean_def)
    then have "up_prev_status ?q \<noteq> None" using configured_clean(1) d' by blast
    moreover have "up_status ?q = ONLINE \<or> up_status ?q = OFFLINE"
      using d' assms(2) by (cases "up_status ?q") (auto simp: peer_simps split: option.splits)
    moreover have "is_cell ?q"
      using p(2) by (simp add: is_active_cell_def is_cell_def peer_simps split: peer_owner.splits)
    moreover have "?q \<in> set (pl_peers (configure_all who u pl))"
      using p(1) w by (auto simp: configure_all_def)
    ultimately show False using nc by (auto simp: cells_changed_def changed_to_def filter_empty_conv)
  qed
  have "filter (\<lambda>p. is_active_cell p \<and> up_status (if who p then peer_configure u p else p) = ONLINE) (pl_peers pl)
      = filter (\<lambda>p. is_active_cell p \<and> up_status p = ONLINE) (pl_peers pl)"
    by (intro filter_cong) (simp_all add: same cong: conj_cong)
  moreover have "is_active_cell (if who p then peer_configure u p else p) = is_active_cell p" for p
    by (simp add: peer_simps)
  ultimately show ?thesis
    by (simp add: online_cells_def pl_cells_def configure_all_def filter_map comp_def)
qed

text \<open>A cell whose configuration id changed, without being reset, was compared.\<close>

lemma unchanged_config:
  assumes "pl_clean pl" and "pu_registry_id u \<noteq> Reset" and nc: "\<not> config_changed (configure_all who u pl)"
    and d: "distinct (map up_owner (pl_peers pl))"
  shows "length (consistent_config_cells (configure_all who u pl)) = length (consistent_config_cells pl)"
proof -
  let ?rid = "pl_registry_id pl" and ?f = "\<lambda>p. if who p then peer_configure u p else p"
  let ?ch = "filter (\<lambda>p. \<not> is_registry p \<and> up_prev_registry p \<noteq> None) (map ?f (pl_peers pl))"
  have nc': "up_owner ` {q \<in> set ?ch. up_prev_registry q = Some ?rid} = up_owner ` {q \<in> set ?ch. up_registry_id q = ?rid}"
    using nc by (auto simp: config_changed_def Let_def configure_all_def)
  have owners: "distinct (map up_owner (map ?f (pl_peers pl)))"
    using d by (simp add: comp_def peer_simps if_distrib cong: if_cong)
  have iff: "up_prev_registry q = Some ?rid \<longleftrightarrow> up_registry_id q = ?rid" if q: "q \<in> set ?ch" for q
  proof -
    have inj: "x = y" if "x \<in> set ?ch" "y \<in> set ?ch" "up_owner x = up_owner y" for x y
    proof -
      have "x \<in> set (map ?f (pl_peers pl))" "y \<in> set (map ?f (pl_peers pl))" using that by simp_all
      then show ?thesis using owners that(3) unfolding distinct_map inj_on_def by blast
    qed
    have "up_owner q \<in> up_owner ` {q \<in> set ?ch. up_prev_registry q = Some ?rid}
        \<longleftrightarrow> up_owner q \<in> up_owner ` {q \<in> set ?ch. up_registry_id q = ?rid}" by (simp only: nc')
    moreover have "up_owner q \<in> up_owner ` {q \<in> set ?ch. P q} \<longleftrightarrow> P q" for P
      using inj q by blast
    ultimately show ?thesis by simp
  qed
  have same: "up_registry_id (?f p) = ?rid \<longleftrightarrow> up_registry_id p = ?rid"
    if p: "p \<in> set (pl_peers pl)" "is_active_cell p" for p
  proof (cases "up_prev_registry (?f p) = None")
    case True
    have "clean_peer p" using assms(1) p(1) by (simp add: pl_clean_def)
    then have "up_registry_id (?f p) = up_registry_id p"
      using True assms(2) configured_clean(2) [of p u]
      by (cases "pu_registry_id u") (auto simp: peer_simps split: if_splits)
    then show ?thesis by simp
  next
    case False
    have "clean_peer p" using assms(1) p(1) by (simp add: pl_clean_def)
    then have prev: "up_prev_registry (?f p) = Some (up_registry_id p)"
      using False configured_clean(2) [of p u] by (auto simp: clean_peer_def split: if_splits)
    have "\<not> is_registry (?f p)"
      using p(2) by (simp add: peer_simps is_active_cell_def is_registry_def split: peer_owner.splits)
    then have "?f p \<in> set ?ch" using p(1) False by auto
    with iff [of "?f p"] prev show ?thesis by simp
  qed
  have "filter (\<lambda>p. is_active_cell p \<and> up_registry_id (?f p) = ?rid) (pl_peers pl)
      = filter (\<lambda>p. is_active_cell p \<and> up_registry_id p = ?rid) (pl_peers pl)"
    by (intro filter_cong) (simp_all add: same cong: conj_cong)
  moreover have "is_active_cell (?f p) = is_active_cell p" for p
    by (simp add: peer_simps)
  ultimately show ?thesis
    by (simp add: consistent_config_cells_def pl_cells_def configure_all_def filter_map comp_def)
qed

text \<open>An update keeps the flags and leaves nothing pending.\<close>

lemma update_all_alt: "update_all who u pl = process_updates (configure_all who u pl)"
  by (simp add: update_all_def configure_all_def)

text \<open>A step of \<open>configure\<close> that leaves the peer not dirty leaves nothing pending.\<close>

definition stage_ok :: "(peer_rec \<Rightarrow> peer_rec) \<Rightarrow> bool" where
  "stage_ok f \<longleftrightarrow> (\<forall>q. (clean_peer q \<and> \<not> up_dirty (f q) \<longrightarrow> clean_peer (f q)) \<and> (up_dirty q \<longrightarrow> up_dirty (f q)))"

lemma stage_comp: "stage_ok g \<Longrightarrow> stage_ok f \<Longrightarrow> stage_ok (g \<circ> f)"
  unfolding stage_ok_def comp_def by blast

lemma stage_opt: "(\<And>v. stage_ok (f v)) \<Longrightarrow> stage_ok (opt_apply f w)"
  by (cases w) (simp_all add: opt_apply_def stage_ok_def)

lemma stage_simple:
  assumes "\<And>v p. clean_peer (put v p) = clean_peer p" and "\<And>v p. up_dirty (put v p) = up_dirty p"
  shows "stage_ok (set_simple u get put)"
  using assms by (simp add: stage_ok_def set_simple_def split: upd.split)

lemma find_in_set: "find P xs = Some x \<Longrightarrow> x \<in> set xs \<and> P x"
  by (induction xs) (auto split: if_splits)

lemma lan_configure_same: "\<not> snd (lan_configure known lr) \<Longrightarrow> fst (lan_configure known lr) \<in> set known"
  by (cases "find (\<lambda>s. ls_lan s = fst lr) known") (auto simp: lan_configure_def Let_def dest: find_in_set split: if_splits)

lemma vpn_configure_same: "\<not> snd (vpn_configure known lr) \<Longrightarrow> fst (vpn_configure known lr) \<in> set known"
  by (cases "find (\<lambda>s. vi_intf s = fst lr) known") (auto simp: vpn_configure_def Let_def dest: find_in_set split: if_splits)

lemma known_subset: "\<not> up_dirty (configure_known v p) \<Longrightarrow> set (up_known (configure_known v p)) \<subseteq> set (up_known p)"
  by (auto simp: configure_known_def Let_def intro!: lan_configure_same)

lemma vpn_subset: "\<not> up_dirty (configure_vpn v p) \<Longrightarrow> set (up_vpn (configure_vpn v p)) \<subseteq> set (up_vpn p)"
  by (auto simp: configure_vpn_def Let_def intro!: vpn_configure_same)

lemma stages:
  "stage_ok (set_status v)" "stage_ok (set_registry_id w)" "stage_ok (set_routed r)"
  "stage_ok (configure_known k)" "stage_ok (configure_vpn x)"
proof -
  show "stage_ok (set_status v)" "stage_ok (set_registry_id w)" "stage_ok (set_routed r)"
    by (auto simp: stage_ok_def set_status_def set_registry_id_def set_routed_def clean_peer_def split: upd.splits)
  show "stage_ok (configure_known k)"
    using known_subset [of k] by (auto simp: stage_ok_def clean_peer_def peer_simps) (auto simp: configure_known_def Let_def)
  show "stage_ok (configure_vpn x)"
    using vpn_subset [of x] by (auto simp: stage_ok_def clean_peer_def peer_simps)
qed

lemma stage_configure: "stage_ok (peer_configure u)"
proof -
  have "peer_configure u =
     set_simple (pu_ts_start u) up_ts_start (\<lambda>v p. p\<lparr>up_ts_start := v\<rparr>)
     \<circ> (set_simple (pu_writer u) up_writer (\<lambda>v p. p\<lparr>up_writer := v\<rparr>)
     \<circ> (set_simple (pu_instance u) up_instance (\<lambda>v p. p\<lparr>up_instance := v\<rparr>)
     \<circ> (opt_apply configure_vpn (pu_vpn u) \<circ> (opt_apply configure_known (pu_known u)
     \<circ> (opt_apply set_routed (pu_routed u) \<circ> (set_registry_id (pu_registry_id u)
     \<circ> opt_apply set_status (pu_status u)))))))"
    by (simp add: fun_eq_iff peer_configure_def)
  moreover have "stage_ok (set_simple (pu_ts_start u) up_ts_start (\<lambda>v p. p\<lparr>up_ts_start := v\<rparr>))"
    "stage_ok (set_simple (pu_writer u) up_writer (\<lambda>v p. p\<lparr>up_writer := v\<rparr>))"
    "stage_ok (set_simple (pu_instance u) up_instance (\<lambda>v p. p\<lparr>up_instance := v\<rparr>))"
    by (rule stage_simple; simp add: clean_peer_def)+
  ultimately show ?thesis
    by (simp only:) (intro stage_comp stage_opt stages; assumption)
qed

lemma update_all_clean: "pl_clean pl \<Longrightarrow> pl_clean (fst (update_all who u pl))"
proof (cases "\<exists>p \<in> set (pl_peers (configure_all who u pl)). up_dirty p")
  case True
  then show ?thesis
    by (auto simp: update_all_alt pl_clean_def process_updates_core(1) peer_simps)
next
  case False
  assume "pl_clean pl"
  have "clean_peer q" if q: "q \<in> set (pl_peers (configure_all who u pl))" for q
  proof -
    obtain p where p: "clean_peer p" "q = (if who p then peer_configure u p else p)"
      using configured_peers [OF \<open>pl_clean pl\<close> q] .
    moreover have "\<not> up_dirty q" using False q by blast
    ultimately show ?thesis using stage_configure [of u] by (cases "who p") (simp_all add: stage_ok_def)
  qed
  then have "pl_clean (configure_all who u pl)" by (simp add: pl_clean_def)
  then show ?thesis using False by (simp add: update_all_alt process_updates_def)
qed

lemma flags_step:
  assumes c: "pl_clean pl" and f: "flags_ok pl" and d: "distinct (map up_owner (pl_peers pl))"
    and u: "pu_status u \<noteq> Some DECLARED" "pu_registry_id u \<noteq> Reset"
  shows "flags_ok (fst (update_all who u pl))"
proof -
  let ?c = "configure_all who u pl"
  have base: "st_all_cells_connected pl = (length (online_cells pl) = length (pl_cell_lans pl))"
    "st_consistent_config_uvn pl = (length (consistent_config_cells pl) = length (pl_cell_lans pl))"
    using f by (simp_all add: flags_ok_def)
  show ?thesis
  proof (cases "\<exists>p \<in> set (pl_peers ?c). up_dirty p")
    case True
    let ?r = "fst (process_updates ?c)"
    have cells: "length (online_cells ?r) = length (online_cells ?c)"
      "length (consistent_config_cells ?r) = length (consistent_config_cells ?c)"
      using process_updates_core(1,2) [OF True]
      by (simp_all add: online_cells_def consistent_config_cells_def pl_cells_def filter_map comp_def peer_simps)
    show ?thesis
      unfolding flags_ok_def update_all_alt process_updates_core(3) [OF True] process_updates_flags [OF True] cells
      using base unchanged_online [OF c u(1), of who] unchanged_config [OF c u(2) _ d, of who] by simp
  next
    case False
    then have nc: "\<not> cells_changed ?c" "\<not> config_changed ?c"
      using cells_changed_dirty [OF c] config_changed_dirty [OF c] by blast+
    have "fst (process_updates ?c) = ?c" using False by (simp add: process_updates_def)
    then show ?thesis
      unfolding flags_ok_def update_all_alt
      using base unchanged_online [OF c u(1) nc(1)] unchanged_config [OF c u(2) nc(2) d] by simp
  qed
qed

lemma update_all_owners: "map up_owner (pl_peers (fst (update_all who u pl))) = map up_owner (pl_peers pl)"
proof (cases "\<exists>p \<in> set (pl_peers (configure_all who u pl)). up_dirty p")
  case True
  then show ?thesis
    by (simp add: update_all_alt process_updates_core(1) peer_simps) (simp add: configure_all_def peer_simps)
next
  case False
  then show ?thesis by (simp add: update_all_alt process_updates_def) (simp add: configure_all_def peer_simps)
qed

text \<open>A sequence of updates, as the agent's handlers issue them.\<close>

fun run_updates :: "((peer_rec \<Rightarrow> bool) \<times> peer_update) list \<Rightarrow> peers_list \<Rightarrow> pl_state" where
  "run_updates [] pl = (pl, [])"
| "run_updates ((who, u) # us) pl =
     (let (pl1, e1) = update_all who u pl; (pl2, e2) = run_updates us pl1 in (pl2, e1 @ e2))"

lemma run_updates_inv:
  assumes "pl_clean pl" and "flags_ok pl" and "distinct (map up_owner (pl_peers pl))"
    and "\<forall>(who, u) \<in> set us. pu_status u \<noteq> Some DECLARED \<and> pu_registry_id u \<noteq> Reset"
  shows "flags_ok (fst (run_updates us pl)) \<and> pl_clean (fst (run_updates us pl))"
  using assms
proof (induction us arbitrary: pl)
  case (Cons x us)
  obtain who u where x: "x = (who, u)" by (cases x)
  let ?pl1 = "fst (update_all who u pl)"
  have "pl_clean ?pl1" "flags_ok ?pl1" "distinct (map up_owner (pl_peers ?pl1))"
    using Cons.prems update_all_clean flags_step x by (simp_all add: update_all_owners)
  from Cons.IH [OF this] Cons.prems(4) show ?case by (simp add: x case_prod_beta Let_def)
qed simp

lemma peers_init_clean: "pl_clean (peers_init u cfg i)"
  by (auto simp: pl_clean_def peers_init_def clean_peer_def new_peer_def)

lemma peers_init_flags:
  assumes "uvn_cells u \<noteq> []" and "cfg \<noteq> None"
  shows "flags_ok (peers_init u cfg i)"
  using assms
  by (cases cfg) (simp_all add: flags_ok_def peers_init_def online_cells_def consistent_config_cells_def pl_cells_def
      new_peer_def is_active_cell_def filter_map comp_def)

text \<open>Going offline resets the configuration ids without telling the flag.\<close>

lemma go_offline_config:
  assumes c: "pl_clean pl"
  shows "st_consistent_config_uvn (fst (go_offline pl)) = st_consistent_config_uvn pl"
proof -
  have prev: "up_prev_registry q = None" if q: "q \<in> set (pl_peers (configure_all (\<lambda>_. True) offline_update pl))" for q
  proof -
    obtain p where "clean_peer p" "q = (if True then peer_configure offline_update p else p)"
      using configured_peers [OF c q] by metis
    then show ?thesis by (simp add: configured_clean(2) offline_update_def)
  qed
  have "filter (\<lambda>p. \<not> is_registry p \<and> up_prev_registry p \<noteq> None)
      (pl_peers (configure_all (\<lambda>_. True) offline_update pl)) = []"
    using prev by (simp add: filter_empty_conv)
  then have nc: "\<not> config_changed (configure_all (\<lambda>_. True) offline_update pl)"
    unfolding config_changed_def Let_def by simp
  show ?thesis
  proof (cases "\<exists>p \<in> set (pl_peers (configure_all (\<lambda>_. True) offline_update pl)). up_dirty p")
    case True
    then show ?thesis using process_updates_flags(2) [OF True] nc by (simp add: go_offline_def update_all_alt)
  next
    case False
    then show ?thesis by (simp add: go_offline_def update_all_alt process_updates_def)
  qed
qed

lemma go_offline_peers:
  assumes "up_status (local_peer pl) \<noteq> OFFLINE" and "pl_local pl < length (pl_peers pl)"
  shows "pl_peers (fst (go_offline pl)) = map (\<lambda>p. clear_changed (peer_configure offline_update p)) (pl_peers pl)"
proof -
  let ?c = "configure_all (\<lambda>_. True) offline_update pl"
  have "up_dirty (peer_configure offline_update (local_peer pl))"
    using assms(1) by (intro peer_configure_dirty) (simp add: offline_update_def)
  moreover have "peer_configure offline_update (local_peer pl) \<in> set (pl_peers ?c)"
    using assms(2) by (auto simp: configure_all_def local_peer_def)
  ultimately have "\<exists>p \<in> set (pl_peers ?c). up_dirty p" by blast
  from process_updates_core(1) [OF this] show ?thesis
    using assms(1) by (simp add: go_offline_def update_all_alt) (simp add: configure_all_def)
qed

section \<open>Properties\<close>


definition demo_cell :: "int \<Rightarrow> cell" where
  "demo_cell i = \<lparr>cell_id = i, cell_name = ''c'' @ show_int i, cell_address = Some ''host'', cell_excluded = False,
     cell_allowed_lans = [\<lparr>network_address = nat i, prefixlen = 32\<rparr>], cell_enable_particles_vpn = False, cell_owner = None\<rparr>"

definition demo_uvn :: uvn where
  "demo_uvn = \<lparr>uvn_id = 1, uvn_name = ''u'', uvn_address = Some ''reg'', uvn_settings = default_uvn_settings,
     uvn_all_cells = [demo_cell 1, demo_cell 2], uvn_all_particles = [], uvn_owner = None\<rparr>"

definition demo_online :: "(peer_rec \<Rightarrow> bool) \<times> peer_update" where
  "demo_online = (is_cell, no_update\<lparr>pu_status := Some ONLINE, pu_registry_id := Set_to ''cfg''\<rparr>)"

lemmas demo_defs = demo_cell_def demo_uvn_def demo_online_def peers_init_def uvn_cells_def uvn_excluded_cells_def
  uvn_particles_def uvn_excluded_particles_def new_peer_def no_update_def


text \<open>After the list goes offline every peer is OFFLINE without a configuration id, so no cell is
  consistent with the registry's id any more; but the flag that says that the whole UVN is consistent keeps the
  value it had, because resetting a property does not record that it changed.\<close>

theorem offline_leaves_config_flag:
  assumes "pl_clean pl" and "up_status (local_peer pl) \<noteq> OFFLINE" and "pl_local pl < length (pl_peers pl)"
    and "pl_registry_id pl \<noteq> None"
  shows "(\<forall>p \<in> set (pl_peers (fst (go_offline pl))). up_status p = OFFLINE \<and> up_registry_id p = None)
    \<and> consistent_config_cells ((fst (go_offline pl))\<lparr>pl_registry_id := pl_registry_id pl\<rparr>) = []
    \<and> st_consistent_config_uvn (fst (go_offline pl)) = st_consistent_config_uvn pl"
  using go_offline_peers [OF assms(2,3)] go_offline_config [OF assms(1)] assms(4)
  by (auto simp: peer_simps offline_update_def consistent_config_cells_def pl_cells_def filter_empty_conv)

definition demo_start :: peers_list where
  "demo_start = \<lparr>pl_peers = [new_peer (OwnerUvn 1) ''u'', new_peer (OwnerCell 1 False) ''a'', new_peer (OwnerCell 2 False) ''b''],
     pl_local = 1, pl_registry_id = Some ''cfg'', pl_cell_lans = [[], []], st_all_cells_connected = False,
     st_consistent_config_uvn = False, st_routed_networks_discovered = False, st_fully_routed_uvn = False,
     st_registry_connected = False\<rparr>"

definition demo_list :: peers_list where
  "demo_list = fst (run_updates [demo_online] demo_start)"

lemma demo_start_clean: "pl_clean demo_start"
  by (simp add: pl_clean_def demo_start_def clean_peer_def new_peer_def)

theorem offline_leaves_config_flag_witness:
  "st_consistent_config_uvn demo_list \<and> st_consistent_config_uvn (fst (go_offline demo_list))
   \<and> consistent_config_cells ((fst (go_offline demo_list))\<lparr>pl_registry_id := pl_registry_id demo_list\<rparr>) = []"
proof -
  have "st_consistent_config_uvn demo_list" "up_status (local_peer demo_list) \<noteq> OFFLINE"
    "pl_local demo_list < length (pl_peers demo_list)" "pl_registry_id demo_list \<noteq> None"
    by code_simp+
  moreover have "pl_clean demo_list"
    unfolding demo_list_def run_updates.simps by (simp add: Let_def case_prod_beta update_all_clean demo_start_clean demo_online_def)
  ultimately show ?thesis using offline_leaves_config_flag [of demo_list] by simp
qed

lemma update_all_local:
  assumes "pl_local pl < length (pl_peers pl)"
  shows "up_status (local_peer (fst (update_all who u pl))) = up_status (local_peer (configure_all who u pl))"
proof (cases "\<exists>p \<in> set (pl_peers (configure_all who u pl)). up_dirty p")
  case True
  have "length (pl_peers (configure_all who u pl)) = length (pl_peers pl)" by (simp add: configure_all_def)
  then show ?thesis
    using assms process_updates_core(1,4) [OF True] by (simp add: update_all_alt local_peer_def peer_simps)
qed (simp add: update_all_alt process_updates_def)

text \<open>The listeners hear that the cells became connected or stopped being so exactly when the flag flips in
  the update, provided the local peer is ONLINE after it; and while the local peer is not ONLINE no listener hears
  anything.\<close>

theorem all_connected_notified:
  assumes "pl_local pl < length (pl_peers pl)"
  shows "(EvAllCellsConnected \<in> set (snd (update_all who u pl)) \<longleftrightarrow>
      up_status (local_peer (fst (update_all who u pl))) = ONLINE
      \<and> st_all_cells_connected (fst (update_all who u pl)) \<noteq> st_all_cells_connected pl)
    \<and> (up_status (local_peer (fst (update_all who u pl))) \<noteq> ONLINE \<longrightarrow> snd (update_all who u pl) = [])"
proof (cases "\<exists>p \<in> set (pl_peers (configure_all who u pl)). up_dirty p")
  case True
  show ?thesis
    unfolding update_all_local [OF assms] unfolding update_all_alt
    using process_updates_event [OF True] process_updates_silent [of "configure_all who u pl"] by simp
qed (simp add: update_all_alt process_updates_def)

theorem all_connected_notified_witness:
  "EvAllCellsConnected \<in> set (snd (update_all is_cell (no_update\<lparr>pu_status := Some ONLINE\<rparr>) demo_start))"
proof -
  let ?pl = demo_start and ?u = "no_update\<lparr>pu_status := Some ONLINE\<rparr>"
  have l: "pl_local ?pl < length (pl_peers ?pl)" by code_simp
  have "up_status (local_peer (fst (update_all is_cell ?u ?pl))) = ONLINE" by code_simp
  moreover have "st_all_cells_connected (fst (update_all is_cell ?u ?pl)) \<noteq> st_all_cells_connected ?pl" by code_simp
  ultimately show ?thesis using all_connected_notified [OF l] by simp
qed

end
