(* ===== verification/Agent.thy ===== *)
theory Agent
  imports Peers_List
begin

text \<open>
  The agent's event handlers (\<open>uno/agent/agent.py\<close>): what it does with the data and the status changes that
  the middleware reports, with the statistics of its VPN interfaces, and with the events of its table of
  peers; its spin loop and the loop's exit conditions. What the handlers ask of other services is recorded.
\<close>

section \<open>State\<close>

datatype agent_call = RequestUiUpdate | TriggerTester | WriteKnownNetworks | WriteReachableNetworks
  | PublishCellInfo | PublishAgentConfigs | LogDeployment

record agent =
  ag_uvn :: uvn
  ag_is_cell :: bool
  ag_config_id :: string
  ag_rekeyed :: bool
  ag_peers :: peers_list
  ag_backbone_plot_dirty :: bool
  ag_status_plot_dirty :: bool
  ag_reload :: "string option"
  ag_vpn_stats_ts :: nat
  ag_calls :: "agent_call list"

definition ag_call :: "agent_call \<Rightarrow> agent \<Rightarrow> agent" where
  "ag_call c ag = ag\<lparr>ag_calls := ag_calls ag @ [c]\<rparr>"

text \<open>\<open>cell_method\<close> and \<open>registry_method\<close>: no effect for the other kind of agent.\<close>

definition cell_method :: "agent_call \<Rightarrow> agent \<Rightarrow> agent" where
  "cell_method c ag = (if ag_is_cell ag then ag_call c ag else ag)"

definition registry_method :: "agent_call \<Rightarrow> agent \<Rightarrow> agent" where
  "registry_method c ag = (if \<not> ag_is_cell ag then ag_call c ag else ag)"

section \<open>Events of the table of peers\<close>

definition status_dirty :: "agent \<Rightarrow> agent" where
  "status_dirty ag = ag\<lparr>ag_status_plot_dirty := True\<rparr>"

fun handle_event :: "event \<Rightarrow> agent \<Rightarrow> agent" where
  "handle_event (EvOnlineCells new gone) ag = ag_call TriggerTester (ag_call RequestUiUpdate (status_dirty ag))"
| "handle_event (EvOnlineParticles new gone) ag = ag_call RequestUiUpdate (status_dirty ag)"
| "handle_event EvAllCellsConnected ag =
     ag_call RequestUiUpdate
       ((if ag_rekeyed ag \<and> st_all_cells_connected (ag_peers ag) then registry_method PublishAgentConfigs else (\<lambda>a. a))
          (ag\<lparr>ag_backbone_plot_dirty := True\<rparr>))"
| "handle_event EvRegistryConnected ag = ag_call RequestUiUpdate (status_dirty ag)"
| "handle_event (EvRoutedNetworks new gone) ag =
     ag_call TriggerTester (ag_call RequestUiUpdate (status_dirty (cell_method WriteKnownNetworks ag)))"
| "handle_event EvRoutedNetworksDiscovered ag = ag_call RequestUiUpdate ag"
| "handle_event (EvConsistentConfigCells new gone) ag = ag_call RequestUiUpdate ag"
| "handle_event EvConsistentConfigUvn ag =
     ag_call RequestUiUpdate (if st_consistent_config_uvn (ag_peers ag) then ag_call LogDeployment ag else ag)"
| "handle_event (EvLocalReachable new gone) ag =
     ag_call RequestUiUpdate (status_dirty (cell_method PublishCellInfo (cell_method WriteReachableNetworks ag)))"
| "handle_event (EvReachable new gone) ag = ag_call TriggerTester (ag_call RequestUiUpdate (status_dirty ag))"
| "handle_event EvFullyRoutedUvn ag = ag_call RequestUiUpdate ag"
| "handle_event (EvVpnConnections new gone) ag = ag_call RequestUiUpdate ag"

definition on_event_local_routes :: "agent \<Rightarrow> agent" where
  "on_event_local_routes ag = ag_call RequestUiUpdate (ag_call TriggerTester ag)"

text \<open>An update of the table, with its listeners. A flag that an event reads is not written again by the
  same update, so the handlers see its final value.\<close>

definition with_peers :: "(peers_list \<Rightarrow> pl_state) \<Rightarrow> agent \<Rightarrow> agent" where
  "with_peers f ag = (case f (ag_peers ag) of (pl, evs) \<Rightarrow> foldl (\<lambda>a e. handle_event e a) (ag\<lparr>ag_peers := pl\<rparr>) evs)"

section \<open>Events of the middleware\<close>

datatype topic = UVN_ID | CELL_ID | BACKBONE

definition status_update :: "peer_status option \<Rightarrow> peer_update" where
  "status_update v = no_update\<lparr>pu_status := v\<rparr>"

definition registry_peer :: "peers_list \<Rightarrow> peer_rec option" where
  "registry_peer pl = (case pl_peers pl of [] \<Rightarrow> None | p # _ \<Rightarrow> Some p)"

definition writer_online :: "int list \<Rightarrow> peer_rec \<Rightarrow> bool" where
  "writer_online online_writers p \<longleftrightarrow> (case up_writer p of None \<Rightarrow> False | Some w \<Rightarrow> w \<in> set online_writers)"

definition matched_peers :: "topic \<Rightarrow> int list \<Rightarrow> peers_list \<Rightarrow> peer_rec list" where
  "matched_peers t online_writers pl = (case t of
     CELL_ID \<Rightarrow> filter (writer_online online_writers) (pl_peers pl)
   | UVN_ID \<Rightarrow> filter (writer_online online_writers) (take 1 (pl_peers pl))
   | BACKBONE \<Rightarrow> [])"

definition on_remote_writers_status :: "topic \<Rightarrow> int list \<Rightarrow> agent \<Rightarrow> agent" where
  "on_remote_writers_status t online_writers ag =
     (let offline_peers = filter (\<lambda>p. up_status p = OFFLINE) (matched_peers t online_writers (ag_peers ag)) in
      if offline_peers \<noteq> []
      then with_peers (update_all (\<lambda>p. up_owner p \<in> up_owner ` set offline_peers) (status_update (Some ONLINE))) ag
      else ag)"

definition on_instance_offline :: "topic \<Rightarrow> int \<Rightarrow> agent \<Rightarrow> agent" where
  "on_instance_offline t inst ag =
     (if t = CELL_ID \<or> t = UVN_ID then
        (case pl_lookup (uvn_id (ag_uvn ag)) (ag_peers ag) (ByHandle inst) of
           Inl _ \<Rightarrow> ag
         | Inr p \<Rightarrow> with_peers (update_peer (up_owner p) (status_update (Some OFFLINE))) ag)
      else ag)"

record cell_info =
  ci_uvn :: string
  ci_cell :: int
  ci_registry_id :: string
  ci_routed :: "lan list"
  ci_known :: "(lan \<times> bool) list"
  ci_ts_start :: int

definition opt_upd :: "'a option \<Rightarrow> 'a upd" where
  "opt_upd v = (case v of None \<Rightarrow> Keep | Some x \<Rightarrow> Set_to x)"

definition cell_info_update :: "cell_info \<Rightarrow> int option \<Rightarrow> int option \<Rightarrow> peer_update" where
  "cell_info_update d inst w = \<lparr>pu_status = Some ONLINE, pu_registry_id = Set_to (ci_registry_id d),
     pu_routed = Some (ci_routed d), pu_known = Some (ci_known d), pu_vpn = None, pu_instance = opt_upd inst,
     pu_writer = opt_upd w, pu_ts_start = Set_to (ci_ts_start d)\<rparr>"

definition on_cell_info :: "cell_info \<Rightarrow> int option \<Rightarrow> int option \<Rightarrow> agent \<Rightarrow> agent res" where
  "on_cell_info d inst w ag =
     (if ci_uvn d \<noteq> uvn_name (ag_uvn ag) then Inr ag
      else (case find (\<lambda>c. cell_id c = ci_cell d) (uvn_cells (ag_uvn ag)) of
          None \<Rightarrow> Inr ag
        | Some c \<Rightarrow> rbind (pl_lookup (uvn_id (ag_uvn ag)) (ag_peers ag) (ByCell (cell_id c))) (\<lambda>p.
            Inr (with_peers (update_peer (up_owner p) (cell_info_update d inst w)) ag))))"

definition on_uvn_info :: "string \<Rightarrow> string \<Rightarrow> int option \<Rightarrow> int option \<Rightarrow> agent \<Rightarrow> agent res" where
  "on_uvn_info peer_uvn reg_id inst w ag =
     (if peer_uvn \<noteq> uvn_name (ag_uvn ag) then Inr ag
      else rbind (the_or IndexError (registry_peer (ag_peers ag))) (\<lambda>p.
        Inr (with_peers (update_peer (up_owner p) (no_update\<lparr>pu_status := Some ONLINE, pu_registry_id := Set_to reg_id,
               pu_instance := opt_upd inst, pu_writer := opt_upd w\<rparr>)) ag)))"

text \<open>A received configuration: \<open>install\<close> is the configuration id of the package, if it can be loaded.\<close>

definition on_agent_config :: "string option \<Rightarrow> agent \<Rightarrow> agent" where
  "on_agent_config install ag = (case install of
     None \<Rightarrow> ag
   | Some cfg \<Rightarrow> if cfg = ag_config_id ag then ag else ag\<lparr>ag_reload := Some cfg\<rparr>)"

datatype sample = CellSample cell_info | UvnSample string string | ConfigSample string "string option"

definition on_data :: "sample \<Rightarrow> int option \<Rightarrow> int option \<Rightarrow> agent \<Rightarrow> agent res" where
  "on_data d inst w ag = (case d of
     CellSample ci \<Rightarrow> on_cell_info ci inst w ag
   | UvnSample u rid \<Rightarrow> on_uvn_info u rid inst w ag
   | ConfigSample rid install \<Rightarrow> Inr (if rid = ag_config_id ag then ag else on_agent_config install ag))"

section \<open>Statistics of the VPN interfaces\<close>

datatype vpn_ref = RootVpn | ParticlesVpn | BackboneVpn | OtherVpn

definition lookup_vpn_peer :: "int \<Rightarrow> vpn_ref \<Rightarrow> int \<Rightarrow> peers_list \<Rightarrow> peer_rec res" where
  "lookup_vpn_peer uvn_ident v peer_id pl = (case v of
     RootVpn \<Rightarrow> pl_lookup uvn_ident pl (ByInt peer_id)
   | ParticlesVpn \<Rightarrow> (if peer_id = 0 then nth_res (pl_peers pl) (pl_local pl)
       else the_or StopIteration (find (\<lambda>p. \<exists>e. up_owner p = OwnerParticle peer_id e) (pl_particles pl)))
   | BackboneVpn \<Rightarrow> pl_lookup uvn_ident pl (ByInt peer_id)
   | OtherVpn \<Rightarrow> Inl (TypeError ''NotImplementedError''))"

text \<open>One statistic: the interface's name and kind, the peer's id, and whether its handshake is recent.\<close>

type_synonym vpn_stat = "string \<times> vpn_ref \<times> int \<times> bool"

fun group_stats :: "int \<Rightarrow> peers_list \<Rightarrow> vpn_stat list \<Rightarrow> (peer_owner \<times> (string \<times> bool) list) list
    \<Rightarrow> (peer_owner \<times> (string \<times> bool) list) list res" where
  "group_stats i pl [] acc = Inr acc"
| "group_stats i pl ((intf, v, peer_id, online) # ss) acc =
     rbind (lookup_vpn_peer i v peer_id pl) (\<lambda>p.
       group_stats i pl ss (AList.update (up_owner p)
         (AList.update intf online (case map_of acc (up_owner p) of None \<Rightarrow> [] | Some m \<Rightarrow> m)) acc))"

definition stats_status :: "peer_rec \<Rightarrow> bool \<Rightarrow> peer_status option" where
  "stats_status p online = (if \<not> is_particle p then None
     else if online then Some ONLINE
     else if up_status p = OFFLINE then Some OFFLINE
     else None)"

fun apply_stats :: "(peer_owner \<times> (string \<times> bool) list) list \<Rightarrow> agent \<Rightarrow> agent" where
  "apply_stats [] ag = ag"
| "apply_stats ((owner, stats) # gs) ag =
     apply_stats gs (case (find (\<lambda>p. up_owner p = owner) (pl_peers (ag_peers ag)), stats) of
         (Some p, (_, online) # _) \<Rightarrow>
            with_peers (update_peer owner (no_update\<lparr>pu_status := stats_status p online, pu_vpn := Some stats\<rparr>)) ag
       | _ \<Rightarrow> ag)"

text \<open>\<open>@max_rate(2)\<close> of \<open>versioned.py\<close>, as it is written: the call is dropped when enough time has passed.\<close>

definition max_rate :: "nat \<Rightarrow> nat \<Rightarrow> nat \<Rightarrow> bool" where
  "max_rate seconds last_call now \<longleftrightarrow> \<not> now - last_call \<ge> seconds"

definition update_peer_vpn_stats :: "nat \<Rightarrow> vpn_stat list \<Rightarrow> agent \<Rightarrow> agent res" where
  "update_peer_vpn_stats now stats ag =
     (let ag1 = ag\<lparr>ag_vpn_stats_ts := now\<rparr> in
      if max_rate 2 (ag_vpn_stats_ts ag) now
      then rbind (group_stats (uvn_id (ag_uvn ag1)) (ag_peers ag1) stats []) (\<lambda>gs. Inr (apply_stats gs ag1))
      else Inr ag1)"

section \<open>The spin loop\<close>

text \<open>One round: whether the middleware is done, the seconds spent, the exit condition after the events.\<close>

datatype spin_result = SpinReturned | SpinTimedout | SpinReload string | SpinRunning

record spin_round =
  sr_done :: bool
  sr_length :: nat
  sr_until :: bool
  sr_reload :: "string option"

fun agent_spin :: "bool \<Rightarrow> nat option \<Rightarrow> spin_round list \<Rightarrow> spin_result" where
  "agent_spin has_until max_spin_time [] = SpinRunning"
| "agent_spin has_until max_spin_time (r # rs) =
     (if sr_done r then SpinReturned
      else if (case max_spin_time of None \<Rightarrow> False | Some m \<Rightarrow> sr_length r \<ge> m)
      then (if has_until then SpinTimedout else SpinReturned)
      else if has_until \<and> sr_until r then SpinReturned
      else (case sr_reload r of Some cfg \<Rightarrow> SpinReload cfg | None \<Rightarrow> agent_spin has_until max_spin_time rs))"

definition until_consistent :: "bool \<Rightarrow> peers_list \<Rightarrow> bool" where
  "until_consistent config_only pl \<longleftrightarrow>
     (if config_only \<and> st_consistent_config_uvn pl then True
      else st_consistent_config_uvn pl \<and> st_fully_routed_uvn pl)"

text \<open>\<open>_until_rekeyed_config_pushed\<close>: wait for all the cells, then for exactly the rekeyed ones to leave.\<close>

definition until_rekeyed :: "int list \<Rightarrow> nat \<Rightarrow> peers_list \<Rightarrow> nat \<times> bool" where
  "until_rekeyed rekeyed stage pl =
     (let stage1 = (if stage = 0 \<and> st_all_cells_connected pl then 1 else stage) in
      if stage1 = 1 \<and> up_owner ` set (offline_cells pl) = (\<lambda>i. OwnerCell i False) ` set rekeyed
      then (stage1, True) else (stage1, False))"

fun rekey_watch :: "int list \<Rightarrow> nat \<Rightarrow> peers_list list \<Rightarrow> nat option" where
  "rekey_watch rekeyed stage [] = None"
| "rekey_watch rekeyed stage (pl # pls) = (case until_rekeyed rekeyed stage pl of
     (_, True) \<Rightarrow> Some 0
   | (stage', False) \<Rightarrow> map_option Suc (rekey_watch rekeyed stage' pls))"

text \<open>\<open>UvnPeersTester._process_updates\<close>: the result of the last test becomes the local peer's networks.\<close>

definition on_peers_tested :: "(lan \<times> bool) list option \<Rightarrow> agent \<Rightarrow> agent" where
  "on_peers_tested last_result ag =
     with_peers (update_peer (up_owner (local_peer (ag_peers ag))) (no_update\<lparr>pu_known := last_result\<rparr>)) ag"

section \<open>Any sequence of inputs\<close>

datatype agent_input =
    Writers topic "int list"
  | InstanceOffline topic int
  | Data sample "int option" "int option"
  | VpnStats nat "vpn_stat list"
  | PeersTested "(lan \<times> bool) list option"
  | LocalRoutes

definition agent_step :: "agent_input \<Rightarrow> agent \<Rightarrow> agent res" where
  "agent_step i ag = (case i of
     Writers t ws \<Rightarrow> Inr (on_remote_writers_status t ws ag)
   | InstanceOffline t h \<Rightarrow> Inr (on_instance_offline t h ag)
   | Data d inst w \<Rightarrow> on_data d inst w ag
   | VpnStats now stats \<Rightarrow> update_peer_vpn_stats now stats ag
   | PeersTested r \<Rightarrow> Inr (on_peers_tested r ag)
   | LocalRoutes \<Rightarrow> Inr (on_event_local_routes ag))"

fun agent_run :: "agent_input list \<Rightarrow> agent \<Rightarrow> agent res" where
  "agent_run [] ag = Inr ag"
| "agent_run (i # is) ag = rbind (agent_step i ag) (agent_run is)"

section \<open>What the handlers keep\<close>

named_theorems ag_simps "the parts of an agent after a handler"

lemma ag_call_simps [ag_simps]: "ag_peers (ag_call c ag) = ag_peers ag" "ag_uvn (ag_call c ag) = ag_uvn ag"
    "ag_config_id (ag_call c ag) = ag_config_id ag" "ag_reload (ag_call c ag) = ag_reload ag"
  by (simp_all add: ag_call_def)

lemma method_simps [ag_simps]:
  "ag_peers (cell_method c ag) = ag_peers ag" "ag_uvn (cell_method c ag) = ag_uvn ag"
  "ag_peers (registry_method c ag) = ag_peers ag" "ag_uvn (registry_method c ag) = ag_uvn ag"
  "ag_peers (status_dirty ag) = ag_peers ag" "ag_uvn (status_dirty ag) = ag_uvn ag"
  by (simp_all add: cell_method_def registry_method_def status_dirty_def ag_simps)

lemma handle_event_peers [ag_simps]: "ag_peers (handle_event e ag) = ag_peers ag" "ag_uvn (handle_event e ag) = ag_uvn ag"
  by (cases e; simp add: ag_simps)+

lemma handle_events_peers: "ag_peers (foldl (\<lambda>a e. handle_event e a) ag evs) = ag_peers ag"
  "ag_uvn (foldl (\<lambda>a e. handle_event e a) ag evs) = ag_uvn ag"
  by (induction evs arbitrary: ag) (simp_all add: ag_simps)

lemma with_peers_simps [ag_simps]: "ag_peers (with_peers f ag) = fst (f (ag_peers ag))"
    "ag_uvn (with_peers f ag) = ag_uvn ag"
  by (simp_all add: with_peers_def handle_events_peers split: prod.split)

text \<open>The table of an agent between two inputs.\<close>

definition table_ok :: "peers_list \<Rightarrow> bool" where
  "table_ok pl \<longleftrightarrow> pl_clean pl \<and> flags_ok pl \<and> distinct (map up_owner (pl_peers pl))"

lemma table_update:
  assumes "table_ok pl" and "pu_status u \<noteq> Some DECLARED" and "pu_registry_id u \<noteq> Reset"
  shows "table_ok (fst (update_all who u pl))"
    and "table_ok (fst (update_peer ow u pl))"
  using assms update_all_clean flags_step
  by (simp_all add: table_ok_def update_peer_def update_all_owners)

lemma apply_stats_ok: "table_ok (ag_peers ag) \<Longrightarrow> table_ok (ag_peers (apply_stats gs ag))"
proof (induction gs ag rule: apply_stats.induct)
  case (2 owner stats gs ag)
  show ?case
  proof (cases "find (\<lambda>p. up_owner p = owner) (pl_peers (ag_peers ag))")
    case None
    then show ?thesis using 2 by simp
  next
    case (Some p)
    show ?thesis
    proof (cases stats)
      case Nil
      then show ?thesis using 2 Some by simp
    next
      case (Cons s ss)
      obtain intf online where s: "s = (intf, online)" by (cases s)
      let ?u = "no_update\<lparr>pu_status := stats_status p online, pu_vpn := Some stats\<rparr>"
      have "table_ok (ag_peers (with_peers (update_peer owner ?u) ag))"
        using 2(2) by (simp add: ag_simps table_update(2) no_update_def stats_status_def)
      then show ?thesis using 2(1) Some Cons s by simp
    qed
  qed
qed simp

lemma agent_step_ok:
  assumes "table_ok (ag_peers ag)" and "agent_step i ag = Inr ag'"
  shows "table_ok (ag_peers ag')"
proof (cases i)
  case (Writers t ws)
  then show ?thesis using assms
    by (auto simp: agent_step_def on_remote_writers_status_def Let_def ag_simps status_update_def no_update_def
        table_update)
next
  case (InstanceOffline t h)
  then show ?thesis using assms
    by (auto simp: agent_step_def on_instance_offline_def ag_simps status_update_def no_update_def
        table_update split: sum.splits)
next
  case (Data d inst w)
  then show ?thesis using assms
    by (cases d)
      (auto simp: agent_step_def on_data_def on_cell_info_def on_uvn_info_def on_agent_config_def ag_simps res_simps
        cell_info_update_def no_update_def table_update split: if_splits option.splits)
next
  case (VpnStats now stats)
  then show ?thesis using assms
    by (auto simp: agent_step_def update_peer_vpn_stats_def Let_def res_simps intro: apply_stats_ok split: if_splits)
next
  case (PeersTested r)
  then show ?thesis using assms
    by (auto simp: agent_step_def on_peers_tested_def ag_simps no_update_def table_update)
next
  case LocalRoutes
  then show ?thesis using assms by (auto simp: agent_step_def on_event_local_routes_def ag_simps)
qed

lemma agent_run_ok: "table_ok (ag_peers ag) \<Longrightarrow> agent_run is ag = Inr ag' \<Longrightarrow> table_ok (ag_peers ag')"
  by (induction "is" arbitrary: ag) (auto simp: res_simps dest: agent_step_ok)

text \<open>The statuses and configuration ids after an update.\<close>

definition peer_view :: "peer_rec \<Rightarrow> peer_owner \<times> peer_status \<times> string option" where
  "peer_view p = (up_owner p, up_status p, up_registry_id p)"

lemma update_view:
  "map peer_view (pl_peers (fst (update_all who u pl))) =
   map (\<lambda>p. peer_view (if who p then peer_configure u p else p)) (pl_peers pl)"
proof (cases "\<exists>p \<in> set (pl_peers (configure_all who u pl)). up_dirty p")
  case True
  then show ?thesis
    by (simp add: update_all_alt process_updates_core(1) peer_view_def peer_simps) (simp add: configure_all_def peer_view_def peer_simps)
next
  case False
  then show ?thesis by (simp add: update_all_alt process_updates_def) (simp add: configure_all_def)
qed

lemma update_status: "map up_status (pl_peers (fst (update_all who u pl))) =
    map (\<lambda>p. if who p then (case pu_status u of None \<Rightarrow> up_status p | Some v \<Rightarrow> v) else up_status p) (pl_peers pl)"
proof -
  have "map (fst \<circ> snd) (map peer_view (pl_peers (fst (update_all who u pl)))) =
      map (fst \<circ> snd) (map (\<lambda>p. peer_view (if who p then peer_configure u p else p)) (pl_peers pl))"
    by (simp only: update_view)
  then show ?thesis by (simp add: comp_def peer_view_def peer_simps if_distrib cong: if_cong)
qed

lemma update_length [simp]: "length (pl_peers (fst (update_all who u pl))) = length (pl_peers pl)"
  using arg_cong [OF update_view, of length] by simp

lemma update_status_nth: "k < length (pl_peers pl) \<Longrightarrow> up_status (pl_peers (fst (update_all who u pl)) ! k) =
    (if who (pl_peers pl ! k) then (case pu_status u of None \<Rightarrow> up_status (pl_peers pl ! k) | Some v \<Rightarrow> v)
     else up_status (pl_peers pl ! k))"
  using arg_cong [OF update_status, of "\<lambda>xs. xs ! k" who u pl] by simp

lemma update_owner_nth: "k < length (pl_peers pl) \<Longrightarrow> up_owner (pl_peers (fst (update_all who u pl)) ! k) = up_owner (pl_peers pl ! k)"
  using arg_cong [OF update_all_owners, of "\<lambda>xs. xs ! k" who u pl] by simp

text \<open>The statistics never take a peer OFFLINE that was not.\<close>

lemma owner_status_unique:
  assumes "distinct (map up_owner ps)" and "p \<in> set ps" and "q \<in> set ps" and "up_owner p = up_owner q"
  shows "p = q"
  using assms by (auto simp: distinct_map inj_on_def)

lemma apply_stats_never_offline:
  assumes "distinct (map up_owner (pl_peers (ag_peers ag)))" and "k < length (pl_peers (ag_peers ag))"
    and "up_status (pl_peers (ag_peers ag) ! k) \<noteq> OFFLINE"
  shows "k < length (pl_peers (ag_peers (apply_stats gs ag)))
    \<and> up_status (pl_peers (ag_peers (apply_stats gs ag)) ! k) \<noteq> OFFLINE"
  using assms
proof (induction gs ag rule: apply_stats.induct)
  case (2 owner stats gs ag)
  let ?pl = "ag_peers ag"
  show ?case
  proof (cases "find (\<lambda>p. up_owner p = owner) (pl_peers ?pl)")
    case None
    then show ?thesis using 2 by simp
  next
    case (Some p)
    then have p: "p \<in> set (pl_peers ?pl)" "up_owner p = owner" using find_in_set by fastforce+
    show ?thesis
    proof (cases stats)
      case Nil
      then show ?thesis using 2 Some by simp
    next
      case (Cons s ss)
      obtain intf online where s: "s = (intf, online)" by (cases s)
      let ?u = "no_update\<lparr>pu_status := stats_status p online, pu_vpn := Some stats\<rparr>"
      let ?ag = "with_peers (update_peer owner ?u) ag"
      have st: "stats_status p online \<noteq> Some OFFLINE" if "pl_peers ?pl ! k = p"
        using that 2(4) by (simp add: stats_status_def)
      have "pl_peers ?pl ! k = p" if "up_owner (pl_peers ?pl ! k) = owner"
        using owner_status_unique [OF 2(2) _ p(1), of "pl_peers ?pl ! k"] 2(3) p(2) that by simp
      then have "up_status (pl_peers (ag_peers ?ag) ! k) \<noteq> OFFLINE"
        using 2(3,4) st by (auto simp: ag_simps update_peer_def update_status_nth no_update_def split: option.split)
      moreover have "distinct (map up_owner (pl_peers (ag_peers ?ag)))" "k < length (pl_peers (ag_peers ?ag))"
        using 2(2,3) by (simp_all add: ag_simps update_peer_def update_all_owners)
      ultimately show ?thesis using 2(1) Some Cons s by simp
    qed
  qed
qed simp

lemma rekey_watch_spec:
  "rekey_watch rekeyed stage pls = Some n \<Longrightarrow>
     n < length pls \<and> up_owner ` set (offline_cells (pls ! n)) = (\<lambda>i. OwnerCell i False) ` set rekeyed
     \<and> (stage = 0 \<longrightarrow> (\<exists>m \<le> n. st_all_cells_connected (pls ! m)))"
proof (induction rekeyed stage pls arbitrary: n rule: rekey_watch.induct)
  case (2 rekeyed stage pl pls)
  obtain st' b where u: "until_rekeyed rekeyed stage pl = (st', b)" by (cases "until_rekeyed rekeyed stage pl")
  show ?case
  proof (cases b)
    case True
    then show ?thesis using 2(2) u by (auto simp: until_rekeyed_def Let_def split: if_splits)
  next
    case False
    from False obtain k where k: "n = Suc k" "rekey_watch rekeyed st' pls = Some k" using 2(2) u by auto
    from 2(1) [OF u [symmetric] _ k(2)] False have IH: "k < length pls"
      "up_owner ` set (offline_cells (pls ! k)) = (\<lambda>i. OwnerCell i False) ` set rekeyed"
      "st' = 0 \<longrightarrow> (\<exists>m \<le> k. st_all_cells_connected (pls ! m))" by auto
    have "stage = 0 \<Longrightarrow> st' = 0 \<or> st_all_cells_connected pl"
      using u by (auto simp: until_rekeyed_def Let_def split: if_splits)
    then show ?thesis using IH k(1) by (auto intro: exI [of _ 0] exI [of _ "Suc m" for m])
  qed
qed simp

section \<open>Properties\<close>


definition demo_agent :: agent where
  "demo_agent = \<lparr>ag_uvn = demo_uvn, ag_is_cell = True, ag_config_id = ''cfg'', ag_rekeyed = False, ag_peers = demo_start,
     ag_backbone_plot_dirty = False, ag_status_plot_dirty = False, ag_reload = None, ag_vpn_stats_ts = 0, ag_calls = []\<rparr>"

definition demo_info :: "int \<Rightarrow> cell_info" where
  "demo_info i = \<lparr>ci_uvn = ''u'', ci_cell = i, ci_registry_id = ''cfg'', ci_routed = [], ci_known = [], ci_ts_start = 0\<rparr>"

lemma demo_start_ok: "table_ok demo_start"
  using demo_start_clean
  by (simp add: table_ok_def flags_ok_def demo_start_def online_cells_def consistent_config_cells_def pl_cells_def
      is_active_cell_def new_peer_def)


text \<open>A report that writers are online again makes exactly those peers ONLINE that were OFFLINE and whose
  writer (for the registry's topic: the registry's) is among them; a peer that was never seen keeps its status.\<close>

theorem writers_status_effect:
  assumes "distinct (map up_owner (pl_peers (ag_peers ag)))" and "k < length (pl_peers (ag_peers ag))"
  shows "up_status (pl_peers (ag_peers (on_remote_writers_status t ws ag)) ! k) =
    (let p = pl_peers (ag_peers ag) ! k in
     if up_status p = OFFLINE \<and> p \<in> set (matched_peers t ws (ag_peers ag)) then ONLINE else up_status p)"
proof -
  let ?pl = "ag_peers ag" and ?p = "pl_peers (ag_peers ag) ! k"
  let ?off = "filter (\<lambda>p. up_status p = OFFLINE) (matched_peers t ws ?pl)"
  have sub: "set (matched_peers t ws ?pl) \<subseteq> set (pl_peers ?pl)"
    by (auto simp: matched_peers_def split: topic.splits dest: in_set_takeD)
  have p: "?p \<in> set (pl_peers ?pl)" using assms(2) by simp
  have iff: "up_owner ?p \<in> up_owner ` set ?off \<longleftrightarrow> ?p \<in> set ?off"
  proof
    assume "up_owner ?p \<in> up_owner ` set ?off"
    then obtain q where q: "q \<in> set ?off" "up_owner ?p = up_owner q" by blast
    have "q \<in> set (pl_peers ?pl)" using q(1) sub by auto
    from owner_status_unique [OF assms(1) p this q(2)] q(1) show "?p \<in> set ?off" by simp
  qed (rule imageI)
  show ?thesis
  proof (cases "?off = []")
    case True
    then have "\<not> (up_status ?p = OFFLINE \<and> ?p \<in> set (matched_peers t ws ?pl))" by (auto simp: filter_empty_conv)
    then show ?thesis by (simp only: on_remote_writers_status_def Let_def True if_False) simp
  next
    case False
    then have "ag_peers (on_remote_writers_status t ws ag) =
        fst (update_all (\<lambda>p. up_owner p \<in> up_owner ` set ?off) (status_update (Some ONLINE)) ?pl)"
      by (simp only: on_remote_writers_status_def Let_def ag_simps if_True not_False_eq_True)
    then show ?thesis
      using update_status_nth [OF assms(2), of "\<lambda>p. up_owner p \<in> up_owner ` set ?off" "status_update (Some ONLINE)"] iff
      by (simp only: Let_def) (simp add: status_update_def)
  qed
qed

theorem writers_status_effect_witness:
  "up_status (pl_peers (ag_peers (on_remote_writers_status CELL_ID [8] demo_agent)) ! 1) = DECLARED"
proof -
  have "distinct (map up_owner (pl_peers (ag_peers demo_agent)))" "1 < length (pl_peers (ag_peers demo_agent))"
    by (simp_all add: demo_agent_def demo_start_def new_peer_def)
  from writers_status_effect [OF this, of CELL_ID "[8]"] show ?thesis
    by (simp add: demo_agent_def demo_start_def new_peer_def Let_def)
qed

text \<open>The VPN statistics never take a peer OFFLINE: a particle that was ONLINE stays so however long its
  handshakes are overdue. The conditional only repeats OFFLINE for particles that are OFFLINE already.\<close>

theorem vpn_stats_never_offline:
  assumes "distinct (map up_owner (pl_peers (ag_peers ag)))" and "k < length (pl_peers (ag_peers ag))"
    and "up_status (pl_peers (ag_peers ag) ! k) \<noteq> OFFLINE" and "update_peer_vpn_stats now stats ag = Inr ag'"
  shows "up_status (pl_peers (ag_peers ag') ! k) \<noteq> OFFLINE"
  using assms apply_stats_never_offline [of "ag\<lparr>ag_vpn_stats_ts := now\<rparr>" k]
  by (auto simp: update_peer_vpn_stats_def Let_def res_simps split: if_splits)

definition demo_particle_agent :: agent where
  "demo_particle_agent = demo_agent\<lparr>ag_peers := demo_start\<lparr>pl_peers := pl_peers demo_start
     @ [(new_peer (OwnerParticle 5 False) ''p'')\<lparr>up_status := ONLINE\<rparr>]\<rparr>\<rparr>"

theorem vpn_stats_never_offline_witness:
  "\<exists>ag'. update_peer_vpn_stats 1 [(''uwg-p0'', ParticlesVpn, 5, False)] demo_particle_agent = Inr ag'
     \<and> up_status (pl_peers (ag_peers ag') ! 3) \<noteq> OFFLINE"
proof -
  have "\<exists>ag'. update_peer_vpn_stats 1 [(''uwg-p0'', ParticlesVpn, 5, False)] demo_particle_agent = Inr ag'"
    by (simp add: update_peer_vpn_stats_def Let_def max_rate_def demo_particle_agent_def demo_agent_def demo_start_def
        lookup_vpn_peer_def pl_particles_def is_active_particle_def new_peer_def) (rule exI [of _ False], simp)
  then obtain ag' where r: "update_peer_vpn_stats 1 [(''uwg-p0'', ParticlesVpn, 5, False)] demo_particle_agent = Inr ag'" ..
  have "distinct (map up_owner (pl_peers (ag_peers demo_particle_agent)))" "3 < length (pl_peers (ag_peers demo_particle_agent))"
    "up_status (pl_peers (ag_peers demo_particle_agent) ! 3) \<noteq> OFFLINE"
    by (simp_all add: demo_particle_agent_def demo_agent_def demo_start_def new_peer_def)
  from vpn_stats_never_offline [OF this r] r show ?thesis by blast
qed

text \<open>C26: The registry applies a rekeyed configuration only after every cell was connected at some earlier point
  or at this one, and when the active cells that are OFFLINE are exactly the rekeyed ones.\<close>

theorem rekey_applied_when_ready:
  assumes "rekey_watch rekeyed 0 pls = Some n"
  shows "n < length pls \<and> up_owner ` set (offline_cells (pls ! n)) = (\<lambda>i. OwnerCell i False) ` set rekeyed
    \<and> (\<exists>m \<le> n. st_all_cells_connected (pls ! m))"
  using rekey_watch_spec [OF assms] by simp

theorem rekey_applied_when_ready_witness:
  "\<exists>m \<le> 1. st_all_cells_connected ([demo_start\<lparr>st_all_cells_connected := True\<rparr>,
     demo_start\<lparr>pl_peers := [(new_peer (OwnerCell 1 False) ''a'')\<lparr>up_status := OFFLINE\<rparr>]\<rparr>] ! m)"
proof -
  have "rekey_watch [1] 0 [demo_start\<lparr>st_all_cells_connected := True\<rparr>,
     demo_start\<lparr>pl_peers := [(new_peer (OwnerCell 1 False) ''a'')\<lparr>up_status := OFFLINE\<rparr>]\<rparr>] = Some 1"
    by (simp add: until_rekeyed_def Let_def offline_cells_def pl_cells_def demo_start_def new_peer_def is_active_cell_def)
  from rekey_applied_when_ready [OF this] show ?thesis by simp
qed

end
