(* ===== verification/Services.thy ===== *)
theory Services
  imports Uno_Prelude
begin

text \<open>
  The services of an agent (\<open>uno/agent/runnable.py\<close>, \<open>agent_service.py\<close>, \<open>agent_static_service.py\<close>,
  \<open>systemd_service.py\<close>), the agent's own static service and the start and stop of the static services
  (\<open>agent.py\<close>), and the contexts an agent runs in. What a service does itself (\<open>_start\<close>, \<open>_stop\<close>) is
  recorded as an effect, which may raise; which effects succeed is an argument.
\<close>

section \<open>State\<close>

datatype effect = StartSvc string | StopSvc string | TakeOver string | SpawnAgent | KillAgent

record svc =
  sv_name :: string
  sv_runnable :: bool
  sv_static :: bool

text \<open>The marker files are a dictionary from the service's name to the text in the file.\<close>

record host =
  ho_markers :: "(string \<times> string) list"
  ho_started :: "string list"
  ho_effects :: "(effect \<times> bool) list"

type_synonym env = "(effect \<times> bool) list \<Rightarrow> effect \<Rightarrow> bool"

definition perform :: "env \<Rightarrow> effect \<Rightarrow> (host, unit) op" where
  "perform ok e s = (let r = ok (ho_effects s) e; s' = s\<lparr>ho_effects := ho_effects s @ [(e, r)]\<rparr> in
     if r then (Inr (), s') else (Inl (RuntimeError ''effect failed''), s'))"

definition current_marker :: "string \<Rightarrow> host \<Rightarrow> string option" where
  "current_marker name s = map_of (ho_markers s) name"

definition svc_active :: "string \<Rightarrow> host \<Rightarrow> bool" where
  "svc_active name s \<longleftrightarrow> current_marker name s \<noteq> None"

definition write_marker :: "string \<Rightarrow> string \<Rightarrow> (host, unit) op" where
  "write_marker config_id name = op_modify (\<lambda>s. s\<lparr>ho_markers := AList.update name config_id (ho_markers s)\<rparr>)"

definition drop_marker :: "string \<Rightarrow> host \<Rightarrow> host" where
  "drop_marker name s = s\<lparr>ho_markers := AList.delete name (ho_markers s)\<rparr>"

definition check_marker_compatible :: "string \<Rightarrow> string \<Rightarrow> (host, unit) op" where
  "check_marker_compatible config_id name s =
     (if current_marker name s = None \<or> current_marker name s = Some config_id
      then op_return () s else op_raise (RuntimeError ''stop systemd unit'') s)"

section \<open>Starting and stopping one service\<close>

definition take_over_static :: "env \<Rightarrow> string \<Rightarrow> svc \<Rightarrow> (host, unit) op" where
  "take_over_static ok config_id v =
     (if \<not> sv_static v then op_raise (TypeError ''method disabled'')
      else op_then (check_marker_compatible config_id (sv_name v))
          (op_then (op_modify (\<lambda>s. s\<lparr>ho_started := set_add (sv_name v) (ho_started s)\<rparr>))
            (perform ok (TakeOver (sv_name v)))))"

definition svc_start :: "env \<Rightarrow> string \<Rightarrow> svc \<Rightarrow> (host, unit) op" where
  "svc_start ok config_id v s =
     (if \<not> sv_runnable v then op_return () s
      else if sv_static v \<and> svc_active (sv_name v) s then take_over_static ok config_id v s
      else op_then (perform ok (StartSvc (sv_name v)))
             (if sv_static v then write_marker config_id (sv_name v) else op_return ()) s)"

definition svc_stop :: "env \<Rightarrow> string \<Rightarrow> bool \<Rightarrow> string list \<Rightarrow> svc \<Rightarrow> bool \<Rightarrow> (host, unit) op" where
  "svc_stop ok config_id reloading initial_active v assert_stopped =
     (if \<not> assert_stopped \<and> \<not> reloading \<and> sv_static v \<and> sv_name v \<in> set initial_active
      then write_marker config_id (sv_name v)
      else op_finally (perform ok (StopSvc (sv_name v)))
             (\<lambda>s. if sv_static v then drop_marker (sv_name v) s else s))"

definition svc_start_static :: "env \<Rightarrow> string \<Rightarrow> svc \<Rightarrow> (host, unit) op" where
  "svc_start_static ok config_id v s =
     (if \<not> sv_static v then op_raise (TypeError ''method disabled'') s
      else if \<not> sv_runnable v then op_return () s
      else if svc_active (sv_name v) s then take_over_static ok config_id v s
      else op_then (perform ok (StartSvc (sv_name v))) (write_marker config_id (sv_name v)) s)"

definition svc_stop_static :: "env \<Rightarrow> string \<Rightarrow> bool \<Rightarrow> string list \<Rightarrow> svc \<Rightarrow> (host, unit) op" where
  "svc_stop_static ok config_id reloading initial_active v =
     (if \<not> sv_static v then op_raise (TypeError ''method disabled'')
      else svc_stop ok config_id reloading initial_active v True)"

section \<open>The agent's own static service\<close>

text \<open>\<open>Agent.start_static\<close> and \<open>stop_static\<close>; whether another agent process exists is an argument. The
  last static service of the list is the agent's.\<close>

definition agent_start_static :: "env \<Rightarrow> bool \<Rightarrow> (host, unit) op" where
  "agent_start_static ok external = (if external then op_return () else perform ok SpawnAgent)"

definition agent_stop_static :: "env \<Rightarrow> bool \<Rightarrow> string \<Rightarrow> (host, unit) op" where
  "agent_stop_static ok external name =
     op_finally
       (op_catch (if \<not> external then op_return () else perform ok KillAgent)
          (\<lambda>_. op_raise (RuntimeError ''failed to terminate agent process'')))
       (drop_marker name)"

datatype static_svc = OfService svc | OfAgent string

fun ss_name :: "static_svc \<Rightarrow> string" where
  "ss_name (OfService v) = sv_name v"
| "ss_name (OfAgent n) = n"

text \<open>What the operations of the static services depend on.\<close>

record host_env =
  he_ok :: env
  he_config_id :: string
  he_reloading :: bool
  he_initial :: "string list"
  he_external :: bool

definition ss_up :: "host_env \<Rightarrow> static_svc \<Rightarrow> (host, unit) op" where
  "ss_up he v s =
     (if svc_active (ss_name v) s then op_return () s
      else (case v of
          OfService w \<Rightarrow> svc_start_static (he_ok he) (he_config_id he) w s
        | OfAgent _ \<Rightarrow> agent_start_static (he_ok he) (he_external he) s))"

definition ss_down :: "host_env \<Rightarrow> static_svc \<Rightarrow> (host, unit) op" where
  "ss_down he v = (case v of
     OfService w \<Rightarrow> svc_stop_static (he_ok he) (he_config_id he) (he_reloading he) (he_initial he) w
   | OfAgent n \<Rightarrow> agent_stop_static (he_ok he) (he_external he) n)"

section \<open>Starting and stopping the static services\<close>

text \<open>The roll-back: an error of a service is logged, and the next one is stopped.\<close>

fun tear_down_all :: "host_env \<Rightarrow> static_svc list \<Rightarrow> host \<Rightarrow> host" where
  "tear_down_all he [] s = s"
| "tear_down_all he (v # vs) s = tear_down_all he vs (snd (ss_down he v s))"

fun start_loop :: "host_env \<Rightarrow> string \<Rightarrow> static_svc list \<Rightarrow> static_svc list \<Rightarrow> (host, unit) op" where
  "start_loop he tgt [] started s = (Inr (), s)"
| "start_loop he tgt (v # vs) started s =
     (case ss_up he v s of
        (Inl e, s1) \<Rightarrow> (Inl e, tear_down_all he started s1)
      | (Inr _, s1) \<Rightarrow> if ss_name v = tgt then (Inr (), s1) else start_loop he tgt vs (v # started) s1)"

definition last_active :: "static_svc list \<Rightarrow> host \<Rightarrow> nat option" where
  "last_active vs s = (case filter (\<lambda>i. svc_active (ss_name (vs ! i)) s) [0..<length vs] of
     [] \<Rightarrow> None | is \<Rightarrow> Some (last is))"

definition start_static_services :: "host_env \<Rightarrow> static_svc list \<Rightarrow> string \<Rightarrow> (host, unit) op" where
  "start_static_services he vs up_to s =
     (case index_of up_to (map ss_name vs) of
        None \<Rightarrow> (Inl (ValueError ''unknown target service''), s)
      | Some tgt_i \<Rightarrow>
          (case last_active vs s of
             Some hi \<Rightarrow> if hi \<ge> tgt_i then (Inr (), s) else start_loop he up_to vs [] s
           | None \<Rightarrow> start_loop he up_to vs [] s))"

fun stop_loop :: "host_env \<Rightarrow> string \<Rightarrow> static_svc list \<Rightarrow> py_error list \<Rightarrow> host \<Rightarrow> py_error list \<times> host" where
  "stop_loop he tgt [] errs s = (errs, s)"
| "stop_loop he tgt (v # vs) errs s =
     (let (r, s1) = ss_down he v s; errs1 = (case r of Inl e \<Rightarrow> errs @ [e] | Inr _ \<Rightarrow> errs) in
      if ss_name v = tgt then (errs1, s1) else stop_loop he tgt vs errs1 s1)"

definition stop_static_services :: "host_env \<Rightarrow> static_svc list \<Rightarrow> string \<Rightarrow> (host, unit) op" where
  "stop_static_services he vs down_to s =
     (if down_to \<notin> set (map ss_name vs) then (Inl (ValueError ''unknown target service''), s)
      else (let (errs, s1) = stop_loop he down_to (rev vs) [] s in
        if errs \<noteq> [] then (Inl (RuntimeError ''errors while stopping services''), s1) else (Inr (), s1)))"

section \<open>The contexts of a running agent\<close>

text \<open>\<open>contextlib.ExitStack\<close> over \<open>running_contexts\<close>: each context is left in reverse order, whatever was
  raised; an exception raised while leaving replaces the one in flight.\<close>

datatype ctx_event = Enter nat | Exit nat bool

fun run_stack :: "(nat \<Rightarrow> unit res) \<Rightarrow> (nat \<Rightarrow> bool \<Rightarrow> unit res) \<Rightarrow> unit res \<Rightarrow> nat list
    \<Rightarrow> unit res \<times> ctx_event list" where
  "run_stack enter exit body [] = (body, [])"
| "run_stack enter exit body (c # cs) =
     (case enter c of
        Inl e \<Rightarrow> (Inl e, [])
      | Inr _ \<Rightarrow>
         (let (r, tr) = run_stack enter exit body cs; failed = (case r of Inl _ \<Rightarrow> True | Inr _ \<Rightarrow> False) in
          (case exit c failed of Inl e \<Rightarrow> Inl e | Inr _ \<Rightarrow> r, Enter c # tr @ [Exit c failed])))"

section \<open>What the operations do to the marker files\<close>

text \<open>The list \<open>static_services\<close> only has services with a static unit.\<close>

fun ss_static :: "static_svc \<Rightarrow> bool" where
  "ss_static (OfService v) = sv_static v"
| "ss_static (OfAgent n) = True"

text \<open>The services whose start leaves a marker; the agent's daemon writes its own later.\<close>

fun must_run :: "static_svc \<Rightarrow> bool" where
  "must_run (OfService v) = sv_runnable v"
| "must_run (OfAgent n) = False"

lemma current_marker_drop [simp]:
  "current_marker n (drop_marker m s) = (if n = m then None else current_marker n s)"
  by (simp add: current_marker_def drop_marker_def)

lemma current_marker_effects [simp]: "current_marker n (s\<lparr>ho_effects := es\<rparr>) = current_marker n s"
  by (simp add: current_marker_def)

lemma perform_marker: "perform ok e s = (r, s') \<Longrightarrow> current_marker n s' = current_marker n s"
  by (auto simp: perform_def Let_def split: if_splits)

lemma ss_down_marker:
  "ss_static v \<Longrightarrow> current_marker n (snd (ss_down he v s)) = (if n = ss_name v then None else current_marker n s)"
  by (cases v)
    (auto simp: ss_down_def svc_stop_static_def svc_stop_def agent_stop_static_def op_simps perform_def Let_def
      split: prod.splits if_splits)

lemma ss_up_fail:
  assumes "ss_static v" and "ss_up he v s = (Inl e, s')"
  shows "current_marker n s' = current_marker n s" and "current_marker (ss_name v) s = None"
  using assms
  by (cases v; auto simp: ss_up_def svc_start_static_def agent_start_static_def op_simps perform_def write_marker_def
      Let_def svc_active_def split: if_splits)+

lemma ss_up_ok:
  assumes "ss_static v" and "ss_up he v s = (Inr u, s')"
  shows "n \<noteq> ss_name v \<Longrightarrow> current_marker n s' = current_marker n s"
    and "must_run v \<Longrightarrow> svc_active (ss_name v) s'"
    and "svc_active (ss_name v) s \<Longrightarrow> svc_active (ss_name v) s'"
  using assms
  by (cases v; auto simp: ss_up_def svc_start_static_def agent_start_static_def op_simps perform_def write_marker_def
      Let_def svc_active_def current_marker_def split: if_splits)+

lemma tear_down_marker:
  assumes "\<forall>v \<in> set vs. ss_static v"
  shows "current_marker n (tear_down_all he vs s) = (if n \<in> ss_name ` set vs then None else current_marker n s)"
  using assms by (induction vs arbitrary: s) (auto simp: ss_down_marker)

section \<open>A start that fails, a start that succeeds, a stop\<close>

lemma start_loop_fail:
  assumes "\<forall>v \<in> set vs. ss_static v" and "\<forall>v \<in> set started. ss_static v"
    and "start_loop he tgt vs started s = (Inl e, s')"
  shows "\<exists>k < length vs. (\<forall>n \<in> ss_name ` (set started \<union> set (take (Suc k) vs)). current_marker n s' = None)
    \<and> (\<forall>n. n \<notin> ss_name ` (set started \<union> set (take (Suc k) vs)) \<longrightarrow> current_marker n s' = current_marker n s)"
  using assms
proof (induction vs arbitrary: started s)
  case (Cons v vs)
  obtain r s1 where up: "ss_up he v s = (r, s1)" by (cases "ss_up he v s")
  show ?case
  proof (cases r)
    case (Inl e1)
    have m: "current_marker n s1 = current_marker n s" "current_marker (ss_name v) s = None" for n
      using ss_up_fail [of v he s e1 s1] up Inl Cons.prems(1) by simp_all
    have "s' = tear_down_all he started s1" using Cons.prems(3) up Inl by simp
    then have "current_marker n s' = (if n \<in> ss_name ` set started then None else current_marker n s)" for n
      using tear_down_marker [OF Cons.prems(2)] m(1) by simp
    then show ?thesis using m(2) by (intro exI [of _ 0]) auto
  next
    case (Inr u)
    have v: "ss_static v" and vs: "\<forall>v \<in> set vs. ss_static v" and st: "\<forall>w \<in> set (v # started). ss_static w"
      using Cons.prems by simp_all
    have "start_loop he tgt vs (v # started) s1 = (Inl e, s')"
      using Cons.prems(3) up Inr by (simp split: if_splits)
    from Cons.IH [OF vs st this] obtain k where k: "k < length vs"
      "\<forall>n \<in> ss_name ` (set (v # started) \<union> set (take (Suc k) vs)). current_marker n s' = None"
      "\<forall>n. n \<notin> ss_name ` (set (v # started) \<union> set (take (Suc k) vs)) \<longrightarrow> current_marker n s' = current_marker n s1"
      by blast
    have eq: "ss_name ` (set started \<union> set (take (Suc (Suc k)) (v # vs))) = ss_name ` (set (v # started) \<union> set (take (Suc k) vs))"
      by auto
    have "current_marker n s1 = current_marker n s" if "n \<noteq> ss_name v" for n
      using ss_up_ok(1) [OF v] up Inr that by blast
    then show ?thesis
      using k by (intro exI [of _ "Suc k"]) (unfold eq, auto)
  qed
qed simp

lemma start_loop_ok:
  assumes "\<forall>v \<in> set vs. ss_static v" and "distinct (map ss_name vs)" and "i < length vs" and "vs ! i = v"
    and "start_loop he (ss_name v) vs started s = (Inr u, s')"
  shows "\<forall>j \<le> i. must_run (vs ! j) \<longrightarrow> svc_active (ss_name (vs ! j)) s'"
  using assms
proof (induction vs arbitrary: started s i)
  case (Cons w ws)
  obtain s1 where up: "ss_up he w s = (Inr (), s1)"
    using Cons.prems(5) by (cases "ss_up he w s") (auto split: sum.splits)
  have run: "must_run w \<Longrightarrow> svc_active (ss_name w) s1"
    using ss_up_ok(2) [OF _ up] Cons.prems(1) by simp
  show ?case
  proof (cases i)
    case 0
    then show ?thesis using run Cons.prems(4,5) up by simp
  next
    case (Suc j)
    have ne: "ss_name w \<noteq> ss_name v" using Cons.prems(2-4) Suc by auto
    have loop: "start_loop he (ss_name v) ws (w # started) s1 = (Inr u, s')" using Cons.prems(5) up ne by simp
    have keep: "current_marker (ss_name w) s' = current_marker (ss_name w) s1"
      using Cons.prems(1,2) loop
    proof (induction ws arbitrary: started s1 w)
      case (Cons x xs)
      obtain s2 where up: "ss_up he x s1 = (Inr (), s2)"
        using Cons.prems(3) by (cases "ss_up he x s1") (auto split: sum.splits)
      have "current_marker (ss_name w) s2 = current_marker (ss_name w) s1"
        using ss_up_ok(1) [OF _ up] Cons.prems(1,2) by simp
      moreover have "current_marker (ss_name w) s' = current_marker (ss_name w) s2"
      proof (cases "ss_name x = ss_name v")
        case True
        then show ?thesis using Cons.prems(3) up by simp
      next
        case False
        have "start_loop he (ss_name v) xs (x # w # started) s2 = (Inr u, s')" using Cons.prems(3) up False by simp
        moreover have "start_loop he t ys a b = (Inr c, d) \<Longrightarrow> start_loop he t ys a' b = (Inr c, d)" for t ys a a' b c d
          by (induction ys arbitrary: a a' b) (auto split: prod.splits sum.splits if_splits)
        ultimately have "start_loop he (ss_name v) xs (w # started) s2 = (Inr u, s')" by blast
        then show ?thesis using Cons.IH [of w started s2] Cons.prems(1,2) by simp
      qed
      ultimately show ?case by simp
    qed simp
    have "\<forall>k \<le> j. must_run (ws ! k) \<longrightarrow> svc_active (ss_name (ws ! k)) s'"
      using Cons.IH [OF _ _ _ _ loop, of j] Cons.prems Suc by simp
    then show ?thesis using run keep Suc by (auto simp: svc_active_def nth_Cons split: nat.splits)
  qed
qed simp

text \<open>A stop reaches every service from the last down to the target.\<close>

lemma stop_loop_marker:
  assumes "\<forall>v \<in> set vs. ss_static v" and "distinct (map ss_name vs)" and "i < length vs" and "ss_name (vs ! i) = tgt"
  shows "current_marker n (snd (stop_loop he tgt vs errs s)) =
    (if n \<in> ss_name ` set (take (Suc i) vs) then None else current_marker n s)"
  using assms
proof (induction vs arbitrary: errs s i)
  case (Cons v vs)
  show ?case
  proof (cases i)
    case 0
    then show ?thesis using Cons.prems ss_down_marker [of v n he s] by (simp add: Let_def case_prod_beta)
  next
    case (Suc j)
    have "ss_name v \<noteq> tgt" using Cons.prems(2-4) Suc by auto
    then show ?thesis
      using Cons.IH [of j] Cons.prems Suc ss_down_marker [of v n he s] by (auto simp: Let_def case_prod_beta)
  qed
qed simp

lemma last_active_None: "last_active vs s = None \<Longrightarrow> i < length vs \<Longrightarrow> \<not> svc_active (ss_name (vs ! i)) s"
  by (auto simp: last_active_def filter_empty_conv split: list.splits)

lemma last_active_Some: "last_active vs s = Some h \<Longrightarrow> h < length vs \<and> svc_active (ss_name (vs ! h)) s"
proof -
  assume h: "last_active vs s = Some h"
  let ?is = "filter (\<lambda>i. svc_active (ss_name (vs ! i)) s) [0..<length vs]"
  from h have "?is \<noteq> []" "h = last ?is" by (auto simp: last_active_def split: list.splits)
  then have "h \<in> set ?is" by (simp del: set_filter)
  then show ?thesis by simp
qed

text \<open>The services run bottom up: below an active one, every one that can run is active.\<close>

definition runs_bottom_up :: "static_svc list \<Rightarrow> host \<Rightarrow> bool" where
  "runs_bottom_up vs s \<longleftrightarrow> (\<forall>i < length vs. svc_active (ss_name (vs ! i)) s \<longrightarrow>
     (\<forall>j < i. must_run (vs ! j) \<longrightarrow> svc_active (ss_name (vs ! j)) s))"

lemma index_of_nth_name:
  "index_of n (map ss_name vs) = Some i \<Longrightarrow> i < length vs \<and> ss_name (vs ! i) = n"
  by (drule index_of_Some) auto

section \<open>The contexts\<close>

definition entered :: "ctx_event list \<Rightarrow> nat list" where
  "entered tr = concat (map (\<lambda>e. case e of Enter c \<Rightarrow> [c] | _ \<Rightarrow> []) tr)"

definition exited :: "ctx_event list \<Rightarrow> nat list" where
  "exited tr = concat (map (\<lambda>e. case e of Exit c _ \<Rightarrow> [c] | _ \<Rightarrow> []) tr)"

section \<open>Properties\<close>

text \<open>C25: When starting the static services up to a target fails, the services from the bottom up to the one
  that failed are all without a marker afterwards, those that were active before included (the roll-back stops
  them too), and the services above keep their markers.\<close>

theorem start_static_rollback:
  assumes "\<forall>v \<in> set vs. ss_static v" and "up_to \<in> set (map ss_name vs)"
    and "start_static_services he vs up_to s = (Inl e, s')"
  shows "\<exists>k < length vs. \<forall>n. current_marker n s' =
    (if n \<in> ss_name ` set (take (Suc k) vs) then None else current_marker n s)"
proof -
  obtain i where "index_of up_to (map ss_name vs) = Some i" using in_set_index_of [OF assms(2)] by blast
  then have "start_loop he up_to vs [] s = (Inl e, s')"
    using assms(3) by (auto simp: start_static_services_def split: option.splits if_splits)
  from start_loop_fail [OF assms(1) _ this] show ?thesis by fastforce
qed

definition demo_svcs :: "static_svc list" where
  "demo_svcs = [OfService \<lparr>sv_name = ''net'', sv_runnable = True, sv_static = True\<rparr>,
     OfService \<lparr>sv_name = ''router'', sv_runnable = True, sv_static = True\<rparr>, OfAgent ''agent'']"

definition demo_host_env :: "bool \<Rightarrow> host_env" where
  "demo_host_env works = \<lparr>he_ok = \<lambda>_ e. works \<or> e \<noteq> StartSvc ''router'', he_config_id = ''cfg'', he_reloading = False,
     he_initial = [], he_external = False\<rparr>"

definition demo_host :: host where
  "demo_host = \<lparr>ho_markers = [(''net'', ''cfg'')], ho_started = [], ho_effects = []\<rparr>"

lemmas demo_svc_defs = demo_svcs_def demo_host_env_def demo_host_def start_static_services_def last_active_def ss_up_def
  ss_down_def svc_start_static_def svc_stop_static_def svc_stop_def svc_active_def current_marker_def perform_def
  write_marker_def drop_marker_def op_simps upt_rec

theorem start_static_rollback_witness:
  "current_marker ''net'' demo_host = Some ''cfg''
   \<and> current_marker ''net'' (snd (start_static_services (demo_host_env False) demo_svcs ''router'' demo_host)) = None"
proof -
  have "fst (start_static_services (demo_host_env False) demo_svcs ''router'' demo_host) = Inl (RuntimeError ''effect failed'')"
    by (simp add: demo_svc_defs)
  then have run: "start_static_services (demo_host_env False) demo_svcs ''router'' demo_host
      = (Inl (RuntimeError ''effect failed''), snd (start_static_services (demo_host_env False) demo_svcs ''router'' demo_host))"
    by (metis prod.collapse)
  have st: "\<forall>v \<in> set demo_svcs. ss_static v" "''router'' \<in> set (map ss_name demo_svcs)"
    by (simp_all add: demo_svcs_def)
  obtain k where k: "\<forall>n. current_marker n (snd (start_static_services (demo_host_env False) demo_svcs ''router'' demo_host)) =
      (if n \<in> ss_name ` set (take (Suc k) demo_svcs) then None else current_marker n demo_host)"
    using start_static_rollback [OF st run] by blast
  have "''net'' \<in> ss_name ` set (take (Suc k) demo_svcs)" by (simp add: demo_svcs_def)
  with k show ?thesis by (simp add: demo_host_def current_marker_def)
qed

text \<open>When the services run bottom up, a start of the static services up to a target that succeeds leaves
  every service up to the target that can run on this host active.\<close>

theorem start_static_success:
  assumes "\<forall>v \<in> set vs. ss_static v" and "distinct (map ss_name vs)" and "runs_bottom_up vs s"
    and "start_static_services he vs up_to s = (Inr u, s')" and "index_of up_to (map ss_name vs) = Some i"
    and "j \<le> i" and "must_run (vs ! j)"
  shows "svc_active (ss_name (vs ! j)) s'"
proof -
  from index_of_nth_name [OF assms(5)] have i: "i < length vs" "ss_name (vs ! i) = up_to" by blast+
  show ?thesis
  proof (cases "start_loop he up_to vs [] s = (Inr u, s')")
    case True
    then show ?thesis using start_loop_ok [OF assms(1,2) i(1) refl, of he "[]" s u s'] assms(6,7) i(2) by blast
  next
    case False
    then obtain h where h: "last_active vs s = Some h" "i \<le> h" "s' = s"
      using assms(4,5) by (auto simp: start_static_services_def split: option.splits if_splits)
    from last_active_Some [OF h(1)] have "h < length vs" "svc_active (ss_name (vs ! h)) s" by blast+
    then show ?thesis
      using assms(3,6,7) h(2,3) by (cases "j = h") (auto simp: runs_bottom_up_def)
  qed
qed

theorem start_static_success_witness:
  "svc_active ''net'' (snd (start_static_services (demo_host_env True) demo_svcs ''router'' demo_host))"
proof -
  let ?r = "start_static_services (demo_host_env True) demo_svcs ''router'' demo_host"
  have "fst ?r = Inr ()" by (simp add: demo_svc_defs)
  then have run: "?r = (Inr (), snd ?r)" by (metis prod.collapse)
  have st: "\<forall>v \<in> set demo_svcs. ss_static v" "distinct (map ss_name demo_svcs)"
    "index_of ''router'' (map ss_name demo_svcs) = Some 1" "runs_bottom_up demo_svcs demo_host"
    by (auto simp: demo_svcs_def runs_bottom_up_def demo_host_def svc_active_def current_marker_def less_Suc_eq)
  from start_static_success [OF st(1,2,4) run st(3), of 0] show ?thesis by (simp add: demo_svcs_def)
qed

text \<open>Stopping the static services down to a known target leaves no marker on any service from the last one
  down to the target and does not touch the services below it, whatever the single services raise.\<close>

theorem stop_static_all:
  assumes "\<forall>v \<in> set vs. ss_static v" and "distinct (map ss_name vs)" and "i < length vs" and "ss_name (vs ! i) = down_to"
  shows "current_marker n (snd (stop_static_services he vs down_to s)) =
    (if n \<in> ss_name ` set (drop i vs) then None else current_marker n s)"
proof -
  let ?j = "length vs - Suc i"
  have j: "?j < length (rev vs)" "ss_name (rev vs ! ?j) = down_to" using assms(3,4) by (simp_all add: rev_nth)
  have "take (Suc ?j) (rev vs) = rev (drop i vs)" using assms(3) by (simp add: take_rev Suc_diff_Suc)
  then have "current_marker n (snd (stop_loop he down_to (rev vs) [] s)) =
      (if n \<in> ss_name ` set (drop i vs) then None else current_marker n s)"
    using stop_loop_marker [of "rev vs" ?j down_to n he "[]" s] assms j by (simp add: rev_map [symmetric])
  moreover have "down_to \<in> set (map ss_name vs)" using assms(3,4) by force
  ultimately show ?thesis by (auto simp: stop_static_services_def Let_def split: prod.splits)
qed

theorem stop_static_all_witness:
  "current_marker ''net'' (snd (stop_static_services (demo_host_env False) demo_svcs ''net'' demo_host)) = None"
proof -
  have "\<forall>v \<in> set demo_svcs. ss_static v" "distinct (map ss_name demo_svcs)" "0 < length demo_svcs"
    "ss_name (demo_svcs ! 0) = ''net''"
    by (simp_all add: demo_svcs_def)
  from stop_static_all [OF this, of "''net''"] show ?thesis by (simp add: demo_svcs_def)
qed

text \<open>The contexts of a running agent are entered in order up to the first that fails, and every context
  that was entered is left exactly once, in the reverse order, whichever of the contexts, the body or the
  exits raise.\<close>

theorem run_stack_balanced:
  "exited (snd (run_stack enter exit body cs)) = rev (entered (snd (run_stack enter exit body cs)))
   \<and> (\<exists>k. entered (snd (run_stack enter exit body cs)) = take k cs)"
proof (induction cs)
  case (Cons c cs)
  show ?case
  proof (cases "enter c")
    case (Inl e)
    then show ?thesis by (simp add: entered_def exited_def)
  next
    case (Inr u)
    from Cons.IH obtain k where k: "entered (snd (run_stack enter exit body cs)) = take k cs" by blast
    from Cons.IH k Inr show ?thesis
      by (auto simp: Let_def case_prod_beta entered_def exited_def intro: exI [of _ "Suc k"])
  qed
qed (simp add: entered_def exited_def)

end
