(* ===== verification/Triggerable.thy ===== *)
theory Triggerable
  imports Uno_Prelude
begin

text \<open>
  The trigger of a service thread (\<open>uno/agent/triggerable.py\<close>) as a step relation: any number of threads
  call \<open>trigger()\<close>, which sets a flag under a lock and then releases a \<open>BoundedSemaphore(1)\<close>; the service
  thread acquires the semaphore, or times out, and then takes the flag under the same lock. A step is what
  the lock makes atomic. Releasing the semaphore above its bound is Python's \<open>ValueError\<close>.
\<close>

section \<open>State\<close>

datatype service_pc = Waiting | Acquired | Handling | Stopped

record trig =
  tr_sem :: nat
  tr_triggered :: bool
  tr_active :: bool
  tr_pc :: service_pc
  tr_pending :: nat
  tr_requests :: nat
  tr_handled :: nat
  tr_error :: bool

text \<open>\<open>__init__\<close> acquires the semaphore once; \<open>start_trigger_thread\<close> sets the flag of the loop.\<close>

definition trig_init :: trig where
  "trig_init = \<lparr>tr_sem = 0, tr_triggered = False, tr_active = True, tr_pc = Waiting, tr_pending = 0,
     tr_requests = 0, tr_handled = 0, tr_error = False\<rparr>"

section \<open>Steps\<close>

text \<open>\<open>trigger\<close>, under the lock: a request that is already queued is dropped.\<close>

definition trigger_lock :: "trig \<Rightarrow> trig" where
  "trigger_lock s = (if tr_triggered s then s
     else s\<lparr>tr_triggered := True, tr_pending := tr_pending s + 1, tr_requests := tr_requests s + 1\<rparr>)"

text \<open>\<open>trigger\<close>, after the lock: \<open>release\<close>, bounded by one.\<close>

definition trigger_release :: "trig \<Rightarrow> trig" where
  "trigger_release s = (if tr_sem s \<ge> 1 then s\<lparr>tr_pending := tr_pending s - 1, tr_error := True\<rparr>
     else s\<lparr>tr_sem := tr_sem s + 1, tr_pending := tr_pending s - 1\<rparr>)"

text \<open>\<open>run\<close>: after \<open>acquire(timeout)\<close> returned, the flag is taken; a due time-out counts as a trigger.\<close>

definition service_take :: "bool \<Rightarrow> trig \<Rightarrow> trig" where
  "service_take due s =
     (let triggered = tr_triggered s \<or> due in
      s\<lparr>tr_triggered := False,
        tr_pc := (if \<not> tr_active s then Stopped else if triggered then Handling else Waiting),
        tr_handled := (if tr_active s \<and> triggered then tr_handled s + 1 else tr_handled s)\<rparr>)"

definition service_done :: "trig \<Rightarrow> trig" where
  "service_done s = s\<lparr>tr_pc := (if tr_active s then Waiting else Stopped)\<rparr>"

datatype trig_event = Lock | Release | Acquire | Timeout | Take bool | Done | LoopExit | StopRequest

inductive tstep :: "trig \<Rightarrow> trig_event \<Rightarrow> trig \<Rightarrow> bool" where
  lock: "tstep s Lock (trigger_lock s)"
| release: "0 < tr_pending s \<Longrightarrow> tstep s Release (trigger_release s)"
| acquire: "tr_pc s = Waiting \<Longrightarrow> 0 < tr_sem s \<Longrightarrow> tstep s Acquire (s\<lparr>tr_sem := tr_sem s - 1, tr_pc := Acquired\<rparr>)"
| timeout: "tr_pc s = Waiting \<Longrightarrow> tr_sem s = 0 \<Longrightarrow> tstep s Timeout (s\<lparr>tr_pc := Acquired\<rparr>)"
| taken: "tr_pc s = Acquired \<Longrightarrow> tstep s (Take due) (service_take due s)"
| "done": "tr_pc s = Handling \<Longrightarrow> tstep s Done (service_done s)"
| loop_exit: "tr_pc s = Waiting \<Longrightarrow> \<not> tr_active s \<Longrightarrow> tstep s LoopExit (s\<lparr>tr_pc := Stopped\<rparr>)"
| stop_request: "tstep s StopRequest (s\<lparr>tr_active := False\<rparr>)"

inductive_cases tstepE: "tstep s e s'"

inductive truns :: "trig \<Rightarrow> trig_event list \<Rightarrow> trig \<Rightarrow> bool" where
  truns_nil: "truns s [] s"
| truns_snoc: "truns s es s1 \<Longrightarrow> tstep s1 e s2 \<Longrightarrow> truns s (es @ [e]) s2"

lemma truns_invariant:
  assumes "truns s es s'" and "P s" and "\<And>a e b. P a \<Longrightarrow> e \<in> set es \<Longrightarrow> tstep a e b \<Longrightarrow> P b"
  shows "P s'"
  using assms
proof (induction rule: truns.induct)
  case (truns_snoc s es s1 e s2)
  have "P s1" by (rule truns_snoc.IH) (use truns_snoc.prems in auto)
  then show ?case by (rule truns_snoc.prems(2) [OF _ _ truns_snoc.hyps(2)]) simp
qed simp

section \<open>A request is not lost\<close>

text \<open>While the flag is set, the service will still be woken: the semaphore holds a permit, some caller is
  about to release it, or the service is already between the acquisition and taking the flag.\<close>

definition wake_ok :: "trig \<Rightarrow> bool" where
  "wake_ok s \<longleftrightarrow> (tr_triggered s \<longrightarrow> 0 < tr_sem s \<or> 0 < tr_pending s \<or> tr_pc s = Acquired \<or> tr_error s)"

lemma wake_step:
  assumes "wake_ok s" and "tstep s e s'" and "\<not> tr_error s'"
  shows "wake_ok s'"
  using assms(2)
proof cases
  case release
  then show ?thesis using assms by (auto simp: wake_ok_def trigger_release_def)
next
  case (taken due)
  then show ?thesis by (simp add: wake_ok_def service_take_def Let_def)
next
  case "done"
  then show ?thesis using assms by (auto simp: wake_ok_def service_done_def)
qed (use assms in \<open>auto simp: wake_ok_def trigger_lock_def\<close>)

section \<open>Without time-outs the semaphore stays within its bound\<close>

text \<open>One permit is on its way exactly while the flag is set.\<close>

definition permits :: "trig \<Rightarrow> nat" where
  "permits s = tr_sem s + tr_pending s + (if tr_pc s = Acquired then 1 else 0)"

definition bounded_ok :: "trig \<Rightarrow> bool" where
  "bounded_ok s \<longleftrightarrow> permits s = (if tr_triggered s then 1 else 0) \<and> \<not> tr_error s"

lemma bounded_step:
  assumes "bounded_ok s" and "tstep s e s'" and "e \<noteq> Timeout"
  shows "bounded_ok s'"
  using assms(2)
proof cases
  case release
  then show ?thesis using assms by (auto simp: bounded_ok_def permits_def trigger_release_def split: if_splits)
next
  case (taken due)
  then show ?thesis using assms by (auto simp: bounded_ok_def permits_def service_take_def Let_def split: if_splits)
next
  case "done"
  then show ?thesis using assms by (auto simp: bounded_ok_def permits_def service_done_def)
qed (use assms in \<open>auto simp: bounded_ok_def permits_def trigger_lock_def split: if_splits\<close>)

lemma trig_init_ok: "bounded_ok trig_init" "wake_ok trig_init"
  by (simp_all add: bounded_ok_def wake_ok_def permits_def trig_init_def)

section \<open>Properties\<close>

text \<open>As long as the service thread is woken by the semaphore only (no \<open>acquire\<close> times out), any
  interleaving of any number of callers with the service keeps the semaphore within its bound: no call of
  \<open>trigger()\<close> ever raises \<open>ValueError\<close>, and at every moment exactly one permit is on its way if a request is
  queued, none otherwise.\<close>

theorem trigger_bounded_without_timeout:
  assumes "truns trig_init es s" and "Timeout \<notin> set es"
  shows "\<not> tr_error s \<and> permits s = (if tr_triggered s then 1 else 0)"
proof -
  have "bounded_ok s"
    by (rule truns_invariant [OF assms(1)]) (use trig_init_ok bounded_step assms(2) in auto)
  then show ?thesis by (simp add: bounded_ok_def)
qed

text \<open>A run of the steps as the scheduler chooses them, and its result.\<close>

definition tapply :: "trig_event \<Rightarrow> trig \<Rightarrow> trig option" where
  "tapply e s = (case e of
     Lock \<Rightarrow> Some (trigger_lock s)
   | Release \<Rightarrow> (if 0 < tr_pending s then Some (trigger_release s) else None)
   | Acquire \<Rightarrow> (if tr_pc s = Waiting \<and> 0 < tr_sem s
       then Some (s\<lparr>tr_sem := tr_sem s - 1, tr_pc := Acquired\<rparr>) else None)
   | Timeout \<Rightarrow> (if tr_pc s = Waiting \<and> tr_sem s = 0 then Some (s\<lparr>tr_pc := Acquired\<rparr>) else None)
   | Take due \<Rightarrow> (if tr_pc s = Acquired then Some (service_take due s) else None)
   | Done \<Rightarrow> (if tr_pc s = Handling then Some (service_done s) else None)
   | LoopExit \<Rightarrow> (if tr_pc s = Waiting \<and> \<not> tr_active s then Some (s\<lparr>tr_pc := Stopped\<rparr>) else None)
   | StopRequest \<Rightarrow> Some (s\<lparr>tr_active := False\<rparr>))"

fun tplay :: "trig_event list \<Rightarrow> trig \<Rightarrow> trig option" where
  "tplay [] s = Some s"
| "tplay (e # es) s = Option.bind (tapply e s) (tplay es)"

lemma tapply_step: "tapply e s = Some s' \<Longrightarrow> tstep s e s'"
  by (cases e) (auto simp: tapply_def tstep.simps split: if_splits)

lemma truns_cons: "truns s1 es s2 \<Longrightarrow> tstep s e s1 \<Longrightarrow> truns s (e # es) s2"
proof (induction rule: truns.induct)
  case (truns_nil s1)
  then show ?case using truns_snoc [OF truns.truns_nil [of s]] by simp
next
  case (truns_snoc s1 es sa e' sb)
  then show ?case using truns.truns_snoc [of s "e # es" sa e' sb] by simp
qed

lemma tplay_truns: "tplay es s = Some s' \<Longrightarrow> truns s es s'"
proof (induction es arbitrary: s)
  case (Cons e es)
  then obtain s1 where "tapply e s = Some s1" "tplay es s1 = Some s'"
    by (auto simp: Option.bind_eq_Some_conv)
  then show ?case using Cons.IH truns_cons tapply_step by blast
qed (simp add: truns_nil)

theorem trigger_bounded_without_timeout_witness:
  "\<not> tr_error (the (tplay [Lock, Lock, Release, Acquire, Lock, Take False, Lock, Release, Done, Acquire] trig_init))"
proof -
  let ?es = "[Lock, Lock, Release, Acquire, Lock, Take False, Lock, Release, Done, Acquire]"
  have "tplay ?es trig_init \<noteq> None"
    by (simp add: tapply_def trig_init_def trigger_lock_def trigger_release_def service_take_def service_done_def)
  then obtain s where s: "tplay ?es trig_init = Some s" by blast
  from trigger_bounded_without_timeout [OF tplay_truns [OF s]] s show ?thesis by simp
qed

text \<open>With time-outs the bound is not kept, even for a single caller: the service can time out and take
  the flag before the caller releases the semaphore; the permit stays behind, and the caller's next
  \<open>trigger()\<close> raises \<open>ValueError\<close>.\<close>

theorem trigger_overflow_after_timeout:
  "\<exists>s. truns trig_init [Lock, Timeout, Take False, Release, Done, Lock, Release] s \<and> tr_error s"
proof -
  have "\<exists>s. tplay [Lock, Timeout, Take False, Release, Done, Lock, Release] trig_init = Some s \<and> tr_error s"
    by (simp add: tapply_def trig_init_def trigger_lock_def trigger_release_def service_take_def service_done_def)
  then show ?thesis using tplay_truns by blast
qed

text \<open>C27: A request is never lost, time-outs included: in every state that is reached without the
  \<open>ValueError\<close>, a queued request still has a permit in the semaphore, a caller about to release one, or a
  service thread that is about to take it.\<close>

theorem trigger_request_not_lost:
  assumes "truns trig_init es s" and "\<not> tr_error s" and "tr_triggered s"
  shows "0 < tr_sem s \<or> 0 < tr_pending s \<or> tr_pc s = Acquired"
proof -
  have mono: "tr_error a \<Longrightarrow> tr_error b" if "tstep a e b" for a e b
    using that by cases (auto simp: trigger_lock_def trigger_release_def service_take_def service_done_def Let_def)
  have "tr_error s \<or> wake_ok s"
    by (rule truns_invariant [OF assms(1)]) (use trig_init_ok wake_step mono in blast)+
  then show ?thesis using assms(2,3) by (auto simp: wake_ok_def)
qed

theorem trigger_request_not_lost_witness:
  "0 < tr_sem (the (tplay [Timeout, Lock, Take False, Release, Done, Lock] trig_init))
   \<or> 0 < tr_pending (the (tplay [Timeout, Lock, Take False, Release, Done, Lock] trig_init))
   \<or> tr_pc (the (tplay [Timeout, Lock, Take False, Release, Done, Lock] trig_init)) = Acquired"
proof -
  let ?es = "[Timeout, Lock, Take False, Release, Done, Lock]"
  have "\<exists>s. tplay ?es trig_init = Some s \<and> \<not> tr_error s \<and> tr_triggered s"
    by (simp add: tapply_def trig_init_def trigger_lock_def trigger_release_def service_take_def service_done_def)
  then obtain s where s: "tplay ?es trig_init = Some s" "\<not> tr_error s" "tr_triggered s" by blast
  from trigger_request_not_lost [OF tplay_truns [OF s(1)] s(2,3)] s(1) show ?thesis by simp
qed

end
