(* ===== verification/Versioned.thy ===== *)
theory Versioned
  imports Uno_Text
begin

text \<open>
  Versioned objects (\<open>uno/registry/versioned.py\<close>): property descriptors with their defaults, their previous
  values and their change marks, property groups, \<open>configure\<close>, and the helpers that strip serialised data. An
  object is a record; the class it belongs to is a second record, the schema, with the lists of names that
  \<open>Schema\<close> collects and the methods a subclass may define. An exception keeps what was changed before it.
\<close>

section \<open>Objects and schemas\<close>

text \<open>\<open>None\<close> is a missing value. \<open>vo_hashed\<close> and \<open>vo_repr\<close> hold the values that the cached hash and the cached
  text were computed from; \<open>vo_cached\<close> the cached properties that are filled at present.\<close>

record 'v vobj =
  vo_initialized :: bool
  vo_loaded :: bool
  vo_saved :: bool
  vo_vals :: "(string \<times> 'v option) list"
  vo_prev :: "(string \<times> 'v option) list"
  vo_changed :: "string set"
  vo_hashed :: "'v option list"
  vo_repr :: "'v option list"
  vo_cached :: "string set"

text \<open>An argument of \<open>configure\<close>: a value, or \<open>ResetValue\<close>.\<close>

datatype 'v conf = ResetValue | Given "'v option"

record 'v schema =
  sc_props :: "string list"
  sc_attrs :: "string list"
  sc_reserved :: "string list"
  sc_required :: "string list"
  sc_readonly :: "string list"
  sc_eq :: "string list"
  sc_str :: "string list"
  sc_cached :: "string list"
  sc_groups :: "(string \<times> string list) list"
  sc_default :: "string \<Rightarrow> 'v option"
  sc_prepare :: "string \<Rightarrow> ('v vobj \<Rightarrow> 'v option \<Rightarrow> 'v option res) option"
  sc_child :: "'v \<Rightarrow> ((string \<times> 'v conf) list \<Rightarrow> string set res \<times> 'v) option"
  sc_dict :: "'v \<Rightarrow> (string \<times> 'v conf) list option"
  sc_validate :: "'v vobj \<Rightarrow> unit res"

definition vget :: "string \<Rightarrow> 'v vobj \<Rightarrow> 'v option" where
  "vget k self = (case map_of (vo_vals self) k of None \<Rightarrow> None | Some v \<Rightarrow> v)"

definition vput :: "string \<Rightarrow> 'v option \<Rightarrow> 'v vobj \<Rightarrow> 'v vobj" where
  "vput k v self = self\<lparr>vo_vals := AList.update k v (vo_vals self)\<rparr>"

definition update_hash :: "'v schema \<Rightarrow> 'v vobj \<Rightarrow> 'v vobj" where
  "update_hash sc self = self\<lparr>vo_hashed := map (\<lambda>p. vget p self) (sc_eq sc)\<rparr>"

definition update_str_repr :: "'v schema \<Rightarrow> 'v vobj \<Rightarrow> 'v vobj" where
  "update_str_repr sc self = self\<lparr>vo_repr := map (\<lambda>p. vget p self) (sc_str sc)\<rparr>"

section \<open>Change marks\<close>

text \<open>A group of properties marks its members and not itself. The fuel is Python's limit of nested calls.\<close>

definition touch :: "'v schema \<Rightarrow> string \<Rightarrow> 'v vobj \<Rightarrow> 'v vobj" where
  "touch sc attr self =
     (let self1 = (if attr \<in> set (sc_eq sc) then update_hash sc self else self)
      in if attr \<in> set (sc_str sc) then update_str_repr sc self1 else self1)"

definition mark_changed :: "'v schema \<Rightarrow> string \<Rightarrow> 'v vobj \<Rightarrow> 'v vobj" where
  "mark_changed sc attr self =
     self\<lparr>vo_cached := (if attr \<in> set (sc_cached sc) then vo_cached self - {attr} else vo_cached self),
          vo_changed := insert attr (vo_changed self), vo_saved := False\<rparr>"

definition group_of :: "'v schema \<Rightarrow> string \<Rightarrow> string list" where
  "group_of sc attr = (case map_of (sc_groups sc) attr of None \<Rightarrow> [] | Some g \<Rightarrow> g)"

primrec updated_property :: "'v schema \<Rightarrow> nat \<Rightarrow> string \<Rightarrow> ('v vobj, unit) op" where
  "updated_property sc 0 attr = op_raise (RuntimeError ''RecursionError'')"
| "updated_property sc (Suc n) attr = (\<lambda>self.
     if \<not> vo_initialized self then op_return () self
     else if attr \<in> set (sc_reserved sc) then op_return () self
     else if group_of sc attr \<noteq> []
     then op_each (updated_property sc n) (group_of sc attr) (touch sc attr self)
     else op_return () (mark_changed sc attr (touch sc attr self)))"

definition recursion_limit :: nat where "recursion_limit = 1000"

section \<open>Descriptors\<close>

definition as_child :: "'v schema \<Rightarrow> 'v option \<Rightarrow> 'v option \<Rightarrow> (string set res \<times> 'v) option" where
  "as_child sc current val =
     (case (current, val) of
        (Some c, Some v) \<Rightarrow> (case (sc_child sc c, sc_dict sc v) of
            (Some conf, Some d) \<Rightarrow> Some (conf d) | _ \<Rightarrow> None)
      | _ \<Rightarrow> None)"

definition store_prop :: "'v schema \<Rightarrow> string \<Rightarrow> 'v option \<Rightarrow> ('v vobj, unit) op" where
  "store_prop sc name val self =
     (case as_child sc (vget name self) val of
        Some (Inl e, child) \<Rightarrow> op_raise e (vput name (Some child) self)
      | Some (Inr configured, child) \<Rightarrow>
          (let self1 = vput name (Some child) self in
           if name \<in> configured then updated_property sc recursion_limit name self1 else op_return () self1)
      | None \<Rightarrow>
          if vget name self \<noteq> val
          then updated_property sc recursion_limit name
                 ((vput name val self)\<lparr>vo_prev := AList.update name (vget name self) (vo_prev self)\<rparr>)
          else op_return () self)"

definition prop_set :: "'v schema \<Rightarrow> string \<Rightarrow> 'v option \<Rightarrow> ('v vobj, unit) op" where
  "prop_set sc name val self =
     (if name \<notin> set (sc_reserved sc) \<and> vo_loaded self \<and> name \<in> set (sc_readonly sc) \<and> vo_initialized self
      then op_raise (RuntimeError ''attribute is read-only'') self
      else case sc_prepare sc name of
        None \<Rightarrow> store_prop sc name val self
      | Some prepare \<Rightarrow>
          (case prepare self val of
             Inl e \<Rightarrow> op_raise e self
           | Inr None \<Rightarrow> op_return () self
           | Inr (Some v) \<Rightarrow> store_prop sc name (Some v) self))"

definition prop_init :: "'v schema \<Rightarrow> string \<Rightarrow> 'v option \<Rightarrow> ('v vobj, unit) op" where
  "prop_init sc name init_val self =
     (let self1 = vput name (sc_default sc name) self in
      if name \<in> set (sc_required sc) \<and> vget name self1 = None \<and> init_val = None
      then op_raise (ValueError ''missing required property'') self1
      else if init_val \<noteq> None then prop_set sc name init_val self1 else op_return () self1)"

definition schema_init :: "'v schema \<Rightarrow> (string \<times> 'v option) list \<Rightarrow> ('v vobj, unit) op" where
  "schema_init sc initial =
     op_then (op_each (\<lambda>p. prop_init sc p (case map_of initial p of None \<Rightarrow> None | Some v \<Rightarrow> v)) (sc_props sc))
       (op_modify (\<lambda>self. self\<lparr>vo_initialized := True\<rparr>))"

definition blank :: "'v vobj" where
  "blank = \<lparr>vo_initialized = False, vo_loaded = False, vo_saved = False, vo_vals = [], vo_prev = [],
     vo_changed = {}, vo_hashed = [], vo_repr = [], vo_cached = {}\<rparr>"

text \<open>The constructor; \<open>load_nested\<close> does nothing in this class.\<close>

definition vobj_new :: "'v schema \<Rightarrow> (string \<times> 'v option) list \<Rightarrow> 'v vobj res" where
  "vobj_new sc initial =
     (case schema_init sc initial (update_str_repr sc blank) of
        (Inl e, _) \<Rightarrow> Inl e
      | (Inr _, self) \<Rightarrow> Inr ((update_hash sc (update_str_repr sc self))\<lparr>vo_initialized := True\<rparr>))"

definition changed_values :: "'v schema \<Rightarrow> 'v vobj \<Rightarrow> (string \<times> 'v option) list" where
  "changed_values sc self =
     (if vo_changed self = {} then []
      else concat (map (\<lambda>p. case map_of (vo_prev self) p of None \<Rightarrow> [] | Some v \<Rightarrow> [(p, v)]) (sc_props sc)))"

definition clear_changed :: "'v schema \<Rightarrow> string list option \<Rightarrow> 'v vobj \<Rightarrow> 'v vobj" where
  "clear_changed sc properties self =
     (case properties of
        None \<Rightarrow> self\<lparr>vo_changed := {}, vo_prev := filter (\<lambda>(p, _). p \<notin> set (sc_props sc)) (vo_prev self)\<rparr>
      | Some ps \<Rightarrow> self\<lparr>vo_changed := vo_changed self - set ps,
                   vo_prev := filter (\<lambda>(p, _). \<not> (p \<in> set ps \<and> p \<in> set (sc_props sc))) (vo_prev self)\<rparr>)"

definition reset_cached_properties :: "'v schema \<Rightarrow> 'v vobj \<Rightarrow> 'v vobj" where
  "reset_cached_properties sc self =
     update_hash sc (update_str_repr sc (self\<lparr>vo_cached := vo_cached self - set (sc_cached sc)\<rparr>))"

section \<open>Configuration\<close>

definition set_attr :: "'v schema \<Rightarrow> string \<Rightarrow> 'v option \<Rightarrow> ('v vobj, unit) op" where
  "set_attr sc k v = (if k \<in> set (sc_props sc) then prop_set sc k v else op_modify (vput k v))"

text \<open>One argument; the result are the names to report. A child that is configured with a dictionary reports
  its own names behind the name of the property.\<close>

definition configure_one :: "'v schema \<Rightarrow> string \<times> 'v conf \<Rightarrow> ('v vobj, string set) op" where
  "configure_one sc kv =
     (case kv of
        (k, ResetValue) \<Rightarrow>
          op_then (if k \<in> set (sc_props sc) then prop_init sc k None else op_modify (vput k None)) (op_return {})
      | (k, Given v) \<Rightarrow> (\<lambda>self.
          case as_child sc (vget k self) v of
            Some (Inl e, child) \<Rightarrow> op_raise e (vput k (Some child) self)
          | Some (Inr changed, child) \<Rightarrow>
              op_return (if changed = {} then {} else insert k ((\<lambda>ch. k @ ''.'' @ ch) ` changed)) (vput k (Some child) self)
          | None \<Rightarrow> op_bind (set_attr sc k v) (\<lambda>_ self1. op_return (if k \<in> vo_changed self1 then {k} else {}) self1) self))"

fun configure_all :: "'v schema \<Rightarrow> (string \<times> 'v conf) list \<Rightarrow> string set \<Rightarrow> ('v vobj, string set) op" where
  "configure_all sc [] configured = op_return configured"
| "configure_all sc (kv # kvs) configured =
     op_bind (configure_one sc kv) (\<lambda>names. configure_all sc kvs (configured \<union> names))"

definition conf_relevant :: "'v schema \<Rightarrow> bool \<Rightarrow> string \<times> 'v conf \<Rightarrow> bool" where
  "conf_relevant sc everything kv =
     (fst kv \<in> set (sc_props sc @ sc_attrs sc) \<and> snd kv \<noteq> Given None
        \<and> (everything \<or> fst kv \<notin> set (sc_readonly sc)))"

definition configure :: "'v schema \<Rightarrow> bool \<Rightarrow> (string \<times> 'v conf) list \<Rightarrow> ('v vobj, string set) op" where
  "configure sc everything args =
     (let relevant = filter (conf_relevant sc everything) args in
      if relevant = [] then op_return {}
      else op_bind (configure_all sc relevant {}) (\<lambda>configured self.
        case sc_validate sc self of Inl e \<Rightarrow> op_raise (RuntimeError ''ValidationError'') self
        | Inr _ \<Rightarrow> op_return configured self))"

section \<open>Methods that are switched off\<close>

text \<open>\<open>disabled_if\<close>, \<open>error_if\<close>, \<open>static_if\<close> and \<open>dispatch_if\<close>: the wrapper of a method that is not allowed, or is
  replaced, under a condition. Without an error and without a replacement the call does nothing.\<close>

definition disabled_if ::
  "('s \<Rightarrow> bool) \<Rightarrow> ('s, 'a) op option \<Rightarrow> bool \<Rightarrow> bool \<Rightarrow> 'a \<Rightarrow> ('s, 'a) op \<Rightarrow> ('s, 'a) op" where
  "disabled_if cond dispatch error neg none wrapped self =
     (if (cond self \<and> \<not> neg) \<or> (\<not> cond self \<and> neg) then
        (if error then op_raise (TypeError ''method disabled'') self
         else case dispatch of Some other \<Rightarrow> other self | None \<Rightarrow> op_return none self)
      else wrapped self)"

definition error_if :: "('s \<Rightarrow> bool) \<Rightarrow> bool \<Rightarrow> ('s, 'a) op \<Rightarrow> ('s, 'a) op" where
  "error_if cond neg wrapped self =
     (if (cond self \<and> \<not> neg) \<or> (\<not> cond self \<and> neg) then op_raise (TypeError ''method disabled'') self else wrapped self)"

lemma error_if_disabled: "error_if cond neg wrapped = disabled_if cond d True neg none wrapped"
  by (rule ext) (simp add: error_if_def disabled_if_def)

definition static_if :: "('s \<Rightarrow> bool) \<Rightarrow> 'a \<Rightarrow> ('s, 'a) op \<Rightarrow> ('s, 'a) op" where
  "static_if cond retval wrapped = disabled_if cond (Some (op_return retval)) False False retval wrapped"

definition dispatch_if :: "('s \<Rightarrow> bool) \<Rightarrow> ('s, 'a) op \<Rightarrow> 'a \<Rightarrow> ('s, 'a) op \<Rightarrow> ('s, 'a) op" where
  "dispatch_if cond dispatch none wrapped = disabled_if cond (Some dispatch) False False none wrapped"

section \<open>Serialised data\<close>

text \<open>A list is stripped when its first element is a dictionary; its other elements must be dictionaries too.
  A value that is false after all, but for \<open>False\<close> itself, is left out.\<close>

fun strip_dict :: "(string \<times> (json \<Rightarrow> json)) list \<Rightarrow> (string \<times> json) list \<Rightarrow> (string \<times> json) list res"
  and strip_elems :: "(string \<times> (json \<Rightarrow> json)) list \<Rightarrow> json list \<Rightarrow> json list res"
  and strip_value :: "(string \<times> (json \<Rightarrow> json)) list \<Rightarrow> json \<Rightarrow> json res" where
  "strip_dict repl [] = Inr []"
| "strip_dict repl ((k, v) # kvs) =
     rbind (case map_of repl k of Some r \<Rightarrow> Inr (r v) | None \<Rightarrow> strip_value repl v) (\<lambda>v'.
     rbind (strip_dict repl kvs) (\<lambda>rest.
       Inr (if v' \<noteq> JBool False \<and> \<not> truthy v' then rest else (k, v') # rest)))"
| "strip_elems repl [] = Inr []"
| "strip_elems repl (e # es) =
     (case e of
        JObj d \<Rightarrow> rbind (strip_dict repl d) (\<lambda>d'. rbind (strip_elems repl es) (\<lambda>es'. Inr (JObj d' # es')))
      | _ \<Rightarrow> Inl (AttributeError ''items''))"
| "strip_value repl v =
     (case v of
        JObj d \<Rightarrow> rbind (strip_dict repl d) (\<lambda>d'. Inr (JObj d'))
      | JList (JObj d # es) \<Rightarrow> rbind (strip_elems repl (JObj d # es)) (\<lambda>es'. Inr (JList es'))
      | _ \<Rightarrow> Inr v)"

definition strip_serialized_fields ::
  "(string \<times> (json \<Rightarrow> json)) list \<Rightarrow> (string \<times> json) list \<Rightarrow> (string \<times> json) list res" where
  "strip_serialized_fields repl d = strip_dict repl d"

definition omitted :: json where "omitted = JStr ''<omitted>''"

definition secret_keys :: "string list" where "secret_keys = [''privkey'', ''psk'', ''psks'']"

definition strip_serialized_secrets :: "(string \<times> json) list \<Rightarrow> (string \<times> json) list res" where
  "strip_serialized_secrets d =
     strip_serialized_fields [(''privkey'', \<lambda>_. omitted), (''psk'', \<lambda>_. omitted), (''psks'', \<lambda>_. omitted)] d"

section \<open>Names and enumerations\<close>

definition ascii_upper :: "char \<Rightarrow> char" where
  "ascii_upper c = (let n = of_char c :: nat in if 97 \<le> n \<and> n \<le> 122 then char_of (n - 32) else c)"

definition replace_char :: "char \<Rightarrow> char \<Rightarrow> string \<Rightarrow> string" where
  "replace_char a b s = map (\<lambda>c. if c = a then b else c) s"

definition prepare_enum :: "string list \<Rightarrow> string \<Rightarrow> string res" where
  "prepare_enum names val =
     (let name = replace_char (CHR ''-'') (CHR ''_'') (map ascii_upper val)
      in if name \<in> set names then Inr name else Inl KeyError)"

definition serialize_enum :: "string \<Rightarrow> string" where
  "serialize_enum name = replace_char (CHR ''_'') (CHR ''-'') (map ascii_lower name)"

definition RESERVED_KEYWORDS :: "string list" where
  "RESERVED_KEYWORDS = [''registry'', ''agent'', ''uvn'', ''cell'', ''particle'', ''user'', ''network'', ''lan'',
     ''vpn'', ''port'', ''server'', ''address'', ''owner'']"

definition prepare_name :: "string \<Rightarrow> string res" where
  "prepare_name val =
     (if val = [] then Inl (ValueError ''invalid name'')
      else if map ascii_lower val \<in> set RESERVED_KEYWORDS then Inl (RuntimeError ''is a reserved keyword'')
      else Inr val)"

definition prepare_address :: "string option \<Rightarrow> string option res" where
  "prepare_address val = (if val = Some [] then Inl (ValueError ''invalid cell address'') else Inr val)"

section \<open>What a change marks\<close>

text \<open>The properties that a name stands for: itself, or the members of its group, and so on.\<close>

inductive leaf_of :: "'v schema \<Rightarrow> string \<Rightarrow> string \<Rightarrow> bool" for sc where
  plain: "attr \<notin> set (sc_reserved sc) \<Longrightarrow> group_of sc attr = [] \<Longrightarrow> leaf_of sc attr attr"
| member: "attr \<notin> set (sc_reserved sc) \<Longrightarrow> x \<in> set (group_of sc attr) \<Longrightarrow> leaf_of sc x y \<Longrightarrow> leaf_of sc attr y"

inductive_simps leaf_of_iff: "leaf_of sc attr y"

text \<open>No group contains itself, directly or through others.\<close>

definition ranked :: "'v schema \<Rightarrow> (string \<Rightarrow> nat) \<Rightarrow> bool" where
  "ranked sc r \<longleftrightarrow> (\<forall>attr. \<forall>x \<in> set (group_of sc attr). r x < r attr)"

lemma touch_simps [simp]:
  "vo_initialized (touch sc a self) = vo_initialized self"
  "vo_loaded (touch sc a self) = vo_loaded self"
  "vo_saved (touch sc a self) = vo_saved self"
  "vo_vals (touch sc a self) = vo_vals self"
  "vo_prev (touch sc a self) = vo_prev self"
  "vo_changed (touch sc a self) = vo_changed self"
  "vget p (touch sc a self) = vget p self"
  by (simp_all add: touch_def Let_def update_hash_def update_str_repr_def vget_def)

lemma mark_simps [simp]:
  "vo_initialized (mark_changed sc a self) = vo_initialized self"
  "vo_loaded (mark_changed sc a self) = vo_loaded self"
  "vo_vals (mark_changed sc a self) = vo_vals self"
  "vo_prev (mark_changed sc a self) = vo_prev self"
  "vo_changed (mark_changed sc a self) = insert a (vo_changed self)"
  "vo_saved (mark_changed sc a self) = False"
  "vo_hashed (mark_changed sc a self) = vo_hashed self"
  "vo_repr (mark_changed sc a self) = vo_repr self"
  "vget p (mark_changed sc a self) = vget p self"
  by (simp_all add: mark_changed_def vget_def)

lemma vput_simps [simp]:
  "vo_initialized (vput k v self) = vo_initialized self"
  "vo_loaded (vput k v self) = vo_loaded self"
  "vo_saved (vput k v self) = vo_saved self"
  "vo_prev (vput k v self) = vo_prev self"
  "vo_changed (vput k v self) = vo_changed self"
  "vo_hashed (vput k v self) = vo_hashed self"
  "vo_repr (vput k v self) = vo_repr self"
  "vget p (vput k v self) = (if p = k then v else vget p self)"
  by (simp_all add: vput_def vget_def)

text \<open>What every step of \<open>updated_property\<close> leaves alone, raised or not.\<close>

definition same_values :: "'v vobj \<Rightarrow> 'v vobj \<Rightarrow> bool" where
  "same_values self self' \<longleftrightarrow> vo_vals self' = vo_vals self \<and> vo_prev self' = vo_prev self
     \<and> vo_initialized self' = vo_initialized self \<and> vo_loaded self' = vo_loaded self
     \<and> vo_changed self \<subseteq> vo_changed self'"

lemma same_values_refl [simp]: "same_values self self"
  by (simp add: same_values_def)

lemma same_values_trans: "same_values a b \<Longrightarrow> same_values b c \<Longrightarrow> same_values a c"
  by (auto simp: same_values_def)

lemma same_values_touch: "same_values (touch sc a self) self' \<Longrightarrow> same_values self self'"
  by (simp add: same_values_def)

lemma updated_property_frame: "updated_property sc n attr self = (r, self') \<Longrightarrow> same_values self self'"
proof (induction n arbitrary: attr self r self')
  case 0
  then show ?case by (simp add: op_simps)
next
  case (Suc n)
  show ?case
  proof (cases "vo_initialized self \<and> attr \<notin> set (sc_reserved sc) \<and> group_of sc attr \<noteq> []")
    case True
    then have e: "op_each (updated_property sc n) (group_of sc attr) (touch sc attr self) = (r, self')"
      using Suc.prems by simp
    have "same_values (touch sc attr self) self'"
      by (rule op_each_inv [where P = "same_values (touch sc attr self)", OF _ _ e])
        (auto intro: Suc.IH same_values_trans)
    then show ?thesis by (rule same_values_touch)
  next
    case False
    then show ?thesis using Suc.prems by (auto simp: op_simps same_values_def split: if_splits)
  qed
qed

lemma op_each_total:
  "(\<And>x s. x \<in> set xs \<Longrightarrow> P s \<Longrightarrow> \<exists>s'. f x s = (Inr (), s') \<and> P s' \<and> V s' = V s \<union> W x) \<Longrightarrow> P s
    \<Longrightarrow> \<exists>s'. op_each f xs s = (Inr (), s') \<and> P s' \<and> V s' = V s \<union> (\<Union>x \<in> set xs. W x)"
proof (induction xs arbitrary: s)
  case (Cons x xs)
  from Cons.prems(1) [of x s] Cons.prems(2) obtain s1 where 1: "f x s = (Inr (), s1)" "P s1" "V s1 = V s \<union> W x"
    by auto
  from Cons.IH [OF Cons.prems(1) 1(2)] obtain s' where
    "op_each f xs s1 = (Inr (), s')" "P s'" "V s' = V s1 \<union> (\<Union>x \<in> set xs. W x)" by (auto simp: list.set_intros(2))
  then show ?case using 1 by (intro exI [of _ s']) (simp add: op_then_def op_bind_def Un_assoc)
qed (simp add: op_return_def)

lemma updated_property_marks:
  assumes "ranked sc r"
  shows "vo_initialized self \<Longrightarrow> r attr < n \<Longrightarrow> \<exists>self'. updated_property sc n attr self = (Inr (), self')
    \<and> vo_initialized self' \<and> vo_changed self' = vo_changed self \<union> {x. leaf_of sc attr x}"
proof (induction n arbitrary: attr self)
  case (Suc n)
  show ?case
  proof (cases "attr \<in> set (sc_reserved sc)")
    case True
    then show ?thesis using Suc.prems by (simp add: op_return_def leaf_of_iff [of sc attr])
  next
    case False
    show ?thesis
    proof (cases "group_of sc attr = []")
      case True
      then show ?thesis using Suc.prems False by (auto simp: op_return_def leaf_of_iff [of sc attr])
    next
      case grp: False
      have "\<exists>s'. op_each (updated_property sc n) (group_of sc attr) (touch sc attr self) = (Inr (), s')
        \<and> vo_initialized s' \<and> vo_changed s' = vo_changed (touch sc attr self)
            \<union> (\<Union>x \<in> set (group_of sc attr). {y. leaf_of sc x y})"
      proof (rule op_each_total)
        fix x and s :: "'a vobj" assume x: "x \<in> set (group_of sc attr)" and i: "vo_initialized s"
        have "r x < n" using assms x Suc.prems(2) by (fastforce simp: ranked_def)
        then show "\<exists>s'. updated_property sc n x s = (Inr (), s') \<and> vo_initialized s'
          \<and> vo_changed s' = vo_changed s \<union> {y. leaf_of sc x y}" using Suc.IH i by blast
      qed (use Suc.prems in simp)
      moreover have "{y. leaf_of sc attr y} = (\<Union>x \<in> set (group_of sc attr). {y. leaf_of sc x y})"
        using False grp by (auto simp: leaf_of_iff [of sc attr])
      ultimately show ?thesis using Suc.prems False grp by simp
    qed
  qed
qed simp

text \<open>A group that contains itself exhausts any number of nested calls.\<close>

lemma updated_property_cyclic:
  assumes "group_of sc attr = attr # g" and "attr \<notin> set (sc_reserved sc)" and "vo_initialized self"
  shows "\<exists>self'. updated_property sc n attr self = (Inl (RuntimeError ''RecursionError''), self')"
  using assms
proof (induction n arbitrary: self)
  case (Suc n)
  from Suc.IH [OF Suc.prems(1,2), of "touch sc attr self"] Suc.prems(3) obtain self' where
    "updated_property sc n attr (touch sc attr self) = (Inl (RuntimeError ''RecursionError''), self')" by auto
  then show ?case using Suc.prems by (simp add: op_then_def op_bind_def)
qed (simp add: op_raise_def)

section \<open>The cached hash\<close>

definition hash_ok :: "'v schema \<Rightarrow> 'v vobj \<Rightarrow> bool" where
  "hash_ok sc self \<longleftrightarrow> vo_hashed self = map (\<lambda>p. vget p self) (sc_eq sc)
     \<and> vo_repr self = map (\<lambda>p. vget p self) (sc_str sc)"

lemma hash_ok_touch: "hash_ok sc self \<Longrightarrow> hash_ok sc (touch sc a self)"
  by (simp add: hash_ok_def touch_def Let_def update_hash_def update_str_repr_def vget_def)

lemma hash_ok_mark: "hash_ok sc self \<Longrightarrow> hash_ok sc (mark_changed sc a self)"
  by (simp add: hash_ok_def)

text \<open>\<open>stale sc a self\<close>: the cached values are right but perhaps at the property \<open>a\<close>.\<close>

definition stale :: "'v schema \<Rightarrow> string \<Rightarrow> 'v vobj \<Rightarrow> bool" where
  "stale sc a self \<longleftrightarrow> (a \<notin> set (sc_eq sc) \<longrightarrow> vo_hashed self = map (\<lambda>p. vget p self) (sc_eq sc))
     \<and> (a \<notin> set (sc_str sc) \<longrightarrow> vo_repr self = map (\<lambda>p. vget p self) (sc_str sc))"

lemma stale_vput: "hash_ok sc self \<Longrightarrow> stale sc a (vput a v self)"
  by (auto simp: stale_def hash_ok_def)

lemma stale_prev [simp]: "stale sc a (self\<lparr>vo_prev := x\<rparr>) = stale sc a self"
  by (simp add: stale_def vget_def)

lemma hash_ok_touch_stale: "stale sc a self \<Longrightarrow> hash_ok sc (touch sc a self)"
  by (auto simp: stale_def hash_ok_def touch_def Let_def update_hash_def update_str_repr_def vget_def)

lemma updated_property_hash_ok:
  "hash_ok sc self \<Longrightarrow> updated_property sc n attr self = (r, self') \<Longrightarrow> hash_ok sc self'"
proof (induction n arbitrary: attr self r self')
  case (Suc n)
  show ?case
  proof (cases "vo_initialized self \<and> attr \<notin> set (sc_reserved sc) \<and> group_of sc attr \<noteq> []")
    case True
    then have e: "op_each (updated_property sc n) (group_of sc attr) (touch sc attr self) = (r, self')"
      using Suc.prems by simp
    show ?thesis
      by (rule op_each_inv [where P = "hash_ok sc", OF _ _ e]) (auto intro: Suc.IH hash_ok_touch [OF Suc.prems(1)])
  next
    case False
    then show ?thesis using Suc.prems
      by (auto simp: op_simps hash_ok_mark hash_ok_touch split: if_splits)
  qed
qed (simp add: op_simps)

lemma updated_property_refreshes:
  assumes "stale sc attr self" and "vo_initialized self" and "attr \<notin> set (sc_reserved sc)"
    and "0 < n" and "updated_property sc n attr self = (r, self')"
  shows "hash_ok sc self'"
proof (cases "group_of sc attr = []")
  case True
  then show ?thesis using assms by (cases n) (auto simp: op_simps hash_ok_mark hash_ok_touch_stale)
next
  case False
  obtain m where m: "n = Suc m" using assms(4) by (cases n) auto
  have e: "op_each (updated_property sc m) (group_of sc attr) (touch sc attr self) = (r, self')"
    using assms False by (simp add: m)
  show ?thesis
    by (rule op_each_inv [where P = "hash_ok sc", OF _ _ e])
      (auto intro: updated_property_hash_ok hash_ok_touch_stale [OF assms(1)])
qed

text \<open>The properties in the hash and in the text are neither reserved nor hold objects of their own.\<close>

definition id_props :: "'v schema \<Rightarrow> string set" where
  "id_props sc = set (sc_eq sc) \<union> set (sc_str sc)"

definition id_schema :: "'v schema \<Rightarrow> bool" where
  "id_schema sc \<longleftrightarrow> id_props sc \<inter> set (sc_reserved sc) = {}
     \<and> (\<forall>p f self v w. p \<in> id_props sc \<and> sc_prepare sc p = Some f \<and> f self v = Inr (Some w) \<longrightarrow> sc_dict sc w = None)"

definition conf_plain :: "'v schema \<Rightarrow> string \<times> 'v conf \<Rightarrow> bool" where
  "conf_plain sc kv \<longleftrightarrow> (fst kv \<in> id_props sc \<longrightarrow> fst kv \<in> set (sc_props sc)
     \<and> (case snd kv of ResetValue \<Rightarrow> False | Given v \<Rightarrow> (\<forall>w. v = Some w \<longrightarrow> sc_dict sc w = None)))"

lemma as_child_no_dict: "(\<And>w. v = Some w \<Longrightarrow> sc_dict sc w = None) \<Longrightarrow> as_child sc c v = None"
  by (auto simp: as_child_def split: option.splits)

lemma hash_ok_vput_other: "hash_ok sc self \<Longrightarrow> k \<notin> id_props sc \<Longrightarrow> hash_ok sc (vput k v self)"
  by (auto simp: hash_ok_def id_props_def)

lemma hash_ok_prev [simp]: "hash_ok sc (self\<lparr>vo_prev := x\<rparr>) = hash_ok sc self"
  by (simp add: hash_ok_def vget_def)

lemma recursion_limit_pos: "0 < recursion_limit"
  by (simp add: recursion_limit_def)

lemma store_prop_hash_ok:
  assumes ok: "hash_ok sc self" and init: "vo_initialized self"
    and name: "name \<in> id_props sc \<Longrightarrow> name \<notin> set (sc_reserved sc) \<and> as_child sc (vget name self) val = None"
    and r: "store_prop sc name val self = (r, self')"
  shows "hash_ok sc self'"
proof (cases "name \<in> id_props sc")
  case False
  show ?thesis using r hash_ok_vput_other [OF ok False] ok
    by (auto simp: store_prop_def Let_def op_return_def op_raise_def
        split: option.splits if_splits sum.splits prod.splits intro: updated_property_hash_ok [rotated])
next
  case True
  let ?s1 = "(vput name val self)\<lparr>vo_prev := AList.update name (vget name self) (vo_prev self)\<rparr>"
  have "self' = self \<or> updated_property sc recursion_limit name ?s1 = (r, self')"
    using r name [OF True] by (auto simp: store_prop_def op_return_def split: if_splits)
  moreover have "stale sc name ?s1" using stale_vput [OF ok] by simp
  moreover have "vo_initialized ?s1" using init by simp
  ultimately show ?thesis using updated_property_refreshes recursion_limit_pos name [OF True] ok by metis
qed

lemma prop_set_hash_ok:
  assumes "id_schema sc" and "hash_ok sc self" and "vo_initialized self"
    and "\<And>w. name \<in> id_props sc \<Longrightarrow> val = Some w \<Longrightarrow> sc_dict sc w = None"
    and "prop_set sc name val self = (r, self')"
  shows "hash_ok sc self'"
proof -
  have res: "name \<in> id_props sc \<Longrightarrow> name \<notin> set (sc_reserved sc)" using assms(1) by (auto simp: id_schema_def)
  show ?thesis
  proof (cases "sc_prepare sc name")
    case None
    have "store_prop sc name val self = (r, self') \<or> self' = self" using assms(5) None
      by (auto simp: prop_set_def op_raise_def split: if_splits)
    then show ?thesis using store_prop_hash_ok [OF assms(2,3)] res as_child_no_dict assms(2,4) by metis
  next
    case (Some f)
    have "(\<exists>v. f self val = Inr (Some v) \<and> store_prop sc name (Some v) self = (r, self')) \<or> self' = self"
      using assms(5) Some by (auto simp: prop_set_def op_raise_def op_return_def split: if_splits sum.splits option.splits)
    moreover have "as_child sc c (Some v) = None" if "f self val = Inr (Some v)" "name \<in> id_props sc" for v c
      using assms(1) that Some by (intro as_child_no_dict) (auto simp: id_schema_def)
    ultimately show ?thesis using store_prop_hash_ok [OF assms(2,3)] res assms(2) by metis
  qed
qed

text \<open>Values and flags of \<open>prop_set\<close>.\<close>

lemma store_prop_frame:
  assumes "store_prop sc name val self = (r, self')"
  shows "vo_initialized self' = vo_initialized self \<and> vo_loaded self' = vo_loaded self
    \<and> vo_changed self \<subseteq> vo_changed self' \<and> (\<forall>p. p \<noteq> name \<longrightarrow> vget p self' = vget p self)"
proof -
  have u: "vo_initialized s2 = vo_initialized s1 \<and> vo_loaded s2 = vo_loaded s1 \<and> vo_changed s1 \<subseteq> vo_changed s2
      \<and> vo_vals s2 = vo_vals s1" if "updated_property sc recursion_limit name s1 = (r, s2)" for s1 s2
    using updated_property_frame [OF that] by (simp add: same_values_def)
  show ?thesis using assms
    by (auto simp: store_prop_def Let_def op_return_def op_raise_def vget_def vput_def
        split: option.splits if_splits sum.splits prod.splits dest!: u)
qed

lemma prop_set_frame:
  assumes "prop_set sc name val self = (r, self')"
  shows "vo_initialized self' = vo_initialized self \<and> vo_loaded self' = vo_loaded self
    \<and> vo_changed self \<subseteq> vo_changed self' \<and> (\<forall>p. p \<noteq> name \<longrightarrow> vget p self' = vget p self)"
proof -
  have "self' = self \<or> (\<exists>v. store_prop sc name v self = (r, self'))" using assms
    by (auto simp: prop_set_def op_return_def op_raise_def split: option.splits if_splits sum.splits)
  then show ?thesis
  proof
    assume "\<exists>v. store_prop sc name v self = (r, self')"
    then obtain v where "store_prop sc name v self = (r, self')" ..
    then show ?thesis by (rule store_prop_frame)
  qed simp
qed

section \<open>Configuring an object\<close>

definition childless :: "'v schema \<Rightarrow> bool" where
  "childless sc \<longleftrightarrow> (\<forall>c. sc_child sc c = None)"

lemma childless_as_child: "childless sc \<Longrightarrow> as_child sc c v = None"
  by (auto simp: childless_def as_child_def split: option.splits)

definition conf_frame :: "string set \<Rightarrow> 'v vobj \<Rightarrow> 'v vobj \<Rightarrow> bool" where
  "conf_frame ks self self' \<longleftrightarrow> vo_initialized self' = vo_initialized self
     \<and> vo_changed self \<subseteq> vo_changed self' \<and> (\<forall>p. p \<notin> ks \<longrightarrow> vget p self' = vget p self)"

lemma conf_frame_refl [simp]: "conf_frame ks self self"
  by (simp add: conf_frame_def)

lemma conf_frame_trans: "conf_frame ks a b \<Longrightarrow> conf_frame ks b c \<Longrightarrow> conf_frame ks a c"
  by (auto simp: conf_frame_def)

lemma conf_frame_vput [simp]: "k \<in> ks \<Longrightarrow> conf_frame ks self (vput k v self)"
  by (auto simp: conf_frame_def)

lemma prop_set_conf_frame: "k \<in> ks \<Longrightarrow> prop_set sc k v self = (r, self') \<Longrightarrow> conf_frame ks self self'"
  using prop_set_frame [of sc k v self r self'] by (auto simp: conf_frame_def)

lemma set_attr_conf_frame: "k \<in> ks \<Longrightarrow> set_attr sc k v self = (r, self') \<Longrightarrow> conf_frame ks self self'"
  by (auto simp: set_attr_def op_modify_def intro: prop_set_conf_frame split: if_splits)

lemma prop_init_conf_frame: "k \<in> ks \<Longrightarrow> prop_init sc k None self = (r, self') \<Longrightarrow> conf_frame ks self self'"
  by (auto simp: prop_init_def Let_def op_simps split: if_splits)

lemma configure_one_frame:
  assumes "fst kv \<in> ks" and "configure_one sc kv self = (r, self')" shows "conf_frame ks self self'"
proof -
  obtain k c where kv: "kv = (k, c)" by (cases kv)
  show ?thesis
  proof (cases c)
    case ResetValue
    then show ?thesis using assms kv prop_init_conf_frame [of k ks sc self]
      by (auto simp: configure_one_def op_simps split: if_splits prod.splits sum.splits)
  next
    case (Given v)
    show ?thesis
    proof (cases "as_child sc (vget k self) v")
      case None
      obtain r1 s1 where s: "set_attr sc k v self = (r1, s1)" by (cases "set_attr sc k v self")
      then have "self' = s1" using assms(2) kv Given None
        by (auto simp: configure_one_def op_bind_def op_return_def split: sum.splits)
      then show ?thesis using set_attr_conf_frame [OF _ s] assms(1) kv by simp
    next
      case (Some a)
      then show ?thesis using assms kv Given
        by (auto simp: configure_one_def op_simps split: prod.splits sum.splits)
    qed
  qed
qed

lemma configure_one_hash_ok:
  assumes "id_schema sc" and "hash_ok sc self" and "vo_initialized self" and "conf_plain sc kv"
    and "configure_one sc kv self = (r, self')"
  shows "hash_ok sc self'"
proof -
  obtain k c where kv: "kv = (k, c)" by (cases kv)
  show ?thesis
  proof (cases "k \<in> id_props sc")
    case True
    then obtain v where c: "c = Given v" "k \<in> set (sc_props sc)" "\<And>w. v = Some w \<Longrightarrow> sc_dict sc w = None"
      using assms(4) kv by (auto simp: conf_plain_def split: conf.splits)
    have "as_child sc (vget k self) v = None" using as_child_no_dict c(3) by blast
    moreover obtain r1 s1 where s: "prop_set sc k v self = (r1, s1)" by (cases "prop_set sc k v self")
    ultimately have "self' = s1" using assms(5) kv c
      by (auto simp: configure_one_def set_attr_def op_bind_def op_return_def split: sum.splits)
    moreover have "hash_ok sc s1" using prop_set_hash_ok [OF assms(1-3) _ s] c(3) by blast
    ultimately show ?thesis by simp
  next
    case False
    have v: "hash_ok sc (vput k x self)" for x using hash_ok_vput_other [OF assms(2) False] .
    have "hash_ok sc s1" if "prop_set sc k x self = (r1, s1)" for x r1 s1
      using prop_set_hash_ok [OF assms(1-3) _ that] False by blast
    then show ?thesis using assms(5) kv v assms(2)
      by (auto simp: configure_one_def set_attr_def prop_init_def Let_def op_simps
          split: conf.splits prod.splits sum.splits if_splits option.splits)
  qed
qed

lemma configure_all_inv:
  assumes "\<And>kv s r s'. kv \<in> set kvs \<Longrightarrow> P s \<Longrightarrow> configure_one sc kv s = (r, s') \<Longrightarrow> P s'"
  shows "P self \<Longrightarrow> configure_all sc kvs acc self = (r, self') \<Longrightarrow> P self'"
  using assms
proof (induction kvs arbitrary: acc self)
  case (Cons kv kvs)
  obtain r1 s1 where 1: "configure_one sc kv self = (r1, s1)" by (cases "configure_one sc kv self")
  have "P s1" by (rule Cons.prems(3) [OF _ Cons.prems(1) 1]) simp
  show ?case
  proof (cases r1)
    case (Inl e)
    then show ?thesis using Cons.prems(2) 1 \<open>P s1\<close> by (simp add: op_bind_def)
  next
    case (Inr names)
    then have "configure_all sc kvs (acc \<union> names) s1 = (r, self')" using Cons.prems(2) 1 by (simp add: op_bind_def)
    with \<open>P s1\<close> show ?thesis by (rule Cons.IH) (rule Cons.prems(3) [OF list.set_intros(2)])
  qed
qed (simp add: op_return_def)

lemma configure_inv:
  assumes "\<And>kv s r s'. kv \<in> set args \<Longrightarrow> conf_relevant sc everything kv \<Longrightarrow> P s
      \<Longrightarrow> configure_one sc kv s = (r, s') \<Longrightarrow> P s'"
    and "P self" and "configure sc everything args self = (r, self')"
  shows "P self'"
proof -
  let ?rel = "filter (conf_relevant sc everything) args"
  obtain r1 s1 where 1: "configure_all sc ?rel {} self = (r1, s1)" by (cases "configure_all sc ?rel {} self")
  have "P s1" by (rule configure_all_inv [where P = P, OF _ assms(2) 1]) (auto intro: assms(1))
  moreover have "self' = self \<or> self' = s1" using assms(3) 1
    by (auto simp: configure_def Let_def op_simps split: if_splits sum.splits)
  ultimately show ?thesis using assms(2) by blast
qed

lemma configure_one_reports:
  assumes "childless sc" and "configure_one sc kv self = (Inr names, self')"
  shows "names = (if fst kv \<in> vo_changed self' \<and> snd kv \<noteq> ResetValue then {fst kv} else {})"
  using assms by (auto simp: configure_one_def op_bind_def op_then_def op_return_def childless_as_child
      split: prod.splits conf.splits sum.splits)

lemma configure_all_reports:
  assumes "childless sc"
  shows "configure_all sc kvs acc self = (Inr names, self')
    \<Longrightarrow> acc \<subseteq> names \<and> (acc \<subseteq> vo_changed self \<longrightarrow> names \<subseteq> vo_changed self') \<and> vo_changed self \<subseteq> vo_changed self'
      \<and> names \<subseteq> acc \<union> {k. \<exists>v. (k, Given v) \<in> set kvs}
      \<and> (\<forall>k v. (k, Given v) \<in> set kvs \<and> k \<in> vo_changed self \<longrightarrow> k \<in> names)"
proof (induction kvs arbitrary: acc self)
  case (Cons kv kvs)
  from Cons.prems obtain n1 s1 where 1: "configure_one sc kv self = (Inr n1, s1)"
    and 2: "configure_all sc kvs (acc \<union> n1) s1 = (Inr names, self')"
    by (auto simp: op_bind_def split: prod.splits sum.splits)
  have n1: "n1 = (if fst kv \<in> vo_changed s1 \<and> snd kv \<noteq> ResetValue then {fst kv} else {})"
    using configure_one_reports [OF assms 1] .
  have m: "vo_changed self \<subseteq> vo_changed s1"
    using configure_one_frame [OF _ 1, of UNIV] by (simp add: conf_frame_def)
  obtain k c where kv: "kv = (k, c)" by (cases kv)
  note I = Cons.IH [OF 2]
  have "acc \<subseteq> vo_changed self \<Longrightarrow> acc \<union> n1 \<subseteq> vo_changed s1" using n1 m by auto
  with I m n1 show ?case unfolding kv by (cases c) (auto split: if_splits)
qed (auto simp: op_return_def)

section \<open>Stripped data\<close>

text \<open>No secret is left at any depth.\<close>

fun no_secret :: "json \<Rightarrow> bool" where
  "no_secret (JObj d) = (\<forall>(k, v) \<in> set d. (k \<in> set secret_keys \<longrightarrow> v = omitted) \<and> no_secret v)"
| "no_secret (JList xs) = (\<forall>x \<in> set xs. no_secret x)"
| "no_secret _ = True"

text \<open>Every list holds dictionaries only, or plain values only.\<close>

fun uniform :: "json \<Rightarrow> bool" where
  "uniform (JObj d) = (\<forall>(k, v) \<in> set d. uniform v)"
| "uniform (JList xs) = ((\<forall>x \<in> set xs. \<exists>d. x = JObj d \<and> uniform x)
     \<or> (\<forall>x \<in> set xs. case x of JObj _ \<Rightarrow> False | JList _ \<Rightarrow> False | _ \<Rightarrow> True))"
| "uniform _ = True"

definition secret_repl :: "(string \<times> (json \<Rightarrow> json)) list" where
  "secret_repl = [(''privkey'', \<lambda>_. omitted), (''psk'', \<lambda>_. omitted), (''psks'', \<lambda>_. omitted)]"

lemma secret_repl_lookup: "map_of secret_repl k = (if k \<in> set secret_keys then Some (\<lambda>_. omitted) else None)"
  by (simp add: secret_repl_def secret_keys_def)

lemma plain_no_secret:
  "(\<And>x. x \<in> set xs \<Longrightarrow> case x of JObj _ \<Rightarrow> False | JList _ \<Rightarrow> False | _ \<Rightarrow> True) \<Longrightarrow> no_secret (JList xs)"
proof -
  assume a: "\<And>x. x \<in> set xs \<Longrightarrow> case x of JObj _ \<Rightarrow> False | JList _ \<Rightarrow> False | _ \<Rightarrow> True"
  have "no_secret x" if "x \<in> set xs" for x using a [OF that] by (cases x) auto
  then show ?thesis by simp
qed

lemma strip_secrets:
  "(\<forall>(k, v) \<in> set d. uniform v) \<Longrightarrow> \<exists>d'. strip_dict secret_repl d = Inr d' \<and> no_secret (JObj d')"
  "(\<forall>e \<in> set es. \<exists>d. e = JObj d \<and> uniform e)
     \<Longrightarrow> \<exists>es'. strip_elems secret_repl es = Inr es' \<and> no_secret (JList es')"
  "uniform v \<Longrightarrow> \<exists>v'. strip_value secret_repl v = Inr v' \<and> no_secret v'"
proof (induction secret_repl d and secret_repl es and secret_repl v
    rule: strip_dict_strip_elems_strip_value.induct)
  case (2 k v kvs)
  obtain v' where v': "(case map_of secret_repl k of Some r \<Rightarrow> Inr (r v) | None \<Rightarrow> strip_value secret_repl v) = Inr v'"
    "no_secret v'" "k \<in> set secret_keys \<Longrightarrow> v' = omitted"
  proof (cases "k \<in> set secret_keys")
    case True
    then show thesis using that [of omitted] by (simp add: secret_repl_lookup omitted_def)
  next
    case False
    then obtain w where "strip_value secret_repl v = Inr w" "no_secret w"
      using 2(1) "2.prems" by (auto simp: secret_repl_lookup)
    then show thesis using that [of w] False by (simp add: secret_repl_lookup)
  qed
  have "\<forall>(k, v) \<in> set kvs. uniform v" using "2.prems" by simp
  from 2(2) [OF v'(1) this] obtain rest where rest: "strip_dict secret_repl kvs = Inr rest" "no_secret (JObj rest)"
    by blast
  then have "strip_dict secret_repl ((k, v) # kvs)
      = Inr (if v' \<noteq> JBool False \<and> \<not> truthy v' then rest else (k, v') # rest)" using v'(1) by simp
  then show ?case using rest(2) v'(2,3) by auto
next
  case (4 e es)
  then obtain d where e: "e = JObj d" "uniform (JObj d)" by auto
  from 4(1) [OF e(1)] e(2) obtain d' where d: "strip_dict secret_repl d = Inr d'" "no_secret (JObj d')" by auto
  from 4(2) [OF e(1) d(1)] "4.prems" obtain es' where "strip_elems secret_repl es = Inr es'" "no_secret (JList es')"
    by auto
  with d show ?case by (simp add: e)
next
  case (5 v)
  show ?case
  proof (cases v)
    case (JObj d)
    then show ?thesis using 5(2) [OF JObj] "5.prems" by auto
  next
    case (JList xs)
    show ?thesis
    proof (cases "\<exists>d es. xs = JObj d # es")
      case True
      then obtain d es where xs: "xs = JObj d # es" by blast
      have "\<forall>e \<in> set xs. \<exists>d. e = JObj d \<and> uniform e" using "5.prems" by (auto simp: JList xs)
      then obtain es' where "strip_elems secret_repl (JObj d # es) = Inr es'" "no_secret (JList es')"
        using 5(1) [OF JList xs refl] unfolding xs by blast
      then show ?thesis by (auto simp: JList xs simp del: strip_elems.simps no_secret.simps)
    next
      case False
      then have s: "strip_value secret_repl v = Inr v" by (auto simp: JList split: list.splits json.splits)
      have "no_secret v"
      proof (cases xs)
        case (Cons x es)
        then have "\<forall>x \<in> set xs. case x of JObj _ \<Rightarrow> False | JList _ \<Rightarrow> False | _ \<Rightarrow> True"
          using "5.prems" False by (auto simp: JList)
        then show ?thesis using plain_no_secret JList by blast
      qed (simp add: JList)
      then show ?thesis using s by blast
    qed
  qed auto
qed auto

section \<open>Names of enumerations\<close>

definition enum_char :: "char \<Rightarrow> bool" where
  "enum_char c \<longleftrightarrow> c \<noteq> CHR ''-'' \<and> ascii_upper c = c"

lemma upper_lower_char: "ascii_upper c = c \<Longrightarrow> ascii_upper (ascii_lower c) = c"
  by (auto simp: ascii_upper_def ascii_lower_def Let_def split: if_splits)

lemma enum_char_back:
  assumes "enum_char c"
  shows "(let u = ascii_upper (if ascii_lower c = CHR ''_'' then CHR ''-'' else ascii_lower c)
     in if u = CHR ''-'' then CHR ''_'' else u) = c"
proof (cases "c = CHR ''_''")
  case True
  then show ?thesis by (simp add: ascii_lower_def ascii_upper_def)
next
  case False
  have "ascii_lower c \<noteq> CHR ''_''"
  proof (cases "65 \<le> (of_char c :: nat) \<and> (of_char c :: nat) \<le> 90")
    case True
    then have "of_char (ascii_lower c) = (of_char c + 32 :: nat)" by (simp add: ascii_lower_def Let_def)
    then show ?thesis using True by auto
  next
    case other: False
    then have "ascii_lower c = c" by (auto simp: ascii_lower_def Let_def)
    then show ?thesis using False by simp
  qed
  then show ?thesis using assms by (simp add: upper_lower_char enum_char_def)
qed


section \<open>Properties\<close>

text \<open>C35: Marking a property marks exactly the properties it stands for: itself, or the members of its group and
  their members. It raises nothing when no group contains itself, changes no value, keeps earlier marks, and
  with groups nested less than a thousand deep Python's limit of nested calls is not reached.\<close>

theorem group_marks_leaves:
  assumes "ranked sc r" and "r attr < recursion_limit" and "vo_initialized self"
  shows "\<exists>self'. updated_property sc recursion_limit attr self = (Inr (), self')
    \<and> vo_changed self' = vo_changed self \<union> {x. leaf_of sc attr x} \<and> vo_vals self' = vo_vals self"
proof -
  from updated_property_marks [OF assms(1,3,2)] obtain self' where
    u: "updated_property sc recursion_limit attr self = (Inr (), self')"
       "vo_changed self' = vo_changed self \<union> {x. leaf_of sc attr x}" by blast
  from updated_property_frame [OF u(1)] u show ?thesis by (auto simp: same_values_def)
qed

definition demo_schema :: "int schema" where
  "demo_schema = \<lparr>sc_props = [''name'', ''address''], sc_attrs = [], sc_reserved = [''readonly''],
     sc_required = [''name''], sc_readonly = [], sc_eq = [''name''], sc_str = [''name''], sc_cached = [''cells''],
     sc_groups = [(''all'', [''cells'', ''particles'']), (''cells'', [''config_id'', ''keys''])],
     sc_default = \<lambda>_. None, sc_prepare = \<lambda>_. None, sc_child = \<lambda>_. None, sc_dict = \<lambda>_. None,
     sc_validate = \<lambda>_. Inr ()\<rparr>"

definition demo_vobj :: "int vobj" where
  "demo_vobj = blank\<lparr>vo_initialized := True, vo_vals := [(''name'', Some 1), (''address'', None)],
     vo_hashed := [Some 1], vo_repr := [Some 1]\<rparr>"

lemma demo_ranked: "ranked demo_schema (\<lambda>a. if a = ''all'' then 2 else if a = ''cells'' then 1 else 0)"
  by (simp add: ranked_def group_of_def demo_schema_def)

theorem group_marks_leaves_witness:
  "\<exists>self'. updated_property demo_schema recursion_limit ''all'' demo_vobj = (Inr (), self')
    \<and> ''keys'' \<in> vo_changed self'"
proof -
  have "leaf_of demo_schema ''keys'' ''keys''"
    by (rule leaf_of.plain) (simp_all add: demo_schema_def group_of_def)
  then have "leaf_of demo_schema ''cells'' ''keys''"
    by (rule leaf_of.member [rotated -1]) (simp_all add: demo_schema_def group_of_def)
  then have "leaf_of demo_schema ''all'' ''keys''"
    by (rule leaf_of.member [rotated -1]) (simp_all add: demo_schema_def group_of_def)
  with group_marks_leaves [OF demo_ranked, of "''all''" demo_vobj] show ?thesis
    by (auto simp: recursion_limit_def demo_vobj_def)
qed



text \<open>\<open>configure\<close> changes only the properties it is given, never a read-only one, and keeps the marks. Without
  children it reports only properties that are marked as changed, and always those that were marked before the
  call already, whether or not their value is new.\<close>

theorem configure_reports_changes:
  assumes "childless sc" and "configure sc False args self = (Inr names, self')"
  shows "(\<forall>p. p \<notin> fst ` set args \<or> p \<in> set (sc_readonly sc) \<longrightarrow> vget p self' = vget p self)
    \<and> vo_changed self \<subseteq> vo_changed self' \<and> names \<subseteq> vo_changed self' \<inter> fst ` set args
    \<and> (\<forall>k v. (k, Given (Some v)) \<in> set args \<and> k \<in> vo_changed self \<and> conf_relevant sc False (k, Given (Some v)) \<longrightarrow> k \<in> names)"
proof -
  let ?rel = "filter (conf_relevant sc False) args"
  let ?ks = "fst ` set args - set (sc_readonly sc)"
  have "conf_frame ?ks self self'"
  proof (rule configure_inv [where P = "conf_frame ?ks self", OF _ conf_frame_refl assms(2)])
    fix kv s r s' assume kv: "kv \<in> set args" "conf_relevant sc False kv" "conf_frame ?ks self s"
      "configure_one sc kv s = (r, s')"
    then have "fst kv \<in> ?ks" by (auto simp: conf_relevant_def)
    from configure_one_frame [OF this kv(4)] kv(3) show "conf_frame ?ks self s'" by (rule conf_frame_trans [rotated])
  qed
  note fr = this
  have rep: "names \<subseteq> vo_changed self' \<and> names \<subseteq> {k. \<exists>v. (k, Given v) \<in> set ?rel}
      \<and> (\<forall>k v. (k, Given v) \<in> set ?rel \<and> k \<in> vo_changed self \<longrightarrow> k \<in> names)"
  proof (cases "?rel = []")
    case True
    then show ?thesis using assms(2) by (auto simp: configure_def Let_def op_return_def filter_empty_conv)
  next
    case False
    then have "configure_all sc ?rel {} self = (Inr names, self')" using assms(2)
      by (auto simp: configure_def Let_def op_simps split: prod.splits sum.splits)
    from configure_all_reports [OF assms(1) this] show ?thesis by auto
  qed
  have "names \<subseteq> fst ` set args" using rep by force
  moreover have "k \<in> names" if "(k, Given (Some v)) \<in> set args" "k \<in> vo_changed self"
    "conf_relevant sc False (k, Given (Some v))" for k v
  proof -
    have "(k, Given (Some v)) \<in> set ?rel" using that by simp
    with rep that(2) show ?thesis by blast
  qed
  moreover have "vget p self' = vget p self" if "p \<notin> fst ` set args \<or> p \<in> set (sc_readonly sc)" for p
    using fr that unfolding conf_frame_def by blast
  moreover have "vo_changed self \<subseteq> vo_changed self'" "names \<subseteq> vo_changed self'"
    using fr rep by (simp_all add: conf_frame_def)
  ultimately show ?thesis by (intro conjI allI impI) (simp_all, elim exE conjE, simp)
qed

theorem configure_reports_changes_witness:
  "\<exists>names self'. configure demo_schema False [(''name'', Given (Some 1))] (demo_vobj\<lparr>vo_changed := {''name''}\<rparr>)
     = (Inr names, self') \<and> ''name'' \<in> names"
proof -
  let ?self = "demo_vobj\<lparr>vo_changed := {''name''}\<rparr>"
  obtain names self' where c: "configure demo_schema False [(''name'', Given (Some 1))] ?self = (Inr names, self')"
    by (auto simp: configure_def conf_relevant_def demo_schema_def configure_one_def set_attr_def prop_set_def
        store_prop_def as_child_def op_simps demo_vobj_def vget_def)
  have "''name'' \<in> names"
    using configure_reports_changes [OF _ c] by (auto simp: childless_def demo_schema_def conf_relevant_def)
  with c show ?thesis by blast
qed

text \<open>C37: After \<open>strip_serialized_secrets\<close> no private key, pre-shared key or list of them is left in the data at any
  depth, and it raises nothing, when each list holds dictionaries only or plain values only.\<close>

theorem secrets_stripped:
  assumes "uniform (JObj d)"
  shows "\<exists>d'. strip_serialized_secrets d = Inr d' \<and> no_secret (JObj d')"
  using strip_secrets(1) [of d] assms
  by (simp add: strip_serialized_secrets_def strip_serialized_fields_def secret_repl_def)

theorem secrets_stripped_witness:
  "\<exists>d'. strip_serialized_secrets [(''peers'', JList [JObj [(''id'', JInt 1), (''psk'', JStr ''k'')]])] = Inr d'
    \<and> no_secret (JObj d')"
  using secrets_stripped [of "[(''peers'', JList [JObj [(''id'', JInt 1), (''psk'', JStr ''k'')]])]"] by simp

text \<open>A list that starts with a plain value is not searched.\<close>

lemma secret_in_mixed_list_stays:
  "strip_serialized_secrets [(''xs'', JList [JInt 1, JObj [(''psk'', JStr ''k'')]])]
     = Inr [(''xs'', JList [JInt 1, JObj [(''psk'', JStr ''k'')]])]"
  by (simp add: strip_serialized_secrets_def strip_serialized_fields_def)

text \<open>An enumeration is read back from its serialised name, when its members are named in capitals without a
  dash.\<close>

theorem enum_roundtrip:
  assumes "name \<in> set names" and "\<forall>c \<in> set name. enum_char c"
  shows "prepare_enum names (serialize_enum name) = Inr name"
proof -
  have "replace_char (CHR ''-'') (CHR ''_'') (map ascii_upper (serialize_enum name)) = name"
    using assms(2) enum_char_back
    by (auto simp: replace_char_def serialize_enum_def comp_def Let_def intro!: map_idI)
  then show ?thesis using assms(1) by (simp add: prepare_enum_def)
qed

theorem enum_roundtrip_witness:
  "prepare_enum [''CROSSED'', ''FULL_MESH''] (serialize_enum ''FULL_MESH'') = Inr ''FULL_MESH''"
  using enum_roundtrip [of "''FULL_MESH''" "[''CROSSED'', ''FULL_MESH'']"]
  by (simp add: enum_char_def ascii_upper_def)

end
