(* ===== verification/Key_Store.thy ===== *)
theory Key_Store
  imports Vpn_Keymat
begin

text \<open>
  The keys in the database (\<open>uno/registry/vpn_keymat.py\<close>, \<open>wg_key.py\<close>, \<open>database.py\<close>): what the calls of the key
  material leave in the table of a key class, and the material that is loaded from it. A row is found by the
  material of its key, which stands for the id of the object: generated keys differ. The table has at most one
  row for an id and a dropped flag; a second one is the database's integrity error.
\<close>

section \<open>The table of a key class\<close>

definition apply_call :: "'m db_call \<Rightarrow> 'm wkey list \<Rightarrow> 'm wkey list res" where
  "apply_call c rows = (case c of
     SaveKey k \<Rightarrow>
       (if \<exists>r \<in> set rows. wk_id r = wk_id k \<and> wk_dropped r = wk_dropped k \<and> wk_material r \<noteq> wk_material k
        then Inl (RuntimeError ''IntegrityError'')
        else Inr (if \<exists>r \<in> set rows. wk_material r = wk_material k
                  then map (\<lambda>r. if wk_material r = wk_material k then mark_saved k else r) rows
                  else rows @ [mark_saved k]))
   | DeleteKey k \<Rightarrow> Inr (filter (\<lambda>r. wk_material r \<noteq> wk_material k) rows)
   | DeleteDropped pat \<Rightarrow> Inr (filter (\<lambda>r. \<not> (sql_like pat (wk_id r) \<and> wk_dropped r)) rows))"

fun run_calls :: "'m db_call list \<Rightarrow> 'm wkey list \<Rightarrow> 'm wkey list res" where
  "run_calls [] rows = Inr rows"
| "run_calls (c # cs) rows = rbind (apply_call c rows) (run_calls cs)"

section \<open>Loading the material of a star\<close>

definition load_root_key :: "string \<Rightarrow> bool \<Rightarrow> 'm wkey list \<Rightarrow> 'm wkey option" where
  "load_root_key prefix prefer_dropped rows =
     (let load_key = (\<lambda>dropped. find (\<lambda>r. wk_id r = prefix @ '':root'' \<and> wk_dropped r = dropped) rows) in
      case (if prefer_dropped then load_key True else None) of
        Some k \<Rightarrow> Some k | None \<Rightarrow> load_key False)"

fun load_peer_rows :: "string \<Rightarrow> bool \<Rightarrow> 'm wkey list \<Rightarrow> (peer \<times> 'm wkey) list \<Rightarrow> (peer \<times> 'm wkey) list res" where
  "load_peer_rows prefix dropped [] loaded = Inr loaded"
| "load_peer_rows prefix dropped (key # rows) loaded =
     (if sql_like (prefix @ '':peer:%'') (wk_id key) \<and> wk_dropped key = dropped
      then rbind (the_or (ValueError ''int'') (read_int (drop (length (prefix @ '':peer:'')) (wk_id key)))) (\<lambda>peer_id.
             load_peer_rows prefix dropped rows (AList.update peer_id key loaded))
      else load_peer_rows prefix dropped rows loaded)"

definition load_peer_keys :: "string \<Rightarrow> bool \<Rightarrow> 'm wkey list \<Rightarrow> (peer \<times> 'm wkey) list res" where
  "load_peer_keys prefix prefer_dropped rows =
     (if prefer_dropped then
        rbind (load_peer_rows prefix True rows []) (\<lambda>loaded.
        rbind (load_peer_rows prefix False rows []) (\<lambda>others.
          Inr (foldl (\<lambda>l (peer, key). if map_of l peer = None then AList.update peer key l else l) loaded others)))
      else load_peer_rows prefix False rows [])"

text \<open>The constructor with \<open>load_nested\<close>. Rows come in the order of their ids (\<open>DB_ORDER_BY\<close>).\<close>

definition cm_load ::
  "string \<Rightarrow> peer list \<Rightarrow> bool \<Rightarrow> bool \<Rightarrow> 'm wkey list \<Rightarrow> 'p wkey list \<Rightarrow> nat \<Rightarrow> nat \<Rightarrow> ('m, 'p) central_keymat res" where
  "cm_load prefix peer_ids prefer_dropped readonly rows psk_rows gen pgen =
     (let sorted = sort_key wk_id rows in
      rbind (load_peer_keys prefix prefer_dropped sorted) (\<lambda>peer_keys.
      rbind (load_content psk_class (prefix @ '':psks'') prefer_dropped (sort_key wk_id psk_rows)) (\<lambda>content.
        Inr \<lparr>cm_prefix = prefix, cm_peer_ids = peer_ids, cm_prefer_dropped = prefer_dropped, cm_readonly = readonly,
             cm_root_key = load_root_key prefix prefer_dropped sorted, cm_peer_keys = peer_keys,
             cm_psks = \<lparr>km_prefix = prefix @ '':psks'', km_prefer_dropped = prefer_dropped, km_readonly = readonly,
               km_content = content, km_dropped = [], km_deleted = [], km_gen = pgen, km_calls = []\<rparr>,
             cm_dropped = [], cm_deleted = [], cm_gen = gen, cm_calls = []\<rparr>)))"

text \<open>\<open>peers_with_dropped_key\<close>.\<close>

definition cm_peers_with_dropped_key :: "('m, 'p) central_keymat \<Rightarrow> peer list" where
  "cm_peers_with_dropped_key self = map fst (filter (\<lambda>(_, k). wk_dropped k) (cm_peer_keys self))"

section \<open>The table as a function\<close>

definition rows_ok :: "'m wkey list \<Rightarrow> bool" where
  "rows_ok rows \<longleftrightarrow> distinct rows \<and> (\<forall>r \<in> set rows. wk_saved r \<and> (\<forall>s \<in> set rows.
     (wk_id r = wk_id s \<and> wk_dropped r = wk_dropped s \<or> wk_material r = wk_material s) \<longrightarrow> r = s))"

lemma rows_ok_unique:
  "rows_ok rows \<Longrightarrow> r \<in> set rows \<Longrightarrow> s \<in> set rows \<Longrightarrow>
     (wk_id r = wk_id s \<and> wk_dropped r = wk_dropped s) \<or> wk_material r = wk_material s \<Longrightarrow> r = s"
  unfolding rows_ok_def by blast

lemma rows_ok_saved: "rows_ok rows \<Longrightarrow> r \<in> set rows \<Longrightarrow> wk_saved r"
  unfolding rows_ok_def by blast

definition row_keys :: "'m wkey list \<Rightarrow> (string \<times> bool) set" where
  "row_keys rows = (\<lambda>r. (wk_id r, wk_dropped r)) ` set rows"

lemma row_keys_iff: "(i, d) \<in> row_keys rows \<longleftrightarrow> (\<exists>r \<in> set rows. wk_id r = i \<and> wk_dropped r = d)"
  by (auto simp: row_keys_def)

lemma row_keys_append [simp]: "row_keys (xs @ ys) = row_keys xs \<union> row_keys ys"
  by (auto simp: row_keys_def)

lemma wkey_eqI: "wk_id r = wk_id k \<Longrightarrow> wk_material r = wk_material k \<Longrightarrow> wk_dropped r = wk_dropped k
    \<Longrightarrow> wk_saved r = wk_saved k \<Longrightarrow> (r :: 'm wkey) = k"
  by (cases r; cases k) simp

text \<open>A new key is a new row.\<close>

lemma save_new:
  assumes "rows_ok rows" and "wk_saved k" and "wk_material k \<notin> wk_material ` set rows"
    and "(wk_id k, wk_dropped k) \<notin> row_keys rows"
  shows "apply_call (SaveKey k) rows = Inr (rows @ [k])" and "rows_ok (rows @ [k])"
proof -
  have m: "mark_saved k = k" using assms(2) by (simp add: mark_saved_def)
  have n: "\<not> (\<exists>r \<in> set rows. wk_material r = wk_material k)" using assms(3) by (metis imageI)
  have i: "\<not> (\<exists>r \<in> set rows. wk_id r = wk_id k \<and> wk_dropped r = wk_dropped k)"
    using assms(4) by (simp add: row_keys_iff)
  show "apply_call (SaveKey k) rows = Inr (rows @ [k])"
    unfolding apply_call_def db_call.case if_not_P [OF n] m using i by auto
  show "rows_ok (rows @ [k])" unfolding rows_ok_def
  proof (intro conjI ballI impI)
    show "distinct (rows @ [k])" using assms(1) n by (auto simp: rows_ok_def)
    fix r s assume r: "r \<in> set (rows @ [k])"
    show "wk_saved r" using r assms(1,2) by (auto dest: rows_ok_saved)
    assume s: "s \<in> set (rows @ [k])"
      and e: "wk_id r = wk_id s \<and> wk_dropped r = wk_dropped s \<or> wk_material r = wk_material s"
    consider "r \<in> set rows" "s \<in> set rows" | "r = k" "s = k" | "r \<in> set rows" "s = k" | "r = k" "s \<in> set rows"
      using r s by auto
    then show "r = s" using e n i rows_ok_unique [OF assms(1), of r s] by cases metis+
  qed
qed

lemma run_calls_append: "run_calls (cs @ ds) rows = rbind (run_calls cs rows) (run_calls ds)"
proof (induction cs arbitrary: rows)
  case (Cons c cs)
  then show ?case by (cases "apply_call c rows") auto
qed simp

text \<open>Keys that the table can take: their ids and materials are new, and differ.\<close>

definition fresh_keys :: "'m wkey list \<Rightarrow> 'm wkey list \<Rightarrow> bool" where
  "fresh_keys rows ks \<longleftrightarrow> distinct (map wk_material ks) \<and> distinct (map (\<lambda>k. (wk_id k, wk_dropped k)) ks)
     \<and> (\<forall>k \<in> set ks. wk_saved k \<and> wk_material k \<notin> wk_material ` set rows \<and> (wk_id k, wk_dropped k) \<notin> row_keys rows)"

lemma save_all_new:
  "rows_ok rows \<Longrightarrow> fresh_keys rows ks \<Longrightarrow> run_calls (map SaveKey ks) rows = Inr (rows @ ks) \<and> rows_ok (rows @ ks)"
proof (induction ks arbitrary: rows)
  case (Cons k ks)
  have k: "apply_call (SaveKey k) rows = Inr (rows @ [k])" "rows_ok (rows @ [k])"
    using Cons.prems by (auto simp: fresh_keys_def intro!: save_new)
  have "fresh_keys (rows @ [k]) ks"
    using Cons.prems(2) by (auto simp: fresh_keys_def row_keys_def image_iff)
  from Cons.IH [OF k(2) this] k(1) show ?case by simp
qed simp

text \<open>A live key that is dropped changes its row in place.\<close>

definition flip :: "'m wkey list \<Rightarrow> 'm wkey \<Rightarrow> 'm wkey" where
  "flip ks r = (if r \<in> set ks then r\<lparr>wk_dropped := True\<rparr> else r)"

lemma flip_simps [simp]:
  "wk_id (flip ks r) = wk_id r" "wk_material (flip ks r) = wk_material r" "wk_saved (flip ks r) = wk_saved r"
  "wk_dropped (flip ks r) = (wk_dropped r \<or> r \<in> set ks)"
  by (simp_all add: flip_def)

lemma save_dropped:
  assumes ok: "rows_ok rows" and k: "k \<in> set rows" "\<not> wk_dropped k" and none: "(wk_id k, True) \<notin> row_keys rows"
  shows "apply_call (SaveKey (drop_mark k)) rows = Inr (map (flip [k]) rows)" and "rows_ok (map (flip [k]) rows)"
proof -
  have fl: "(if wk_material r = wk_material k then mark_saved (drop_mark k) else r) = flip [k] r" if "r \<in> set rows" for r
  proof (cases "r = k")
    case True
    then show ?thesis using rows_ok_saved [OF ok k(1)] by (simp add: flip_def mark_saved_def drop_mark_def)
  next
    case False
    then show ?thesis using rows_ok_unique [OF ok that k(1)] by (auto simp: flip_def)
  qed
  have i: "\<not> (\<exists>r \<in> set rows. wk_id r = wk_id k \<and> wk_dropped r)" using none by (simp add: row_keys_iff)
  have m: "\<exists>r \<in> set rows. wk_material r = wk_material (drop_mark k)" using k(1) by (auto simp: drop_mark_def)
  have "map (\<lambda>r. if wk_material r = wk_material k then mark_saved (drop_mark k) else r) rows = map (flip [k]) rows"
    using fl by (intro map_cong refl) auto
  moreover have "wk_material (drop_mark k) = wk_material k" "wk_id (drop_mark k) = wk_id k" "wk_dropped (drop_mark k)"
    by (simp_all add: drop_mark_def)
  ultimately show "apply_call (SaveKey (drop_mark k)) rows = Inr (map (flip [k]) rows)"
    using m i by (auto simp: apply_call_def)
  have inj: "r = s" if "r \<in> set rows" "s \<in> set rows" "wk_material r = wk_material s" for r s
    using rows_ok_unique [OF ok that(1,2)] that(3) by blast
  show "rows_ok (map (flip [k]) rows)" unfolding rows_ok_def
  proof (intro conjI ballI impI)
    have "inj_on (flip [k]) (set rows)" by (rule inj_onI) (metis flip_simps(2) inj)
    then show "distinct (map (flip [k]) rows)" using ok by (simp add: rows_ok_def distinct_map)
    fix r' s' assume "r' \<in> set (map (flip [k]) rows)"
    then obtain r where r: "r \<in> set rows" "r' = flip [k] r" by auto
    show "wk_saved r'" using r rows_ok_saved [OF ok] by simp
    assume "s' \<in> set (map (flip [k]) rows)"
    then obtain s where s: "s \<in> set rows" "s' = flip [k] s" by auto
    assume e: "wk_id r' = wk_id s' \<and> wk_dropped r' = wk_dropped s' \<or> wk_material r' = wk_material s'"
    have "r = s"
    proof (cases "wk_material r = wk_material s")
      case True
      then show ?thesis using inj r(1) s(1) by blast
    next
      case False
      then have "wk_id r = wk_id s" "wk_dropped r' = wk_dropped s'" using e r s by auto
      then show ?thesis using rows_ok_unique [OF ok r(1) s(1)] i r s by auto
    qed
    then show "r' = s'" using r s by simp
  qed
qed

lemma save_all_dropped:
  "rows_ok rows \<Longrightarrow> set ks \<subseteq> set rows \<Longrightarrow> distinct ks \<Longrightarrow> \<forall>k \<in> set ks. \<not> wk_dropped k \<and> (wk_id k, True) \<notin> row_keys rows
    \<Longrightarrow> run_calls (map (SaveKey \<circ> drop_mark) ks) rows = Inr (map (flip ks) rows) \<and> rows_ok (map (flip ks) rows)"
proof (induction ks arbitrary: rows)
  case Nil
  then show ?case by (simp add: flip_def)
next
  case (Cons k ks)
  let ?rows = "map (flip [k]) rows"
  from Cons.prems have k: "apply_call (SaveKey (drop_mark k)) rows = Inr ?rows" "rows_ok ?rows"
    by (auto intro!: save_dropped)
  have keep: "l \<in> set ?rows" if "l \<in> set ks" for l
  proof -
    have "l \<in> set rows" "l \<noteq> k" using Cons.prems that by auto
    moreover have "flip [k] l = l" using calculation by (simp add: flip_def)
    ultimately show ?thesis by (metis image_eqI list.set_map)
  qed
  have none: "\<not> wk_dropped l \<and> (wk_id l, True) \<notin> row_keys ?rows" if l: "l \<in> set ks" for l
  proof -
    have "wk_id r \<noteq> wk_id l" if r: "r \<in> set rows" "wk_dropped (flip [k] r)" for r
    proof
      assume e: "wk_id r = wk_id l"
      have "l \<noteq> k" "l \<in> set rows" "\<not> wk_dropped l" "\<not> wk_dropped k" "k \<in> set rows" using Cons.prems l by auto
      moreover have "(wk_id l, True) \<notin> row_keys rows" using Cons.prems l by simp
      ultimately show False using r e rows_ok_unique [OF Cons.prems(1), of l k] by (auto simp: row_keys_iff)
    qed
    then show ?thesis using Cons.prems l by (auto simp: row_keys_iff)
  qed
  have "run_calls (map (SaveKey \<circ> drop_mark) ks) ?rows = Inr (map (flip ks) ?rows) \<and> rows_ok (map (flip ks) ?rows)"
    using Cons.prems(3) keep none by (intro Cons.IH k(2)) auto
  moreover have "map (flip ks) ?rows = map (flip (k # ks)) rows"
  proof -
    have "flip ks (flip [k] r) = flip (k # ks) r" if "r \<in> set rows" for r
    proof (cases "r = k")
      case True
      have "r\<lparr>wk_dropped := True\<rparr> \<notin> set ks" using Cons.prems(4) by auto
      then show ?thesis using True by (simp add: flip_def)
    qed (auto simp: flip_def)
    then show ?thesis by simp
  qed
  moreover have "apply_call ((SaveKey \<circ> drop_mark) k) rows = Inr ?rows" using k(1) by simp
  ultimately show ?case by (simp only: list.map run_calls.simps rbind_simps)
qed

section \<open>What is loaded\<close>

definition row_find :: "'m wkey list \<Rightarrow> string \<Rightarrow> bool \<Rightarrow> 'm wkey option" where
  "row_find rows i d = find (\<lambda>r. wk_id r = i \<and> wk_dropped r = d) rows"

lemma row_find_simps [simp]:
  "row_find [] i d = None"
  "row_find (r # rows) i d = (if wk_id r = i \<and> wk_dropped r = d then Some r else row_find rows i d)"
  by (simp_all add: row_find_def)

lemma row_find_None: "row_find rows i d = None \<longleftrightarrow> (i, d) \<notin> row_keys rows"
  by (auto simp: row_find_def find_None_iff row_keys_iff)

lemma row_find_Some:
  "rows_ok rows \<Longrightarrow> row_find rows i d = Some r \<longleftrightarrow> r \<in> set rows \<and> wk_id r = i \<and> wk_dropped r = d"
proof
  assume "row_find rows i d = Some r"
  then show "r \<in> set rows \<and> wk_id r = i \<and> wk_dropped r = d" by (auto simp: row_find_def find_Some_iff)
next
  assume ok: "rows_ok rows" and r: "r \<in> set rows \<and> wk_id r = i \<and> wk_dropped r = d"
  then have "row_find rows i d \<noteq> None" by (auto simp: row_find_None row_keys_iff)
  then obtain s where s: "row_find rows i d = Some s" by blast
  then have "s \<in> set rows" "wk_id s = i" "wk_dropped s = d" by (auto simp: row_find_def find_Some_iff)
  then have "s = r" using rows_ok_unique [OF ok] r by blast
  then show "row_find rows i d = Some r" using s by simp
qed

lemma rows_ok_sort: "rows_ok (sort_key f rows) = rows_ok rows"
  by (simp add: rows_ok_def)

lemma row_find_sort: "rows_ok rows \<Longrightarrow> row_find (sort_key f rows) i d = row_find rows i d"
proof -
  assume ok: "rows_ok rows"
  show ?thesis
  proof (cases "row_find rows i d")
    case None
    then have "row_find (sort_key f rows) i d = None" by (simp add: row_find_None row_keys_iff)
    then show ?thesis using None by simp
  next
    case (Some r)
    then have "row_find (sort_key f rows) i d = Some r" using ok
      by (subst row_find_Some) (auto simp: rows_ok_sort row_find_Some)
    then show ?thesis using Some by simp
  qed
qed

definition row_pick :: "bool \<Rightarrow> 'm wkey list \<Rightarrow> string \<Rightarrow> 'm wkey option" where
  "row_pick prefer_dropped rows i =
     (case (if prefer_dropped then row_find rows i True else None) of Some k \<Rightarrow> Some k | None \<Rightarrow> row_find rows i False)"

lemma load_root_key_pick: "load_root_key prefix d rows = row_pick d rows (prefix @ '':root'')"
  unfolding load_root_key_def row_pick_def row_find_def Let_def by (cases d) simp_all

text \<open>The rows of a star have ids that the loader can read.\<close>

definition peers_named :: "string \<Rightarrow> 'm wkey list \<Rightarrow> bool" where
  "peers_named prefix rows \<longleftrightarrow> CHR ''%'' \<notin> set prefix \<and>
     (\<forall>r \<in> set rows. sql_like (prefix @ '':peer:%'') (wk_id r) \<longrightarrow> (\<exists>p. wk_id r = cm_prefix_peer prefix p))"

definition pairs_named :: "string \<Rightarrow> 'm wkey list \<Rightarrow> bool" where
  "pairs_named prefix rows \<longleftrightarrow> CHR ''%'' \<notin> set prefix \<and>
     (\<forall>r \<in> set rows. sql_like (prefix @ '':%'') (wk_id r) \<longrightarrow> (\<exists>pair. wk_id r = map_key_id prefix pair None))"

lemma cm_prefix_peer_like: "CHR ''%'' \<notin> set prefix \<Longrightarrow> sql_like (prefix @ '':peer:%'') (cm_prefix_peer prefix p)"
  using sql_like_prefix [of "prefix @ '':peer:''" "show_int p"] by (simp add: cm_prefix_peer_def)

lemma cm_prefix_peer_read:
  "read_int (drop (length (prefix @ '':peer:'')) (cm_prefix_peer prefix p)) = Some p"
  by (simp add: cm_prefix_peer_def)

lemma cm_prefix_peer_inject [simp]: "cm_prefix_peer prefix p = cm_prefix_peer prefix q \<longleftrightarrow> p = q"
  by (simp add: cm_prefix_peer_def)

lemma rows_ok_tail: "rows_ok (r # rows) \<Longrightarrow> rows_ok rows"
  by (auto simp: rows_ok_def)

lemma load_peer_rows_spec:
  assumes "peers_named prefix rows" and "rows_ok rows"
  shows "\<exists>l. load_peer_rows prefix d rows acc = Inr l
    \<and> (\<forall>p. map_of l p = (case row_find rows (cm_prefix_peer prefix p) d of Some k \<Rightarrow> Some k | None \<Rightarrow> map_of acc p))
    \<and> (distinct (map fst acc) \<longrightarrow> distinct (map fst l))"
  using assms
proof (induction rows arbitrary: acc)
  case (Cons r rows)
  have named: "peers_named prefix rows" using Cons.prems(1) by (simp add: peers_named_def)
  note ok = rows_ok_tail [OF Cons.prems(2)]
  show ?case
  proof (cases "sql_like (prefix @ '':peer:%'') (wk_id r) \<and> wk_dropped r = d")
    case True
    then obtain q where q: "wk_id r = cm_prefix_peer prefix q" using Cons.prems(1) by (auto simp: peers_named_def)
    from Cons.IH [OF named ok, of "AList.update q r acc"] obtain l where
      l: "load_peer_rows prefix d rows (AList.update q r acc) = Inr l"
      "\<forall>p. map_of l p = (case row_find rows (cm_prefix_peer prefix p) d of Some k \<Rightarrow> Some k
          | None \<Rightarrow> map_of (AList.update q r acc) p)"
      "distinct (map fst (AList.update q r acc)) \<longrightarrow> distinct (map fst l)" by blast
    have "row_find rows (cm_prefix_peer prefix q) d = None"
      using Cons.prems(2) True q by (auto simp: row_find_None row_keys_iff rows_ok_def)
    then have "map_of l p = (case row_find (r # rows) (cm_prefix_peer prefix p) d of Some k \<Rightarrow> Some k
        | None \<Rightarrow> map_of acc p)" for p
      using l(2) True q by (auto split: option.splits)
    moreover have "load_peer_rows prefix d (r # rows) acc = Inr l"
      using True l(1) cm_prefix_peer_read [of prefix q] by (simp add: q)
    ultimately show ?thesis using l(3) by auto
  next
    case False
    from Cons.IH [OF named ok, of acc] obtain l where
      l: "load_peer_rows prefix d rows acc = Inr l"
      "\<forall>p. map_of l p = (case row_find rows (cm_prefix_peer prefix p) d of Some k \<Rightarrow> Some k | None \<Rightarrow> map_of acc p)"
      "distinct (map fst acc) \<longrightarrow> distinct (map fst l)" by blast
    have "\<not> (wk_id r = cm_prefix_peer prefix p \<and> wk_dropped r = d)" for p
      using False Cons.prems(1) by (auto simp: peers_named_def cm_prefix_peer_like)
    then have "row_find (r # rows) (cm_prefix_peer prefix p) d = row_find rows (cm_prefix_peer prefix p) d" for p
      by auto
    moreover have "load_peer_rows prefix d (r # rows) acc = Inr l" using False l(1) by auto
    ultimately show ?thesis using l by auto
  qed
qed simp

lemma map_key_id_inject: "map_key_id prefix p None = map_key_id prefix q None \<longleftrightarrow> p = q"
proof
  assume "map_key_id prefix p None = map_key_id prefix q None"
  then have "read_json_pair (json_pair p) = read_json_pair (json_pair q)" by (simp add: map_key_id_def)
  then show "p = q" by simp
qed simp

lemma load_psk_row:
  assumes "CHR ''%'' \<notin> set prefix" and "wk_id k = map_key_id prefix p None" and "wk_dropped k = d"
  shows "load_keys psk_class prefix d (k # rows) loaded = load_keys psk_class prefix d rows (AList.update p k loaded)"
proof -
  have "find_char (CHR '':'') (json_pair p) = None" by (simp add: find_char_None json_pair_no_colon)
  moreover have "sql_like (prefix @ '':%'') (wk_id k)" using map_key_id_like [OF assms(1), of p "[]"] assms(2) by simp
  moreover have "drop (length prefix + 1) (wk_id k) = json_pair p"
    using map_key_id_drop [of prefix p "[]"] assms(2) by simp
  ultimately show ?thesis using assms(3) by (simp add: psk_class_def)
qed

lemma load_psk_spec:
  assumes "pairs_named prefix rows" and "rows_ok rows"
  shows "\<exists>l. load_keys psk_class prefix d rows acc = Inr l
    \<and> (\<forall>p. map_of l p = (case row_find rows (map_key_id prefix p None) d of Some k \<Rightarrow> Some k | None \<Rightarrow> map_of acc p))
    \<and> (distinct (map fst acc) \<longrightarrow> distinct (map fst l))"
  using assms
proof (induction rows arbitrary: acc)
  case (Cons r rows)
  have named: "pairs_named prefix rows" and pc: "CHR ''%'' \<notin> set prefix"
    using Cons.prems(1) by (simp_all add: pairs_named_def)
  note ok = rows_ok_tail [OF Cons.prems(2)]
  show ?case
  proof (cases "sql_like (prefix @ '':%'') (wk_id r) \<and> wk_dropped r = d")
    case True
    then obtain q where q: "wk_id r = map_key_id prefix q None" using Cons.prems(1) by (auto simp: pairs_named_def)
    from Cons.IH [OF named ok, of "AList.update q r acc"] obtain l where
      l: "load_keys psk_class prefix d rows (AList.update q r acc) = Inr l"
      "\<forall>p. map_of l p = (case row_find rows (map_key_id prefix p None) d of Some k \<Rightarrow> Some k
          | None \<Rightarrow> map_of (AList.update q r acc) p)"
      "distinct (map fst (AList.update q r acc)) \<longrightarrow> distinct (map fst l)" by blast
    have "row_find rows (map_key_id prefix q None) d = None"
      using Cons.prems(2) True q by (auto simp: row_find_None row_keys_iff rows_ok_def)
    then have "map_of l p = (case row_find (r # rows) (map_key_id prefix p None) d of Some k \<Rightarrow> Some k
        | None \<Rightarrow> map_of acc p)" for p
      using l(2) True q by (auto simp: map_key_id_inject split: option.splits)
    moreover have "load_keys psk_class prefix d (r # rows) acc = Inr l"
      using load_psk_row [OF pc q] True l(1) by simp
    ultimately show ?thesis using l(3) by auto
  next
    case False
    from Cons.IH [OF named ok, of acc] obtain l where
      l: "load_keys psk_class prefix d rows acc = Inr l"
      "\<forall>p. map_of l p = (case row_find rows (map_key_id prefix p None) d of Some k \<Rightarrow> Some k | None \<Rightarrow> map_of acc p)"
      "distinct (map fst acc) \<longrightarrow> distinct (map fst l)" by blast
    have "\<not> (wk_id r = map_key_id prefix p None \<and> wk_dropped r = d)" for p
      using False map_key_id_like [OF pc, of p "[]"] by auto
    then have "row_find (r # rows) (map_key_id prefix p None) d = row_find rows (map_key_id prefix p None) d" for p
      by (simp only: row_find_simps if_False simp_thms)
    moreover have "load_keys psk_class prefix d (r # rows) acc = Inr l" using False l(1) by auto
    ultimately show ?thesis using l by auto
  qed
qed simp

lemma case_option_id: "(case x of None \<Rightarrow> map_of [] p | Some k \<Rightarrow> Some k) = x"
  by (cases x) simp_all

text \<open>The keys that are not dropped fill the gaps of those that are.\<close>

lemma fill_gaps:
  "map_of (foldl (\<lambda>l (p, k). if map_of l p = None then AList.update p k l else l) loaded others) q
     = (case map_of loaded q of Some k \<Rightarrow> Some k | None \<Rightarrow> map_of others q)"
proof (induction others arbitrary: loaded)
  case (Cons x others)
  obtain p k where x: "x = (p, k)" by (cases x)
  have "foldl (\<lambda>l (p, k). if map_of l p = None then AList.update p k l else l) loaded (x # others)
    = foldl (\<lambda>l (p, k). if map_of l p = None then AList.update p k l else l)
        (if map_of loaded p = None then AList.update p k loaded else loaded) others" by (simp add: x)
  then show ?case using Cons.IH by (auto simp: x split: option.splits)
qed (simp split: option.splits)

lemma fill_gaps_distinct:
  "distinct (map fst loaded) \<Longrightarrow>
     distinct (map fst (foldl (\<lambda>l (p, k). if map_of l p = None then AList.update p k l else l) loaded others))"
proof (induction others arbitrary: loaded)
  case (Cons x others)
  obtain p k where x: "x = (p, k)" by (cases x)
  have "distinct (map fst (if map_of loaded p = None then AList.update p k loaded else loaded))"
    using Cons.prems by (auto intro: distinct_keys_update)
  from Cons.IH [OF this] show ?case by (simp add: x)
qed simp

definition star_rows :: "string \<Rightarrow> 'm wkey list \<Rightarrow> 'p wkey list \<Rightarrow> bool" where
  "star_rows prefix rows psk_rows \<longleftrightarrow> rows_ok rows \<and> rows_ok psk_rows \<and> peers_named prefix rows
     \<and> pairs_named (prefix @ '':psks'') psk_rows"

lemma rbind_exists: "\<exists>x. m = Inr x \<and> P x \<Longrightarrow> (\<And>x. P x \<Longrightarrow> \<exists>y. f x = Inr y \<and> Q y) \<Longrightarrow> \<exists>y. rbind m f = Inr y \<and> Q y"
  by auto

lemma load_peer_keys_spec:
  assumes "peers_named prefix rows" and "rows_ok rows"
  shows "\<exists>l. load_peer_keys prefix d rows = Inr l \<and> distinct (map fst l)
    \<and> (\<forall>p. map_of l p = row_pick d rows (cm_prefix_peer prefix p))"
proof -
  from load_peer_rows_spec [OF assms, of False "[]"] obtain l0 where
    l0: "load_peer_rows prefix False rows [] = Inr l0" "distinct (map fst l0)"
      "\<And>p. map_of l0 p = row_find rows (cm_prefix_peer prefix p) False" by (auto simp: case_option_id)
  from load_peer_rows_spec [OF assms, of True "[]"] obtain l1 where
    l1: "load_peer_rows prefix True rows [] = Inr l1" "distinct (map fst l1)"
      "\<And>p. map_of l1 p = row_find rows (cm_prefix_peer prefix p) True" by (auto simp: case_option_id)
  show ?thesis
  proof (cases d)
    case True
    then show ?thesis using l0 l1 by (simp add: load_peer_keys_def fill_gaps fill_gaps_distinct row_pick_def split: option.split)
  next
    case False
    then show ?thesis using l0 by (simp add: load_peer_keys_def row_pick_def)
  qed
qed

lemma load_psks_spec:
  assumes "pairs_named prefix rows" and "rows_ok rows"
  shows "\<exists>l. load_content psk_class prefix d rows = Inr l \<and> distinct (map fst l)
    \<and> (\<forall>p. map_of l p = row_pick d rows (map_key_id prefix p None))"
proof -
  from load_psk_spec [OF assms, of False "[]"] obtain l0 where
    l0: "load_keys psk_class prefix False rows [] = Inr l0" "distinct (map fst l0)"
      "\<And>p. map_of l0 p = row_find rows (map_key_id prefix p None) False" by (auto simp: case_option_id)
  from load_psk_spec [OF assms, of True "[]"] obtain l1 where
    l1: "load_keys psk_class prefix True rows [] = Inr l1" "distinct (map fst l1)"
      "\<And>p. map_of l1 p = row_find rows (map_key_id prefix p None) True" by (auto simp: case_option_id)
  show ?thesis
  proof (cases d)
    case True
    then show ?thesis using l0 l1 by (simp add: load_content_def fill_gaps fill_gaps_distinct row_pick_def split: option.split)
  next
    case False
    then show ?thesis using l0 by (simp add: load_content_def row_pick_def)
  qed
qed

lemma cm_load_spec:
  assumes "star_rows prefix rows psk_rows"
  shows "\<exists>l. cm_load prefix ids d ro rows psk_rows g pg = Inr l
    \<and> cm_root_key l = row_pick d rows (prefix @ '':root'')
    \<and> (\<forall>p. map_of (cm_peer_keys l) p = row_pick d rows (cm_prefix_peer prefix p))
    \<and> (\<forall>p. map_of (km_content (cm_psks l)) p = row_pick d psk_rows (map_key_id (prefix @ '':psks'') p None))
    \<and> distinct (map fst (cm_peer_keys l)) \<and> distinct (map fst (km_content (cm_psks l)))"
proof -
  have ok: "rows_ok rows" "rows_ok psk_rows" using assms by (simp_all add: star_rows_def)
  have pick: "row_pick d (sort_key f rows) i = row_pick d rows i" "row_pick d (sort_key f' psk_rows) i = row_pick d psk_rows i"
    for f :: "'a wkey \<Rightarrow> string" and f' :: "'b wkey \<Rightarrow> string" and i
    by (simp_all add: row_pick_def row_find_sort [OF ok(1)] row_find_sort [OF ok(2)] split: option.split)
  from load_peer_keys_spec [of prefix "sort_key wk_id rows" d] obtain pk where
    pk: "load_peer_keys prefix d (sort_key wk_id rows) = Inr pk" "distinct (map fst pk)"
      "\<forall>p. map_of pk p = row_pick d rows (cm_prefix_peer prefix p)"
    using assms by (auto simp: star_rows_def rows_ok_sort peers_named_def pick)
  from load_psks_spec [of "prefix @ '':psks''" "sort_key wk_id psk_rows" d] obtain ps where
    ps: "load_content psk_class (prefix @ '':psks'') d (sort_key wk_id psk_rows) = Inr ps" "distinct (map fst ps)"
      "\<forall>p. map_of ps p = row_pick d psk_rows (map_key_id (prefix @ '':psks'') p None)"
    using assms by (auto simp: star_rows_def rows_ok_sort pairs_named_def pick)
  show ?thesis using pk ps by (simp add: cm_load_def Let_def load_root_key_pick pick)
qed

section \<open>Dropping every key of a star\<close>

lemma drop_peer_keys_eq:
  "\<not> cm_readonly self \<Longrightarrow> distinct (map (wk_id \<circ> snd) ks) \<Longrightarrow> \<forall>k \<in> set ks. wk_id (snd k) \<notin> wk_id ` set (cm_dropped self)
    \<Longrightarrow> drop_peer_keys False [] ks self = Inr (self\<lparr>cm_dropped := cm_dropped self @ map (drop_mark \<circ> snd) ks\<rparr>)"
proof (induction ks arbitrary: self)
  case (Cons x ks)
  obtain p k where x: "x = (p, k)" by (cases x)
  have "\<not> key_in (drop_mark k) (cm_dropped self)" using Cons.prems(3) by (auto simp: key_in_def x drop_mark_def image_iff)
  then have d: "cm_drop_key k False self = Inr (self\<lparr>cm_dropped := cm_dropped self @ [drop_mark k]\<rparr>)"
    using Cons.prems(1) by (simp add: cm_drop_key_def Let_def)
  have i: "wk_id (drop_mark k) = wk_id k" by (simp add: drop_mark_def)
  have "drop_peer_keys False [] ks (self\<lparr>cm_dropped := cm_dropped self @ [drop_mark k]\<rparr>)
      = Inr ((self\<lparr>cm_dropped := cm_dropped self @ [drop_mark k]\<rparr>)
          \<lparr>cm_dropped := (cm_dropped self @ [drop_mark k]) @ map (drop_mark \<circ> snd) ks\<rparr>)"
    by (subst Cons.IH) (use Cons.prems in \<open>auto simp: x i image_iff comp_def\<close>)
  then show ?case by (simp add: x d)
qed simp

lemma drop_pairs_eq:
  "\<not> km_readonly self \<Longrightarrow> distinct (map fst ps) \<Longrightarrow> fst ` set ps \<inter> fst ` set (km_dropped self) = {}
    \<Longrightarrow> drop_pairs psk_class False [] ps self
      = Inr (self\<lparr>km_dropped := km_dropped self @ map (\<lambda>(p, k). (p, drop_mark k)) ps\<rparr>)"
proof (induction ps arbitrary: self)
  case (Cons x ps)
  obtain p k where x: "x = (p, k)" by (cases x)
  have n: "p \<notin> fst ` set (km_dropped self)" using Cons.prems(3) by (auto simp: x)
  then have "map_of (km_dropped self) p = None" by (simp add: map_of_eq_None_iff)
  then have d: "drop_pair psk_class p k False self = Inr (self\<lparr>km_dropped := km_dropped self @ [(p, drop_mark k)]\<rparr>)"
    using Cons.prems(1) update_new [OF n] by (simp add: drop_pair_def psk_class_def)
  have w: "wants_delete False [] p = False" by (simp add: wants_delete_def)
  have "drop_pairs psk_class False [] ps (self\<lparr>km_dropped := km_dropped self @ [(p, drop_mark k)]\<rparr>)
      = Inr ((self\<lparr>km_dropped := km_dropped self @ [(p, drop_mark k)]\<rparr>)
          \<lparr>km_dropped := (km_dropped self @ [(p, drop_mark k)]) @ map (\<lambda>(p, k). (p, drop_mark k)) ps\<rparr>)"
    by (subst Cons.IH) (use Cons.prems in \<open>auto simp: x\<close>)
  then show ?case by (simp add: x d w)
qed simp

section \<open>Asserting the keys of an empty star\<close>

fun new_peer_keys :: "(nat \<Rightarrow> 'm) \<Rightarrow> string \<Rightarrow> nat \<Rightarrow> peer list \<Rightarrow> (peer \<times> 'm wkey) list" where
  "new_peer_keys gen prefix n [] = []"
| "new_peer_keys gen prefix n (p # ps) =
     (p, fst (new_key gen (cm_prefix_peer prefix p) n)) # new_peer_keys gen prefix (Suc n) ps"

fun new_psks :: "(nat \<Rightarrow> 'p) \<Rightarrow> string \<Rightarrow> nat \<Rightarrow> peer list \<Rightarrow> ((peer \<times> peer) \<times> 'p wkey) list" where
  "new_psks gen prefix n [] = []"
| "new_psks gen prefix n (p # ps) =
     (pair_key 0 p, fst (new_key gen (map_key_id prefix (pair_key 0 p) None) n)) # new_psks gen prefix (Suc n) ps"

lemma pair_key_0_inject [simp]: "pair_key 0 p = pair_key 0 q \<longleftrightarrow> p = q"
  by (auto simp: pair_key_eq_iff)

lemma new_peer_keys_keys [simp]: "map fst (new_peer_keys gen prefix n ps) = ps"
  by (induction ps arbitrary: n) auto

lemma new_psks_keys [simp]: "map fst (new_psks gen prefix n ps) = map (pair_key 0) ps"
  by (induction ps arbitrary: n) auto

lemma new_peer_keys_snd:
  "(p, k) \<in> set (new_peer_keys gen prefix n ps) \<Longrightarrow> p \<in> set ps \<and> wk_id k = cm_prefix_peer prefix p \<and> wk_saved k
     \<and> \<not> wk_dropped k \<and> (\<exists>i. n \<le> i \<and> i < n + length ps \<and> wk_material k = gen i)"
proof (induction ps arbitrary: n)
  case (Cons q ps)
  show ?case
  proof (cases "(p, k) \<in> set (new_peer_keys gen prefix (Suc n) ps)")
    case True
    from Cons.IH [OF this] show ?thesis by (auto intro: Suc_leD)
  next
    case False
    then show ?thesis using Cons.prems by (auto simp: new_key_def)
  qed
qed simp

lemma new_psks_snd:
  "(pr, k) \<in> set (new_psks gen prefix n ps) \<Longrightarrow> (\<exists>p \<in> set ps. pr = pair_key 0 p) \<and> wk_id k = map_key_id prefix pr None
     \<and> wk_saved k \<and> \<not> wk_dropped k \<and> (\<exists>i. n \<le> i \<and> i < n + length ps \<and> wk_material k = gen i)"
proof (induction ps arbitrary: n)
  case (Cons q ps)
  show ?case
  proof (cases "(pr, k) \<in> set (new_psks gen prefix (Suc n) ps)")
    case True
    from Cons.IH [OF this] show ?thesis by (auto intro: Suc_leD)
  next
    case False
    then show ?thesis using Cons.prems by (auto simp: new_key_def)
  qed
qed simp

lemma new_peer_keys_materials:
  "inj gen \<Longrightarrow> distinct (map (wk_material \<circ> snd) (new_peer_keys gen prefix n ps))"
proof (induction ps arbitrary: n)
  case (Cons q ps)
  have "gen n \<noteq> wk_material (snd x)" if "x \<in> set (new_peer_keys gen prefix (Suc n) ps)" for x
  proof -
    have "(fst x, snd x) \<in> set (new_peer_keys gen prefix (Suc n) ps)" using that by simp
    from new_peer_keys_snd [OF this] obtain i where "Suc n \<le> i" "wk_material (snd x) = gen i" by blast
    then show ?thesis using Cons.prems by (auto dest: injD)
  qed
  then show ?case using Cons by (auto simp: new_key_def)
qed simp

lemma new_psks_materials: "inj gen \<Longrightarrow> distinct (map (wk_material \<circ> snd) (new_psks gen prefix n ps))"
proof (induction ps arbitrary: n)
  case (Cons q ps)
  have "gen n \<noteq> wk_material (snd x)" if "x \<in> set (new_psks gen prefix (Suc n) ps)" for x
  proof -
    have "(fst x, snd x) \<in> set (new_psks gen prefix (Suc n) ps)" using that by simp
    from new_psks_snd [OF this] obtain i where "Suc n \<le> i" "wk_material (snd x) = gen i" by blast
    then show ?thesis using Cons.prems by (auto dest: injD)
  qed
  then show ?case using Cons by (auto simp: new_key_def)
qed simp

lemma km_assert_new:
  assumes "\<not> km_readonly self" and "pair_key 0 p \<notin> fst ` set (km_content self)"
  shows "km_assert_pair psk_class gen 0 p self =
    (let k = fst (new_key gen (map_key_id (km_prefix self) (pair_key 0 p) None) (km_gen self)) in
     Inr (Asserted k True, self\<lparr>km_content := km_content self @ [(pair_key 0 p, k)], km_gen := Suc (km_gen self),
       km_calls := km_calls self @ [SaveKey k]\<rparr>))"
proof -
  have "map_of (km_content self) (pair_key 0 p) = None" using assms(2) by (simp add: map_of_eq_None_iff)
  then show ?thesis using assms update_new [OF assms(2)]
    by (simp add: km_assert_eq psk_class_def new_key_def Let_def)
qed

lemma assert_peers_new:
  assumes "\<not> cm_readonly self" and "\<not> km_readonly (cm_psks self)" and "distinct ps"
    and "set ps \<inter> fst ` set (cm_peer_keys self) = {}"
    and "pair_key 0 ` set ps \<inter> fst ` set (km_content (cm_psks self)) = {}"
  shows "assert_peers gen pgen ps self =
    (let nk = new_peer_keys gen (cm_prefix self) (cm_gen self) ps;
         np = new_psks pgen (km_prefix (cm_psks self)) (km_gen (cm_psks self)) ps in
     Inr (self\<lparr>cm_peer_keys := cm_peer_keys self @ nk, cm_gen := cm_gen self + length ps,
       cm_calls := cm_calls self @ map (SaveKey \<circ> snd) nk,
       cm_psks := (cm_psks self)\<lparr>km_content := km_content (cm_psks self) @ np, km_gen := km_gen (cm_psks self) + length ps,
         km_calls := km_calls (cm_psks self) @ map (SaveKey \<circ> snd) np\<rparr>\<rparr>))"
  using assms
proof (induction ps arbitrary: self)
  case (Cons p ps)
  let ?k = "fst (new_key gen (cm_prefix_peer (cm_prefix self) p) (cm_gen self))"
  let ?m = "cm_psks self"
  let ?s = "fst (new_key pgen (map_key_id (km_prefix ?m) (pair_key 0 p) None) (km_gen ?m))"
  let ?m2 = "?m\<lparr>km_content := km_content ?m @ [(pair_key 0 p, ?s)], km_gen := Suc (km_gen ?m),
       km_calls := km_calls ?m @ [SaveKey ?s]\<rparr>"
  let ?self2 = "self\<lparr>cm_peer_keys := cm_peer_keys self @ [(p, ?k)], cm_gen := Suc (cm_gen self),
       cm_calls := cm_calls self @ [SaveKey ?k], cm_psks := ?m2\<rparr>"
  have p: "p \<notin> fst ` set (cm_peer_keys self)" "pair_key 0 p \<notin> fst ` set (km_content ?m)" using Cons.prems by auto
  then have "map_of (cm_peer_keys self) p = None" by (simp add: map_of_eq_None_iff)
  then have step: "assert_peers gen pgen (p # ps) self = assert_peers gen pgen ps ?self2"
    using km_assert_new [OF Cons.prems(2) p(2), of pgen] update_new [OF p(1)] by (simp add: new_key_def Let_def)
  have "assert_peers gen pgen ps ?self2 =
    (let nk = new_peer_keys gen (cm_prefix ?self2) (cm_gen ?self2) ps;
         np = new_psks pgen (km_prefix (cm_psks ?self2)) (km_gen (cm_psks ?self2)) ps in
     Inr (?self2\<lparr>cm_peer_keys := cm_peer_keys ?self2 @ nk, cm_gen := cm_gen ?self2 + length ps,
       cm_calls := cm_calls ?self2 @ map (SaveKey \<circ> snd) nk,
       cm_psks := (cm_psks ?self2)\<lparr>km_content := km_content (cm_psks ?self2) @ np,
         km_gen := km_gen (cm_psks ?self2) + length ps,
         km_calls := km_calls (cm_psks ?self2) @ map (SaveKey \<circ> snd) np\<rparr>\<rparr>))"
  proof (rule Cons.IH)
    show "set ps \<inter> fst ` set (cm_peer_keys ?self2) = {}"
      "pair_key 0 ` set ps \<inter> fst ` set (km_content (cm_psks ?self2)) = {}" using Cons.prems(3-5) by auto
  qed (use Cons.prems in auto)
  then show ?case unfolding step by (simp add: Let_def)
qed simp


section \<open>Two generations of keys\<close>

text \<open>What dropping the keys \<open>ks\<close> and then adding the keys \<open>nk\<close> leaves in a table without dropped keys.\<close>

lemma rekey_table:
  assumes ok: "rows_ok rows" and live: "\<forall>r \<in> set rows. \<not> wk_dropped r" and ks: "set ks \<subseteq> set rows" "distinct ks"
    and nk: "distinct (map wk_material nk)" "distinct (map wk_id nk)"
      "\<forall>k \<in> set nk. wk_saved k \<and> \<not> wk_dropped k \<and> wk_material k \<notin> wk_material ` set rows"
    and cover: "\<forall>k \<in> set nk. \<forall>r \<in> set rows. wk_id r = wk_id k \<longrightarrow> r \<in> set ks"
  shows "run_calls (map (SaveKey \<circ> drop_mark) ks @ map SaveKey nk) rows = Inr (map (flip ks) rows @ nk)"
    and "rows_ok (map (flip ks) rows @ nk)"
    and "k \<in> set ks \<Longrightarrow> row_find (map (flip ks) rows @ nk) (wk_id k) True = Some (k\<lparr>wk_dropped := True\<rparr>)"
    and "k \<in> set nk \<Longrightarrow> row_find (map (flip ks) rows @ nk) (wk_id k) False = Some k"
    and "\<forall>r \<in> set rows. wk_id r = i \<longrightarrow> r \<in> set ks \<Longrightarrow> i \<notin> wk_id ` set nk
      \<Longrightarrow> row_find (map (flip ks) rows @ nk) i False = None"
proof -
  let ?rows = "map (flip ks) rows"
  have none: "(wk_id k, True) \<notin> row_keys rows" for k :: "'a wkey" using live by (auto simp: row_keys_iff)
  have d: "run_calls (map (SaveKey \<circ> drop_mark) ks) rows = Inr ?rows \<and> rows_ok ?rows"
    using ks none live by (intro save_all_dropped ok) auto
  have mat: "wk_material ` set ?rows = wk_material ` set rows" by (auto simp: image_image)
  have "(wk_id k, False) \<notin> row_keys ?rows" if k: "k \<in> set nk" for k
  proof
    assume "(wk_id k, False) \<in> row_keys ?rows"
    then obtain r where "r \<in> set rows" "wk_id r = wk_id k" "r \<notin> set ks" by (auto simp: row_keys_iff)
    then show False using cover k by blast
  qed
  moreover have "distinct (map (\<lambda>k. (wk_id k, wk_dropped k)) nk)" using nk(2) by (auto simp: distinct_map inj_on_def)
  ultimately have "fresh_keys ?rows nk" using nk(1,3) unfolding fresh_keys_def mat by auto
  with d have n: "run_calls (map SaveKey nk) ?rows = Inr (?rows @ nk) \<and> rows_ok (?rows @ nk)"
    by (intro save_all_new) auto
  show "run_calls (map (SaveKey \<circ> drop_mark) ks @ map SaveKey nk) rows = Inr (?rows @ nk)"
    using d n by (simp add: run_calls_append)
  show ok': "rows_ok (?rows @ nk)" using n by simp
  show "row_find (?rows @ nk) (wk_id k) True = Some (k\<lparr>wk_dropped := True\<rparr>)" if "k \<in> set ks"
  proof -
    have "flip ks k \<in> set ?rows" using that ks(1) by auto
    then have "k\<lparr>wk_dropped := True\<rparr> \<in> set (?rows @ nk)" using that by (simp add: flip_def)
    then show ?thesis by (simp add: row_find_Some [OF ok'])
  qed
  show "row_find (?rows @ nk) (wk_id k) False = Some k" if "k \<in> set nk"
    using that nk(3) by (simp add: row_find_Some [OF ok'])
  show "row_find (?rows @ nk) i False = None"
    if "\<forall>r \<in> set rows. wk_id r = i \<longrightarrow> r \<in> set ks" "i \<notin> wk_id ` set nk"
    using that by (auto simp: row_find_None row_keys_iff)
qed

text \<open>The keys of a star with the ids of its root and peers.\<close>

definition star_keys :: "('m, 'p) central_keymat \<Rightarrow> (peer \<times> 'm wkey) list" where
  "star_keys self = (case cm_root_key self of None \<Rightarrow> [] | Some k \<Rightarrow> [(0, k)]) @ cm_peer_keys self"

lemma cm_drop_all:
  assumes "\<not> cm_readonly self" and "\<not> km_readonly (cm_psks self)" and "cm_dropped self = []" and "km_dropped (cm_psks self) = []"
    and "distinct (map (wk_id \<circ> snd) (star_keys self))" and "distinct (map fst (km_content (cm_psks self)))"
  shows "\<exists>n. cm_drop_keys False [] self = Inr (n, self\<lparr>cm_dropped := map (drop_mark \<circ> snd) (star_keys self),
      cm_root_key := None, cm_peer_keys := [],
      cm_psks := (cm_psks self)\<lparr>km_dropped := map (\<lambda>(p, k). (p, drop_mark k)) (km_content (cm_psks self)), km_content := []\<rparr>\<rparr>)"
proof -
  have d: "drop_peer_keys False [] (star_keys self) self
      = Inr (self\<lparr>cm_dropped := map (drop_mark \<circ> snd) (star_keys self)\<rparr>)"
    using drop_peer_keys_eq [OF assms(1,5)] assms(3) by simp
  have p: "drop_pairs psk_class False [] (km_content (cm_psks self)) (cm_psks self)
      = Inr ((cm_psks self)\<lparr>km_dropped := map (\<lambda>(p, k). (p, drop_mark k)) (km_content (cm_psks self))\<rparr>)"
    using drop_pairs_eq [OF assms(2,6)] assms(4) by simp
  show ?thesis using d p assms(1,2)
    by (simp add: cm_drop_keys_def star_keys_def [symmetric] km_drop_keys_def wants_delete_def Let_def)
qed

lemma unsaved_dropped [simp]: "unsaved (map (drop_mark \<circ> f) xs) = map (drop_mark \<circ> f) xs"
  by (simp add: unsaved_def drop_mark_def filter_id_conv)

text \<open>The material of a star after its keys were dropped and saved, and new ones asserted.\<close>

lemma rekeyed_star:
  assumes "\<not> cm_readonly self" and "\<not> km_readonly (cm_psks self)" and "cm_dropped self = []" and "cm_deleted self = []"
    and "km_dropped (cm_psks self) = []" and "km_deleted (cm_psks self) = []"
    and "cm_calls self = []" and "km_calls (cm_psks self) = []"
    and "distinct (map (wk_id \<circ> snd) (star_keys self))" and "distinct (map fst (km_content (cm_psks self)))"
    and "distinct (cm_peer_ids self)" and "cm_drop_keys False [] self = Inr (n, self1)"
    and "cm_assert_keys gen pgen (cm_db_save self1) = Inr self3"
  shows "cm_root_key self3 = Some (fst (new_key gen (cm_prefix self @ '':root'') (cm_gen self)))"
    and "cm_peer_keys self3 = new_peer_keys gen (cm_prefix self) (Suc (cm_gen self)) (cm_peer_ids self)"
    and "km_content (cm_psks self3)
      = new_psks pgen (km_prefix (cm_psks self)) (km_gen (cm_psks self)) (cm_peer_ids self)"
    and "cm_calls self3 = map (SaveKey \<circ> drop_mark) (map snd (star_keys self))
      @ map SaveKey (map snd (star_keys self3))"
    and "km_calls (cm_psks self3) = map (SaveKey \<circ> drop_mark) (map snd (km_content (cm_psks self)))
      @ map SaveKey (map snd (km_content (cm_psks self3)))"
proof -
  let ?m = "cm_psks self"
  let ?self1 = "self\<lparr>cm_dropped := map (drop_mark \<circ> snd) (star_keys self), cm_root_key := None, cm_peer_keys := [],
      cm_psks := ?m\<lparr>km_dropped := map (\<lambda>(p, k). (p, drop_mark k)) (km_content ?m), km_content := []\<rparr>\<rparr>"
  have s1: "self1 = ?self1" using cm_drop_all [OF assms(1-3,5,9,10)] assms(12) by auto
  define self2 where "self2 = cm_db_save self1"
  have s2: "cm_root_key self2 = None" "cm_peer_keys self2 = []" "km_content (cm_psks self2) = []"
      "cm_prefix self2 = cm_prefix self" "cm_gen self2 = cm_gen self" "cm_peer_ids self2 = cm_peer_ids self"
      "km_prefix (cm_psks self2) = km_prefix ?m" "km_gen (cm_psks self2) = km_gen ?m"
      "\<not> cm_readonly self2" "\<not> km_readonly (cm_psks self2)"
      "cm_calls self2 = map (SaveKey \<circ> drop_mark) (map snd (star_keys self))"
      "km_calls (cm_psks self2) = map (SaveKey \<circ> drop_mark) (map snd (km_content ?m))"
    using assms(1,2,4,6,7,8)
    by (simp_all add: self2_def s1 cm_db_save_def km_db_save_def km_save_def psk_class_def comp_def case_prod_beta
        unsaved_dropped [unfolded comp_def])
  define self2' where "self2' = self2\<lparr>cm_root_key := Some (fst (new_key gen (cm_prefix self @ '':root'') (cm_gen self))),
      cm_gen := Suc (cm_gen self), cm_calls := cm_calls self2 @ [SaveKey (fst (new_key gen (cm_prefix self @ '':root'') (cm_gen self)))]\<rparr>"
  have "cm_assert_keys gen pgen self2 = assert_peers gen pgen (cm_peer_ids self) self2'"
    using s2 by (simp add: cm_assert_keys_def self2'_def new_key_def Let_def)
  also have "\<dots> = (let nk = new_peer_keys gen (cm_prefix self2') (cm_gen self2') (cm_peer_ids self);
         np = new_psks pgen (km_prefix (cm_psks self2')) (km_gen (cm_psks self2')) (cm_peer_ids self) in
     Inr (self2'\<lparr>cm_peer_keys := cm_peer_keys self2' @ nk, cm_gen := cm_gen self2' + length (cm_peer_ids self),
       cm_calls := cm_calls self2' @ map (SaveKey \<circ> snd) nk,
       cm_psks := (cm_psks self2')\<lparr>km_content := km_content (cm_psks self2') @ np,
         km_gen := km_gen (cm_psks self2') + length (cm_peer_ids self),
         km_calls := km_calls (cm_psks self2') @ map (SaveKey \<circ> snd) np\<rparr>\<rparr>))"
    by (rule assert_peers_new) (use s2 assms(11) in \<open>simp_all add: self2'_def\<close>)
  finally have s3: "self3 = self2'\<lparr>
      cm_peer_keys := new_peer_keys gen (cm_prefix self) (Suc (cm_gen self)) (cm_peer_ids self),
      cm_gen := Suc (cm_gen self) + length (cm_peer_ids self),
      cm_calls := cm_calls self2' @ map (SaveKey \<circ> snd) (new_peer_keys gen (cm_prefix self) (Suc (cm_gen self)) (cm_peer_ids self)),
      cm_psks := (cm_psks self2)\<lparr>km_content := new_psks pgen (km_prefix ?m) (km_gen ?m) (cm_peer_ids self),
         km_gen := km_gen ?m + length (cm_peer_ids self),
         km_calls := km_calls (cm_psks self2) @ map (SaveKey \<circ> snd) (new_psks pgen (km_prefix ?m) (km_gen ?m) (cm_peer_ids self))\<rparr>\<rparr>"
    using assms(13) s2 by (simp add: self2_def [symmetric] Let_def self2'_def)
  show "cm_root_key self3 = Some (fst (new_key gen (cm_prefix self @ '':root'') (cm_gen self)))"
    "cm_peer_keys self3 = new_peer_keys gen (cm_prefix self) (Suc (cm_gen self)) (cm_peer_ids self)"
    "km_content (cm_psks self3) = new_psks pgen (km_prefix ?m) (km_gen ?m) (cm_peer_ids self)"
    "cm_calls self3 = map (SaveKey \<circ> drop_mark) (map snd (star_keys self)) @ map SaveKey (map snd (star_keys self3))"
    "km_calls (cm_psks self3) = map (SaveKey \<circ> drop_mark) (map snd (km_content ?m))
      @ map SaveKey (map snd (km_content (cm_psks self3)))"
    by (simp_all add: s3 self2'_def s2 star_keys_def)
qed


section \<open>What a star loaded from the table holds\<close>

lemma sql_like_strip:
  "CHR ''%'' \<notin> set pre \<Longrightarrow> length pre = length t \<Longrightarrow> sql_like (pre @ s) (t @ u) \<Longrightarrow> sql_like s u"
proof (induction pre arbitrary: t)
  case (Cons c pre)
  then obtain x t' where "t = x # t'" by (cases t) auto
  then show ?case using Cons by auto
qed simp

lemma root_not_peer: "CHR ''%'' \<notin> set prefix \<Longrightarrow> \<not> sql_like (prefix @ '':peer:%'') (prefix @ '':root'')"
  using sql_like_strip [of prefix prefix "'':peer:%''" "'':root''"] by (auto simp: ascii_lower_def)

lemma loaded_star:
  assumes rows: "star_rows prefix rows psks" and load: "cm_load prefix ids False ro rows psks g pg = Inr km"
  shows "cm_root_key km = row_find rows (prefix @ '':root'') False"
    and "map_of (cm_peer_keys km) p = row_find rows (cm_prefix_peer prefix p) False"
    and "map_of (km_content (cm_psks km)) pr = row_find psks (map_key_id (prefix @ '':psks'') pr None) False"
    and "distinct (map fst (cm_peer_keys km))" and "distinct (map fst (km_content (cm_psks km)))"
    and "distinct (map (wk_id \<circ> snd) (star_keys km))" and "set (map snd (star_keys km)) \<subseteq> set rows"
    and "distinct (map (wk_id \<circ> snd) (km_content (cm_psks km)))" and "set (map snd (km_content (cm_psks km))) \<subseteq> set psks"
proof -
  have ok: "rows_ok rows" "rows_ok psks" using rows by (simp_all add: star_rows_def)
  from cm_load_spec [OF rows, of ids False ro g pg] load show km:
    "cm_root_key km = row_find rows (prefix @ '':root'') False"
    "map_of (cm_peer_keys km) p = row_find rows (cm_prefix_peer prefix p) False"
    "map_of (km_content (cm_psks km)) pr = row_find psks (map_key_id (prefix @ '':psks'') pr None) False"
    "distinct (map fst (cm_peer_keys km))" "distinct (map fst (km_content (cm_psks km)))" for p pr
    by (auto simp: row_pick_def)
  have root: "r \<in> set rows \<and> wk_id r = prefix @ '':root''" if "cm_root_key km = Some r" for r
    using that km(1) by (simp add: row_find_Some [OF ok(1)])
  have peer: "r \<in> set rows \<and> wk_id r = cm_prefix_peer prefix p" if "(p, r) \<in> set (cm_peer_keys km)" for p r
    using map_of_is_SomeI [OF km(4) that] km(2) [of p] row_find_Some [OF ok(1)] by simp
  have pair: "r \<in> set psks \<and> wk_id r = map_key_id (prefix @ '':psks'') p None" if "(p, r) \<in> set (km_content (cm_psks km))" for p r
    using map_of_is_SomeI [OF km(5) that] km(3) [of p] row_find_Some [OF ok(2)] by simp
  have "map (wk_id \<circ> snd) (cm_peer_keys km) = map (cm_prefix_peer prefix) (map fst (cm_peer_keys km))"
    using peer by auto
  moreover have "distinct (map (cm_prefix_peer prefix) (map fst (cm_peer_keys km)))"
    using km(4) by (subst distinct_map) (simp add: inj_on_def)
  ultimately have "distinct (map (wk_id \<circ> snd) (cm_peer_keys km))" by (simp only:)
  moreover have "prefix @ '':root'' \<notin> (wk_id \<circ> snd) ` set (cm_peer_keys km)" using peer by (auto simp: cm_prefix_peer_def)
  ultimately show "distinct (map (wk_id \<circ> snd) (star_keys km))" using root by (auto simp: star_keys_def split: option.split)
  show "set (map snd (star_keys km)) \<subseteq> set rows" using root peer by (auto simp: star_keys_def split: option.splits)
  have "map (wk_id \<circ> snd) (km_content (cm_psks km))
      = map (\<lambda>p. map_key_id (prefix @ '':psks'') p None) (map fst (km_content (cm_psks km)))"
    using pair by auto
  moreover have "distinct (map (\<lambda>p. map_key_id (prefix @ '':psks'') p None) (map fst (km_content (cm_psks km))))"
    using km(5) by (subst distinct_map) (simp add: inj_on_def map_key_id_inject)
  ultimately show "distinct (map (wk_id \<circ> snd) (km_content (cm_psks km)))" by (simp only:)
  show "set (map snd (km_content (cm_psks km))) \<subseteq> set psks" using pair by auto
qed

lemma cm_load_fields:
  assumes "cm_load prefix ids d ro rows psks g pg = Inr km"
  shows "cm_prefix km = prefix" "cm_peer_ids km = ids" "km_prefix (cm_psks km) = prefix @ '':psks''"
    "cm_readonly km = ro" "km_readonly (cm_psks km) = ro" "cm_dropped km = []" "cm_deleted km = []"
    "km_dropped (cm_psks km) = []" "km_deleted (cm_psks km) = []" "cm_calls km = []" "km_calls (cm_psks km) = []"
    "cm_gen km = g" "km_gen (cm_psks km) = pg"
  using assms by (auto simp: cm_load_def Let_def res_simps)

text \<open>Every row of the star is one of its keys, when no row is dropped.\<close>

lemma star_covers:
  assumes "star_rows prefix rows psks" and "cm_load prefix ids False ro rows psks g pg = Inr km"
    and "\<forall>r \<in> set rows. \<not> wk_dropped r" and "\<forall>r \<in> set psks. \<not> wk_dropped r"
  shows "r \<in> set rows \<Longrightarrow> wk_id r = prefix @ '':root'' \<Longrightarrow> r \<in> set (map snd (star_keys km))"
    and "r \<in> set rows \<Longrightarrow> wk_id r = cm_prefix_peer prefix p \<Longrightarrow> r \<in> set (map snd (star_keys km))"
    and "s \<in> set psks \<Longrightarrow> wk_id s = map_key_id (prefix @ '':psks'') pr None \<Longrightarrow> s \<in> set (map snd (km_content (cm_psks km)))"
proof -
  have ok: "rows_ok rows" "rows_ok psks" using assms(1) by (simp_all add: star_rows_def)
  note L = loaded_star [OF assms(1,2)]
  show "r \<in> set (map snd (star_keys km))" if "r \<in> set rows" "wk_id r = prefix @ '':root''"
  proof -
    have "cm_root_key km = Some r" using that assms(3) L(1) row_find_Some [OF ok(1)] by simp
    then show ?thesis by (simp add: star_keys_def)
  qed
  show "r \<in> set (map snd (star_keys km))" if "r \<in> set rows" "wk_id r = cm_prefix_peer prefix p"
  proof -
    have "map_of (cm_peer_keys km) p = Some r" using that assms(3) L(2) row_find_Some [OF ok(1)] by simp
    then have "(p, r) \<in> set (cm_peer_keys km)" by (rule map_of_SomeD)
    then show ?thesis by (force simp: star_keys_def)
  qed
  show "s \<in> set (map snd (km_content (cm_psks km)))" if "s \<in> set psks" "wk_id s = map_key_id (prefix @ '':psks'') pr None"
  proof -
    have "map_of (km_content (cm_psks km)) pr = Some s" using that assms(4) L(3) row_find_Some [OF ok(2)] by simp
    then have "(pr, s) \<in> set (km_content (cm_psks km))" by (rule map_of_SomeD)
    then show ?thesis by force
  qed
qed

text \<open>The new keys can be added to the table.\<close>

lemma new_star_keys:
  assumes "inj gen" and "\<forall>i. gen i \<notin> M" and "distinct ids"
    and "ks = map snd ((0, fst (new_key gen (prefix @ '':root'') g)) # new_peer_keys gen prefix (Suc g) ids)"
  shows "distinct (map wk_material ks)" "distinct (map wk_id ks)"
    "\<forall>k \<in> set ks. wk_saved k \<and> \<not> wk_dropped k \<and> wk_material k \<notin> M
       \<and> (wk_id k = prefix @ '':root'' \<or> (\<exists>p. wk_id k = cm_prefix_peer prefix p))"
proof -
  let ?pk = "new_peer_keys gen prefix (Suc g) ids"
  have P: "wk_id k = cm_prefix_peer prefix p" "wk_saved k" "\<not> wk_dropped k" "\<exists>i. Suc g \<le> i \<and> wk_material k = gen i"
    if "(p, k) \<in> set ?pk" for p k using new_peer_keys_snd [OF that] by auto
  have "gen g \<noteq> wk_material k" if "(p, k) \<in> set ?pk" for p k using P(4) [OF that] assms(1) by (auto simp: inj_eq)
  then have "gen g \<notin> (wk_material \<circ> snd) ` set ?pk" by force
  then show "distinct (map wk_material ks)"
    using new_peer_keys_materials [OF assms(1), of prefix "Suc g" ids] by (simp add: assms(4) new_key_def)
  have "(wk_id \<circ> snd) x = (cm_prefix_peer prefix \<circ> fst) x" if "x \<in> set ?pk" for x
    using P(1) [of "fst x" "snd x"] that by simp
  then have "map wk_id (map snd ?pk) = map (cm_prefix_peer prefix) (map fst ?pk)"
    unfolding map_map by (intro map_cong refl)
  moreover have "distinct (map (cm_prefix_peer prefix) (map fst ?pk))" using assms(3) by (simp add: distinct_map inj_on_def)
  ultimately have "distinct (map wk_id (map snd ?pk))" by (simp only:)
  moreover have "prefix @ '':root'' \<notin> wk_id ` set (map snd ?pk)" using P(1) by (auto simp: cm_prefix_peer_def)
  ultimately show "distinct (map wk_id ks)" by (simp add: assms(4) new_key_def image_image)
  show "\<forall>k \<in> set ks. wk_saved k \<and> \<not> wk_dropped k \<and> wk_material k \<notin> M
       \<and> (wk_id k = prefix @ '':root'' \<or> (\<exists>p. wk_id k = cm_prefix_peer prefix p))"
  proof
    fix k assume "k \<in> set ks"
    then consider "k = fst (new_key gen (prefix @ '':root'') g)" | p where "(p, k) \<in> set ?pk" by (auto simp: assms(4))
    then show "wk_saved k \<and> \<not> wk_dropped k \<and> wk_material k \<notin> M
       \<and> (wk_id k = prefix @ '':root'' \<or> (\<exists>p. wk_id k = cm_prefix_peer prefix p))"
    proof cases
      case 1
      then show ?thesis using assms(2) by (simp add: new_key_def)
    next
      case (2 p)
      from P [OF this] assms(2) show ?thesis by metis
    qed
  qed
qed

lemma new_star_psks:
  assumes "inj gen" and "\<forall>i. gen i \<notin> M" and "distinct ids" and "ks = map snd (new_psks gen prefix g ids)"
  shows "distinct (map wk_material ks)" "distinct (map wk_id ks)"
    "\<forall>k \<in> set ks. wk_saved k \<and> \<not> wk_dropped k \<and> wk_material k \<notin> M \<and> (\<exists>p. wk_id k = map_key_id prefix p None)"
proof -
  let ?pk = "new_psks gen prefix g ids"
  have P: "wk_id k = map_key_id prefix p None" "wk_saved k" "\<not> wk_dropped k" "\<exists>i. wk_material k = gen i"
    if "(p, k) \<in> set ?pk" for p k using new_psks_snd [OF that] by auto
  show "distinct (map wk_material ks)"
    using new_psks_materials [OF assms(1), of prefix g ids] by (simp add: assms(4))
  have "(wk_id \<circ> snd) x = ((\<lambda>p. map_key_id prefix p None) \<circ> fst) x" if "x \<in> set ?pk" for x
    using P(1) [of "fst x" "snd x"] that by simp
  then have "map wk_id (map snd ?pk) = map (\<lambda>p. map_key_id prefix p None) (map fst ?pk)"
    unfolding map_map by (intro map_cong refl)
  moreover have "distinct (map (\<lambda>p. map_key_id prefix p None) (map fst ?pk))"
    using assms(3) by (simp add: distinct_map inj_on_def map_key_id_inject)
  ultimately show "distinct (map wk_id ks)" unfolding assms(4) by (simp only:)
  show "\<forall>k \<in> set ks. wk_saved k \<and> \<not> wk_dropped k \<and> wk_material k \<notin> M \<and> (\<exists>p. wk_id k = map_key_id prefix p None)"
  proof
    fix k assume "k \<in> set ks"
    then obtain p where "(p, k) \<in> set ?pk" by (auto simp: assms(4))
    from P [OF this] assms(2) show "wk_saved k \<and> \<not> wk_dropped k \<and> wk_material k \<notin> M \<and> (\<exists>p. wk_id k = map_key_id prefix p None)"
      by metis
  qed
qed


text \<open>The two tables after the keys were dropped, saved and asserted again.\<close>

lemma rekeyed_rows:
  assumes rows: "star_rows prefix rows psks" and live: "\<forall>r \<in> set rows. \<not> wk_dropped r" "\<forall>r \<in> set psks. \<not> wk_dropped r"
    and load: "cm_load prefix ids False False rows psks g pg = Inr km" and ids: "distinct ids"
    and gen: "inj gen" "\<forall>i. gen i \<notin> wk_material ` set rows" "inj pgen" "\<forall>i. pgen i \<notin> wk_material ` set psks"
    and ks: "ks = map snd (star_keys km)" and ps: "ps = map snd (km_content (cm_psks km))"
    and nk: "nk = map snd ((0, fst (new_key gen (prefix @ '':root'') g)) # new_peer_keys gen prefix (Suc g) ids)"
    and np: "np = map snd (new_psks pgen (prefix @ '':psks'') pg ids)"
  shows "run_calls (map (SaveKey \<circ> drop_mark) ks @ map SaveKey nk) rows = Inr (map (flip ks) rows @ nk)"
    and "run_calls (map (SaveKey \<circ> drop_mark) ps @ map SaveKey np) psks = Inr (map (flip ps) psks @ np)"
    and "star_rows prefix (map (flip ks) rows @ nk) (map (flip ps) psks @ np)"
    and "k \<in> set ks \<Longrightarrow> row_find (map (flip ks) rows @ nk) (wk_id k) True = Some (k\<lparr>wk_dropped := True\<rparr>)"
    and "s \<in> set ps \<Longrightarrow> row_find (map (flip ps) psks @ np) (wk_id s) True = Some (s\<lparr>wk_dropped := True\<rparr>)"
    and "k \<in> set nk \<Longrightarrow> row_find (map (flip ks) rows @ nk) (wk_id k) False = Some k"
    and "s \<in> set np \<Longrightarrow> row_find (map (flip ps) psks @ np) (wk_id s) False = Some s"
    and "cm_prefix_peer prefix p \<notin> wk_id ` set nk \<Longrightarrow> row_find (map (flip ks) rows @ nk) (cm_prefix_peer prefix p) False = None"
    and "map_key_id (prefix @ '':psks'') pr None \<notin> wk_id ` set np
      \<Longrightarrow> row_find (map (flip ps) psks @ np) (map_key_id (prefix @ '':psks'') pr None) False = None"
    and "\<forall>k \<in> set nk. wk_material k \<notin> wk_material ` set rows"
proof -
  have ok: "rows_ok rows" "rows_ok psks" "peers_named prefix rows" "pairs_named (prefix @ '':psks'') psks"
    using rows by (simp_all add: star_rows_def)
  note L = loaded_star [OF rows load]
  note C = star_covers [OF rows load live]
  note N = new_star_keys [OF gen(1,2) ids nk] and P = new_star_psks [OF gen(3,4) ids np]
  have dk: "distinct ks" "distinct ps" using L(6,8) unfolding ks ps by (metis distinct_map map_map)+
  have sub: "set ks \<subseteq> set rows" "set ps \<subseteq> set psks" using L(7,9) by (simp_all add: ks ps)
  have ck: "\<forall>k \<in> set nk. \<forall>r \<in> set rows. wk_id r = wk_id k \<longrightarrow> r \<in> set ks"
    using N(3) C(1,2) unfolding ks by metis
  have cp: "\<forall>k \<in> set np. \<forall>r \<in> set psks. wk_id r = wk_id k \<longrightarrow> r \<in> set ps"
    using P(3) C(3) unfolding ps by metis
  have n3: "\<forall>k \<in> set nk. wk_saved k \<and> \<not> wk_dropped k \<and> wk_material k \<notin> wk_material ` set rows" using N(3) by blast
  have p3: "\<forall>k \<in> set np. wk_saved k \<and> \<not> wk_dropped k \<and> wk_material k \<notin> wk_material ` set psks" using P(3) by blast
  note T = rekey_table [OF ok(1) live(1) sub(1) dk(1) N(1,2) n3 ck]
  note U = rekey_table [OF ok(2) live(2) sub(2) dk(2) P(1,2) p3 cp]
  show "run_calls (map (SaveKey \<circ> drop_mark) ks @ map SaveKey nk) rows = Inr (map (flip ks) rows @ nk)" by (rule T(1))
  show "run_calls (map (SaveKey \<circ> drop_mark) ps @ map SaveKey np) psks = Inr (map (flip ps) psks @ np)" by (rule U(1))
  have "peers_named prefix (map (flip ks) rows @ nk)"
    using ok(3) N(3) root_not_peer [of prefix] unfolding peers_named_def by auto
  moreover have "pairs_named (prefix @ '':psks'') (map (flip ps) psks @ np)"
    using ok(4) P(3) unfolding pairs_named_def by auto
  ultimately show "star_rows prefix (map (flip ks) rows @ nk) (map (flip ps) psks @ np)"
    using T(2) U(2) by (simp add: star_rows_def)
  show "row_find (map (flip ks) rows @ nk) (wk_id k) True = Some (k\<lparr>wk_dropped := True\<rparr>)" if "k \<in> set ks" using T(3) that .
  show "row_find (map (flip ps) psks @ np) (wk_id s) True = Some (s\<lparr>wk_dropped := True\<rparr>)" if "s \<in> set ps" using U(3) that .
  show "row_find (map (flip ks) rows @ nk) (wk_id k) False = Some k" if "k \<in> set nk" using T(4) that .
  show "row_find (map (flip ps) psks @ np) (wk_id s) False = Some s" if "s \<in> set np" using U(4) that .
  show "row_find (map (flip ks) rows @ nk) (cm_prefix_peer prefix p) False = None"
    if "cm_prefix_peer prefix p \<notin> wk_id ` set nk"
    by (rule T(5)) (use C(2) that in \<open>auto simp: ks\<close>)
  show "row_find (map (flip ps) psks @ np) (map_key_id (prefix @ '':psks'') pr None) False = None"
    if "map_key_id (prefix @ '':psks'') pr None \<notin> wk_id ` set np"
    by (rule U(5)) (use C(3) that in \<open>auto simp: ps\<close>)
  show "\<forall>k \<in> set nk. wk_material k \<notin> wk_material ` set rows" using n3 by blast
qed

section \<open>Properties\<close>

text \<open>C7: Rekeying the root VPN keeps two generations of keys apart. After every key of a star was dropped, saved and
  asserted again, the calls on the database raise no integrity error; the material that prefers dropped keys
  loads the old key of the root, of each peer and each pair, and the ordinary material loads exactly the new ones,
  none of which occurs in the old table.\<close>

theorem rekey_two_generations:
  assumes rows: "star_rows prefix rows psks" and live: "\<forall>r \<in> set rows. \<not> wk_dropped r" "\<forall>r \<in> set psks. \<not> wk_dropped r"
    and load: "cm_load prefix ids False False rows psks g pg = Inr km" and ids: "distinct ids"
    and drop: "cm_drop_keys False [] km = Inr (n, km1)" and asr: "cm_assert_keys gen pgen (cm_db_save km1) = Inr km3"
    and gen: "inj gen" "\<forall>i. gen i \<notin> wk_material ` set rows" "inj pgen" "\<forall>i. pgen i \<notin> wk_material ` set psks"
  shows "\<exists>rows' psks' old new. run_calls (cm_calls km3) rows = Inr rows' \<and> run_calls (km_calls (cm_psks km3)) psks = Inr psks'
    \<and> cm_load prefix ids True True rows' psks' 0 0 = Inr old \<and> cm_load prefix ids False False rows' psks' 0 0 = Inr new
    \<and> (\<forall>k. cm_root_key km = Some k \<longrightarrow> cm_root_key old = Some (k\<lparr>wk_dropped := True\<rparr>))
    \<and> (\<forall>p k. map_of (cm_peer_keys km) p = Some k \<longrightarrow> map_of (cm_peer_keys old) p = Some (k\<lparr>wk_dropped := True\<rparr>))
    \<and> (\<forall>p k. map_of (km_content (cm_psks km)) p = Some k
         \<longrightarrow> map_of (km_content (cm_psks old)) p = Some (k\<lparr>wk_dropped := True\<rparr>))
    \<and> cm_root_key new = cm_root_key km3 \<and> (\<forall>p. map_of (cm_peer_keys new) p = map_of (cm_peer_keys km3) p)
    \<and> (\<forall>p. map_of (km_content (cm_psks new)) p = map_of (km_content (cm_psks km3)) p)
    \<and> (\<forall>k \<in> snd ` set (star_keys km3). wk_material k \<notin> wk_material ` set rows)"
proof -
  note F = cm_load_fields [OF load] and L = loaded_star [OF rows load]
  have R: "cm_root_key km3 = Some (fst (new_key gen (prefix @ '':root'') g))"
    "cm_peer_keys km3 = new_peer_keys gen prefix (Suc g) ids"
    "km_content (cm_psks km3) = new_psks pgen (prefix @ '':psks'') pg ids"
    "cm_calls km3 = map (SaveKey \<circ> drop_mark) (map snd (star_keys km)) @ map SaveKey (map snd (star_keys km3))"
    "km_calls (cm_psks km3) = map (SaveKey \<circ> drop_mark) (map snd (km_content (cm_psks km)))
      @ map SaveKey (map snd (km_content (cm_psks km3)))"
    using rekeyed_star [OF _ _ F(6,7,8,9,10,11) L(6) L(5) _ drop asr] F(1-5,12,13) ids by simp_all
  have star3: "star_keys km3 = (0, fst (new_key gen (prefix @ '':root'') g)) # new_peer_keys gen prefix (Suc g) ids"
    using R(1,2) by (simp add: star_keys_def)
  define ks where "ks = map snd (star_keys km)"
  define ps where "ps = map snd (km_content (cm_psks km))"
  define nk where "nk = map snd (star_keys km3)"
  define np where "np = map snd (km_content (cm_psks km3))"
  note T = rekeyed_rows [OF rows live load ids gen ks_def ps_def nk_def [unfolded star3] np_def [unfolded R(3)]]
  define rows' where "rows' = map (flip ks) rows @ nk"
  define psks' where "psks' = map (flip ps) psks @ np"
  note T = T [folded rows'_def psks'_def]
  from cm_load_spec [OF T(3), of ids True True 0 0] obtain old where old:
    "cm_load prefix ids True True rows' psks' 0 0 = Inr old" "cm_root_key old = row_pick True rows' (prefix @ '':root'')"
    "\<And>p. map_of (cm_peer_keys old) p = row_pick True rows' (cm_prefix_peer prefix p)"
    "\<And>p. map_of (km_content (cm_psks old)) p = row_pick True psks' (map_key_id (prefix @ '':psks'') p None)" by blast
  from cm_load_spec [OF T(3), of ids False False 0 0] obtain new where new:
    "cm_load prefix ids False False rows' psks' 0 0 = Inr new" "cm_root_key new = row_find rows' (prefix @ '':root'') False"
    "\<And>p. map_of (cm_peer_keys new) p = row_find rows' (cm_prefix_peer prefix p) False"
    "\<And>p. map_of (km_content (cm_psks new)) p = row_find psks' (map_key_id (prefix @ '':psks'') p None) False"
    by (auto simp: row_pick_def)
  have ok: "rows_ok rows" "rows_ok psks" using rows by (simp_all add: star_rows_def)
  have o1: "cm_root_key old = Some (k\<lparr>wk_dropped := True\<rparr>)" if "cm_root_key km = Some k" for k
  proof -
    have "k \<in> set ks" using that by (simp add: ks_def star_keys_def)
    moreover have "wk_id k = prefix @ '':root''" using that L(1) row_find_Some [OF ok(1)] by simp
    ultimately show ?thesis using T(4) [of k] old(2) by (simp add: row_pick_def)
  qed
  have o2: "map_of (cm_peer_keys old) p = Some (k\<lparr>wk_dropped := True\<rparr>)" if "map_of (cm_peer_keys km) p = Some k" for p k
  proof -
    have "k \<in> set ks" using map_of_SomeD [OF that] by (force simp: ks_def star_keys_def)
    moreover have "wk_id k = cm_prefix_peer prefix p" using that L(2) [of p] row_find_Some [OF ok(1)] by simp
    ultimately show ?thesis using T(4) [of k] old(3) by (simp add: row_pick_def)
  qed
  have o3: "map_of (km_content (cm_psks old)) p = Some (k\<lparr>wk_dropped := True\<rparr>)"
    if "map_of (km_content (cm_psks km)) p = Some k" for p k
  proof -
    have "k \<in> set ps" using map_of_SomeD [OF that] by (force simp: ps_def)
    moreover have "wk_id k = map_key_id (prefix @ '':psks'') p None" using that L(3) [of p] row_find_Some [OF ok(2)] by simp
    ultimately show ?thesis using T(5) [of k] old(4) by (simp add: row_pick_def)
  qed
  have n1: "cm_root_key new = cm_root_key km3"
    using T(6) [of "fst (new_key gen (prefix @ '':root'') g)"] new(2) R(1) by (simp add: nk_def star3 new_key_def)
  have n2: "map_of (cm_peer_keys new) p = map_of (cm_peer_keys km3) p" for p
  proof (cases "map_of (cm_peer_keys km3) p")
    case None
    then have "p \<notin> set ids" unfolding R(2) map_of_eq_None_iff by (simp add: image_set)
    then have "cm_prefix_peer prefix p \<notin> wk_id ` set nk"
      by (auto simp: nk_def star3 new_key_def cm_prefix_peer_def dest: new_peer_keys_snd)
    then show ?thesis using T(8) new(3) None by simp
  next
    case (Some k)
    then have "(p, k) \<in> set (new_peer_keys gen prefix (Suc g) ids)" unfolding R(2) by (rule map_of_SomeD)
    then have "k \<in> set nk" "wk_id k = cm_prefix_peer prefix p"
      by (force simp: nk_def star3, simp add: new_peer_keys_snd)
    then show ?thesis using T(6) [of k] new(3) Some by simp
  qed
  have n3: "map_of (km_content (cm_psks new)) p = map_of (km_content (cm_psks km3)) p" for p
  proof (cases "map_of (km_content (cm_psks km3)) p")
    case None
    then have "p \<notin> fst ` set (new_psks pgen (prefix @ '':psks'') pg ids)" unfolding R(3) map_of_eq_None_iff .
    then have "wk_id (snd x) \<noteq> map_key_id (prefix @ '':psks'') p None" if "x \<in> set (new_psks pgen (prefix @ '':psks'') pg ids)" for x
      using new_psks_snd [of "fst x" "snd x"] that by (auto simp: map_key_id_inject)
    then have "map_key_id (prefix @ '':psks'') p None \<notin> (wk_id \<circ> snd) ` set (new_psks pgen (prefix @ '':psks'') pg ids)"
      unfolding image_iff comp_apply by metis
    then have "map_key_id (prefix @ '':psks'') p None \<notin> wk_id ` set np" by (simp add: np_def R(3) image_comp)
    then show ?thesis using T(9) new(4) None by simp
  next
    case (Some k)
    then have m: "(p, k) \<in> set (new_psks pgen (prefix @ '':psks'') pg ids)" unfolding R(3) by (rule map_of_SomeD)
    then have "k \<in> set np" by (force simp: np_def R(3))
    moreover have "wk_id k = map_key_id (prefix @ '':psks'') p None" using new_psks_snd [OF m] by simp
    ultimately show ?thesis using T(7) [of k] new(4) Some by simp
  qed
  have "run_calls (cm_calls km3) rows = Inr rows'" "run_calls (km_calls (cm_psks km3)) psks = Inr psks'"
    using T(1,2) by (simp_all add: R(4,5) ks_def ps_def nk_def np_def)
  moreover have "\<forall>k \<in> snd ` set (star_keys km3). wk_material k \<notin> wk_material ` set rows" using T(10) by (simp add: nk_def)
  ultimately show ?thesis using old(1) new(1) o1 o2 o3 n1 n2 n3 by blast
qed


lemma peer_id_1: "''u:peer:1'' = cm_prefix_peer ''u'' 1"
proof -
  have "show_nat 1 = ''1''" by code_simp
  then show ?thesis by (simp add: cm_prefix_peer_def show_int_def)
qed

definition demo_rows :: "nat wkey list" where
  "demo_rows = [\<lparr>wk_id = ''u:root'', wk_material = 0, wk_dropped = False, wk_saved = True\<rparr>,
     \<lparr>wk_id = ''u:peer:1'', wk_material = 1, wk_dropped = False, wk_saved = True\<rparr>]"

definition demo_psk_rows :: "nat wkey list" where
  "demo_psk_rows = [\<lparr>wk_id = map_key_id ''u:psks'' (0, 1) None, wk_material = 0, wk_dropped = False, wk_saved = True\<rparr>]"

lemma demo_star_rows: "star_rows ''u'' demo_rows demo_psk_rows"
proof -
  have "\<not> sql_like ''u:peer:%'' ''u:root''" using root_not_peer [of "''u''"] by simp
  moreover have "''u:root'' \<noteq> cm_prefix_peer ''u'' p" for p by (simp add: cm_prefix_peer_def)
  ultimately show ?thesis using peer_id_1
    by (auto simp: star_rows_def rows_ok_def demo_rows_def demo_psk_rows_def peers_named_def pairs_named_def)
qed

lemma demo_rekey:
  "\<exists>km n km1 km3. cm_load ''u'' [1] False False demo_rows demo_psk_rows 0 0 = Inr km \<and> cm_drop_keys False [] km = Inr (n, km1)
    \<and> cm_assert_keys (\<lambda>i. i + 10) (\<lambda>i. i + 10) (cm_db_save km1) = Inr km3"
proof -
  from cm_load_spec [OF demo_star_rows, of "[1]" False False 0 0] obtain km where
    km: "cm_load ''u'' [1] False False demo_rows demo_psk_rows 0 0 = Inr km" by blast
  note F = cm_load_fields [OF km] and L = loaded_star [OF demo_star_rows km]
  obtain n where n: "cm_drop_keys False [] km = Inr (n, km\<lparr>cm_dropped := map (drop_mark \<circ> snd) (star_keys km),
      cm_root_key := None, cm_peer_keys := [],
      cm_psks := (cm_psks km)\<lparr>km_dropped := map (\<lambda>(p, k). (p, drop_mark k)) (km_content (cm_psks km)), km_content := []\<rparr>\<rparr>)"
    using cm_drop_all [of km] F L(5,6) by auto
  let ?km1 = "km\<lparr>cm_dropped := map (drop_mark \<circ> snd) (star_keys km), cm_root_key := None, cm_peer_keys := [],
      cm_psks := (cm_psks km)\<lparr>km_dropped := map (\<lambda>(p, k). (p, drop_mark k)) (km_content (cm_psks km)), km_content := []\<rparr>\<rparr>"
  have "cm_ok (cm_db_save ?km1)" using F
    by (simp add: cm_ok_def km_ok_def cm_db_save_def km_db_save_def km_save_def pmap_ok_def)
  from cm_assert_keys_spec [OF this] km n show ?thesis by blast
qed

theorem rekey_two_generations_witness:
  "\<exists>rows' psks' old. cm_load ''u'' [1] True True rows' psks' 0 0 = Inr (old :: (nat, nat) central_keymat)
    \<and> map_option wk_material (map_of (cm_peer_keys old) 1) = Some 1"
proof -
  obtain km n km1 km3 where d: "cm_load ''u'' [1] False False demo_rows demo_psk_rows 0 0 = Inr km"
    "cm_drop_keys False [] km = Inr (n, km1)" "cm_assert_keys (\<lambda>i. i + 10) (\<lambda>i. i + 10) (cm_db_save km1) = Inr km3"
    using demo_rekey by blast
  have p: "\<exists>k. map_of (cm_peer_keys km) 1 = Some k \<and> wk_material k = 1"
    unfolding loaded_star(2) [OF demo_star_rows d(1)]
    by (simp add: demo_rows_def peer_id_1 [symmetric])
  have "\<forall>i :: nat. i + 10 \<notin> wk_material ` set demo_rows" "\<forall>i :: nat. i + 10 \<notin> wk_material ` set demo_psk_rows"
    by (auto simp: demo_rows_def demo_psk_rows_def)
  moreover have "inj (\<lambda>i :: nat. i + 10)" by (simp add: inj_def)
  ultimately show ?thesis
    using rekey_two_generations [OF demo_star_rows _ _ d(1) _ d(2,3)] p by (fastforce simp: demo_rows_def demo_psk_rows_def)
qed

end
