(* ===== verification/Registry.thy ===== *)
theory Registry
  imports Backbone Versioned Key_Store
begin

text \<open>
  The registry of a UVN (\<open>uno/registry/registry.py\<close>, with \<open>UvnVpnConfig\<close> of \<open>vpn_config.py\<close>): adding, changing, deleting
  and banning cells, particles and users, dropping and regenerating keys, and \<open>generate_artifacts\<close>, which brings
  keys and deployment up to date. The state is a record with the UVN, the tables of keys and the cached objects; an
  operation is a function of the state that may raise and then keeps what it changed. A transaction that raises
  restores the tables only. Questions to the user are answered with yes, but in \<open>ban\<close>.
\<close>

section \<open>State\<close>

record user =
  user_id :: int
  user_email :: string
  user_excluded :: bool

text \<open>\<open>rg_obj\<close> has the change marks of the registry object and says which cached objects are filled: the fields
  with the cached key material count only then. \<open>rg_rekeyed_cells\<close> is cached too, but nothing ever empties it.\<close>

record ('m, 'p) registry =
  rg_readonly :: bool
  rg_uvn :: uvn
  rg_uvn_dirty :: bool
  rg_users :: "user list"
  rg_config_id :: string
  rg_rekeyed_id :: "string option"
  rg_deployment :: "links_map option"
  rg_obj :: "unit vobj"
  rg_root_km :: "('m, 'p) central_keymat"
  rg_rekeyed_km :: "('m, 'p) central_keymat"
  rg_particle_kms :: "(peer \<times> ('m, 'p) central_keymat) list"
  rg_backbone_km :: "('m, 'p) p2p_keymat"
  rg_rekeyed_cells :: "peer list option"
  rg_asymm :: "'m wkey list"
  rg_symm :: "'p wkey list"
  rg_gen :: nat
  rg_pgen :: nat
  rg_next_id :: int

text \<open>What the registry gets from elsewhere: key material (\<open>wg genkey\<close>, \<open>wg genpsk\<close>) and its texts, random choices,
  the hash that is the new id of a configuration, the clock, and the user's answers.\<close>

record ('m, 'p) reg_env =
  en_gen :: "nat \<Rightarrow> 'm"
  en_pgen :: "nat \<Rightarrow> 'p"
  en_pub :: "'m \<Rightarrow> string"
  en_priv :: "'m \<Rightarrow> string"
  en_psk :: "'p \<Rightarrow> string"
  en_rnd :: rnd
  en_config_id :: "('m, 'p) registry \<Rightarrow> string"
  en_now :: string

text \<open>The groups of the registry's schema: what a change of the users, particles and cells stands for.\<close>

definition registry_schema :: "unit schema" where
  "registry_schema = \<lparr>sc_props = [''readonly'', ''generation_ts'', ''init_ts'', ''uvn_id'', ''deployment'', ''rti_license'',
       ''rekeyed_root_config_id'', ''config_id'', ''cloud_provider''],
     sc_attrs = [], sc_reserved = [''readonly'', ''generation_ts'', ''init_ts'', ''parent'', ''db'', ''log'', ''owned''],
     sc_required = [''uvn_id''], sc_readonly = [''uvn_id''], sc_eq = [], sc_str = [],
     sc_cached = [''uvn'', ''users'', ''config_id'', ''rekeyed_root_vpn_keymat'', ''root_vpn_keymat'',
       ''backbone_vpn_keymat'', ''particles_vpn_keymats'', ''agent_configs''],
     sc_groups = [(''users'', [''config_id'']), (''particles'', [''config_id'', ''particles_vpn_keymats'']),
       (''cells'', [''config_id'', ''deployment_config'', ''root_vpn_keymat'', ''backbone_vpn_keymat'', ''particles_vpn_keymats''])],
     sc_default = \<lambda>_. None, sc_prepare = \<lambda>_. None, sc_child = \<lambda>_. None, sc_dict = \<lambda>_. None,
     sc_validate = \<lambda>_. Inr ()\<rparr>"

definition rg_updated :: "string \<Rightarrow> (('m, 'p) registry, unit) op" where
  "rg_updated attr r =
     (case updated_property registry_schema recursion_limit attr (rg_obj r) of (res, obj) \<Rightarrow> (res, r\<lparr>rg_obj := obj\<rparr>))"

definition rg_uvn_updated :: "(('m, 'p) registry, unit) op" where
  "rg_uvn_updated = op_modify (\<lambda>r. r\<lparr>rg_uvn_dirty := True\<rparr>)"

definition is_cached :: "string \<Rightarrow> ('m, 'p) registry \<Rightarrow> bool" where
  "is_cached name r \<longleftrightarrow> name \<in> vo_cached (rg_obj r)"

definition fill_cache :: "string \<Rightarrow> ('m, 'p) registry \<Rightarrow> ('m, 'p) registry" where
  "fill_cache name r = r\<lparr>rg_obj := (rg_obj r)\<lparr>vo_cached := insert name (vo_cached (rg_obj r))\<rparr>\<rparr>"

text \<open>The transaction of an operation that was called without a cursor.\<close>

definition in_transaction :: "(('m, 'p) registry, 'a) op \<Rightarrow> (('m, 'p) registry, 'a) op" where
  "in_transaction m r = (case m r of
     (Inl e, r') \<Rightarrow> (Inl e, r'\<lparr>rg_asymm := rg_asymm r, rg_symm := rg_symm r\<rparr>) | done \<Rightarrow> done)"

section \<open>Key material\<close>

definition root_prefix :: "('m, 'p) registry \<Rightarrow> string" where
  "root_prefix r = uvn_name (rg_uvn r) @ '':vpn:root''"

definition load_star :: "string \<Rightarrow> peer list \<Rightarrow> bool \<Rightarrow> bool \<Rightarrow> ('m, 'p) registry \<Rightarrow> ('m, 'p) central_keymat res" where
  "load_star prefix peer_ids prefer_dropped readonly r =
     cm_load prefix peer_ids prefer_dropped readonly (rg_asymm r) (rg_symm r) (rg_gen r) (rg_pgen r)"

definition active_ids :: "('m, 'p) registry \<Rightarrow> peer list" where
  "active_ids r = map cell_id (uvn_cells (rg_uvn r))"

definition root_vpn_keymat :: "(('m, 'p) registry, ('m, 'p) central_keymat) op" where
  "root_vpn_keymat r =
     (if is_cached ''root_vpn_keymat'' r then (Inr (rg_root_km r), r)
      else case load_star (root_prefix r) (active_ids r) False (rg_readonly r) r of
        Inl e \<Rightarrow> (Inl e, r)
      | Inr km \<Rightarrow> (Inr km, fill_cache ''root_vpn_keymat'' (r\<lparr>rg_root_km := km\<rparr>)))"

definition rekeyed_root_vpn_keymat :: "(('m, 'p) registry, ('m, 'p) central_keymat) op" where
  "rekeyed_root_vpn_keymat r =
     (if is_cached ''rekeyed_root_vpn_keymat'' r then (Inr (rg_rekeyed_km r), r)
      else case load_star (root_prefix r) (active_ids r) True True r of
        Inl e \<Rightarrow> (Inl e, r)
      | Inr km \<Rightarrow> (Inr km, fill_cache ''rekeyed_root_vpn_keymat'' (r\<lparr>rg_rekeyed_km := km\<rparr>)))"

definition particles_prefix :: "peer \<Rightarrow> ('m, 'p) registry \<Rightarrow> string" where
  "particles_prefix cid r = uvn_name (rg_uvn r) @ '':vpn:particles:'' @ show_int cid"

definition particles_vpn_keymats :: "(('m, 'p) registry, (peer \<times> ('m, 'p) central_keymat) list) op" where
  "particles_vpn_keymats r =
     (if is_cached ''particles_vpn_keymats'' r then (Inr (rg_particle_kms r), r)
      else case rmap (\<lambda>c. rbind (load_star (particles_prefix (cell_id c) r) (map particle_id (uvn_particles (rg_uvn r))) False
               (rg_readonly r) r) (\<lambda>km. Inr (cell_id c, km))) (uvn_all_cells (rg_uvn r)) of
        Inl e \<Rightarrow> (Inl e, r)
      | Inr kms \<Rightarrow> (Inr kms, fill_cache ''particles_vpn_keymats'' (r\<lparr>rg_particle_kms := kms\<rparr>)))"

definition backbone_prefix :: "('m, 'p) registry \<Rightarrow> string" where
  "backbone_prefix r = uvn_name (rg_uvn r) @ '':vpn:backbone''"

definition pp_load :: "string \<Rightarrow> bool \<Rightarrow> ('m, 'p) registry \<Rightarrow> ('m, 'p) p2p_keymat res" where
  "pp_load prefix readonly r =
     rbind (load_content paired_class (prefix @ '':pair'') False (sort_key wk_id (rg_asymm r))) (\<lambda>pairs.
     rbind (load_content psk_class (prefix @ '':psks'') False (sort_key wk_id (rg_symm r))) (\<lambda>psks.
       Inr \<lparr>pp_prefix = prefix, pp_readonly = readonly,
            pp_pair_keys = (empty_keys_map (prefix @ '':pair'') False readonly)\<lparr>km_content := pairs\<rparr>,
            pp_psks = (empty_keys_map (prefix @ '':psks'') False readonly)\<lparr>km_content := psks\<rparr>\<rparr>))"

definition backbone_vpn_keymat :: "(('m, 'p) registry, ('m, 'p) p2p_keymat) op" where
  "backbone_vpn_keymat r =
     (if is_cached ''backbone_vpn_keymat'' r then (Inr (rg_backbone_km r), r)
      else case pp_load (backbone_prefix r) (rg_readonly r) r of
        Inl e \<Rightarrow> (Inl e, r)
      | Inr km \<Rightarrow> (Inr km, fill_cache ''backbone_vpn_keymat'' (r\<lparr>rg_backbone_km := km\<rparr>)))"

text \<open>An operation of a key material runs on the tables: its calls are applied in order, and new keys continue the
  sequence of generated ones.\<close>

definition run_star ::
  "(('m, 'p) central_keymat \<Rightarrow> ('a \<times> ('m, 'p) central_keymat) res) \<Rightarrow> ('m, 'p) central_keymat \<Rightarrow> ('m, 'p) registry
   \<Rightarrow> ('a \<times> ('m, 'p) central_keymat \<times> ('m, 'p) registry) res" where
  "run_star f km r =
     rbind (f (km\<lparr>cm_gen := rg_gen r, cm_calls := [], cm_psks := (cm_psks km)\<lparr>km_gen := rg_pgen r, km_calls := []\<rparr>\<rparr>)) (\<lambda>(x, km').
     rbind (run_calls (cm_calls km') (rg_asymm r)) (\<lambda>asymm.
     rbind (run_calls (km_calls (cm_psks km')) (rg_symm r)) (\<lambda>symm.
       Inr (x, km', r\<lparr>rg_asymm := asymm, rg_symm := symm, rg_gen := cm_gen km', rg_pgen := km_gen (cm_psks km')\<rparr>))))"

definition on_root_keymat ::
  "(('m, 'p) central_keymat \<Rightarrow> ('a \<times> ('m, 'p) central_keymat) res) \<Rightarrow> (('m, 'p) registry, 'a) op" where
  "on_root_keymat f = op_bind root_vpn_keymat (\<lambda>km r.
     case run_star f km r of Inl e \<Rightarrow> (Inl e, r) | Inr (x, km', r') \<Rightarrow> (Inr x, r'\<lparr>rg_root_km := km'\<rparr>))"

definition on_particle_keymat ::
  "peer \<Rightarrow> (('m, 'p) central_keymat \<Rightarrow> ('a \<times> ('m, 'p) central_keymat) res) \<Rightarrow> (('m, 'p) registry, 'a) op" where
  "on_particle_keymat cid f = op_bind particles_vpn_keymats (\<lambda>kms r.
     case map_of kms cid of
       None \<Rightarrow> (Inl KeyError, r)
     | Some km \<Rightarrow> (case run_star f km r of Inl e \<Rightarrow> (Inl e, r)
         | Inr (x, km', r') \<Rightarrow> (Inr x, r'\<lparr>rg_particle_kms := AList.update cid km' kms\<rparr>)))"

definition on_backbone_keymat ::
  "(('m, 'p) p2p_keymat \<Rightarrow> ('a \<times> ('m, 'p) p2p_keymat) res) \<Rightarrow> (('m, 'p) registry, 'a) op" where
  "on_backbone_keymat f = op_bind backbone_vpn_keymat (\<lambda>km r.
     case rbind (f (km\<lparr>pp_pair_keys := (pp_pair_keys km)\<lparr>km_gen := rg_gen r, km_calls := []\<rparr>,
                    pp_psks := (pp_psks km)\<lparr>km_gen := rg_pgen r, km_calls := []\<rparr>\<rparr>)) (\<lambda>(x, km').
          rbind (run_calls (km_calls (pp_pair_keys km')) (rg_asymm r)) (\<lambda>asymm.
          rbind (run_calls (km_calls (pp_psks km')) (rg_symm r)) (\<lambda>symm. Inr (x, km', asymm, symm)))) of
       Inl e \<Rightarrow> (Inl e, r)
     | Inr (x, km', asymm, symm) \<Rightarrow>
         (Inr x, r\<lparr>rg_backbone_km := km', rg_asymm := asymm, rg_symm := symm, rg_gen := km_gen (pp_pair_keys km'),
                   rg_pgen := km_gen (pp_psks km')\<rparr>))"

section \<open>Dropping and regenerating keys\<close>

definition set_rekeyed_id :: "string option \<Rightarrow> (('m, 'p) registry, unit) op" where
  "set_rekeyed_id v r =
     (if rg_rekeyed_id r \<noteq> v then rg_updated ''rekeyed_root_config_id'' (r\<lparr>rg_rekeyed_id := v\<rparr>) else op_return () r)"

definition set_config_id :: "('m, 'p) reg_env \<Rightarrow> (('m, 'p) registry, unit) op" where
  "set_config_id env r =
     (if rg_config_id r \<noteq> en_config_id env r then rg_updated ''config_id'' (r\<lparr>rg_config_id := en_config_id env r\<rparr>)
      else op_return () r)"

text \<open>The first rekeying that is pending keeps the id of the configuration that the agents have.\<close>

definition keep_rekeyed_id :: "(('m, 'p) registry, unit) op" where
  "keep_rekeyed_id r = (if rg_rekeyed_id r = None then set_rekeyed_id (Some (rg_config_id r)) r else op_return () r)"

definition drop_rekeyed :: "(('m, 'p) registry, unit) op" where
  "drop_rekeyed = op_then (on_root_keymat (\<lambda>km. Inr ((), cm_clean_dropped km))) (set_rekeyed_id None)"

definition drop_root_vpn_keymat :: "(('m, 'p) registry, unit) op" where
  "drop_root_vpn_keymat =
     op_then keep_rekeyed_id (op_then (on_root_keymat (cm_drop_keys False [])) (rg_updated ''config_id''))"

definition each_particle_keymat ::
  "(('m, 'p) central_keymat \<Rightarrow> ('a \<times> ('m, 'p) central_keymat) res) \<Rightarrow> (('m, 'p) registry, unit) op" where
  "each_particle_keymat f = op_bind particles_vpn_keymats (\<lambda>kms. op_each (\<lambda>cid. on_particle_keymat cid f) (map fst kms))"

definition drop_particles_vpn_keymats :: "(('m, 'p) registry, unit) op" where
  "drop_particles_vpn_keymats =
     op_then (each_particle_keymat (cm_drop_keys True []))
       (op_then (op_modify (\<lambda>r. r\<lparr>rg_obj := (rg_obj r)\<lparr>vo_cached := vo_cached (rg_obj r) - {''particles_vpn_keymats''}\<rparr>\<rparr>))
          (rg_updated ''config_id''))"

definition purge_keys :: "(('m, 'p) registry, unit) op" where
  "purge_keys = disabled_if rg_readonly None False False () (in_transaction (\<lambda>r.
     op_then (on_root_keymat (cm_purge_gone_peers (map cell_id (uvn_all_cells (rg_uvn r))) True []))
       (op_each (\<lambda>c. on_particle_keymat (cell_id c)
            (cm_purge_gone_peers (map particle_id (uvn_all_particles (rg_uvn r))) True [])) (uvn_all_cells (rg_uvn r))) r))"

text \<open>The active cells whose root key has a dropped predecessor in the database. \<open>next\<close> raises \<open>StopIteration\<close> when
  such a key belongs to no active cell. The set is computed once.\<close>

definition rekeyed_cells :: "(('m, 'p) registry, peer list) op" where
  "rekeyed_cells r =
     (case rg_rekeyed_cells r of
        Some cells \<Rightarrow> (Inr cells, r)
      | None \<Rightarrow> op_bind rekeyed_root_vpn_keymat (\<lambda>km r1.
          if set (cm_peers_with_dropped_key km) \<subseteq> set (active_ids r1)
          then (Inr (cm_peers_with_dropped_key km), r1\<lparr>rg_rekeyed_cells := Some (cm_peers_with_dropped_key km)\<rparr>)
          else (Inl StopIteration, r1)) r)"

text \<open>A comprehension over the active cells looks the set up only for the cells that its condition leaves open.\<close>

definition rekeyed_among :: "(peer \<Rightarrow> bool) \<Rightarrow> (('m, 'p) registry, peer list) op" where
  "rekeyed_among open_ids r = (if filter open_ids (active_ids r) = [] then (Inr [], r) else rekeyed_cells r)"

definition nothing_to_rekey :: "bool \<Rightarrow> bool \<Rightarrow> bool \<Rightarrow> (('m, 'p) registry, unit) op" where
  "nothing_to_rekey deleted root_vpn particles_vpn r =
     (if \<not> deleted \<and> \<not> (root_vpn \<or> particles_vpn) then (Inl (RuntimeError ''nothing to rekey''), r) else (Inr (), r))"

definition op_when :: "bool \<Rightarrow> ('s, unit) op \<Rightarrow> ('s, unit) op" where
  "op_when c m = (if c then m else op_return ())"

definition op_unit :: "('s, 'a) op \<Rightarrow> ('s, unit) op" where
  "op_unit m = op_then m (op_return ())"

definition rekey_uvn :: "bool \<Rightarrow> bool \<Rightarrow> bool \<Rightarrow> (('m, 'p) registry, unit) op" where
  "rekey_uvn root_vpn particles_vpn deleted = in_transaction (
     op_then (nothing_to_rekey deleted root_vpn particles_vpn)
    (op_then (op_when (deleted \<or> root_vpn)
       (op_then (op_when (\<not> deleted) keep_rekeyed_id)
       (op_bind (if deleted then op_return [] else op_bind (rekeyed_among (\<lambda>_. True)) (\<lambda>rekeyed r.
            op_return (map (\<lambda>c. (c, c \<in> set rekeyed)) (active_ids r)) r)) (\<lambda>drop_or_delete.
          op_unit (on_root_keymat (cm_drop_keys deleted drop_or_delete))))))
     (op_when (deleted \<or> particles_vpn) (each_particle_keymat (cm_drop_keys True [])))))"

definition rekey_particle :: "particle \<Rightarrow> peer list option \<Rightarrow> bool \<Rightarrow> (('m, 'p) registry, unit) op" where
  "rekey_particle p cells deleted = in_transaction (\<lambda>r.
     let target_cells = (case cells of None \<Rightarrow> active_ids r | Some [] \<Rightarrow> active_ids r | Some cs \<Rightarrow> cs);
         others = filter (\<lambda>i. i \<noteq> particle_id p) (map particle_id (uvn_all_particles (rg_uvn r)))
     in op_each (\<lambda>cid. on_particle_keymat cid (cm_purge_gone_peers others True [])) target_cells r)"

definition rekey_cell :: "cell \<Rightarrow> bool \<Rightarrow> bool \<Rightarrow> bool \<Rightarrow> (('m, 'p) registry, unit) op" where
  "rekey_cell c root_vpn particles_vpn deleted = in_transaction (
     op_then (nothing_to_rekey deleted root_vpn particles_vpn)
    (op_then (op_when (deleted \<or> root_vpn)
       (op_then (op_when (\<not> deleted) keep_rekeyed_id)
       (op_bind (rekeyed_among (\<lambda>i. \<not> (i = cell_id c \<and> deleted))) (\<lambda>rekeyed r.
          let drop_or_delete = map (\<lambda>i. (i, (i = cell_id c \<and> deleted) \<or> i \<in> set rekeyed)) (active_ids r);
              others = filter (\<lambda>i. i \<noteq> cell_id c) (active_ids r)
          in op_unit (on_root_keymat (cm_purge_gone_peers others False drop_or_delete)) r))))
     (op_when (deleted \<or> particles_vpn) (op_unit (on_particle_keymat (cell_id c) (cm_drop_keys True []))))))"

section \<open>Cells, particles and users\<close>

text \<open>The arguments of \<open>add_cell\<close> and \<open>update_cell\<close>; \<open>None\<close> leaves a property as it is.\<close>

record cell_conf =
  cc_address :: "string option"
  cc_allowed_lans :: "ipv4_network list option"
  cc_enable_particles_vpn :: "bool option"

definition configure_cell :: "cell_conf \<Rightarrow> cell \<Rightarrow> cell res" where
  "configure_cell conf c =
     rbind (prepare_address (cc_address conf)) (\<lambda>address.
       Inr (c\<lparr>cell_address := (case address of None \<Rightarrow> cell_address c | Some a \<Rightarrow> Some a),
              cell_allowed_lans := (case cc_allowed_lans conf of None \<Rightarrow> cell_allowed_lans c | Some l \<Rightarrow> l),
              cell_enable_particles_vpn := (case cc_enable_particles_vpn conf of None \<Rightarrow> cell_enable_particles_vpn c | Some b \<Rightarrow> b)\<rparr>))"

definition cells_changed :: "(('m, 'p) registry, unit) op" where
  "cells_changed = op_then rg_uvn_updated (rg_updated ''cells'')"

definition particles_changed :: "(('m, 'p) registry, unit) op" where
  "particles_changed = op_then rg_uvn_updated (rg_updated ''particles'')"

text \<open>A new cell is stored first and removed again when it is not valid.\<close>

definition add_cell :: "string \<Rightarrow> int option \<Rightarrow> cell_conf \<Rightarrow> (('m, 'p) registry, cell) op" where
  "add_cell name owner conf = error_if rg_readonly False (
     op_bind (in_transaction (\<lambda>r.
        case rbind (prepare_name name) (\<lambda>nm. configure_cell conf
               \<lparr>cell_id = rg_next_id r + 1, cell_name = nm, cell_address = None, cell_excluded = False, cell_allowed_lans = [],
                cell_enable_particles_vpn = True, cell_owner = (case owner of None \<Rightarrow> uvn_owner (rg_uvn r) | Some i \<Rightarrow> Some i)\<rparr>) of
          Inl e \<Rightarrow> (Inl e, r)
        | Inr c \<Rightarrow>
           (let r1 = r\<lparr>rg_next_id := rg_next_id r + 1\<rparr> in
            case validate_cell (rg_uvn r) c of
              Inl e \<Rightarrow> (Inl e, r1)
            | Inr _ \<Rightarrow> (Inr c, r1\<lparr>rg_uvn := (rg_uvn r)\<lparr>uvn_all_cells := uvn_all_cells (rg_uvn r) @ [c]\<rparr>\<rparr>))))
     (\<lambda>c. op_then cells_changed (op_return c)))"

definition replace_cell :: "cell \<Rightarrow> uvn \<Rightarrow> uvn" where
  "replace_cell c u = u\<lparr>uvn_all_cells := map (\<lambda>c'. if cell_id c' = cell_id c then c else c') (uvn_all_cells u)\<rparr>"

text \<open>\<open>set_ownership\<close> passes \<open>owner\<close> twice to the database: it always raises.\<close>

definition set_ownership :: "(('m, 'p) registry, unit) op" where
  "set_ownership = op_raise (TypeError ''multiple values for owner'')"

definition update_cell :: "cell \<Rightarrow> int option \<Rightarrow> cell_conf \<Rightarrow> (('m, 'p) registry, unit) op" where
  "update_cell c owner conf = disabled_if rg_readonly None False False () (
     op_then (op_when (owner \<noteq> None) set_ownership) (\<lambda>r.
       case configure_cell conf c of
         Inl e \<Rightarrow> (Inl e, r)
       | Inr c' \<Rightarrow>
           if c' \<noteq> c then cells_changed (r\<lparr>rg_uvn := replace_cell c' (rg_uvn r)\<rparr>) else op_return () r))"

definition delete_cell :: "cell \<Rightarrow> (('m, 'p) registry, unit) op" where
  "delete_cell c = error_if rg_readonly False (in_transaction (
     op_then (rekey_cell c False False True)
    (op_then (op_modify (\<lambda>r. r\<lparr>rg_uvn := (rg_uvn r)\<lparr>uvn_all_cells :=
          filter (\<lambda>c'. cell_id c' \<noteq> cell_id c) (uvn_all_cells (rg_uvn r))\<rparr>\<rparr>)) cells_changed)))"

definition add_particle :: "string \<Rightarrow> int option \<Rightarrow> (('m, 'p) registry, particle) op" where
  "add_particle name owner = error_if rg_readonly False (
     op_bind (in_transaction (\<lambda>r.
        case prepare_name name of
          Inl e \<Rightarrow> (Inl e, r)
        | Inr nm \<Rightarrow>
           (let p = \<lparr>particle_id = rg_next_id r + 1, particle_name = nm, particle_excluded = False,
                     particle_owner = (case owner of None \<Rightarrow> uvn_owner (rg_uvn r) | Some i \<Rightarrow> Some i)\<rparr>
            in (Inr p, r\<lparr>rg_next_id := rg_next_id r + 1,
                  rg_uvn := (rg_uvn r)\<lparr>uvn_all_particles := uvn_all_particles (rg_uvn r) @ [p]\<rparr>\<rparr>))))
     (\<lambda>p. op_then particles_changed (op_return p)))"

text \<open>\<open>particle.configure(config)\<close> takes the dictionary for its first parameter: nothing is configured.\<close>

definition update_particle :: "particle \<Rightarrow> int option \<Rightarrow> (('m, 'p) registry, unit) op" where
  "update_particle p owner = disabled_if rg_readonly None False False () (
     op_then (op_when (owner \<noteq> None) set_ownership) (op_return ()))"

definition delete_particle :: "particle \<Rightarrow> (('m, 'p) registry, unit) op" where
  "delete_particle p = error_if rg_readonly False (in_transaction (
     op_then (rekey_particle p None True)
    (op_then (op_modify (\<lambda>r. r\<lparr>rg_uvn := (rg_uvn r)\<lparr>uvn_all_particles :=
          filter (\<lambda>p'. particle_id p' \<noteq> particle_id p) (uvn_all_particles (rg_uvn r))\<rparr>\<rparr>)) particles_changed)))"

definition add_user :: "string \<Rightarrow> (('m, 'p) registry, user) op" where
  "add_user email = error_if rg_readonly False (\<lambda>r.
     let u = \<lparr>user_id = rg_next_id r + 1, user_email = email, user_excluded = False\<rparr>
     in op_then (rg_updated ''users'') (op_return u) (r\<lparr>rg_next_id := rg_next_id r + 1, rg_users := rg_users r @ [u]\<rparr>))"

definition owned_cells :: "user \<Rightarrow> uvn \<Rightarrow> cell list" where
  "owned_cells usr u = filter (\<lambda>c. cell_owner c = Some (user_id usr)) (uvn_all_cells u)"

definition owned_particles :: "user \<Rightarrow> uvn \<Rightarrow> particle list" where
  "owned_particles usr u = filter (\<lambda>p. particle_owner p = Some (user_id usr)) (uvn_all_particles u)"

definition delete_user :: "user \<Rightarrow> (('m, 'p) registry, unit) op" where
  "delete_user usr = error_if rg_readonly False (in_transaction (\<lambda>r.
     if uvn_owner (rg_uvn r) = Some (user_id usr) then (Inl (ValueError ''uvn owner cannot be deleted''), r)
     else op_then (op_when (owned_cells usr (rg_uvn r) \<noteq> [] \<or> owned_particles usr (rg_uvn r) \<noteq> []) set_ownership)
            (op_then (op_modify (\<lambda>r. r\<lparr>rg_users := filter (\<lambda>u'. user_id u' \<noteq> user_id usr) (rg_users r)\<rparr>))
               (rg_updated ''users'')) r))"

section \<open>Banning\<close>

datatype target = TCell peer | TParticle peer | TUser int

text \<open>A banned user takes the cells and particles it owns along. The answers are the argument \<open>yes\<close>.\<close>

definition ban_owned :: "bool \<Rightarrow> bool \<Rightarrow> uvn \<Rightarrow> target \<Rightarrow> target list" where
  "ban_owned banned unban_owned u t = (case t of
     TUser i \<Rightarrow> if banned \<or> unban_owned then
         map (\<lambda>c. TCell (cell_id c)) (filter (\<lambda>c. cell_owner c = Some i \<and> cell_excluded c \<noteq> banned) (uvn_all_cells u))
         @ map (\<lambda>p. TParticle (particle_id p))
             (filter (\<lambda>p. particle_owner p = Some i \<and> particle_excluded p \<noteq> banned) (uvn_all_particles u))
       else []
   | _ \<Rightarrow> [])"

definition ban_collect :: "(target \<Rightarrow> bool) \<Rightarrow> bool \<Rightarrow> bool \<Rightarrow> uvn \<Rightarrow> target list \<Rightarrow> target set" where
  "ban_collect yes banned unban_owned u targets =
     set (concat (map (\<lambda>t. if yes t then t # ban_owned banned unban_owned u t else []) targets))"

definition ban_cells :: "bool \<Rightarrow> target set \<Rightarrow> uvn \<Rightarrow> uvn" where
  "ban_cells banned ts u = u\<lparr>uvn_all_cells := map (\<lambda>c. if TCell (cell_id c) \<in> ts then c\<lparr>cell_excluded := banned\<rparr> else c) (uvn_all_cells u)\<rparr>"

definition ban_particles :: "bool \<Rightarrow> target set \<Rightarrow> uvn \<Rightarrow> uvn" where
  "ban_particles banned ts u = u\<lparr>uvn_all_particles :=
     map (\<lambda>p. if TParticle (particle_id p) \<in> ts then p\<lparr>particle_excluded := banned\<rparr> else p) (uvn_all_particles u)\<rparr>"

definition ban_users :: "bool \<Rightarrow> target set \<Rightarrow> user list \<Rightarrow> user list" where
  "ban_users banned ts = map (\<lambda>u. if TUser (user_id u) \<in> ts then u\<lparr>user_excluded := banned\<rparr> else u)"

definition ban :: "(target \<Rightarrow> bool) \<Rightarrow> bool \<Rightarrow> bool \<Rightarrow> target list \<Rightarrow> (('m, 'p) registry, unit) op" where
  "ban yes banned unban_owned targets = error_if rg_readonly False (in_transaction (\<lambda>r.
     let u = rg_uvn r in
     if \<exists>t \<in> set targets. Some t = map_option TUser (uvn_owner u)
     then (Inl (ValueError ''cannot ban/unban uvn owners''), r)
     else (let ts = ban_collect yes banned unban_owned u targets;
               u' = ban_particles banned ts (ban_cells banned ts u);
               users' = ban_users banned ts (rg_users r) in
       op_then (op_when (uvn_all_cells u' \<noteq> uvn_all_cells u) cells_changed)
      (op_then (op_when (uvn_all_particles u' \<noteq> uvn_all_particles u) particles_changed)
               (op_when (users' \<noteq> rg_users r) (rg_updated ''users''))) (r\<lparr>rg_uvn := u', rg_users := users'\<rparr>))))"

section \<open>Deployment\<close>

definition needs_redeployment :: "('m, 'p) registry \<Rightarrow> bool" where
  "needs_redeployment r \<longleftrightarrow> rg_deployment r = None \<or> ''deployment_config'' \<in> vo_changed (rg_obj r)"

definition redeploy :: "('m, 'p) reg_env \<Rightarrow> (('m, 'p) registry, unit) op" where
  "redeploy env = disabled_if rg_readonly None False False () (\<lambda>r.
     case redeploy_links (en_rnd env) (rg_uvn r) of
       Inl e \<Rightarrow> (Inl e, r)
     | Inr (deployment, _) \<Rightarrow>
         op_then (rg_updated ''deployment'') (rg_updated ''config_id'') (r\<lparr>rg_deployment := Some deployment\<rparr>))"

section \<open>VPN configurations\<close>

definition sorted_cells :: "cell list \<Rightarrow> cell list" where
  "sorted_cells = sort_key cell_id"

text \<open>The root VPN has a peer for every cell, excluded ones too, while the key material has the active ones.\<close>

definition root_vpn :: "('m, 'p) registry \<Rightarrow> ('m, 'p) central_keymat \<Rightarrow> ('m, 'p) central_vpn" where
  "root_vpn r km =
     (let cells = sorted_cells (uvn_all_cells (rg_uvn r)) in
      \<lparr>cv_settings = us_root_vpn (uvn_settings (rg_uvn r)), cv_keymat = km, cv_peer_ids = map cell_id cells,
       cv_root_endpoint = uvn_address (rg_uvn r), cv_peer_endpoints = map (\<lambda>c. (cell_id c, cell_address c)) cells\<rparr>)"

definition particles_vpn :: "('m, 'p) registry \<Rightarrow> cell \<Rightarrow> ('m, 'p) central_keymat \<Rightarrow> ('m, 'p) central_vpn" where
  "particles_vpn r c km =
     \<lparr>cv_settings = us_particles_vpn (uvn_settings (rg_uvn r)), cv_keymat = km,
      cv_peer_ids = sort (map particle_id (uvn_particles (rg_uvn r))),
      cv_root_endpoint = cell_address c, cv_peer_endpoints = []\<rparr>"

text \<open>\<open>CentralizedVpnConfig\<close> asserts the keys and then builds every configuration once.\<close>

definition central_assert_keys ::
  "('m, 'p) reg_env \<Rightarrow> (('m, 'p) central_keymat \<Rightarrow> ('m, 'p) central_vpn) \<Rightarrow> ('m, 'p) central_keymat
   \<Rightarrow> ((wg_config \<times> wg_config list) \<times> ('m, 'p) central_keymat) res" where
  "central_assert_keys env vpn km =
     rbind (cm_assert_keys (en_gen env) (en_pgen env) km) (\<lambda>km'.
     rbind (root_config (en_pub env) (en_priv env) (en_psk env) (en_now env) (vpn km')) (\<lambda>rc.
     rbind (rmap (central_peer_config (en_pub env) (en_priv env) (en_psk env) (en_now env) (vpn km')) (cv_peer_ids (vpn km'))) (\<lambda>pcs.
       Inr ((rc, pcs), km'))))"

definition assert_root_vpn :: "('m, 'p) reg_env \<Rightarrow> (('m, 'p) registry, unit) op" where
  "assert_root_vpn env r =
     op_when (us_enable_root_vpn (uvn_settings (rg_uvn r)))
       (op_unit (on_root_keymat (\<lambda>km. central_assert_keys env (root_vpn r) km))) r"

fun p2p_assert_all ::
  "(peer \<Rightarrow> 's \<Rightarrow> (wg_config list \<times> 's) res) \<Rightarrow> peer list \<Rightarrow> 's \<Rightarrow> (unit \<times> 's) res" where
  "p2p_assert_all f [] s = Inr ((), s)"
| "p2p_assert_all f (p # ps) s = rbind (f p s) (\<lambda>(_, s'). p2p_assert_all f ps s')"

definition assert_backbone_vpn :: "('m, 'p) reg_env \<Rightarrow> (('m, 'p) registry, unit) op" where
  "assert_backbone_vpn env r =
     (case backbone_vpn (rg_deployment r) (rg_uvn r) of
        None \<Rightarrow> (Inr (), r)
      | Some (u', vpn) \<Rightarrow>
          op_then (op_modify (\<lambda>r. r\<lparr>rg_uvn := u', rg_uvn_dirty := rg_uvn_dirty r \<or> u' \<noteq> rg_uvn r\<rparr>))
            (on_backbone_keymat (p2p_assert_all (p2p_peer_config (en_pub env \<circ> wk_material) (en_priv env \<circ> wk_material)
                 (en_psk env \<circ> wk_material) (pp_put (en_gen env) (en_pgen env)) (en_now env) vpn) (pv_peer_ids vpn))) r)"

definition assert_particles_vpns :: "('m, 'p) reg_env \<Rightarrow> (('m, 'p) registry, unit) op" where
  "assert_particles_vpns env r =
     op_each (\<lambda>c. on_particle_keymat (cell_id c) (\<lambda>km. central_assert_keys env (particles_vpn r c) km))
       (filter (cell_particles_vpn_enabled (rg_uvn r)) (uvn_cells (rg_uvn r))) r"

definition assert_keys :: "('m, 'p) reg_env \<Rightarrow> (('m, 'p) registry, unit) op" where
  "assert_keys env = disabled_if rg_readonly None False False ()
     (op_then (assert_root_vpn env) (op_then (assert_backbone_vpn env) (assert_particles_vpns env)))"

text \<open>The configuration of the root, or of one cell: the root uses the keys that the cells have as long as a
  rekeying is pending.\<close>

definition root_vpn_config :: "('m, 'p) reg_env \<Rightarrow> peer option \<Rightarrow> (('m, 'p) registry, wg_config) op" where
  "root_vpn_config env owner r =
     (if \<not> us_enable_root_vpn (uvn_settings (rg_uvn r)) then (Inl (AttributeError ''root_config''), r)
      else case owner of
        None \<Rightarrow>
          op_bind (if rg_rekeyed_id r \<noteq> None \<and> rg_rekeyed_id r \<noteq> Some [] then rekeyed_root_vpn_keymat else root_vpn_keymat)
            (\<lambda>km r1. case root_config (en_pub env) (en_priv env) (en_psk env) (en_now env) (root_vpn r1 km) of
               Inl e \<Rightarrow> (Inl e, r1) | Inr c \<Rightarrow> (Inr c, r1)) r
      | Some cid \<Rightarrow>
          op_bind root_vpn_keymat
            (\<lambda>km r1. case central_peer_config (en_pub env) (en_priv env) (en_psk env) (en_now env) (root_vpn r1 km) cid of
               Inl e \<Rightarrow> (Inl e, r1) | Inr c \<Rightarrow> (Inr c, r1)) r)"

text \<open>The keys in the package of a cell: its own and the public ones of the others.\<close>

definition cell_key_material ::
  "cell \<Rightarrow> (('m, 'p) registry, ('m, 'p) material list \<times> ('m, 'p) material list) op" where
  "cell_key_material c =
     op_bind root_vpn_keymat (\<lambda>rkm. op_bind backbone_vpn_keymat (\<lambda>bkm. op_bind particles_vpn_keymats (\<lambda>pkms r.
       let particles = (\<lambda>private. if cell_particles_vpn_enabled (rg_uvn r) c
             then rbind (the_or KeyError (map_of pkms (cell_id c))) (cm_get_peer_material 0 private) else Inr []);
           material = (\<lambda>private. rbind (cm_get_peer_material (cell_id c) private rkm) (\<lambda>a.
             rbind (pp_get_peer_material (cell_id c) private bkm) (\<lambda>b.
             rbind (particles private) (\<lambda>p. Inr (a @ b @ p)))))
       in case rbind (material True) (\<lambda>priv. rbind (material False) (\<lambda>pub. Inr (priv, pub))) of
            Inl e \<Rightarrow> (Inl e, r) | Inr km \<Rightarrow> (Inr km, r))))"

section \<open>Saving and generating\<close>

text \<open>\<open>db.save(self)\<close>: the UVN is validated when it is dirty, the key materials save what they dropped, and then
  the registry itself is saved: its marks and its caches are cleared.\<close>

definition pp_db_save :: "('m, 'p) p2p_keymat \<Rightarrow> ('m, 'p) p2p_keymat" where
  "pp_db_save km = km\<lparr>pp_pair_keys := km_db_save paired_class (pp_pair_keys km), pp_psks := km_db_save psk_class (pp_psks km)\<rparr>"

definition save_registry :: "(('m, 'p) registry, unit) op" where
  "save_registry =
     op_then (\<lambda>r. if rg_uvn_dirty r \<and> validate_uvn (rg_uvn r) \<noteq> Inr () then (Inl (RuntimeError ''ValidationError''), r) else (Inr (), r))
    (op_then (on_root_keymat (\<lambda>km. Inr ((), cm_db_save km)))
    (op_then (each_particle_keymat (\<lambda>km. Inr ((), cm_db_save km)))
    (op_then (on_backbone_keymat (\<lambda>km. Inr ((), pp_db_save km)))
      (op_modify (\<lambda>r. r\<lparr>rg_uvn_dirty := False,
         rg_obj := reset_cached_properties registry_schema (clear_changed registry_schema None (rg_obj r))\<rparr>)))))"

definition generate_artifacts :: "('m, 'p) reg_env \<Rightarrow> (('m, 'p) registry, unit) op" where
  "generate_artifacts env = disabled_if rg_readonly None False False () (in_transaction (
     op_then purge_keys
    (op_then (\<lambda>r. op_when (needs_redeployment r) (op_then (redeploy env) (op_unit (on_backbone_keymat (pp_drop_keys True)))) r)
    (op_then (set_config_id env)
    (op_then save_registry
    (op_then (assert_keys env)
    (op_then (set_config_id env) save_registry)))))))"

section \<open>Change marks of the registry\<close>

text \<open>What a change of one property does to the marks.\<close>

definition marked :: "string set \<Rightarrow> ('m, 'p) registry \<Rightarrow> ('m, 'p) registry \<Rightarrow> bool" where
  "marked ms r r' \<longleftrightarrow> (\<exists>obj. r' = r\<lparr>rg_obj := obj\<rparr> \<and> vo_initialized obj \<and> vo_changed obj = vo_changed (rg_obj r) \<union> ms)"

lemma markedI: "vo_initialized obj \<Longrightarrow> vo_changed obj = vo_changed (rg_obj r) \<union> ms \<Longrightarrow> marked ms r (r\<lparr>rg_obj := obj\<rparr>)"
  unfolding marked_def by blast

lemma recursion_limit_2: "\<exists>n. recursion_limit = Suc (Suc n)"
  by (rule exI [of _ 998]) (simp add: recursion_limit_def)

lemma registry_touch [simp]: "touch registry_schema a obj = obj"
  by (simp add: touch_def registry_schema_def)

lemma rg_updated_leaf:
  assumes "vo_initialized (rg_obj r)" and "a \<notin> {''users'', ''particles'', ''cells''}" and "a \<notin> set (sc_reserved registry_schema)"
  shows "\<exists>r'. rg_updated a r = (Inr (), r') \<and> marked {a} r r'"
proof -
  obtain n where n: "recursion_limit = Suc n" using recursion_limit_2 by blast
  have "group_of registry_schema a = []" using assms(2) by (simp add: group_of_def registry_schema_def)
  then have "rg_updated a r = (Inr (), r\<lparr>rg_obj := mark_changed registry_schema a (rg_obj r)\<rparr>)"
    using assms(1,3) by (simp add: rg_updated_def n op_return_def)
  moreover have "marked {a} r (r\<lparr>rg_obj := mark_changed registry_schema a (rg_obj r)\<rparr>)"
    using assms(1) by (intro markedI) simp_all
  ultimately show ?thesis by blast
qed

lemma updated_leaf:
  assumes "vo_initialized obj" and "a \<in> {''config_id'', ''deployment_config'', ''root_vpn_keymat'', ''backbone_vpn_keymat'', ''particles_vpn_keymats''}"
  shows "updated_property registry_schema (Suc n) a obj = (Inr (), mark_changed registry_schema a obj)"
proof -
  have "group_of registry_schema a = []" "a \<notin> set (sc_reserved registry_schema)"
    using assms(2) by (auto simp: group_of_def registry_schema_def)
  then show ?thesis using assms(1) by (simp add: op_return_def)
qed

lemma mark_cached:
  "vo_cached (mark_changed registry_schema a obj) = (if a \<in> set (sc_cached registry_schema) then vo_cached obj - {a} else vo_cached obj)"
  by (simp add: mark_changed_def)

lemma registry_cached:
  "''root_vpn_keymat'' \<in> set (sc_cached registry_schema)" "''backbone_vpn_keymat'' \<in> set (sc_cached registry_schema)"
  "''particles_vpn_keymats'' \<in> set (sc_cached registry_schema)"
  by (simp_all add: registry_schema_def)

lemma rg_updated_cells:
  assumes "vo_initialized (rg_obj r)"
  shows "\<exists>r'. rg_updated ''cells'' r = (Inr (), r')
    \<and> marked {''config_id'', ''deployment_config'', ''root_vpn_keymat'', ''backbone_vpn_keymat'', ''particles_vpn_keymats''} r r'
    \<and> \<not> is_cached ''root_vpn_keymat'' r' \<and> \<not> is_cached ''particles_vpn_keymats'' r' \<and> \<not> is_cached ''backbone_vpn_keymat'' r'"
proof -
  let ?m = "mark_changed registry_schema"
  define obj where "obj = ?m ''particles_vpn_keymats'' (?m ''backbone_vpn_keymat'' (?m ''root_vpn_keymat''
     (?m ''deployment_config'' (?m ''config_id'' (rg_obj r)))))"
  obtain n where n: "recursion_limit = Suc (Suc n)" using recursion_limit_2 by blast
  have g: "group_of registry_schema ''cells'' = [''config_id'', ''deployment_config'', ''root_vpn_keymat'', ''backbone_vpn_keymat'', ''particles_vpn_keymats'']"
    and nr: "''cells'' \<notin> set (sc_reserved registry_schema)"
    by (simp_all add: group_of_def registry_schema_def)
  have "updated_property registry_schema recursion_limit ''cells'' (rg_obj r) = (Inr (), obj)"
    using assms unfolding n updated_property.simps(2) [of registry_schema "Suc n" "''cells''"]
    by (simp add: g nr updated_leaf op_then_def op_bind_def op_return_def obj_def del: updated_property.simps)
  then have "rg_updated ''cells'' r = (Inr (), r\<lparr>rg_obj := obj\<rparr>)" by (simp add: rg_updated_def)
  moreover have "marked {''config_id'', ''deployment_config'', ''root_vpn_keymat'', ''backbone_vpn_keymat'', ''particles_vpn_keymats''}
      r (r\<lparr>rg_obj := obj\<rparr>)"
    using assms by (intro markedI) (auto simp: obj_def)
  moreover have "''root_vpn_keymat'' \<notin> vo_cached obj" "''particles_vpn_keymats'' \<notin> vo_cached obj" "''backbone_vpn_keymat'' \<notin> vo_cached obj"
    by (simp_all add: obj_def mark_cached registry_cached)
  ultimately show ?thesis by (auto simp: is_cached_def)
qed

lemma rg_updated_group:
  assumes "vo_initialized (rg_obj r)"
  shows "\<exists>r'. rg_updated ''particles'' r = (Inr (), r') \<and> marked {''config_id'', ''particles_vpn_keymats''} r r'"
    and "\<exists>r'. rg_updated ''users'' r = (Inr (), r') \<and> marked {''config_id''} r r'"
proof -
  let ?m = "mark_changed registry_schema"
  obtain n where n: "recursion_limit = Suc (Suc n)" using recursion_limit_2 by blast
  have g: "group_of registry_schema ''particles'' = [''config_id'', ''particles_vpn_keymats'']"
      "group_of registry_schema ''users'' = [''config_id'']"
    and nr: "''particles'' \<notin> set (sc_reserved registry_schema)" "''users'' \<notin> set (sc_reserved registry_schema)"
    by (simp_all add: group_of_def registry_schema_def)
  have "updated_property registry_schema recursion_limit ''particles'' (rg_obj r)
      = (Inr (), ?m ''particles_vpn_keymats'' (?m ''config_id'' (rg_obj r)))"
    using assms unfolding n updated_property.simps(2) [of registry_schema "Suc n" "''particles''"]
    by (simp add: g nr updated_leaf op_then_def op_bind_def op_return_def del: updated_property.simps)
  then have "rg_updated ''particles'' r = (Inr (), r\<lparr>rg_obj := ?m ''particles_vpn_keymats'' (?m ''config_id'' (rg_obj r))\<rparr>)"
    by (simp add: rg_updated_def)
  moreover have "marked {''config_id'', ''particles_vpn_keymats''} r
      (r\<lparr>rg_obj := ?m ''particles_vpn_keymats'' (?m ''config_id'' (rg_obj r))\<rparr>)"
    using assms by (intro markedI) auto
  ultimately show "\<exists>r'. rg_updated ''particles'' r = (Inr (), r') \<and> marked {''config_id'', ''particles_vpn_keymats''} r r'"
    by blast
  have "updated_property registry_schema recursion_limit ''users'' (rg_obj r) = (Inr (), ?m ''config_id'' (rg_obj r))"
    using assms unfolding n updated_property.simps(2) [of registry_schema "Suc n" "''users''"]
    by (simp add: g nr updated_leaf op_then_def op_bind_def op_return_def del: updated_property.simps)
  then have "rg_updated ''users'' r = (Inr (), r\<lparr>rg_obj := ?m ''config_id'' (rg_obj r)\<rparr>)" by (simp add: rg_updated_def)
  moreover have "marked {''config_id''} r (r\<lparr>rg_obj := ?m ''config_id'' (rg_obj r)\<rparr>)"
    using assms by (intro markedI) auto
  ultimately show "\<exists>r'. rg_updated ''users'' r = (Inr (), r') \<and> marked {''config_id''} r r'" by blast
qed

section \<open>What the key materials leave alone\<close>

definition reg_frame :: "('m, 'p) registry \<Rightarrow> ('m, 'p) registry \<Rightarrow> bool" where
  "reg_frame r r' \<longleftrightarrow> rg_readonly r' = rg_readonly r \<and> rg_uvn r' = rg_uvn r \<and> rg_uvn_dirty r' = rg_uvn_dirty r
     \<and> rg_users r' = rg_users r \<and> rg_config_id r' = rg_config_id r \<and> rg_rekeyed_id r' = rg_rekeyed_id r
     \<and> rg_deployment r' = rg_deployment r \<and> rg_next_id r' = rg_next_id r
     \<and> vo_changed (rg_obj r') = vo_changed (rg_obj r) \<and> vo_initialized (rg_obj r') = vo_initialized (rg_obj r)"

lemma reg_frame_refl [simp]: "reg_frame r r"
  by (simp add: reg_frame_def)

lemma reg_frame_trans: "reg_frame a b \<Longrightarrow> reg_frame b c \<Longrightarrow> reg_frame a c"
  by (simp add: reg_frame_def)

lemma reg_frame_fields [simp]:
  "reg_frame r (fill_cache n r') = reg_frame r r'"
  "reg_frame r (r'\<lparr>rg_root_km := km\<rparr>) = reg_frame r r'"
  "reg_frame r (r'\<lparr>rg_rekeyed_km := km\<rparr>) = reg_frame r r'"
  "reg_frame r (r'\<lparr>rg_particle_kms := kms\<rparr>) = reg_frame r r'"
  "reg_frame r (r'\<lparr>rg_backbone_km := bkm\<rparr>) = reg_frame r r'"
  "reg_frame r (r'\<lparr>rg_rekeyed_cells := rc\<rparr>) = reg_frame r r'"
  "reg_frame r (r'\<lparr>rg_asymm := rows\<rparr>) = reg_frame r r'"
  "reg_frame r (r'\<lparr>rg_symm := psks\<rparr>) = reg_frame r r'"
  "reg_frame r (r'\<lparr>rg_gen := g\<rparr>) = reg_frame r r'"
  "reg_frame r (r'\<lparr>rg_pgen := pg\<rparr>) = reg_frame r r'"
  by (simp_all add: reg_frame_def fill_cache_def)

text \<open>An operation that keeps the frame, whatever it raises.\<close>

definition framed :: "(('m, 'p) registry, 'a) op \<Rightarrow> bool" where
  "framed m \<longleftrightarrow> (\<forall>r res r'. m r = (res, r') \<longrightarrow> reg_frame r r')"

lemma framedD: "framed m \<Longrightarrow> m r = (res, r') \<Longrightarrow> reg_frame r r'"
  unfolding framed_def by blast

named_theorems framed_intros "operations that keep the frame"

lemma framed_bind [framed_intros]:
  assumes "framed m" and "\<And>x. framed (f x)" shows "framed (op_bind m f)"
  unfolding framed_def
proof (intro allI impI)
  fix r res r' assume b: "op_bind m f r = (res, r')"
  obtain r1 s1 where 1: "m r = (r1, s1)" by (cases "m r")
  show "reg_frame r r'"
  proof (cases r1)
    case (Inl e)
    then show ?thesis using b 1 framedD [OF assms(1) 1] by (simp add: op_bind_def)
  next
    case (Inr x)
    then have "f x s1 = (res, r')" using b 1 by (simp add: op_bind_def)
    then show ?thesis using framedD [OF assms(1) 1] framedD [OF assms(2)] reg_frame_trans by blast
  qed
qed

lemma framed_then [framed_intros]: "framed m \<Longrightarrow> framed n \<Longrightarrow> framed (op_then m n)"
  unfolding op_then_def by (intro framed_bind)

lemma framed_return [framed_intros]: "framed (op_return x)"
  by (simp add: framed_def op_return_def)

lemma framed_unit [framed_intros]: "framed m \<Longrightarrow> framed (op_unit m)"
  unfolding op_unit_def by (intro framed_then framed_return)

lemma framed_when [framed_intros]: "framed m \<Longrightarrow> framed (op_when c m)"
  unfolding op_when_def by (auto intro: framed_return)

lemma framed_each [framed_intros]: "(\<And>x. framed (f x)) \<Longrightarrow> framed (op_each f xs)"
proof (induction xs)
  case (Cons x xs)
  then show ?case by (simp add: framed_then)
qed (simp add: framed_return)

lemma framed_transaction [framed_intros]: "framed m \<Longrightarrow> framed (in_transaction m)"
  unfolding framed_def in_transaction_def by (auto split: prod.splits sum.splits)

lemma framed_keymats [framed_intros]:
  "framed root_vpn_keymat" "framed rekeyed_root_vpn_keymat" "framed particles_vpn_keymats" "framed backbone_vpn_keymat"
  by (auto simp: framed_def root_vpn_keymat_def rekeyed_root_vpn_keymat_def particles_vpn_keymats_def
      backbone_vpn_keymat_def split: if_splits sum.splits)

lemma run_star_frame: "run_star f km r = Inr (x, km', r') \<Longrightarrow> reg_frame r r'"
  by (auto simp: run_star_def res_simps split: prod.splits)

lemma framed_on [framed_intros]:
  "framed (on_root_keymat f)" "framed (on_particle_keymat cid f)" "framed (on_backbone_keymat g)"
proof -
  show "framed (on_root_keymat f)" unfolding on_root_keymat_def
    by (intro framed_bind framed_keymats)
      (auto simp: framed_def split: sum.splits prod.splits dest: run_star_frame)
  show "framed (on_particle_keymat cid f)" unfolding on_particle_keymat_def
    by (intro framed_bind framed_keymats)
      (auto simp: framed_def split: sum.splits prod.splits option.splits dest: run_star_frame)
  show "framed (on_backbone_keymat g)" unfolding on_backbone_keymat_def
    by (intro framed_bind framed_keymats) (auto simp: framed_def split: sum.splits prod.splits)
qed

lemma framed_each_particle [framed_intros]: "framed (each_particle_keymat f)"
  unfolding each_particle_keymat_def
  by (intro framed_bind framed_keymats framed_each framed_on)

lemma framed_state: "(\<And>s. framed (m s)) \<Longrightarrow> framed (\<lambda>r. m r r)"
  unfolding framed_def by blast

lemma framed_disabled [framed_intros]: "framed m \<Longrightarrow> framed (disabled_if c None False False () m)"
  unfolding framed_def disabled_if_def op_return_def by auto

lemma framed_purge_keys [framed_intros]: "framed purge_keys"
  unfolding purge_keys_def
  by (rule framed_disabled, rule framed_transaction, rule framed_state, intro framed_then framed_on framed_each)

lemma framed_rekeyed_cells [framed_intros]: "framed rekeyed_cells"
proof -
  have "framed (\<lambda>r. op_bind rekeyed_root_vpn_keymat (\<lambda>km r1.
          if set (cm_peers_with_dropped_key km) \<subseteq> set (active_ids r1)
          then (Inr (cm_peers_with_dropped_key km), r1\<lparr>rg_rekeyed_cells := Some (cm_peers_with_dropped_key km)\<rparr>)
          else (Inl StopIteration, r1)) r)"
    by (intro framed_bind framed_keymats) (auto simp: framed_def)
  then show ?thesis unfolding rekeyed_cells_def framed_def by (auto split: option.splits)
qed

lemma framed_rekeyed_among [framed_intros]: "framed (rekeyed_among p)"
  unfolding framed_def rekeyed_among_def using framedD [OF framed_rekeyed_cells] by auto

lemma framed_nothing [framed_intros]: "framed (nothing_to_rekey a b c)"
  by (auto simp: framed_def nothing_to_rekey_def)

lemma framed_assert_root [framed_intros]: "framed (assert_root_vpn env)"
  unfolding assert_root_vpn_def
  by (rule framed_state, intro framed_when framed_unit framed_on)

lemma framed_assert_particles [framed_intros]: "framed (assert_particles_vpns env)"
  unfolding assert_particles_vpns_def
  by (rule framed_state, intro framed_each framed_on)


section \<open>What rekeying leaves alone\<close>

definition reg_grows :: "('m, 'p) registry \<Rightarrow> ('m, 'p) registry \<Rightarrow> bool" where
  "reg_grows r r' \<longleftrightarrow> rg_readonly r' = rg_readonly r \<and> rg_uvn r' = rg_uvn r \<and> rg_uvn_dirty r' = rg_uvn_dirty r
     \<and> rg_users r' = rg_users r \<and> rg_config_id r' = rg_config_id r \<and> rg_deployment r' = rg_deployment r \<and> rg_next_id r' = rg_next_id r
     \<and> vo_changed (rg_obj r) \<subseteq> vo_changed (rg_obj r') \<and> vo_initialized (rg_obj r') = vo_initialized (rg_obj r)"

lemma reg_frame_grows: "reg_frame r r' \<Longrightarrow> reg_grows r r'"
  by (simp add: reg_frame_def reg_grows_def)

lemma reg_grows_trans: "reg_grows a b \<Longrightarrow> reg_grows b c \<Longrightarrow> reg_grows a c"
  by (auto simp: reg_grows_def)

definition growing :: "(('m, 'p) registry, 'a) op \<Rightarrow> bool" where
  "growing m \<longleftrightarrow> (\<forall>r res r'. m r = (res, r') \<longrightarrow> reg_grows r r')"

lemma growingD: "growing m \<Longrightarrow> m r = (res, r') \<Longrightarrow> reg_grows r r'"
  unfolding growing_def by blast

lemma framed_growing: "framed m \<Longrightarrow> growing m"
  unfolding framed_def growing_def using reg_frame_grows by blast

lemma growing_bind:
  assumes "growing m" and "\<And>x. growing (f x)" shows "growing (op_bind m f)"
  unfolding growing_def
proof (intro allI impI)
  fix r res r' assume b: "op_bind m f r = (res, r')"
  obtain r1 s1 where 1: "m r = (r1, s1)" by (cases "m r")
  show "reg_grows r r'"
  proof (cases r1)
    case (Inl e)
    then show ?thesis using b 1 growingD [OF assms(1) 1] by (simp add: op_bind_def)
  next
    case (Inr x)
    then have "f x s1 = (res, r')" using b 1 by (simp add: op_bind_def)
    then show ?thesis using growingD [OF assms(1) 1] growingD [OF assms(2)] reg_grows_trans by blast
  qed
qed

lemma growing_then: "growing m \<Longrightarrow> growing n \<Longrightarrow> growing (op_then m n)"
  unfolding op_then_def by (intro growing_bind)

lemma growing_when: "growing m \<Longrightarrow> growing (op_when c m)"
  unfolding op_when_def by (cases c) (simp_all add: framed_growing framed_return)

lemma growing_transaction: "growing m \<Longrightarrow> growing (in_transaction m)"
  unfolding growing_def in_transaction_def by (auto simp: reg_grows_def split: prod.splits sum.splits)

lemma growing_state: "(\<And>s. growing (m s)) \<Longrightarrow> growing (\<lambda>r. m r r)"
  unfolding growing_def by blast

lemma growing_updated: "growing (rg_updated a)"
  unfolding growing_def rg_updated_def
  by (auto simp: reg_grows_def same_values_def dest!: updated_property_frame split: prod.splits)

lemma growing_keep_rekeyed: "growing keep_rekeyed_id"
  unfolding growing_def
proof (intro allI impI)
  fix r :: "('a, 'b) registry" and res r' assume k: "keep_rekeyed_id r = (res, r')"
  show "reg_grows r r'"
  proof (cases "rg_rekeyed_id r")
    case None
    then have "rg_updated ''rekeyed_root_config_id'' (r\<lparr>rg_rekeyed_id := Some (rg_config_id r)\<rparr>) = (res, r')"
      using k by (simp add: keep_rekeyed_id_def set_rekeyed_id_def)
    from growingD [OF growing_updated this] show ?thesis by (simp add: reg_grows_def)
  next
    case (Some i)
    then show ?thesis using k by (simp add: keep_rekeyed_id_def op_return_def reg_grows_def)
  qed
qed

lemmas growing_intros = growing_then growing_when growing_bind growing_keep_rekeyed growing_updated

lemma growing_rekey_cell: "growing (rekey_cell c rv pv deleted)"
proof -
  have "growing (\<lambda>r. let drop_or_delete = map (\<lambda>i. (i, (i = cell_id c \<and> deleted) \<or> i \<in> set rekeyed)) (active_ids r);
              others = filter (\<lambda>i. i \<noteq> cell_id c) (active_ids r)
          in op_unit (on_root_keymat (cm_purge_gone_peers others False drop_or_delete)) r)" for rekeyed
    unfolding Let_def by (rule growing_state) (intro framed_growing framed_unit framed_on)
  then show ?thesis unfolding rekey_cell_def
    by (intro growing_transaction growing_then growing_when growing_bind growing_keep_rekeyed)
      (auto intro: framed_growing framed_nothing framed_rekeyed_among framed_unit framed_on)
qed

lemma growing_rekey_uvn: "growing (rekey_uvn rv pv deleted)"
proof -
  have "growing (\<lambda>r. op_return (map (\<lambda>c. (c, c \<in> set rekeyed)) (active_ids r)) r)" for rekeyed
    by (rule growing_state) (intro framed_growing framed_return)
  then have "growing (if deleted then op_return [] else op_bind (rekeyed_among (\<lambda>_. True))
      (\<lambda>rekeyed r. op_return (map (\<lambda>c. (c, c \<in> set rekeyed)) (active_ids r)) r))"
    by (auto intro: growing_bind framed_growing framed_return framed_rekeyed_among)
  then show ?thesis unfolding rekey_uvn_def
    by (intro growing_transaction growing_then growing_when growing_bind growing_keep_rekeyed)
      (auto intro: framed_growing framed_nothing framed_rekeyed_among framed_unit framed_on framed_each_particle)
qed

lemma growing_rekey_particle: "growing (rekey_particle p cells deleted)"
  unfolding rekey_particle_def Let_def
  by (rule growing_transaction, rule growing_state, intro framed_growing framed_each framed_on)

end
