(* ===== verification/Registry_Steps.thy ===== *)
theory Registry_Steps
  imports Registry
begin

text \<open>
  The life of a registry: its creation, the definition of a UVN from a specification, and every operation that the
  command line calls (\<open>uno/registry/registry.py\<close>, \<open>uno/cli/uno/cmd_registry.py\<close>) as a step relation. A step may raise,
  and the state it leaves then is a state like any other. The invariants say what holds after any number of steps.
\<close>

section \<open>Creation and configuration\<close>

definition new_user :: "int \<Rightarrow> string \<Rightarrow> user" where
  "new_user i email = \<lparr>user_id = i, user_email = email, user_excluded = False\<rparr>"

text \<open>\<open>Registry.create\<close> up to its first \<open>generate_artifacts\<close>: a UVN with default settings and an owner. Nothing is
  cached yet: the key materials are there but do not count.\<close>

definition new_registry :: "string \<Rightarrow> string \<Rightarrow> string \<Rightarrow> ('m, 'p) registry" where
  "new_registry name owner_email config_id =
     (let star = \<lparr>cm_prefix = [], cm_peer_ids = [], cm_prefer_dropped = False, cm_readonly = False, cm_root_key = None,
        cm_peer_keys = [], cm_psks = empty_keys_map [] False False, cm_dropped = [], cm_deleted = [], cm_gen = 0, cm_calls = []\<rparr>
      in \<lparr>rg_readonly = False,
      rg_uvn = \<lparr>uvn_id = 1, uvn_name = name, uvn_address = None, uvn_settings = default_uvn_settings, uvn_all_cells = [],
        uvn_all_particles = [], uvn_owner = Some 1\<rparr>,
      rg_uvn_dirty = False, rg_users = [new_user 1 owner_email], rg_config_id = config_id, rg_rekeyed_id = None,
      rg_deployment = None, rg_obj = blank\<lparr>vo_initialized := True\<rparr>,
      rg_root_km = star, rg_rekeyed_km = star, rg_particle_kms = [],
      rg_backbone_km = \<lparr>pp_prefix = [], pp_readonly = False, pp_pair_keys = empty_keys_map [] False False,
        pp_psks = empty_keys_map [] False False\<rparr>, rg_rekeyed_cells = None,
      rg_asymm = [], rg_symm = [], rg_gen = 0, rg_pgen = 0, rg_next_id = 1\<rparr>)"

text \<open>\<open>Registry.configure\<close> with new settings of the UVN. A new strategy asks for a new deployment.\<close>

definition configure_registry :: "string option \<Rightarrow> uvn_settings \<Rightarrow> (('m, 'p) registry, unit) op" where
  "configure_registry address settings r =
     (let u = rg_uvn r; u' = u\<lparr>uvn_address := address, uvn_settings := settings\<rparr>;
          r' = r\<lparr>rg_uvn := u', rg_uvn_dirty := rg_uvn_dirty r \<or> u' \<noteq> u\<rparr>
      in if us_strategy settings \<noteq> us_strategy (uvn_settings u) \<or> us_strategy_args settings \<noteq> us_strategy_args (uvn_settings u)
         then rg_updated ''deployment_config'' r' else (Inr (), r'))"

section \<open>A specification of a UVN\<close>

record cell_spec =
  cs_name :: string
  cs_owner :: "string option"
  cs_conf :: cell_conf

record uvn_spec =
  sp_config :: "(string option \<times> uvn_settings) option"
  sp_users :: "string list"
  sp_cells :: "cell_spec list"
  sp_particles :: "(string \<times> string option) list"

text \<open>Owners are named by their email; \<open>users\<close> is the dictionary of the specification.\<close>

definition spec_owner :: "(string \<times> int) list \<Rightarrow> string option \<Rightarrow> int option res" where
  "spec_owner users owner = (case owner of
     None \<Rightarrow> Inr None
   | Some email \<Rightarrow> rbind (the_or KeyError (map_of users email)) (\<lambda>i. Inr (Some i)))"

definition owner_email :: "('m, 'p) registry \<Rightarrow> string option" where
  "owner_email r = map_option user_email (find (\<lambda>u. Some (user_id u) = uvn_owner (rg_uvn r)) (rg_users r))"

fun add_spec_users :: "string option \<Rightarrow> string list \<Rightarrow> (string \<times> int) list \<Rightarrow> (('m, 'p) registry, (string \<times> int) list) op" where
  "add_spec_users owner [] known = op_return known"
| "add_spec_users owner (email # emails) known =
     (if owner = Some email then add_spec_users owner emails known
      else op_bind (add_user email) (\<lambda>u. add_spec_users owner emails (AList.update email (user_id u) known)))"

definition lift_res :: "'a res \<Rightarrow> ('s, 'a) op" where
  "lift_res x s = (x, s)"

definition configure_uvn :: "string option \<times> uvn_settings \<Rightarrow> (('m, 'p) registry, unit) op" where
  "configure_uvn conf r =
     (let u' = (rg_uvn r)\<lparr>uvn_address := fst conf, uvn_settings := snd conf\<rparr>
      in (Inr (), r\<lparr>rg_uvn := u', rg_uvn_dirty := rg_uvn_dirty r \<or> u' \<noteq> rg_uvn r\<rparr>))"

definition define_uvn :: "uvn_spec \<Rightarrow> (('m, 'p) registry, unit) op" where
  "define_uvn sp = error_if rg_readonly False (in_transaction (
     op_then (case sp_config sp of None \<Rightarrow> op_return () | Some conf \<Rightarrow> configure_uvn conf) (\<lambda>r.
     op_bind (add_spec_users (owner_email r) (sp_users sp)
          (case owner_email r of None \<Rightarrow> [] | Some e \<Rightarrow> (case uvn_owner (rg_uvn r) of None \<Rightarrow> [] | Some i \<Rightarrow> [(e, i)]))) (\<lambda>known.
     op_then save_registry
    (op_then (op_each (\<lambda>cs. op_bind (lift_res (spec_owner known (cs_owner cs))) (\<lambda>own. add_cell (cs_name cs) own (cs_conf cs))) (sp_cells sp))
      (op_each (\<lambda>np. op_bind (lift_res (spec_owner known (snd np))) (\<lambda>own. add_particle (fst np) own)) (sp_particles sp)))) r)))"

definition rg_dirty :: "('m, 'p) registry \<Rightarrow> bool" where
  "rg_dirty r \<longleftrightarrow> vo_changed (rg_obj r) \<noteq> {} \<or> rg_uvn_dirty r"

definition create_registry ::
  "('m, 'p) reg_env \<Rightarrow> string \<Rightarrow> string \<Rightarrow> string \<Rightarrow> string option \<Rightarrow> uvn_settings \<Rightarrow> uvn_spec option
   \<Rightarrow> (py_error + unit) \<times> ('m, 'p) registry" where
  "create_registry env name owner config_id address settings spec =
     op_then (configure_registry address settings)
    (op_then (generate_artifacts env)
      (case spec of
         None \<Rightarrow> op_return ()
       | Some sp \<Rightarrow> op_then (define_uvn sp) (\<lambda>r. op_when (rg_dirty r) (generate_artifacts env) r)))
     (new_registry name owner config_id)"

section \<open>Steps\<close>

text \<open>One operation, whatever it returns or raises. The environment is another one each time.\<close>

inductive reg_step :: "('m, 'p) registry \<Rightarrow> ('m, 'p) registry \<Rightarrow> bool" where
  configure: "configure_registry address settings r = (res, r') \<Longrightarrow> reg_step r r'"
| add_cell: "add_cell name own conf r = (cres, r') \<Longrightarrow> reg_step r r'"
| update_cell: "update_cell c own conf r = (res, r') \<Longrightarrow> reg_step r r'"
| delete_cell: "delete_cell c r = (res, r') \<Longrightarrow> reg_step r r'"
| add_particle: "add_particle name own r = (pres, r') \<Longrightarrow> reg_step r r'"
| update_particle: "update_particle p own r = (res, r') \<Longrightarrow> reg_step r r'"
| delete_particle: "delete_particle p r = (res, r') \<Longrightarrow> reg_step r r'"
| add_user: "add_user email r = (ures, r') \<Longrightarrow> reg_step r r'"
| delete_user: "delete_user usr r = (res, r') \<Longrightarrow> reg_step r r'"
| ban: "ban yes banned unban_owned targets r = (res, r') \<Longrightarrow> reg_step r r'"
| rekey_uvn: "rekey_uvn root particles deleted r = (res, r') \<Longrightarrow> reg_step r r'"
| rekey_cell: "rekey_cell c root particles deleted r = (res, r') \<Longrightarrow> reg_step r r'"
| rekey_particle: "rekey_particle p cells deleted r = (res, r') \<Longrightarrow> reg_step r r'"
| drop_rekeyed: "drop_rekeyed r = (res, r') \<Longrightarrow> reg_step r r'"
| drop_root: "drop_root_vpn_keymat r = (res, r') \<Longrightarrow> reg_step r r'"
| drop_particles: "drop_particles_vpn_keymats r = (res, r') \<Longrightarrow> reg_step r r'"
| assert_keys: "assert_keys env r = (res, r') \<Longrightarrow> reg_step r r'"
| redeploy: "redeploy env r = (res, r') \<Longrightarrow> reg_step r r'"
| generate: "generate_artifacts env r = (res, r') \<Longrightarrow> reg_step r r'"

inductive reg_reachable :: "('m, 'p) registry \<Rightarrow> bool" where
  created: "create_registry env name own config_id address settings spec = (res, r) \<Longrightarrow> reg_reachable r"
| step: "reg_reachable r \<Longrightarrow> reg_step r r' \<Longrightarrow> reg_reachable r'"

section \<open>Invariants\<close>

text \<open>The deployment was made for the active cells of the UVN.\<close>

definition deployed_for_cells :: "('m, 'p) registry \<Rightarrow> bool" where
  "deployed_for_cells r \<longleftrightarrow> (\<exists>rnd u links rest. rg_deployment r = Some links \<and> redeploy_links rnd u = Inr (links, rest)
     \<and> uvn_cells u = uvn_cells (rg_uvn r))"

definition saved_valid :: "('m, 'p) registry \<Rightarrow> bool" where
  "saved_valid r \<longleftrightarrow> rg_uvn_dirty r \<or> validate_uvn (rg_uvn r) = Inr ()"

definition reg_inv :: "('m, 'p) registry \<Rightarrow> bool" where
  "reg_inv r \<longleftrightarrow> vo_initialized (rg_obj r) \<and> (needs_redeployment r \<or> deployed_for_cells r) \<and> saved_valid r"

definition reg_deployed :: "('m, 'p) registry \<Rightarrow> bool" where
  "reg_deployed r \<longleftrightarrow> vo_initialized (rg_obj r) \<and> deployed_for_cells r \<and> saved_valid r"

text \<open>An operation that keeps a property of the state, whatever it returns or raises.\<close>

definition keeps :: "('s \<Rightarrow> bool) \<Rightarrow> ('s, 'a) op \<Rightarrow> bool" where
  "keeps P m \<longleftrightarrow> (\<forall>s res s'. P s \<longrightarrow> m s = (res, s') \<longrightarrow> P s')"

lemma keepsD: "keeps P m \<Longrightarrow> P s \<Longrightarrow> m s = (res, s') \<Longrightarrow> P s'"
  unfolding keeps_def by blast

lemma keepsI: "(\<And>s res s'. P s \<Longrightarrow> m s = (res, s') \<Longrightarrow> P s') \<Longrightarrow> keeps P m"
  unfolding keeps_def by blast

lemma keeps_bind: "keeps P m \<Longrightarrow> (\<And>x. keeps P (f x)) \<Longrightarrow> keeps P (op_bind m f)"
proof (rule keepsI)
  fix s res s' assume m: "keeps P m" and f: "\<And>x. keeps P (f x)" and P: "P s" and b: "op_bind m f s = (res, s')"
  obtain res1 s1 where 1: "m s = (res1, s1)" by (cases "m s")
  have P1: "P s1" using keepsD [OF m P 1] .
  show "P s'"
  proof (cases res1)
    case (Inl e) then show ?thesis using b 1 P1 by (simp add: op_bind_def)
  next
    case (Inr x)
    then have "f x s1 = (res, s')" using b 1 by (simp add: op_bind_def)
    then show ?thesis using keepsD [OF f P1] by blast
  qed
qed

lemma keeps_then: "keeps P m \<Longrightarrow> keeps P n \<Longrightarrow> keeps P (op_then m n)"
  unfolding op_then_def by (rule keeps_bind)

lemma keeps_return: "keeps P (op_return x)"
  by (simp add: keeps_def op_return_def)

lemma keeps_raise: "keeps P (op_raise e)"
  by (simp add: keeps_def op_raise_def)

lemma keeps_lift: "keeps P (lift_res x)"
  by (simp add: keeps_def lift_res_def)

lemma keeps_when: "keeps P m \<Longrightarrow> keeps P (op_when c m)"
  by (simp add: op_when_def keeps_return)

lemma keeps_unit: "keeps P m \<Longrightarrow> keeps P (op_unit m)"
  by (simp add: op_unit_def keeps_then keeps_return)

lemma keeps_each: "(\<And>x. keeps P (f x)) \<Longrightarrow> keeps P (op_each f xs)"
  by (induction xs) (simp_all add: keeps_then keeps_return)

lemma keeps_state: "(\<And>s. keeps P (m s)) \<Longrightarrow> keeps P (\<lambda>r. m r r)"
  unfolding keeps_def by blast

lemma keeps_update: "keeps P m \<Longrightarrow> (\<And>r. P r \<Longrightarrow> P (f r)) \<Longrightarrow> keeps P (\<lambda>r. m (f r))"
  unfolding keeps_def by blast

lemma keeps_error_if: "keeps P m \<Longrightarrow> keeps P (error_if c b m)"
  unfolding keeps_def error_if_def op_raise_def by auto

lemma keeps_disabled: "keeps P m \<Longrightarrow> keeps P (disabled_if c None False b x m)"
  unfolding keeps_def disabled_if_def op_return_def by auto

text \<open>From one property to another: what holds after a success, and what after an error.\<close>

definition leads :: "('s \<Rightarrow> bool) \<Rightarrow> ('s, 'a) op \<Rightarrow> ('s \<Rightarrow> bool) \<Rightarrow> ('s \<Rightarrow> bool) \<Rightarrow> bool" where
  "leads P m Q E \<longleftrightarrow> (\<forall>s res s'. P s \<longrightarrow> m s = (res, s') \<longrightarrow> (if isl res then E s' else Q s'))"

lemma leads_then: "leads P m Q E \<Longrightarrow> leads Q n R E \<Longrightarrow> leads P (op_then m n) R E"
  unfolding leads_def
proof (intro allI impI)
  fix s res s'
  assume m: "\<forall>s res s'. P s \<longrightarrow> m s = (res, s') \<longrightarrow> (if isl res then E s' else Q s')"
    and n: "\<forall>s res s'. Q s \<longrightarrow> n s = (res, s') \<longrightarrow> (if isl res then E s' else R s')"
    and P: "P s" and b: "op_then m n s = (res, s')"
  obtain res1 s1 where 1: "m s = (res1, s1)" by (cases "m s")
  show "if isl res then E s' else R s'"
  proof (cases res1)
    case (Inl e)
    then show ?thesis using b 1 m [rule_format, OF P 1] by (auto simp: op_then_def op_bind_def)
  next
    case (Inr x)
    then have "Q s1" "n s1 = (res, s')" using b 1 m [rule_format, OF P 1] by (simp_all add: op_then_def op_bind_def)
    then show ?thesis using n by blast
  qed
qed

lemma keeps_leads: "keeps P m \<Longrightarrow> (\<And>s. P s \<Longrightarrow> E s) \<Longrightarrow> leads P m P E"
  unfolding keeps_def leads_def by (meson)

lemma leads_keeps: "leads P m Q P \<Longrightarrow> (\<And>s. Q s \<Longrightarrow> P s) \<Longrightarrow> keeps P m"
  unfolding keeps_def leads_def by (metis (full_types))

lemma leadsD: "leads P m Q E \<Longrightarrow> P s \<Longrightarrow> m s = (Inr x, s') \<Longrightarrow> Q s'"
  unfolding leads_def by fastforce

section \<open>Both invariants\<close>

definition reg_pred :: "(('m, 'p) registry \<Rightarrow> bool) \<Rightarrow> bool" where
  "reg_pred P \<longleftrightarrow> P = reg_inv \<or> P = reg_deployed"

lemma reg_pred_cases: "reg_pred reg_inv" "reg_pred reg_deployed"
  by (simp_all add: reg_pred_def)

lemmas reg_defs = reg_inv_def reg_deployed_def needs_redeployment_def deployed_for_cells_def saved_valid_def

lemma reg_deployed_inv: "reg_deployed r \<Longrightarrow> reg_inv r"
  by (simp add: reg_inv_def reg_deployed_def)

text \<open>What both invariants ask of a change.\<close>

definition calm :: "('m, 'p) registry \<Rightarrow> ('m, 'p) registry \<Rightarrow> bool" where
  "calm r r' \<longleftrightarrow> vo_initialized (rg_obj r') = vo_initialized (rg_obj r) \<and> vo_changed (rg_obj r) \<subseteq> vo_changed (rg_obj r')
     \<and> rg_deployment r' = rg_deployment r \<and> uvn_cells (rg_uvn r') = uvn_cells (rg_uvn r)
     \<and> (rg_uvn_dirty r' \<or> (validate_uvn (rg_uvn r') = validate_uvn (rg_uvn r) \<and> rg_uvn_dirty r' = rg_uvn_dirty r))"

lemma reg_pred_calm: "reg_pred P \<Longrightarrow> P r \<Longrightarrow> calm r r' \<Longrightarrow> P r'"
  unfolding reg_pred_def calm_def by (auto simp: reg_defs)

lemma grows_calm: "reg_grows r r' \<Longrightarrow> calm r r'"
  by (simp add: reg_grows_def calm_def)

lemma growing_keeps: "reg_pred P \<Longrightarrow> growing m \<Longrightarrow> keeps P m"
  using grows_calm reg_pred_calm unfolding growing_def keeps_def by metis

lemma framed_keeps: "reg_pred P \<Longrightarrow> framed m \<Longrightarrow> keeps P m"
  by (simp add: growing_keeps framed_growing)

lemma keeps_transaction: "reg_pred P \<Longrightarrow> keeps P m \<Longrightarrow> keeps P (in_transaction m)"
proof (rule keepsI)
  fix r res r' assume P: "reg_pred P" and m: "keeps P m" and r: "P r" and t: "in_transaction m r = (res, r')"
  obtain res1 r1 where 1: "m r = (res1, r1)" by (cases "m r")
  have "P r1" using keepsD [OF m r 1] .
  moreover have "calm r1 r'" using t 1 by (auto simp: in_transaction_def calm_def split: sum.splits)
  ultimately show "P r'" using reg_pred_calm P by blast
qed

lemma keeps_calm: "reg_pred P \<Longrightarrow> (\<And>r res r'. m r = (res, r') \<Longrightarrow> calm r r') \<Longrightarrow> keeps P m"
  unfolding keeps_def using reg_pred_calm by blast

lemma keeps_calm_update: "reg_pred P \<Longrightarrow> keeps P m \<Longrightarrow> (\<And>r. calm r (f r)) \<Longrightarrow> keeps P (\<lambda>r. m (f r))"
  by (rule keeps_update) (auto intro: reg_pred_calm)

lemma keeps_updated: "reg_pred P \<Longrightarrow> keeps P (rg_updated a)"
  by (simp add: growing_keeps growing_updated)

lemma keeps_uvn_updated: "reg_pred P \<Longrightarrow> keeps P rg_uvn_updated"
  by (rule keeps_calm) (auto simp: rg_uvn_updated_def op_modify_def calm_def)

lemma keeps_particles_changed: "reg_pred P \<Longrightarrow> keeps P particles_changed"
  unfolding particles_changed_def by (intro keeps_then keeps_updated keeps_uvn_updated)

text \<open>A change of the cells marks the deployment.\<close>

lemma cells_changed_marks:
  assumes "vo_initialized (rg_obj r)" and "cells_changed r = (res, r')"
  shows "res = Inr () \<and> reg_inv r' \<and> needs_redeployment r' \<and> rg_uvn_dirty r' \<and> rg_uvn r' = rg_uvn r"
proof -
  let ?r = "r\<lparr>rg_uvn_dirty := True\<rparr>"
  have i: "vo_initialized (rg_obj ?r)" using assms(1) by simp
  obtain r1 where 1: "rg_updated ''cells'' ?r = (Inr (), r1)"
      "marked {''config_id'', ''deployment_config'', ''root_vpn_keymat'', ''backbone_vpn_keymat'', ''particles_vpn_keymats''} ?r r1"
    using rg_updated_cells [OF i] by blast
  have "(res, r') = (Inr (), r1)"
    using assms(2) 1(1) by (simp add: cells_changed_def rg_uvn_updated_def op_then_def op_bind_def op_modify_def)
  then have r': "res = Inr ()" "r' = r1" by simp_all
  obtain obj where obj: "r1 = ?r\<lparr>rg_obj := obj\<rparr>" "vo_initialized obj" "''deployment_config'' \<in> vo_changed obj"
    using 1(2) unfolding marked_def by blast
  then have "needs_redeployment r1" "rg_uvn_dirty r1" "rg_uvn r1 = rg_uvn r" "vo_initialized (rg_obj r1)"
    by (simp_all add: needs_redeployment_def)
  then show ?thesis unfolding r' reg_inv_def saved_valid_def by simp
qed

lemma keeps_cells_changed:
  assumes "\<And>r. vo_initialized (rg_obj r) \<Longrightarrow> vo_initialized (rg_obj (f r))"
  shows "keeps reg_inv (\<lambda>r. cells_changed (f r))"
  by (rule keepsI) (metis assms cells_changed_marks reg_inv_def)

lemma keeps_set_rekeyed: "reg_pred P \<Longrightarrow> keeps P (set_rekeyed_id v)"
proof (rule keepsI)
  fix r :: "('a, 'b) registry" and res r'
  assume P: "reg_pred P" "P r" and s: "set_rekeyed_id v r = (res, r')"
  show "P r'"
  proof (cases "rg_rekeyed_id r = v")
    case True then show ?thesis using s P(2) by (simp add: set_rekeyed_id_def op_return_def)
  next
    case False
    have "P (r\<lparr>rg_rekeyed_id := v\<rparr>)" by (rule reg_pred_calm [OF P]) (simp add: calm_def)
    moreover have "rg_updated ''rekeyed_root_config_id'' (r\<lparr>rg_rekeyed_id := v\<rparr>) = (res, r')"
      using s False by (simp add: set_rekeyed_id_def)
    ultimately show ?thesis using keepsD [OF keeps_updated [OF P(1)]] by blast
  qed
qed

lemma keeps_set_config: "reg_pred P \<Longrightarrow> keeps P (set_config_id env)"
proof (rule keepsI)
  fix r :: "('a, 'b) registry" and res r'
  assume P: "reg_pred P" "P r" and s: "set_config_id env r = (res, r')"
  show "P r'"
  proof (cases "rg_config_id r = en_config_id env r")
    case True then show ?thesis using s P(2) by (simp add: set_config_id_def op_return_def)
  next
    case False
    have "P (r\<lparr>rg_config_id := en_config_id env r\<rparr>)" by (rule reg_pred_calm [OF P]) (simp add: calm_def)
    moreover have "rg_updated ''config_id'' (r\<lparr>rg_config_id := en_config_id env r\<rparr>) = (res, r')"
      using s False by (simp add: set_config_id_def)
    ultimately show ?thesis using keepsD [OF keeps_updated [OF P(1)]] by blast
  qed
qed

section \<open>Every operation keeps the invariants\<close>

lemma keeps_keep_rekeyed: "reg_pred P \<Longrightarrow> keeps P keep_rekeyed_id"
  by (simp add: growing_keeps growing_keep_rekeyed)

lemma keeps_add_cell: "keeps reg_inv (add_cell nm own conf)"
proof -
  let ?tx = "\<lambda>r. case rbind (prepare_name nm) (\<lambda>nm. configure_cell conf
               \<lparr>cell_id = rg_next_id r + 1, cell_name = nm, cell_address = None, cell_excluded = False, cell_allowed_lans = [],
                cell_enable_particles_vpn = True, cell_owner = (case own of None \<Rightarrow> uvn_owner (rg_uvn r) | Some i \<Rightarrow> Some i)\<rparr>) of
          Inl e \<Rightarrow> (Inl e, r)
        | Inr c \<Rightarrow>
           (let r1 = r\<lparr>rg_next_id := rg_next_id r + 1\<rparr> in
            case validate_cell (rg_uvn r) c of
              Inl e \<Rightarrow> (Inl e, r1)
            | Inr _ \<Rightarrow> (Inr c, r1\<lparr>rg_uvn := (rg_uvn r)\<lparr>uvn_all_cells := uvn_all_cells (rg_uvn r) @ [c]\<rparr>\<rparr>))"
  have tx: "(case res of Inl _ \<Rightarrow> calm r r' | Inr _ \<Rightarrow> rg_obj r' = rg_obj r)" if "in_transaction ?tx r = (res, r')" for r :: "('a, 'b) registry" and res r'
    using that by (auto simp: in_transaction_def calm_def Let_def split: sum.splits)
  show ?thesis unfolding add_cell_def
  proof (intro keeps_error_if keepsI)
    fix r :: "('a, 'b) registry" and res r'
    assume inv: "reg_inv r" and b: "op_bind (in_transaction ?tx) (\<lambda>c. op_then cells_changed (op_return c)) r = (res, r')"
    obtain res1 r1 where 1: "in_transaction ?tx r = (res1, r1)" by (cases "in_transaction ?tx r")
    show "reg_inv r'"
    proof (cases res1)
      case (Inl e)
      have "r' = r1" using b 1 Inl by (simp add: op_bind_def)
      moreover have "calm r r1" using tx [OF 1] Inl by simp
      ultimately show ?thesis using reg_pred_calm [OF reg_pred_cases(1) inv] by simp
    next
      case (Inr c)
      then have i: "vo_initialized (rg_obj r1)" using tx [OF 1] inv by (simp add: reg_inv_def)
      obtain res2 r2 where 2: "cells_changed r1 = (res2, r2)" by (cases "cells_changed r1")
      have m: "res2 = Inr ()" "reg_inv r2" using cells_changed_marks [OF i 2] by simp_all
      then have "r' = r2" using b 1 2 Inr by (simp add: op_bind_def op_then_def op_return_def)
      then show ?thesis using m by simp
    qed
  qed
qed

lemma keeps_set_ownership: "keeps P set_ownership"
  by (simp add: set_ownership_def keeps_raise)

lemma keeps_update_cell: "keeps reg_inv (update_cell c own conf)"
proof -
  have "keeps reg_inv (\<lambda>r. cells_changed (r\<lparr>rg_uvn := replace_cell c' (rg_uvn r)\<rparr>))" for c'
    by (rule keeps_cells_changed) simp
  then show ?thesis unfolding update_cell_def
    by (intro keeps_disabled keeps_then keeps_when keeps_set_ownership)
      (auto simp: keeps_def op_return_def split: sum.splits if_splits)
qed

lemma op_modify_then: "op_then (op_modify f) m = (\<lambda>r. m (f r))"
  by (rule ext) (simp add: op_then_def op_bind_def op_modify_def)

lemma keeps_delete_cell: "keeps reg_inv (delete_cell c)"
  unfolding delete_cell_def op_modify_then
  by (intro keeps_error_if keeps_transaction reg_pred_cases keeps_then growing_keeps growing_rekey_cell keeps_cells_changed) simp

lemma uvn_cells_particles [simp]: "uvn_cells (u\<lparr>uvn_all_particles := ps\<rparr>) = uvn_cells u"
  by (simp add: uvn_cells_def)

lemma validate_uvn_particles [simp]: "validate_uvn (u\<lparr>uvn_all_particles := ps\<rparr>) = validate_uvn u"
proof -
  have "validate_cell (u\<lparr>uvn_all_particles := ps\<rparr>) c = validate_cell u c" for c
  proof -
    have "uvn_address (u\<lparr>uvn_all_particles := ps\<rparr>) = uvn_address u" "uvn_settings (u\<lparr>uvn_all_particles := ps\<rparr>) = uvn_settings u"
      by simp_all
    then show ?thesis by (simp only: validate_cell_def uvn_cells_particles)
  qed
  then have "validate_cell (u\<lparr>uvn_all_particles := ps\<rparr>) = validate_cell u" by (rule ext)
  then show ?thesis by (simp add: validate_uvn_def)
qed

lemma keeps_add_particle: "reg_pred P \<Longrightarrow> keeps P (add_particle nm own)"
proof -
  assume P: "reg_pred P"
  have "keeps P (\<lambda>r.
        case prepare_name nm of
          Inl e \<Rightarrow> (Inl e, r)
        | Inr nm \<Rightarrow>
           (let p = \<lparr>particle_id = rg_next_id r + 1, particle_name = nm, particle_excluded = False,
                     particle_owner = (case own of None \<Rightarrow> uvn_owner (rg_uvn r) | Some i \<Rightarrow> Some i)\<rparr>
            in (Inr p, r\<lparr>rg_next_id := rg_next_id r + 1,
                  rg_uvn := (rg_uvn r)\<lparr>uvn_all_particles := uvn_all_particles (rg_uvn r) @ [p]\<rparr>\<rparr>)))"
    by (rule keeps_calm [OF P]) (auto simp: calm_def Let_def split: sum.splits)
  then show ?thesis unfolding add_particle_def
    by (intro keeps_error_if keeps_bind keeps_transaction keeps_then keeps_particles_changed keeps_return P)
qed

lemma keeps_update_particle: "keeps P (update_particle p own)"
  unfolding update_particle_def
  by (intro keeps_disabled keeps_then keeps_when keeps_set_ownership keeps_return)

lemma keeps_delete_particle: "reg_pred P \<Longrightarrow> keeps P (delete_particle p)"
proof -
  assume P: "reg_pred P"
  let ?f = "\<lambda>r. r\<lparr>rg_uvn := (rg_uvn r)\<lparr>uvn_all_particles :=
          filter (\<lambda>p'. particle_id p' \<noteq> particle_id p) (uvn_all_particles (rg_uvn r))\<rparr>\<rparr>"
  have "calm r (?f r)" for r :: "('a, 'b) registry" by (simp add: calm_def)
  then have "keeps P (\<lambda>r. particles_changed (?f r))" by (rule keeps_calm_update [OF P keeps_particles_changed [OF P]])
  then show ?thesis unfolding delete_particle_def op_modify_then
    by (intro keeps_error_if keeps_transaction keeps_then [OF growing_keeps [OF P growing_rekey_particle]] P)
qed

lemma keeps_add_user: "reg_pred P \<Longrightarrow> keeps P (add_user email)"
proof -
  assume P: "reg_pred P"
  have "keeps P (\<lambda>r. op_then (rg_updated ''users'') (op_return (u r))
      (r\<lparr>rg_next_id := rg_next_id r + 1, rg_users := rg_users r @ [u r]\<rparr>))" for u
  proof (rule keepsI)
    fix r :: "('a, 'b) registry" and res r'
    let ?r = "r\<lparr>rg_next_id := rg_next_id r + 1, rg_users := rg_users r @ [u r]\<rparr>"
    assume r: "P r" and m: "op_then (rg_updated ''users'') (op_return (u r)) ?r = (res, r')"
    have "P ?r" by (rule reg_pred_calm [OF P r]) (simp add: calm_def)
    then show "P r'" using keepsD [OF keeps_then [OF keeps_updated [OF P] keeps_return] _ m] by blast
  qed
  then show ?thesis unfolding add_user_def Let_def by (rule keeps_error_if)
qed

lemma keeps_delete_user: "reg_pred P \<Longrightarrow> keeps P (delete_user usr)"
proof -
  assume P: "reg_pred P"
  let ?f = "\<lambda>r. r\<lparr>rg_users := filter (\<lambda>u'. user_id u' \<noteq> user_id usr) (rg_users r)\<rparr>"
  have "calm r (?f r)" for r :: "('a, 'b) registry" by (simp add: calm_def)
  then have f: "keeps P (\<lambda>r. rg_updated ''users'' (?f r))" by (rule keeps_calm_update [OF P keeps_updated [OF P]])
  have "keeps P (op_then (op_when c set_ownership) (op_then (op_modify ?f) (rg_updated ''users'')))" for c
    unfolding op_modify_then by (intro keeps_then keeps_when keeps_set_ownership f)
  then show ?thesis unfolding delete_user_def
    by (intro keeps_error_if keeps_transaction P) (auto simp: keeps_def)
qed

lemma uvn_cells_ban_particles: "uvn_all_cells (ban_particles b ts u) = uvn_all_cells u"
  by (simp add: ban_particles_def)

lemma keeps_ban_marks:
  assumes P: "reg_inv r" and u: "uvn_all_cells u = uvn_all_cells (rg_uvn r) \<Longrightarrow> validate_uvn u = validate_uvn (rg_uvn r)"
    and m: "op_then (op_when (uvn_all_cells u \<noteq> uvn_all_cells (rg_uvn r)) cells_changed)
      (op_then (op_when c particles_changed) (op_when d (rg_updated ''users''))) (r\<lparr>rg_uvn := u, rg_users := us\<rparr>) = (res, r')"
  shows "reg_inv r'"
proof -
  let ?r = "r\<lparr>rg_uvn := u, rg_users := us\<rparr>"
  let ?rest = "op_then (op_when c particles_changed) (op_when d (rg_updated ''users''))"
  have k: "keeps reg_inv ?rest"
    by (intro keeps_then keeps_when keeps_particles_changed keeps_updated reg_pred_cases)
  show ?thesis
  proof (cases "uvn_all_cells u = uvn_all_cells (rg_uvn r)")
    case True
    have "calm r ?r" using True u by (simp add: calm_def uvn_cells_def)
    then have "reg_inv ?r" using reg_pred_calm reg_pred_cases(1) P by blast
    moreover have "?rest ?r = (res, r')" using m True by (simp add: op_when_def op_then_def op_bind_def op_return_def)
    ultimately show ?thesis using keepsD [OF k] by blast
  next
    case False
    obtain res1 r1 where 1: "cells_changed ?r = (res1, r1)" by (cases "cells_changed ?r")
    have "vo_initialized (rg_obj ?r)" using P by (simp add: reg_inv_def)
    then have "res1 = Inr ()" "reg_inv r1" using cells_changed_marks [OF _ 1] by blast+
    moreover have "?rest r1 = (res, r')" using m False 1 calculation(1)
      by (simp add: op_when_def op_then_def op_bind_def)
    ultimately show ?thesis using keepsD [OF k] by blast
  qed
qed

lemma ban_validate:
  assumes "uvn_all_cells (ban_particles b ts (ban_cells b' ts' u)) = uvn_all_cells u"
  shows "validate_uvn (ban_particles b ts (ban_cells b' ts' u)) = validate_uvn u"
proof -
  have "ban_cells b' ts' u = u" using assms unfolding uvn_cells_ban_particles by (simp add: ban_cells_def)
  then show ?thesis by (simp add: ban_particles_def)
qed

lemma keeps_ban: "keeps reg_inv (ban yes banned unban_owned targets)"
  unfolding ban_def Let_def
  by (intro keeps_error_if keeps_transaction reg_pred_cases keepsI)
    (auto split: if_splits dest: keeps_ban_marks [OF _ ban_validate])

lemma keeps_drop_rekeyed: "reg_pred P \<Longrightarrow> keeps P drop_rekeyed"
  unfolding drop_rekeyed_def by (intro keeps_then keeps_set_rekeyed framed_keeps framed_on)

lemma keeps_drop_root: "reg_pred P \<Longrightarrow> keeps P drop_root_vpn_keymat"
  unfolding drop_root_vpn_keymat_def by (intro keeps_then keeps_keep_rekeyed keeps_updated framed_keeps framed_on)

lemma keeps_drop_particles: "reg_pred P \<Longrightarrow> keeps P drop_particles_vpn_keymats"
proof -
  assume P: "reg_pred P"
  let ?f = "\<lambda>r. r\<lparr>rg_obj := (rg_obj r)\<lparr>vo_cached := vo_cached (rg_obj r) - {''particles_vpn_keymats''}\<rparr>\<rparr>"
  have "calm r (?f r)" for r :: "('a, 'b) registry" by (simp add: calm_def)
  then have "keeps P (\<lambda>r. rg_updated ''config_id'' (?f r))" by (rule keeps_calm_update [OF P keeps_updated [OF P]])
  then show ?thesis unfolding drop_particles_vpn_keymats_def op_modify_then
    by (rule keeps_then [OF framed_keeps [OF P framed_each_particle]])
qed

lemma uvn_cells_inject [simp]: "uvn_cells (inject_allowed_ips u) = uvn_cells u"
  by (simp add: inject_allowed_ips_def Let_def uvn_cells_def)

lemma keeps_assert_backbone: "reg_pred P \<Longrightarrow> keeps P (assert_backbone_vpn env)"
proof (rule keepsI)
  fix r :: "('a, 'b) registry" and res r'
  assume P: "reg_pred P" "P r" and a: "assert_backbone_vpn env r = (res, r')"
  show "P r'"
  proof (cases "rg_deployment r")
    case None
    then show ?thesis using a P(2) by (simp add: assert_backbone_vpn_def backbone_vpn_def)
  next
    case (Some lm)
    obtain vpn where v: "backbone_vpn (rg_deployment r) (rg_uvn r) = Some (inject_allowed_ips (rg_uvn r), vpn)"
      using Some by (simp add: backbone_vpn_def Let_def)
    let ?r = "r\<lparr>rg_uvn := inject_allowed_ips (rg_uvn r), rg_uvn_dirty := rg_uvn_dirty r \<or> inject_allowed_ips (rg_uvn r) \<noteq> rg_uvn r\<rparr>"
    obtain f where f: "on_backbone_keymat f ?r = (res, r')"
      using a by (simp add: assert_backbone_vpn_def v op_modify_then)
    have "calm r ?r" by (auto simp: calm_def)
    then have "P ?r" using reg_pred_calm P by blast
    then show ?thesis using keepsD [OF framed_keeps [OF P(1) framed_on(3)] _ f] by blast
  qed
qed

lemma keeps_assert_keys: "reg_pred P \<Longrightarrow> keeps P (assert_keys env)"
  unfolding assert_keys_def
  by (intro keeps_disabled keeps_then keeps_assert_backbone framed_keeps framed_assert_root framed_assert_particles)

lemma deployed_now:
  assumes "redeploy_links rnd (rg_uvn r) = Inr (links, rest)"
  shows "deployed_for_cells (r\<lparr>rg_deployment := Some links\<rparr>)"
proof -
  have "\<exists>rnd u links' rest. Some links = Some links' \<and> redeploy_links rnd u = Inr (links', rest) \<and> uvn_cells u = uvn_cells (rg_uvn r)"
    by (rule exI [of _ rnd], rule exI [of _ "rg_uvn r"], rule exI [of _ links], rule exI [of _ rest]) (simp add: assms)
  then show ?thesis by (simp add: deployed_for_cells_def)
qed

lemma redeploy_pred:
  assumes "reg_pred P" and "P r" and "redeploy_links rnd (rg_uvn r) = Inr (links, rest)"
  shows "reg_deployed (r\<lparr>rg_deployment := Some links\<rparr>)" and "P (r\<lparr>rg_deployment := Some links\<rparr>)"
proof -
  have "reg_inv r" using assms(1,2) reg_deployed_inv by (auto simp: reg_pred_def)
  then show d: "reg_deployed (r\<lparr>rg_deployment := Some links\<rparr>)"
    using deployed_now [OF assms(3)] by (simp add: reg_inv_def reg_deployed_def saved_valid_def)
  then show "P (r\<lparr>rg_deployment := Some links\<rparr>)" using assms(1) reg_deployed_inv by (auto simp: reg_pred_def)
qed

lemma redeploy_deploys: "leads (\<lambda>r. reg_inv r \<and> \<not> rg_readonly r) (redeploy env) reg_deployed reg_inv"
  unfolding leads_def
proof (intro allI impI)
  fix r :: "('a, 'b) registry" and res r' assume inv: "reg_inv r \<and> \<not> rg_readonly r" and d: "redeploy env r = (res, r')"
  show "if isl res then reg_inv r' else reg_deployed r'"
  proof (cases "redeploy_links (en_rnd env) (rg_uvn r)")
    case (Inl e)
    then show ?thesis using d inv by (auto simp: redeploy_def disabled_if_def)
  next
    case (Inr p)
    obtain links rest where p: "p = (links, rest)" by (cases p)
    let ?r = "r\<lparr>rg_deployment := Some links\<rparr>"
    have m: "op_then (rg_updated ''deployment'') (rg_updated ''config_id'') ?r = (res, r')"
      using d inv Inr p by (simp add: redeploy_def disabled_if_def)
    have "reg_deployed ?r" by (rule redeploy_pred(1) [OF reg_pred_cases(1)]) (use inv Inr p in auto)
    then have "reg_deployed r'"
      using keepsD [OF keeps_then [OF keeps_updated keeps_updated] _ m] reg_pred_cases(2) by blast
    then show ?thesis by (auto dest: reg_deployed_inv)
  qed
qed

lemma keeps_redeploy: "reg_pred P \<Longrightarrow> keeps P (redeploy env)"
proof (rule keepsI)
  fix r :: "('a, 'b) registry" and res r'
  assume P: "reg_pred P" "P r" and d: "redeploy env r = (res, r')"
  have ro: "P r'" if "rg_readonly r" using that d P(2) by (simp add: redeploy_def disabled_if_def op_return_def)
  show "P r'"
  proof (cases "rg_readonly r \<or> isl (redeploy_links (en_rnd env) (rg_uvn r))")
    case True
    then show ?thesis using d P(2) ro
      by (cases "redeploy_links (en_rnd env) (rg_uvn r)") (auto simp: redeploy_def disabled_if_def split: if_splits)
  next
    case False
    then obtain links rest where l: "redeploy_links (en_rnd env) (rg_uvn r) = Inr (links, rest)"
      by (cases "redeploy_links (en_rnd env) (rg_uvn r)") auto
    let ?r = "r\<lparr>rg_deployment := Some links\<rparr>"
    have m: "op_then (rg_updated ''deployment'') (rg_updated ''config_id'') ?r = (res, r')"
      using d False l by (simp add: redeploy_def disabled_if_def)
    have "P ?r" by (rule redeploy_pred(2) [OF P l])
    then show ?thesis using keepsD [OF keeps_then [OF keeps_updated keeps_updated] _ m] P(1) by blast
  qed
qed

section \<open>Saving and generating\<close>

lemma save_deployed: "keeps reg_deployed save_registry"
proof (rule keepsI)
  fix r :: "('a, 'b) registry" and res r' assume d: "reg_deployed r" and s: "save_registry r = (res, r')"
  let ?km = "op_then (on_root_keymat (\<lambda>km. Inr ((), cm_db_save km)))
    (op_then (each_particle_keymat (\<lambda>km. Inr ((), cm_db_save km)))
      (on_backbone_keymat (\<lambda>km. Inr ((), pp_db_save km))))"
  let ?f = "\<lambda>r. r\<lparr>rg_uvn_dirty := False,
         rg_obj := reset_cached_properties registry_schema (clear_changed registry_schema None (rg_obj r))\<rparr>"
  show "reg_deployed r'"
  proof (cases "rg_uvn_dirty r \<and> validate_uvn (rg_uvn r) \<noteq> Inr ()")
    case True
    then show ?thesis using s d by (simp add: save_registry_def op_then_def op_bind_def)
  next
    case False
    then have v: "validate_uvn (rg_uvn r) = Inr ()" using d by (auto simp: reg_deployed_def saved_valid_def)
    have assoc: "op_then a (op_then b (op_then c e)) = op_then (op_then a (op_then b c)) e"
      for a b :: "(('a, 'b) registry, unit) op" and c e :: "(('a, 'b) registry, unit) op"
      by (rule ext) (auto simp: op_then_def op_bind_def split: prod.splits sum.splits)
    have s': "op_then ?km (op_modify ?f) r = (res, r')"
      using s False unfolding save_registry_def assoc by (simp add: op_then_def op_bind_def)
    obtain res1 r1 where 1: "?km r = (res1, r1)" by (cases "?km r")
    have "framed ?km" by (intro framed_then framed_on framed_each_particle)
    then have fr: "reg_frame r r1" using framedD 1 by blast
    then have d1: "reg_deployed r1" using d reg_pred_calm [OF reg_pred_cases(2) d] grows_calm reg_frame_grows by blast
    have v1: "validate_uvn (rg_uvn r1) = Inr ()" using fr v by (simp add: reg_frame_def)
    show ?thesis
    proof (cases res1)
      case (Inl e)
      then show ?thesis using s' 1 d1 by (simp add: op_then_def op_bind_def)
    next
      case (Inr x)
      then have r': "r' = ?f r1" using s' 1 by (simp add: op_then_def op_bind_def op_modify_def)
      show ?thesis using d1 v1 unfolding r'
        by (simp add: reg_defs clear_changed_def reset_cached_properties_def update_hash_def update_str_repr_def)
    qed
  qed
qed

lemma generate_deploys:
  "leads (\<lambda>r. reg_inv r \<and> \<not> rg_readonly r) (generate_artifacts env) reg_deployed reg_inv"
proof -
  let ?W = "\<lambda>r :: ('a, 'b) registry. reg_inv r \<and> \<not> rg_readonly r"
  have w: "keeps ?W m" if "framed m" for m :: "(('a, 'b) registry, 'c) op"
    by (rule keepsI) (use keepsD [OF framed_keeps [OF reg_pred_cases(1) that]] framedD [OF that] in \<open>auto simp: reg_frame_def\<close>)
  have redeployed: "leads ?W (\<lambda>r. op_when (needs_redeployment r) (op_then (redeploy env) (op_unit (on_backbone_keymat (pp_drop_keys True)))) r)
      reg_deployed reg_inv"
    unfolding leads_def
  proof (intro allI impI)
    fix r res r' assume W: "?W r"
      and m: "op_when (needs_redeployment r) (op_then (redeploy env) (op_unit (on_backbone_keymat (pp_drop_keys True)))) r = (res, r')"
    show "if isl res then reg_inv r' else reg_deployed r'"
    proof (cases "needs_redeployment r")
      case True
      have "leads ?W (op_then (redeploy env) (op_unit (on_backbone_keymat (pp_drop_keys True)))) reg_deployed reg_inv"
        by (rule leads_then [OF redeploy_deploys keeps_leads])
          (auto intro: framed_keeps reg_pred_cases framed_unit framed_on reg_deployed_inv)
      then show ?thesis using W m True unfolding leads_def by (simp add: op_when_def)
    next
      case False
      then have "reg_deployed r" using W by (auto simp: reg_inv_def reg_deployed_def)
      then show ?thesis using m False by (auto simp: op_when_def op_return_def reg_deployed_inv)
    qed
  qed
  have rest: "leads reg_deployed (op_then (set_config_id env) (op_then save_registry (op_then (assert_keys env)
      (op_then (set_config_id env) save_registry)))) reg_deployed reg_inv"
    by (rule keeps_leads)
      (auto intro!: keeps_then keeps_set_config save_deployed keeps_assert_keys reg_pred_cases reg_deployed_inv)
  have purge: "leads ?W purge_keys ?W reg_inv"
    using w [OF framed_purge_keys] by (rule keeps_leads) simp
  let ?g = "op_then purge_keys
    (op_then (\<lambda>r. op_when (needs_redeployment r) (op_then (redeploy env) (op_unit (on_backbone_keymat (pp_drop_keys True)))) r)
    (op_then (set_config_id env) (op_then save_registry (op_then (assert_keys env) (op_then (set_config_id env) save_registry)))))"
  have g: "leads ?W ?g reg_deployed reg_inv" by (rule leads_then [OF purge leads_then [OF redeployed rest]])
  show ?thesis unfolding leads_def
  proof (intro allI impI)
    fix r res r' assume W: "?W r" and m: "generate_artifacts env r = (res, r')"
    have m': "in_transaction ?g r = (res, r')" using m W by (simp add: generate_artifacts_def disabled_if_def)
    obtain res1 r1 where 1: "?g r = (res1, r1)" by (cases "?g r")
    have "if isl res1 then reg_inv r1 else reg_deployed r1" using g W 1 unfolding leads_def by blast
    moreover have "res = res1" "calm r1 r'" using m' 1 by (auto simp: in_transaction_def calm_def split: sum.splits)
    ultimately show "if isl res then reg_inv r' else reg_deployed r'"
      using reg_pred_calm reg_pred_cases by (metis (full_types))
  qed
qed

lemma keeps_generate: "keeps reg_inv (generate_artifacts env)"
proof (rule keepsI)
  fix r :: "('a, 'b) registry" and res r' assume r: "reg_inv r" and g: "generate_artifacts env r = (res, r')"
  show "reg_inv r'"
  proof (cases "rg_readonly r")
    case True
    then show ?thesis using g r by (simp add: generate_artifacts_def disabled_if_def op_return_def)
  next
    case False
    then have "if isl res then reg_inv r' else reg_deployed r'" using generate_deploys r g unfolding leads_def by blast
    then show ?thesis using reg_deployed_inv by (metis (full_types))
  qed
qed

section \<open>The invariants of a registry\<close>

lemma keeps_configure: "keeps reg_inv (configure_registry address settings)"
proof (rule keepsI)
  fix r :: "('a, 'b) registry" and res r' assume r: "reg_inv r" and c: "configure_registry address settings r = (res, r')"
  let ?u = "(rg_uvn r)\<lparr>uvn_address := address, uvn_settings := settings\<rparr>"
  let ?r = "r\<lparr>rg_uvn := ?u, rg_uvn_dirty := rg_uvn_dirty r \<or> ?u \<noteq> rg_uvn r\<rparr>"
  have "calm r ?r" by (auto simp: calm_def uvn_cells_def)
  then have i: "reg_inv ?r" by (rule reg_pred_calm [OF reg_pred_cases(1) r])
  have "(res, r') = (Inr (), ?r) \<or> rg_updated ''deployment_config'' ?r = (res, r')"
    using c by (simp add: configure_registry_def Let_def split: if_splits)
  then show "reg_inv r'" using i keepsD [OF keeps_updated [OF reg_pred_cases(1)] i] by auto
qed

lemma keeps_configure_uvn: "keeps reg_deployed (configure_uvn conf)"
  by (rule keeps_calm [OF reg_pred_cases(2)]) (auto simp: configure_uvn_def calm_def Let_def uvn_cells_def)

lemma keeps_spec_users: "reg_pred P \<Longrightarrow> keeps P (add_spec_users own emails known)"
proof (induction emails arbitrary: known)
  case (Cons email emails)
  then show ?case by (auto intro: keeps_bind keeps_add_user)
qed (simp add: keeps_return)

lemma leads_bind:
  assumes m: "leads P m Q E" and f: "\<And>x. leads Q (f x) R E"
  shows "leads P (op_bind m f) R E"
  unfolding leads_def
proof (intro allI impI)
  fix s res s' assume P: "P s" and b: "op_bind m f s = (res, s')"
  obtain res1 s1 where 1: "m s = (res1, s1)" by (cases "m s")
  have l: "if isl res1 then E s1 else Q s1" using m P 1 unfolding leads_def by blast
  show "if isl res then E s' else R s'"
  proof (cases res1)
    case (Inl e) then show ?thesis using b 1 l by (auto simp: op_bind_def)
  next
    case (Inr x)
    then have "Q s1" "f x s1 = (res, s')" using b 1 l by (simp_all add: op_bind_def)
    then show ?thesis using f unfolding leads_def by blast
  qed
qed

lemma leads_state: "(\<And>s. leads P (m s) Q E) \<Longrightarrow> leads P (\<lambda>r. m r r) Q E"
  unfolding leads_def by blast

lemma leads_error_if: "leads P m Q E \<Longrightarrow> (\<And>s. P s \<Longrightarrow> E s) \<Longrightarrow> leads P (error_if c b m) Q E"
  unfolding leads_def error_if_def op_raise_def by auto

lemma leads_transaction:
  assumes "reg_pred Q" and "reg_pred E" and m: "leads P m Q E"
  shows "leads P (in_transaction m) Q E"
  unfolding leads_def
proof (intro allI impI)
  fix r :: "('a, 'b) registry" and res r' assume P: "P r" and t: "in_transaction m r = (res, r')"
  obtain res1 r1 where 1: "m r = (res1, r1)" by (cases "m r")
  have "if isl res1 then E r1 else Q r1" using m P 1 unfolding leads_def by blast
  moreover have "res = res1" "calm r1 r'" using t 1 by (auto simp: in_transaction_def calm_def split: sum.splits)
  ultimately show "if isl res then E r' else Q r'"
    using reg_pred_calm assms(1,2) by (metis (full_types))
qed

lemma define_leads: "leads reg_deployed (define_uvn sp) reg_inv reg_inv"
proof -
  have d: "leads reg_deployed m reg_deployed reg_inv" if "keeps reg_deployed m" for m :: "(('a, 'b) registry, 'c) op"
    using that reg_deployed_inv by (rule keeps_leads)
  have i: "leads reg_inv m reg_inv reg_inv" if "keeps reg_inv m" for m :: "(('a, 'b) registry, 'c) op"
    using that by (rule keeps_leads)
  have w: "leads reg_deployed m reg_inv reg_inv" if "leads reg_deployed m reg_deployed reg_inv" for m :: "(('a, 'b) registry, 'c) op"
    using that reg_deployed_inv unfolding leads_def by (metis (full_types))
  have conf: "keeps reg_deployed (case sp_config sp of None \<Rightarrow> op_return () | Some conf \<Rightarrow> configure_uvn conf)"
    by (auto intro: keeps_return keeps_configure_uvn split: option.split)
  have cells: "keeps reg_inv (op_then (op_each (\<lambda>cs. op_bind (lift_res (spec_owner known (cs_owner cs))) (\<lambda>own. add_cell (cs_name cs) own (cs_conf cs))) (sp_cells sp))
      (op_each (\<lambda>np. op_bind (lift_res (spec_owner known (snd np))) (\<lambda>own. add_particle (fst np) own)) (sp_particles sp)))" for known
    by (intro keeps_then keeps_each keeps_bind keeps_lift keeps_add_cell keeps_add_particle reg_pred_cases)
  have save: "leads reg_deployed (op_then save_registry m) reg_inv reg_inv" if "keeps reg_inv m" for m :: "(('a, 'b) registry, unit) op"
    by (rule leads_then [OF w [OF d [OF save_deployed]] i [OF that]])
  show ?thesis unfolding define_uvn_def
  proof (intro leads_error_if leads_transaction reg_pred_cases leads_then [OF d [OF conf]])
    show "leads reg_deployed (\<lambda>r. op_bind (add_spec_users (owner_email r) (sp_users sp)
          (case owner_email r of None \<Rightarrow> [] | Some e \<Rightarrow> (case uvn_owner (rg_uvn r) of None \<Rightarrow> [] | Some i \<Rightarrow> [(e, i)]))) (\<lambda>known.
     op_then save_registry
    (op_then (op_each (\<lambda>cs. op_bind (lift_res (spec_owner known (cs_owner cs))) (\<lambda>own. add_cell (cs_name cs) own (cs_conf cs))) (sp_cells sp))
      (op_each (\<lambda>np. op_bind (lift_res (spec_owner known (snd np))) (\<lambda>own. add_particle (fst np) own)) (sp_particles sp)))) r)
     reg_inv (reg_inv :: ('a, 'b) registry \<Rightarrow> bool)"
      by (rule leads_state, rule leads_bind [OF d [OF keeps_spec_users [OF reg_pred_cases(2)]]], rule save [OF cells])
  qed (rule reg_deployed_inv)
qed

lemma new_registry_inv: "reg_inv (new_registry nm own cid) \<and> \<not> rg_readonly (new_registry nm own cid)"
  by (simp add: new_registry_def Let_def reg_inv_def needs_redeployment_def saved_valid_def validate_uvn_def)

lemma create_inv:
  assumes "create_registry env nm own cid address settings spec = (res, r)"
  shows "reg_inv r"
proof -
  let ?W = "\<lambda>r :: ('a, 'b) registry. reg_inv r \<and> \<not> rg_readonly r"
  have 1: "leads ?W (configure_registry address settings) ?W reg_inv"
  proof (rule keeps_leads [OF keepsI])
    fix r :: "('a, 'b) registry" and res' r' assume W: "?W r" and c: "configure_registry address settings r = (res', r')"
    let ?u = "(rg_uvn r)\<lparr>uvn_address := address, uvn_settings := settings\<rparr>"
    let ?r = "r\<lparr>rg_uvn := ?u, rg_uvn_dirty := rg_uvn_dirty r \<or> ?u \<noteq> rg_uvn r\<rparr>"
    have "(res', r') = (Inr (), ?r) \<or> rg_updated ''deployment_config'' ?r = (res', r')"
      using c by (simp add: configure_registry_def Let_def split: if_splits)
    then have "rg_readonly r' = rg_readonly r" by (auto simp: reg_grows_def dest!: growingD [OF growing_updated])
    moreover have "reg_inv r'" using W by (intro keepsD [OF keeps_configure _ c]) simp
    ultimately show "?W r'" using W by simp
  qed simp
  have 2: "leads reg_inv (\<lambda>r. op_when (rg_dirty r) (generate_artifacts env) r) reg_inv reg_inv"
    by (rule keeps_leads [OF keeps_state [OF keeps_when [OF keeps_generate]]])
  have 3: "leads reg_deployed (case spec of None \<Rightarrow> op_return ()
       | Some sp \<Rightarrow> op_then (define_uvn sp) (\<lambda>r. op_when (rg_dirty r) (generate_artifacts env) r)) reg_inv reg_inv"
  proof (cases spec)
    case None
    then show ?thesis by (auto simp: leads_def op_return_def reg_deployed_inv)
  next
    case (Some sp)
    then show ?thesis using leads_then [OF define_leads 2] by simp
  qed
  have "leads ?W (op_then (configure_registry address settings) (op_then (generate_artifacts env)
      (case spec of None \<Rightarrow> op_return () | Some sp \<Rightarrow> op_then (define_uvn sp) (\<lambda>r. op_when (rg_dirty r) (generate_artifacts env) r))))
      reg_inv reg_inv"
    by (rule leads_then [OF 1 leads_then [OF generate_deploys 3]])
  from this [unfolded leads_def, rule_format, OF new_registry_inv assms [unfolded create_registry_def]]
  show ?thesis by (simp split: if_splits)
qed

lemma step_keeps_inv: "reg_step r r' \<Longrightarrow> reg_inv r \<Longrightarrow> reg_inv r'"
proof (induction rule: reg_step.induct)
  case (rekey_uvn root particles deleted r res r')
  then show ?case using keepsD [OF growing_keeps [OF reg_pred_cases(1) growing_rekey_uvn]] by blast
next
  case (rekey_cell c root particles deleted r res r')
  then show ?case using keepsD [OF growing_keeps [OF reg_pred_cases(1) growing_rekey_cell]] by blast
next
  case (rekey_particle p cells deleted r res r')
  then show ?case using keepsD [OF growing_keeps [OF reg_pred_cases(1) growing_rekey_particle]] by blast
qed (blast dest: keepsD [OF keeps_configure] keepsD [OF keeps_add_cell] keepsD [OF keeps_update_cell] keepsD [OF keeps_delete_cell]
    keepsD [OF keeps_add_particle [OF reg_pred_cases(1)]] keepsD [OF keeps_update_particle]
    keepsD [OF keeps_delete_particle [OF reg_pred_cases(1)]] keepsD [OF keeps_add_user [OF reg_pred_cases(1)]]
    keepsD [OF keeps_delete_user [OF reg_pred_cases(1)]] keepsD [OF keeps_ban]
    keepsD [OF keeps_drop_rekeyed [OF reg_pred_cases(1)]] keepsD [OF keeps_drop_root [OF reg_pred_cases(1)]]
    keepsD [OF keeps_drop_particles [OF reg_pred_cases(1)]] keepsD [OF keeps_assert_keys [OF reg_pred_cases(1)]]
    keepsD [OF keeps_redeploy [OF reg_pred_cases(1)]] keepsD [OF keeps_generate])+

lemma reachable_inv: "reg_reachable r \<Longrightarrow> reg_inv r"
  by (induction rule: reg_reachable.induct) (auto intro: create_inv step_keeps_inv)

end
