(* ===== verification/Registry_Laws.thy ===== *)
theory Registry_Laws
  imports Registry_Steps "HOL-Library.Code_Target_Nat" "HOL-Library.Code_Target_Int"
begin

text \<open>
  What the registry promises: the deployment and the saved UVN over any run of operations, the outcome of
  \<open>generate_artifacts\<close>, of bans, of new cells and of rekeyings. The examples run the operations on small registries;
  natural numbers are evaluated through integers.
\<close>

section \<open>Saving and generating\<close>

lemma op_then_assoc: "op_then a (op_then b c) = op_then (op_then a b) c"
  by (rule ext) (auto simp: op_then_def op_bind_def split: prod.splits sum.splits)

lemma save_registry_success:
  assumes "save_registry r = (Inr (), r')"
  shows "\<not> rg_uvn_dirty r' \<and> vo_changed (rg_obj r') = {} \<and> rg_deployment r' = rg_deployment r \<and> rg_uvn r' = rg_uvn r
    \<and> rg_readonly r' = rg_readonly r \<and> rg_users r' = rg_users r \<and> rg_config_id r' = rg_config_id r
    \<and> vo_initialized (rg_obj r') = vo_initialized (rg_obj r)
    \<and> (rg_uvn_dirty r \<longrightarrow> validate_uvn (rg_uvn r) = Inr ())"
proof -
  let ?km = "op_then (on_root_keymat (\<lambda>km. Inr ((), cm_db_save km)))
    (op_then (each_particle_keymat (\<lambda>km. Inr ((), cm_db_save km)))
      (on_backbone_keymat (\<lambda>km. Inr ((), pp_db_save km))))"
  let ?f = "\<lambda>r. r\<lparr>rg_uvn_dirty := False,
         rg_obj := reset_cached_properties registry_schema (clear_changed registry_schema None (rg_obj r))\<rparr>"
  have valid: "rg_uvn_dirty r \<longrightarrow> validate_uvn (rg_uvn r) = Inr ()"
    using assms by (auto simp: save_registry_def op_then_def op_bind_def split: if_splits)
  then have "op_then ?km (op_modify ?f) r = (Inr (), r')"
    using assms unfolding save_registry_def op_then_assoc by (simp add: op_then_def op_bind_def split: if_splits)
  then obtain x r1 where 1: "?km r = (Inr x, r1)" and r': "r' = ?f r1"
    unfolding op_then_Inr by (auto simp: op_modify_def)
  have "framed ?km" by (intro framed_then framed_on framed_each_particle)
  then have "reg_frame r r1" using framedD 1 by blast
  then show ?thesis using valid unfolding r'
    by (simp add: reg_frame_def clear_changed_def reset_cached_properties_def update_hash_def update_str_repr_def)
qed

lemma set_config_effect:
  assumes "set_config_id env r = (res, r')"
  shows "rg_deployment r' = rg_deployment r \<and> rg_uvn r' = rg_uvn r \<and> rg_readonly r' = rg_readonly r
    \<and> rg_users r' = rg_users r \<and> rg_uvn_dirty r' = rg_uvn_dirty r \<and> vo_initialized (rg_obj r') = vo_initialized (rg_obj r)"
proof (cases "rg_config_id r = en_config_id env r")
  case True then show ?thesis using assms by (simp add: set_config_id_def op_return_def)
next
  case False
  then have "rg_updated ''config_id'' (r\<lparr>rg_config_id := en_config_id env r\<rparr>) = (res, r')"
    using assms by (simp add: set_config_id_def)
  from growingD [OF growing_updated this] show ?thesis by (simp add: reg_grows_def)
qed

lemma assert_backbone_effect:
  assumes "assert_backbone_vpn env r = (res, r')"
  shows "rg_deployment r' = rg_deployment r \<and> uvn_all_cells (rg_uvn r') = uvn_all_cells (rg_uvn r)
    \<and> vo_initialized (rg_obj r') = vo_initialized (rg_obj r)"
proof (cases "rg_deployment r")
  case None
  then show ?thesis using assms by (auto simp: assert_backbone_vpn_def backbone_vpn_def)
next
  case (Some lm)
  obtain vpn where v: "backbone_vpn (rg_deployment r) (rg_uvn r) = Some (inject_allowed_ips (rg_uvn r), vpn)"
    using Some by (simp add: backbone_vpn_def Let_def)
  let ?r = "r\<lparr>rg_uvn := inject_allowed_ips (rg_uvn r), rg_uvn_dirty := rg_uvn_dirty r \<or> inject_allowed_ips (rg_uvn r) \<noteq> rg_uvn r\<rparr>"
  obtain f where f: "on_backbone_keymat f ?r = (res, r')"
    using assms by (simp add: assert_backbone_vpn_def v op_modify_then)
  from framedD [OF framed_on(3) f] show ?thesis
    by (simp add: reg_frame_def inject_allowed_ips_def Let_def)
qed

lemma assert_keys_effect:
  assumes "assert_keys env r = (Inr (), r')"
  shows "rg_deployment r' = rg_deployment r \<and> uvn_all_cells (rg_uvn r') = uvn_all_cells (rg_uvn r)"
proof (cases "rg_readonly r")
  case True
  then show ?thesis using assms by (simp add: assert_keys_def disabled_if_def op_return_def)
next
  case False
  then have "op_then (assert_root_vpn env) (op_then (assert_backbone_vpn env) (assert_particles_vpns env)) r = (Inr (), r')"
    using assms by (simp add: assert_keys_def disabled_if_def)
  then obtain r1 r2 where 1: "assert_root_vpn env r = (Inr (), r1)" and 2: "assert_backbone_vpn env r1 = (Inr (), r2)"
      and 3: "assert_particles_vpns env r2 = (Inr (), r')"
    unfolding op_then_Inr by auto
  show ?thesis
    using framedD [OF framed_assert_root 1] assert_backbone_effect [OF 2] framedD [OF framed_assert_particles 3]
    by (simp add: reg_frame_def)
qed

lemma redeploy_effect:
  assumes "redeploy env r = (Inr (), r')" and "\<not> rg_readonly r"
  shows "\<exists>links rest. redeploy_links (en_rnd env) (rg_uvn r) = Inr (links, rest) \<and> rg_deployment r' = Some links
    \<and> rg_uvn r' = rg_uvn r \<and> rg_uvn_dirty r' = rg_uvn_dirty r"
proof (cases "redeploy_links (en_rnd env) (rg_uvn r)")
  case (Inl e)
  then show ?thesis using assms by (simp add: redeploy_def disabled_if_def)
next
  case (Inr p)
  obtain links rest where p: "p = (links, rest)" by (cases p)
  have "op_then (rg_updated ''deployment'') (rg_updated ''config_id'') (r\<lparr>rg_deployment := Some links\<rparr>) = (Inr (), r')"
    using assms Inr p by (simp add: redeploy_def disabled_if_def)
  from growingD [OF growing_then [OF growing_updated growing_updated] this] show ?thesis
    using Inr p by (auto simp: reg_grows_def)
qed

text \<open>C9: A generation that succeeds deploys when it has to, with the current UVN, and leaves nothing to deploy or to
  save; the UVN was valid when it had unsaved changes, and the cells stay as they are.\<close>

theorem generate_redeploys:
  assumes "generate_artifacts env r = (Inr (), r')" and "\<not> rg_readonly r"
  shows "\<not> needs_redeployment r' \<and> vo_changed (rg_obj r') = {} \<and> \<not> rg_uvn_dirty r'
    \<and> uvn_all_cells (rg_uvn r') = uvn_all_cells (rg_uvn r)
    \<and> (if needs_redeployment r
       then \<exists>links rest. redeploy_links (en_rnd env) (rg_uvn r) = Inr (links, rest) \<and> rg_deployment r' = Some links
       else rg_deployment r' = rg_deployment r)
    \<and> (rg_uvn_dirty r \<longrightarrow> validate_uvn (rg_uvn r) = Inr ())"
proof -
  let ?d = "\<lambda>r. op_when (needs_redeployment r) (op_then (redeploy env) (op_unit (on_backbone_keymat (pp_drop_keys True)))) r"
  have "op_then purge_keys (op_then ?d (op_then (set_config_id env) (op_then save_registry
      (op_then (assert_keys env) (op_then (set_config_id env) save_registry))))) r = (Inr (), r')"
    using assms by (auto simp: generate_artifacts_def disabled_if_def in_transaction_def split: prod.splits sum.splits)
  then obtain r1 r2 r3 r4 r5 r6 where
    1: "purge_keys r = (Inr (), r1)" and 2: "?d r1 = (Inr (), r2)" and 3: "set_config_id env r2 = (Inr (), r3)"
    and 4: "save_registry r3 = (Inr (), r4)" and 5: "assert_keys env r4 = (Inr (), r5)"
    and 6: "set_config_id env r5 = (Inr (), r6)" and 7: "save_registry r6 = (Inr (), r')"
    unfolding op_then_Inr by auto
  have f1: "reg_frame r r1" using framedD [OF framed_purge_keys 1] .
  then have n: "needs_redeployment r1 = needs_redeployment r" by (simp add: needs_redeployment_def reg_frame_def)
  have d: "rg_uvn r2 = rg_uvn r \<and> rg_uvn_dirty r2 = rg_uvn_dirty r \<and> (if needs_redeployment r
       then \<exists>links rest. redeploy_links (en_rnd env) (rg_uvn r) = Inr (links, rest) \<and> rg_deployment r2 = Some links
       else rg_deployment r2 = rg_deployment r)"
  proof (cases "needs_redeployment r")
    case True
    then obtain r0 where a: "redeploy env r1 = (Inr (), r0)" and b: "op_unit (on_backbone_keymat (pp_drop_keys True)) r0 = (Inr (), r2)"
      using 2 n unfolding op_when_def by (auto simp: op_then_Inr)
    have "\<not> rg_readonly r1" using f1 assms(2) by (simp add: reg_frame_def)
    then show ?thesis using redeploy_effect [OF a] f1 framedD [OF framed_unit [OF framed_on(3)] b] True
      by (auto simp: reg_frame_def)
  next
    case False
    then have "r2 = r1" using 2 n by (simp add: op_when_def op_return_def)
    then show ?thesis using f1 False by (simp add: reg_frame_def)
  qed
  note s4 = save_registry_success [OF 4] and s7 = save_registry_success [OF 7]
    and e = set_config_effect [OF 3] set_config_effect [OF 6] assert_keys_effect [OF 5]
  have "rg_deployment r' = rg_deployment r2" using s4 s7 e by simp
  moreover have "rg_deployment r2 \<noteq> None" using d by (auto simp: needs_redeployment_def split: if_splits)
  moreover have "uvn_all_cells (rg_uvn r') = uvn_all_cells (rg_uvn r)" using s4 s7 e d by simp
  moreover have "rg_uvn_dirty r \<longrightarrow> validate_uvn (rg_uvn r) = Inr ()" using s4 e d by simp
  ultimately show ?thesis using d s7 by (auto simp: needs_redeployment_def)
qed

section \<open>Rekeying\<close>

lemma keep_rekeyed_effect:
  assumes "vo_initialized (rg_obj r)"
  shows "\<exists>obj. keep_rekeyed_id r
      = (Inr (), r\<lparr>rg_rekeyed_id := Some (case rg_rekeyed_id r of None \<Rightarrow> rg_config_id r | Some i \<Rightarrow> i), rg_obj := obj\<rparr>)
    \<and> vo_initialized obj \<and> vo_cached obj = vo_cached (rg_obj r)"
proof (cases "rg_rekeyed_id r")
  case None
  let ?r = "r\<lparr>rg_rekeyed_id := Some (rg_config_id r)\<rparr>" and ?m = "mark_changed registry_schema ''rekeyed_root_config_id''"
  obtain n where n: "recursion_limit = Suc n" using recursion_limit_2 by blast
  have g: "group_of registry_schema ''rekeyed_root_config_id'' = []" "''rekeyed_root_config_id'' \<notin> set (sc_reserved registry_schema)"
    by (simp_all add: group_of_def registry_schema_def)
  then have "rg_updated ''rekeyed_root_config_id'' ?r = (Inr (), ?r\<lparr>rg_obj := ?m (rg_obj r)\<rparr>)"
    using assms by (simp add: rg_updated_def n op_return_def)
  moreover have "vo_cached (?m (rg_obj r)) = vo_cached (rg_obj r)"
    by (simp add: mark_cached) (simp add: registry_schema_def)
  ultimately show ?thesis using None assms
    by (intro exI [of _ "?m (rg_obj r)"]) (simp add: keep_rekeyed_id_def set_rekeyed_id_def)
next
  case (Some i)
  then show ?thesis using assms by (intro exI [of _ "rg_obj r"]) (simp add: keep_rekeyed_id_def op_return_def)
qed

definition rekey_cell_keys :: "cell \<Rightarrow> bool \<Rightarrow> (('m, 'p) registry, unit) op" where
  "rekey_cell_keys c deleted = op_bind (rekeyed_among (\<lambda>i. \<not> (i = cell_id c \<and> deleted))) (\<lambda>rekeyed r.
     let drop_or_delete = map (\<lambda>i. (i, (i = cell_id c \<and> deleted) \<or> i \<in> set rekeyed)) (active_ids r);
         others = filter (\<lambda>i. i \<noteq> cell_id c) (active_ids r)
     in op_unit (on_root_keymat (cm_purge_gone_peers others False drop_or_delete)) r)"

lemma framed_rekey_cell_keys: "framed (rekey_cell_keys c deleted)"
proof -
  have "framed (\<lambda>r. let drop_or_delete = map (\<lambda>i. (i, (i = cell_id c \<and> deleted) \<or> i \<in> set rekeyed)) (active_ids r);
              others = filter (\<lambda>i. i \<noteq> cell_id c) (active_ids r)
          in op_unit (on_root_keymat (cm_purge_gone_peers others False drop_or_delete)) r)" for rekeyed
    unfolding Let_def by (rule framed_state) (intro framed_unit framed_on)
  then show ?thesis unfolding rekey_cell_keys_def by (intro framed_bind framed_rekeyed_among)
qed

lemma transaction_Inr: "in_transaction m r = (Inr x, r') \<Longrightarrow> m r = (Inr x, r')"
  by (auto simp: in_transaction_def split: prod.splits sum.splits)

lemma rekey_cell_steps:
  assumes "rekey_cell c True particles False r = (Inr (), r')"
  shows "\<exists>r1 r2. keep_rekeyed_id r = (Inr (), r1) \<and> rekey_cell_keys c False r1 = (Inr (), r2)
    \<and> op_when particles (op_unit (on_particle_keymat (cell_id c) (cm_drop_keys True []))) r2 = (Inr (), r')"
  using transaction_Inr [OF assms [unfolded rekey_cell_def]]
  unfolding rekey_cell_keys_def [symmetric]
  by (auto simp: op_then_Inr nothing_to_rekey_def op_when_def op_return_def)

lemma framed_rekey_uvn_keys:
  "framed (op_bind (op_bind (rekeyed_among q) (\<lambda>rekeyed r.
            op_return (map (\<lambda>c. (c, c \<in> set rekeyed)) (active_ids r)) r)) (\<lambda>drop_or_delete.
          op_unit (on_root_keymat (cm_drop_keys deleted drop_or_delete))))"
proof -
  have "framed (\<lambda>r. op_return (map (\<lambda>c. (c, c \<in> set rekeyed)) (active_ids r)) r)" for rekeyed
    by (rule framed_state) (rule framed_return)
  then show ?thesis
    by (intro framed_unit framed_on framed_bind framed_rekeyed_among)
qed

lemma rekey_uvn_frame:
  assumes "rekey_uvn True particles False r = (Inr (), r')"
  shows "\<exists>r1. keep_rekeyed_id r = (Inr (), r1) \<and> reg_frame r1 r'"
proof -
  obtain r1 r2 where 1: "keep_rekeyed_id r = (Inr (), r1)"
    and 2: "op_bind (op_bind (rekeyed_among (\<lambda>_. True)) (\<lambda>rekeyed r.
            op_return (map (\<lambda>c. (c, c \<in> set rekeyed)) (active_ids r)) r)) (\<lambda>drop_or_delete.
          op_unit (on_root_keymat (cm_drop_keys False drop_or_delete))) r1 = (Inr (), r2)"
    and 3: "op_when particles (each_particle_keymat (cm_drop_keys True [])) r2 = (Inr (), r')"
    using transaction_Inr [OF assms [unfolded rekey_uvn_def]]
    by (auto simp: op_then_Inr nothing_to_rekey_def op_when_def op_return_def)
  have "reg_frame r1 r2" using framedD [OF framed_rekey_uvn_keys 2] .
  moreover have "reg_frame r2 r'" by (rule framedD [OF framed_when [OF framed_each_particle] 3])
  ultimately show ?thesis using 1 reg_frame_trans by blast
qed

lemma rekey_cell_frame:
  assumes "rekey_cell c True particles False r = (Inr (), r')"
  shows "\<exists>r1. keep_rekeyed_id r = (Inr (), r1) \<and> reg_frame r1 r'"
proof -
  obtain r1 r2 where 1: "keep_rekeyed_id r = (Inr (), r1)" and 2: "rekey_cell_keys c False r1 = (Inr (), r2)"
    and 3: "op_when particles (op_unit (on_particle_keymat (cell_id c) (cm_drop_keys True []))) r2 = (Inr (), r')"
    using rekey_cell_steps [OF assms] by blast
  have "reg_frame r2 r'" by (rule framedD [OF framed_when [OF framed_unit [OF framed_on(2)]] 3])
  then show ?thesis using 1 framedD [OF framed_rekey_cell_keys 2] reg_frame_trans by blast
qed

text \<open>C24: While a rekeying is pending the registry keeps the id of the configuration that the agents still run: the
  first rekeying of the root VPN records the current id, every further one leaves the recorded id alone.\<close>

theorem rekeyed_id_kept:
  assumes "vo_initialized (rg_obj r)"
    and "rekey_uvn True particles False r = (Inr (), r') \<or> rekey_cell c True particles False r = (Inr (), r')"
  shows "rg_rekeyed_id r' = Some (case rg_rekeyed_id r of None \<Rightarrow> rg_config_id r | Some i \<Rightarrow> i)
    \<and> rg_config_id r' = rg_config_id r"
proof -
  obtain obj where k: "keep_rekeyed_id r
      = (Inr (), r\<lparr>rg_rekeyed_id := Some (case rg_rekeyed_id r of None \<Rightarrow> rg_config_id r | Some i \<Rightarrow> i), rg_obj := obj\<rparr>)"
    using keep_rekeyed_effect [OF assms(1)] by blast
  have "reg_frame (r\<lparr>rg_rekeyed_id := Some (case rg_rekeyed_id r of None \<Rightarrow> rg_config_id r | Some i \<Rightarrow> i), rg_obj := obj\<rparr>) r'"
    using assms(2) rekey_cell_frame rekey_uvn_frame k by (metis prod.inject)
  then show ?thesis by (simp add: reg_frame_def)
qed

lemma cm_drop_key_peers: "cm_drop_key key del self = Inr self' \<Longrightarrow> cm_peer_keys self' = cm_peer_keys self
    \<and> cm_peer_ids self' = cm_peer_ids self \<and> cm_readonly self' = cm_readonly self"
  by (auto simp: cm_drop_key_def Let_def split: if_splits)

lemma purge_loop_keys:
  "purge_gone_loop ids del dm ps acc self = Inr (acc', self') \<Longrightarrow>
     fst ` set (cm_peer_keys self') = fst ` set (cm_peer_keys self) - (set ps - ids)
     \<and> cm_peer_ids self' = cm_peer_ids self \<and> cm_readonly self' = cm_readonly self"
proof (induction ids del dm ps acc self arbitrary: acc' self' rule: purge_gone_loop.induct)
  case (2 ids del dm p ps deleted dropped self)
  show ?case
  proof (cases "p \<in> ids")
    case True
    then show ?thesis using "2.IH"(1) [OF True] "2.prems" by auto
  next
    case False
    let ?dk = "del \<or> map_of dm p = Some True"
    obtain key self1 b psks where 1: "cm_drop_key key ?dk self = Inr self1"
      and loop: "purge_gone_loop ids del dm ps (if ?dk then (deleted @ [p], dropped) else (deleted, dropped @ [p]))
          (self1\<lparr>cm_peer_keys := AList.delete p (cm_peer_keys self1), cm_psks := psks\<rparr>) = Inr (acc', self')"
      and 2: "the_or KeyError (map_of (cm_peer_keys self) p) = Inr key"
      "km_purge_peer psk_class p del dm (cm_psks (self1\<lparr>cm_peer_keys := AList.delete p (cm_peer_keys self1)\<rparr>)) = Inr (b, psks)"
      using "2.prems" False by (auto simp: res_simps Let_def split: prod.splits)
    from "2.IH"(2) [OF False refl 2(1) 1 refl 2(2) refl] loop
    have "fst ` set (cm_peer_keys self') = fst ` set (AList.delete p (cm_peer_keys self1)) - (set ps - ids)
        \<and> cm_peer_ids self' = cm_peer_ids self1 \<and> cm_readonly self' = cm_readonly self1" by (simp split: if_splits)
    then show ?thesis using cm_drop_key_peers [OF 1] False by (auto simp: delete_conv)
  qed
qed simp

lemma purge_keys_kept:
  assumes "cm_purge_gone_peers ids del dm self = Inr (gone, self')" and "\<not> cm_readonly self"
  shows "fst ` set (cm_peer_keys self') = fst ` set (cm_peer_keys self) \<inter> set ids \<and> cm_peer_ids self' = cm_peer_ids self
    \<and> cm_readonly self' = cm_readonly self"
proof -
  obtain deleted dropped self1 where l: "purge_gone_loop (set ids) del dm (map fst (cm_peer_keys self)) ([], []) self = Inr ((deleted, dropped), self1)"
    and s: "self' = (if deleted \<noteq> [] then cm_db_save self1 else self1)"
    using assms by (auto simp: cm_purge_gone_peers_def res_simps)
  have "fst ` set (cm_peer_keys (cm_db_save self1)) = fst ` set (cm_peer_keys self1)"
    by (simp add: cm_db_save_def image_image case_prod_beta)
  then show ?thesis using purge_loop_keys [OF l] unfolding s by (auto simp: cm_db_save_def)
qed

lemma assert_peers_keys:
  "assert_peers gen pgen ps self = Inr self' \<Longrightarrow> fst ` set (cm_peer_keys self') = fst ` set (cm_peer_keys self) \<union> set ps"
proof (induction ps arbitrary: self)
  case (Cons p ps)
  define self1 where "self1 = (case map_of (cm_peer_keys self) p of
            None \<Rightarrow> (let (k, n) = new_key gen (cm_prefix_peer (cm_prefix self) p) (cm_gen self)
                     in self\<lparr>cm_peer_keys := AList.update p k (cm_peer_keys self), cm_gen := n,
                          cm_calls := cm_calls self @ [SaveKey k]\<rparr>)
          | Some _ \<Rightarrow> self)"
  have k1: "fst ` set (cm_peer_keys self1) = insert p (fst ` set (cm_peer_keys self))"
  proof (cases "map_of (cm_peer_keys self) p")
    case None
    then show ?thesis by (simp add: self1_def new_key_def Let_def)
  next
    case (Some k)
    then have "p \<in> fst ` set (cm_peer_keys self)" by (metis image_eqI fst_conv map_of_SomeD)
    then show ?thesis using Some by (auto simp: self1_def)
  qed
  obtain v psks where "assert_peers gen pgen ps (self1\<lparr>cm_psks := psks\<rparr>) = Inr self'"
    using Cons.prems unfolding assert_peers.simps self1_def [symmetric] by (auto simp: res_simps Let_def split: prod.splits)
  from Cons.IH [OF this] show ?case using k1 by simp
qed simp

lemma assert_keys_peers:
  assumes "cm_assert_keys gen pgen self = Inr self'"
  shows "fst ` set (cm_peer_keys self') \<subseteq> fst ` set (cm_peer_keys self) \<union> set (cm_peer_ids self)"
proof (cases "cm_readonly self")
  case True then show ?thesis using assms by (simp add: cm_assert_keys_def)
next
  case False
  obtain self1 where "assert_peers gen pgen (cm_peer_ids self) self1 = Inr self'" "cm_peer_keys self1 = cm_peer_keys self"
    using assms False by (fastforce simp: cm_assert_keys_def new_key_def Let_def split: option.splits)
  then show ?thesis using assert_peers_keys by fastforce
qed

lemma ask_material_key:
  assumes "ask_material self p = Inr x" and "p \<noteq> 0"
  shows "p \<in> fst ` set (cm_peer_keys (cv_keymat self))"
proof -
  obtain ms where "cm_get_peer_material p True (cv_keymat self) = Inr ms" using assms(1) by (auto simp: ask_material_def res_simps)
  then obtain k where "the_or KeyError (map_of (cm_peer_keys (cv_keymat self)) p) = Inr k"
    using assms(2) by (auto simp: cm_get_peer_material_def missing_def res_simps split: sum.splits py_error.splits)
  then have "map_of (cm_peer_keys (cv_keymat self)) p = Some k" by (simp add: the_or_def split: option.splits)
  then show ?thesis by (force dest: map_of_SomeD)
qed

lemma rmap_Inr_all: "rmap f xs = Inr ys \<Longrightarrow> x \<in> set xs \<Longrightarrow> \<exists>y. f x = Inr y"
  by (induction xs arbitrary: ys) (auto simp: res_simps)

lemma root_config_peers:
  assumes "root_config pub priv psk now self = Inr cfg" and "p \<in> set (cv_peer_ids self)" and "p \<noteq> 0"
  shows "p \<in> fst ` set (cm_peer_keys (cv_keymat self))"
proof -
  obtain peers where "rmap (root_peer pub psk self) (cv_peer_ids self) = Inr peers"
    using assms(1) unfolding root_config_def Let_def rbind_Inr_conv by (elim exE conjE) (rule that)
  from rmap_Inr_all [OF this assms(2)] obtain q where "root_peer pub psk self p = Inr q" by (elim exE)
  then have "\<exists>x. ask_material self p = Inr x" by (cases "ask_material self p") (simp_all add: root_peer_def)
  then show ?thesis using ask_material_key assms(3) by blast
qed

section \<open>Rekeying with excluded cells\<close>

text \<open>A cached root key material was loaded for the active cells.\<close>

definition root_fresh :: "('m, 'p) registry \<Rightarrow> bool" where
  "root_fresh r \<longleftrightarrow> (is_cached ''root_vpn_keymat'' r \<longrightarrow>
     cm_peer_ids (rg_root_km r) = active_ids r \<and> cm_readonly (rg_root_km r) = rg_readonly r)"

lemma root_keymat_fresh:
  assumes "root_vpn_keymat r = (Inr km, r')" and "root_fresh r"
  shows "cm_peer_ids km = active_ids r \<and> cm_readonly km = rg_readonly r \<and> is_cached ''root_vpn_keymat'' r'"
proof (cases "is_cached ''root_vpn_keymat'' r")
  case True
  then show ?thesis using assms by (auto simp: root_vpn_keymat_def root_fresh_def)
next
  case False
  then have "load_star (root_prefix r) (active_ids r) False (rg_readonly r) r = Inr km"
      and r': "r' = fill_cache ''root_vpn_keymat'' (r\<lparr>rg_root_km := km\<rparr>)"
    using assms(1) by (simp_all add: root_vpn_keymat_def split: sum.splits)
  then show ?thesis using cm_load_fields(2,4) unfolding load_star_def by (fastforce simp: fill_cache_def is_cached_def)
qed

lemma rekeyed_among_fresh: "rekeyed_among q r = (res, r') \<Longrightarrow> root_fresh r \<Longrightarrow> root_fresh r'"
  by (auto simp: rekeyed_among_def rekeyed_cells_def op_bind_def rekeyed_root_vpn_keymat_def root_fresh_def is_cached_def
      fill_cache_def active_ids_def split: if_splits option.splits sum.splits prod.splits)

lemma rekey_keys_root:
  assumes "rekey_cell_keys c False r = (Inr (), r')" and "root_fresh r" and "\<not> rg_readonly r"
  shows "is_cached ''root_vpn_keymat'' r' \<and> cm_peer_ids (rg_root_km r') = active_ids r
    \<and> fst ` set (cm_peer_keys (rg_root_km r')) \<subseteq> set (active_ids r) - {cell_id c}"
proof -
  obtain rekeyed r1 dm where 1: "rekeyed_among (\<lambda>i. \<not> (i = cell_id c \<and> False)) r = (Inr rekeyed, r1)"
    and 2: "op_unit (on_root_keymat (cm_purge_gone_peers (filter (\<lambda>i. i \<noteq> cell_id c) (active_ids r1)) False dm)) r1 = (Inr (), r')"
    using assms(1) unfolding rekey_cell_keys_def op_bind_Inr Let_def by blast
  have f1: "root_fresh r1" "reg_frame r r1"
    using rekeyed_among_fresh [OF 1 assms(2)] framedD [OF framed_rekeyed_among 1] by auto
  have a1: "active_ids r1 = active_ids r" "\<not> rg_readonly r1" using f1(2) assms(3) by (simp_all add: active_ids_def reg_frame_def)
  obtain x r2 where 3: "on_root_keymat (cm_purge_gone_peers (filter (\<lambda>i. i \<noteq> cell_id c) (active_ids r1)) False dm) r1 = (Inr x, r2)"
    and r2: "r' = r2"
    using 2 by (auto simp: op_unit_def op_then_Inr op_return_def)
  then obtain km r3 where 4: "root_vpn_keymat r1 = (Inr km, r3)"
    and 5: "(case run_star (cm_purge_gone_peers (filter (\<lambda>i. i \<noteq> cell_id c) (active_ids r1)) False dm) km r3 of
        Inl e \<Rightarrow> (Inl e, r3) | Inr (x, km', r') \<Rightarrow> (Inr x, r'\<lparr>rg_root_km := km'\<rparr>)) = (Inr x, r2)"
    unfolding on_root_keymat_def op_bind_Inr by blast
  note fr = root_keymat_fresh [OF 4 f1(1)]
  obtain gone km' r4 where 6: "run_star (cm_purge_gone_peers (filter (\<lambda>i. i \<noteq> cell_id c) (active_ids r1)) False dm) km r3 = Inr (gone, km', r4)"
    and r2': "r2 = r4\<lparr>rg_root_km := km'\<rparr>"
    using 5 by (auto split: sum.splits prod.splits)
  let ?km = "km\<lparr>cm_gen := rg_gen r3, cm_calls := [], cm_psks := (cm_psks km)\<lparr>km_gen := rg_pgen r3, km_calls := []\<rparr>\<rparr>"
  have p: "cm_purge_gone_peers (filter (\<lambda>i. i \<noteq> cell_id c) (active_ids r1)) False dm ?km = Inr (gone, km')"
    and o: "rg_obj r4 = rg_obj r3"
    using 6 by (auto simp: run_star_def res_simps)
  have "\<not> cm_readonly ?km" using fr a1 by simp
  from purge_keys_kept [OF p this] show ?thesis using fr a1 o unfolding r2 r2'
    by (auto simp: is_cached_def)
qed

text \<open>C30: After the root key of a cell was dropped the root key material has no key of an excluded cell either, and
  it cannot be completed any more: asserting the keys of the root VPN raises, because the root configuration has a peer
  for the excluded cell.\<close>

theorem rekey_locks_out_excluded:
  assumes "rekey_cell c True False False r = (Inr (), r')" and "root_fresh r" and "vo_initialized (rg_obj r)"
    and "\<not> rg_readonly r" and "us_enable_root_vpn (uvn_settings (rg_uvn r))"
    and "x \<in> set (uvn_all_cells (rg_uvn r))" and "cell_id x \<notin> set (active_ids r)" and "cell_id x \<noteq> 0"
  shows "cell_id x \<notin> fst ` set (cm_peer_keys (rg_root_km r')) \<and> isl (fst (assert_root_vpn env r'))"
proof -
  obtain r1 r2 where 1: "keep_rekeyed_id r = (Inr (), r1)" and 2: "rekey_cell_keys c False r1 = (Inr (), r2)"
    and 3: "op_when False (op_unit (on_particle_keymat (cell_id c) (cm_drop_keys True []))) r2 = (Inr (), r')"
    using rekey_cell_steps [OF assms(1)] by blast
  have r': "r' = r2" using 3 by (simp add: op_when_def op_return_def)
  obtain obj where r1: "r1 = r\<lparr>rg_rekeyed_id := Some (case rg_rekeyed_id r of None \<Rightarrow> rg_config_id r | Some i \<Rightarrow> i), rg_obj := obj\<rparr>"
    and obj: "vo_cached obj = vo_cached (rg_obj r)"
    using keep_rekeyed_effect [OF assms(3)] 1 by auto
  have f: "root_fresh r1" "\<not> rg_readonly r1" "active_ids r1 = active_ids r"
    using assms(2,4) obj by (simp_all add: r1 root_fresh_def is_cached_def active_ids_def)
  note k = rekey_keys_root [OF 2 f(1,2)]
  have fr: "rg_uvn r' = rg_uvn r" using framedD [OF framed_rekey_cell_keys 2] by (simp add: r' r1 reg_frame_def)
  have gone: "cell_id x \<notin> fst ` set (cm_peer_keys (rg_root_km r'))" using k assms(7) f(3) by (auto simp: r')
  have "isl (fst (assert_root_vpn env r'))"
  proof (rule ccontr)
    assume "\<not> isl (fst (assert_root_vpn env r'))"
    then obtain y r3 where "on_root_keymat (\<lambda>km. central_assert_keys env (root_vpn r') km) r' = (Inr y, r3)"
      using assms(5) fr by (cases "on_root_keymat (central_assert_keys env (root_vpn r')) r'")
        (auto simp: assert_root_vpn_def op_when_def op_unit_def op_then_def op_bind_def split: sum.splits)
    moreover have "root_vpn_keymat r' = (Inr (rg_root_km r'), r')" using k by (simp add: root_vpn_keymat_def r')
    ultimately obtain z where "run_star (central_assert_keys env (root_vpn r')) (rg_root_km r') r' = Inr z"
      by (auto simp: on_root_keymat_def op_bind_def split: sum.splits prod.splits)
    then obtain w where "central_assert_keys env (root_vpn r') ((rg_root_km r')\<lparr>cm_gen := rg_gen r', cm_calls := [],
        cm_psks := (cm_psks (rg_root_km r'))\<lparr>km_gen := rg_pgen r', km_calls := []\<rparr>\<rparr>) = Inr w" (is "central_assert_keys _ _ ?km = _")
      by (auto simp: run_star_def res_simps)
    then obtain km' rc where a: "cm_assert_keys (en_gen env) (en_pgen env) ?km = Inr km'"
      and c: "root_config (en_pub env) (en_priv env) (en_psk env) (en_now env) (root_vpn r' km') = Inr rc"
      by (auto simp: central_assert_keys_def res_simps)
    have "cell_id x \<in> set (cv_peer_ids (root_vpn r' km'))" using assms(6) fr by (simp add: root_vpn_def Let_def sorted_cells_def)
    from root_config_peers [OF c this assms(8)] have "cell_id x \<in> fst ` set (cm_peer_keys km')"
      by (simp add: root_vpn_def Let_def)
    then have "cell_id x \<in> fst ` set (cm_peer_keys ?km) \<union> set (cm_peer_ids ?km)"
      using assert_keys_peers [OF a] by blast
    then show False using gone k assms(7) f(3) by (auto simp: r')
  qed
  then show ?thesis using gone by blast
qed

section \<open>Bans and new cells\<close>

lemma users_changed_ok:
  assumes "vo_initialized (rg_obj r)"
  shows "\<exists>r'. rg_updated ''users'' r = (Inr (), r') \<and> reg_grows r r'"
  using rg_updated_group(2) [OF assms] growingD [OF growing_updated] by blast

definition banned_with_user :: "(target \<Rightarrow> bool) \<Rightarrow> bool \<Rightarrow> bool \<Rightarrow> target list \<Rightarrow> int option \<Rightarrow> bool" where
  "banned_with_user yes banned unban_owned targets own \<longleftrightarrow>
     (banned \<or> unban_owned) \<and> (\<exists>i. own = Some i \<and> TUser i \<in> set targets \<and> yes (TUser i))"

lemma ban_collect_iff:
  "x \<in> ban_collect yes banned unban_owned u targets \<longleftrightarrow>
     (\<exists>t \<in> set targets. yes t \<and> (x = t \<or> x \<in> set (ban_owned banned unban_owned u t)))"
  by (auto simp: ban_collect_def split: if_splits)

lemma pick_iff:
  "(\<exists>t \<in> T. Y t \<and> (x = t \<or> A \<and> (\<exists>i. t = f i \<and> P i \<and> E))) \<longleftrightarrow> (x \<in> T \<and> Y x) \<or> ((A \<and> (\<exists>i. P i \<and> f i \<in> T \<and> Y (f i))) \<and> E)"
  by auto

lemma ban_collect_cell:
  "c \<in> set (uvn_all_cells u) \<Longrightarrow> distinct (map cell_id (uvn_all_cells u)) \<Longrightarrow>
     (TCell (cell_id c) \<in> ban_collect yes banned unban_owned u targets \<longleftrightarrow>
       (TCell (cell_id c) \<in> set targets \<and> yes (TCell (cell_id c)))
       \<or> (banned_with_user yes banned unban_owned targets (cell_owner c) \<and> cell_excluded c \<noteq> banned))"
proof -
  assume c: "c \<in> set (uvn_all_cells u)" and d: "distinct (map cell_id (uvn_all_cells u))"
  have same: "c' = c" if "c' \<in> set (uvn_all_cells u)" "cell_id c' = cell_id c" for c'
    using d c that by (meson distinct_map inj_onD)
  have own: "TCell (cell_id c) \<in> set (ban_owned banned unban_owned u t) \<longleftrightarrow>
      (banned \<or> unban_owned) \<and> (\<exists>i. t = TUser i \<and> cell_owner c = Some i \<and> cell_excluded c \<noteq> banned)" for t
    using c by (cases t) (auto simp: ban_owned_def image_iff dest: same [OF _ sym])
  show ?thesis unfolding ban_collect_iff own banned_with_user_def by (rule pick_iff)
qed

lemma ban_collect_particle:
  "p \<in> set (uvn_all_particles u) \<Longrightarrow> distinct (map particle_id (uvn_all_particles u)) \<Longrightarrow>
     (TParticle (particle_id p) \<in> ban_collect yes banned unban_owned u targets \<longleftrightarrow>
       (TParticle (particle_id p) \<in> set targets \<and> yes (TParticle (particle_id p)))
       \<or> (banned_with_user yes banned unban_owned targets (particle_owner p) \<and> particle_excluded p \<noteq> banned))"
proof -
  assume c: "p \<in> set (uvn_all_particles u)" and d: "distinct (map particle_id (uvn_all_particles u))"
  have same: "p' = p" if "p' \<in> set (uvn_all_particles u)" "particle_id p' = particle_id p" for p'
    using d c that by (meson distinct_map inj_onD)
  have own: "TParticle (particle_id p) \<in> set (ban_owned banned unban_owned u t) \<longleftrightarrow>
      (banned \<or> unban_owned) \<and> (\<exists>i. t = TUser i \<and> particle_owner p = Some i \<and> particle_excluded p \<noteq> banned)" for t
    using c by (cases t) (auto simp: ban_owned_def image_iff dest: same [OF _ sym])
  show ?thesis unfolding ban_collect_iff own banned_with_user_def by (rule pick_iff)
qed

lemma ban_collect_user:
  "TUser i \<in> ban_collect yes banned unban_owned u targets \<longleftrightarrow> TUser i \<in> set targets \<and> yes (TUser i)"
proof -
  have "TUser i \<notin> set (ban_owned banned unban_owned u t)" for t by (cases t) (auto simp: ban_owned_def)
  then show ?thesis by (auto simp: ban_collect_def split: if_splits)
qed

lemma ban_tail:
  assumes "vo_initialized (rg_obj r)"
  shows "\<exists>r'. op_then (op_when a cells_changed) (op_then (op_when b particles_changed) (op_when d (rg_updated ''users''))) r = (Inr (), r')
    \<and> rg_uvn r' = rg_uvn r \<and> rg_users r' = rg_users r \<and> rg_deployment r' = rg_deployment r \<and> (a \<longrightarrow> needs_redeployment r')"
proof -
  have 1: "\<exists>r1. op_when a cells_changed r = (Inr (), r1) \<and> rg_uvn r1 = rg_uvn r \<and> rg_users r1 = rg_users r
      \<and> rg_deployment r1 = rg_deployment r \<and> vo_initialized (rg_obj r1) \<and> (a \<longrightarrow> ''deployment_config'' \<in> vo_changed (rg_obj r1))"
  proof (cases a)
    case True
    let ?r = "r\<lparr>rg_uvn_dirty := True\<rparr>"
    have "vo_initialized (rg_obj ?r)" using assms by simp
    from rg_updated_cells [OF this] obtain r1 where m: "rg_updated ''cells'' ?r = (Inr (), r1)"
      and mk: "marked {''config_id'', ''deployment_config'', ''root_vpn_keymat'', ''backbone_vpn_keymat'', ''particles_vpn_keymats''} ?r r1" by blast
    have "cells_changed r = (Inr (), r1)"
      using m by (simp add: cells_changed_def rg_uvn_updated_def op_then_def op_bind_def op_modify_def)
    moreover from mk obtain obj where "r1 = ?r\<lparr>rg_obj := obj\<rparr>" "vo_initialized obj" "''deployment_config'' \<in> vo_changed obj"
      unfolding marked_def by blast
    ultimately show ?thesis using True by (intro exI [of _ r1]) (simp add: op_when_def)
  qed (simp add: op_when_def op_return_def assms)
  then obtain r1 where r1: "op_when a cells_changed r = (Inr (), r1)" "rg_uvn r1 = rg_uvn r" "rg_users r1 = rg_users r"
      "rg_deployment r1 = rg_deployment r" "vo_initialized (rg_obj r1)" "a \<longrightarrow> ''deployment_config'' \<in> vo_changed (rg_obj r1)"
    by blast
  have 2: "\<exists>r2. op_when b particles_changed r1 = (Inr (), r2) \<and> rg_uvn r2 = rg_uvn r1 \<and> rg_users r2 = rg_users r1
      \<and> rg_deployment r2 = rg_deployment r1 \<and> vo_initialized (rg_obj r2) \<and> vo_changed (rg_obj r1) \<subseteq> vo_changed (rg_obj r2)"
  proof (cases b)
    case True
    let ?r = "r1\<lparr>rg_uvn_dirty := True\<rparr>"
    have "vo_initialized (rg_obj ?r)" using r1(5) by simp
    from rg_updated_group(1) [OF this] obtain r2 where m: "rg_updated ''particles'' ?r = (Inr (), r2)" by blast
    have "particles_changed r1 = (Inr (), r2)"
      using m by (simp add: particles_changed_def rg_uvn_updated_def op_then_def op_bind_def op_modify_def)
    then show ?thesis using True growingD [OF growing_updated m] r1(5)
      by (intro exI [of _ r2]) (simp add: op_when_def reg_grows_def)
  qed (simp add: op_when_def op_return_def r1(5))
  then obtain r2 where r2: "op_when b particles_changed r1 = (Inr (), r2)" "rg_uvn r2 = rg_uvn r1" "rg_users r2 = rg_users r1"
      "rg_deployment r2 = rg_deployment r1" "vo_initialized (rg_obj r2)" "vo_changed (rg_obj r1) \<subseteq> vo_changed (rg_obj r2)" by blast
  have 3: "\<exists>r3. op_when d (rg_updated ''users'') r2 = (Inr (), r3) \<and> rg_uvn r3 = rg_uvn r2 \<and> rg_users r3 = rg_users r2
      \<and> rg_deployment r3 = rg_deployment r2 \<and> vo_changed (rg_obj r2) \<subseteq> vo_changed (rg_obj r3)"
  proof (cases d)
    case True
    from rg_updated_group(2) [OF r2(5)] obtain r3 where m: "rg_updated ''users'' r2 = (Inr (), r3)" by blast
    then show ?thesis using True growingD [OF growing_updated m]
      by (intro exI [of _ r3]) (simp add: op_when_def reg_grows_def)
  qed (simp add: op_when_def op_return_def)
  then obtain r3 where "op_when d (rg_updated ''users'') r2 = (Inr (), r3)" "rg_uvn r3 = rg_uvn r2" "rg_users r3 = rg_users r2"
      "rg_deployment r3 = rg_deployment r2" "vo_changed (rg_obj r2) \<subseteq> vo_changed (rg_obj r3)" by blast
  then show ?thesis using r1 r2
    by (intro exI [of _ r3]) (auto simp: op_then_def op_bind_def needs_redeployment_def)
qed

text \<open>C28: A ban reaches exactly the cells, particles and users that were named and confirmed, and what the banned users
  own; everything else stays as it is, the owner of the UVN cannot be banned, and a ban that changes a cell asks for a
  new deployment.\<close>

theorem ban_exact:
  assumes "vo_initialized (rg_obj r)" and "\<not> rg_readonly r"
    and "distinct (map cell_id (uvn_all_cells (rg_uvn r)))" and "distinct (map particle_id (uvn_all_particles (rg_uvn r)))"
    and "\<forall>i. uvn_owner (rg_uvn r) = Some i \<longrightarrow> TUser i \<notin> set targets"
  shows "\<exists>r'. ban yes banned unban_owned targets r = (Inr (), r')
    \<and> uvn_all_cells (rg_uvn r') = map (\<lambda>c. if (TCell (cell_id c) \<in> set targets \<and> yes (TCell (cell_id c)))
           \<or> banned_with_user yes banned unban_owned targets (cell_owner c) then c\<lparr>cell_excluded := banned\<rparr> else c) (uvn_all_cells (rg_uvn r))
    \<and> uvn_all_particles (rg_uvn r') = map (\<lambda>p. if (TParticle (particle_id p) \<in> set targets \<and> yes (TParticle (particle_id p)))
           \<or> banned_with_user yes banned unban_owned targets (particle_owner p) then p\<lparr>particle_excluded := banned\<rparr> else p)
         (uvn_all_particles (rg_uvn r))
    \<and> rg_users r' = map (\<lambda>u. if TUser (user_id u) \<in> set targets \<and> yes (TUser (user_id u)) then u\<lparr>user_excluded := banned\<rparr> else u) (rg_users r)
    \<and> rg_deployment r' = rg_deployment r
    \<and> (uvn_all_cells (rg_uvn r') \<noteq> uvn_all_cells (rg_uvn r) \<longrightarrow> needs_redeployment r')"
proof -
  let ?u = "rg_uvn r" and ?ts = "ban_collect yes banned unban_owned (rg_uvn r) targets"
  let ?u' = "ban_particles banned ?ts (ban_cells banned ?ts ?u)" and ?us = "ban_users banned ?ts (rg_users r)"
  let ?r = "r\<lparr>rg_uvn := ?u', rg_users := ?us\<rparr>"
  have init: "vo_initialized (rg_obj ?r)" using assms(1) by simp
  have no: "\<not> (\<exists>t \<in> set targets. Some t = map_option TUser (uvn_owner ?u))" using assms(5) by (cases "uvn_owner ?u") auto
  obtain r' where t: "op_then (op_when (uvn_all_cells ?u' \<noteq> uvn_all_cells ?u) cells_changed)
      (op_then (op_when (uvn_all_particles ?u' \<noteq> uvn_all_particles ?u) particles_changed)
               (op_when (?us \<noteq> rg_users r) (rg_updated ''users''))) ?r = (Inr (), r')"
    and r': "rg_uvn r' = ?u'" "rg_users r' = ?us" "rg_deployment r' = rg_deployment r"
      "uvn_all_cells ?u' \<noteq> uvn_all_cells ?u \<longrightarrow> needs_redeployment r'"
    using ban_tail [OF init, of "uvn_all_cells ?u' \<noteq> uvn_all_cells ?u" "uvn_all_particles ?u' \<noteq> uvn_all_particles ?u" "?us \<noteq> rg_users r"]
    by auto
  have b: "ban yes banned unban_owned targets r = (Inr (), r')"
    using assms(2) no t by (simp add: ban_def error_if_def in_transaction_def Let_def)
  have cells: "uvn_all_cells ?u' = map (\<lambda>c. if (TCell (cell_id c) \<in> set targets \<and> yes (TCell (cell_id c)))
           \<or> banned_with_user yes banned unban_owned targets (cell_owner c) then c\<lparr>cell_excluded := banned\<rparr> else c) (uvn_all_cells ?u)"
    unfolding uvn_cells_ban_particles using ban_collect_cell [OF _ assms(3)] by (auto simp: ban_cells_def)
  have parts: "uvn_all_particles ?u' = map (\<lambda>p. if (TParticle (particle_id p) \<in> set targets \<and> yes (TParticle (particle_id p)))
           \<or> banned_with_user yes banned unban_owned targets (particle_owner p) then p\<lparr>particle_excluded := banned\<rparr> else p)
         (uvn_all_particles ?u)"
    using ban_collect_particle [OF _ assms(4)] by (auto simp: ban_cells_def ban_particles_def)
  have users: "?us = map (\<lambda>u. if TUser (user_id u) \<in> set targets \<and> yes (TUser (user_id u)) then u\<lparr>user_excluded := banned\<rparr> else u) (rg_users r)"
    by (auto simp: ban_users_def ban_collect_user)
  show ?thesis
    by (rule exI [of _ r']) (use b r' cells parts users in simp)
qed

definition lans_disjoint :: "cell \<Rightarrow> cell \<Rightarrow> bool" where
  "lans_disjoint c c' \<longleftrightarrow> (\<forall>n \<in> set (cell_allowed_lans c). \<forall>m \<in> set (cell_allowed_lans c'). hosts n \<inter> hosts m = {})"

lemma lans_disjoint_sym: "lans_disjoint c c' = lans_disjoint c' c"
  by (auto simp: lans_disjoint_def)

lemma validate_cell_disjoint:
  assumes "\<forall>c \<in> set (uvn_all_cells u). lans_ok c" and "lans_ok c"
  shows "validate_cell u c = Inr () \<longleftrightarrow>
    (\<forall>c' \<in> set (uvn_all_cells u). \<not> cell_excluded c' \<longrightarrow> cell_id c' \<noteq> cell_id c \<longrightarrow> lans_disjoint c c')
    \<and> (cell_private c \<longrightarrow> cell_allowed_lans c \<noteq> [] \<and> (endpoint_true (uvn_address u) \<or> \<not> us_enable_root_vpn (uvn_settings u)))"
  unfolding validate_cell_Inr [OF assms] lans_disjoint_def by (auto simp: uvn_cells_def)

lemma add_cell_success:
  assumes "add_cell nm own conf r = (Inr c, r')"
  shows "\<exists>r1. r1 = r\<lparr>rg_next_id := rg_next_id r + 1, rg_uvn := (rg_uvn r)\<lparr>uvn_all_cells := uvn_all_cells (rg_uvn r) @ [c]\<rparr>\<rparr>
    \<and> cell_id c = rg_next_id r + 1 \<and> \<not> cell_excluded c \<and> validate_cell (rg_uvn r) c = Inr () \<and> cells_changed r1 = (Inr (), r')"
proof -
  let ?M = "\<lambda>r. case rbind (prepare_name nm) (\<lambda>nm. configure_cell conf
               \<lparr>cell_id = rg_next_id r + 1, cell_name = nm, cell_address = None, cell_excluded = False, cell_allowed_lans = [],
                cell_enable_particles_vpn = True, cell_owner = (case own of None \<Rightarrow> uvn_owner (rg_uvn r) | Some i \<Rightarrow> Some i)\<rparr>) of
          Inl e \<Rightarrow> (Inl e, r)
        | Inr c \<Rightarrow>
           (let r1 = r\<lparr>rg_next_id := rg_next_id r + 1\<rparr> in
            case validate_cell (rg_uvn r) c of
              Inl e \<Rightarrow> (Inl e, r1)
            | Inr _ \<Rightarrow> (Inr c, r1\<lparr>rg_uvn := (rg_uvn r)\<lparr>uvn_all_cells := uvn_all_cells (rg_uvn r) @ [c]\<rparr>\<rparr>))"
  have "op_bind (in_transaction ?M) (\<lambda>c. op_then cells_changed (op_return c)) r = (Inr c, r')"
    using assms by (auto simp: add_cell_def error_if_def op_raise_def split: if_splits)
  then obtain c1 r1 where t: "in_transaction ?M r = (Inr c1, r1)"
    and 2: "op_then cells_changed (op_return c1) r1 = (Inr c, r')"
    unfolding op_bind_Inr by (elim exE conjE) (rule that)
  note 1 = transaction_Inr [OF t]
  have c: "c1 = c" "cells_changed r1 = (Inr (), r')" using 2 by (auto simp: op_then_Inr op_return_def)
  let ?F = "rbind (prepare_name nm) (\<lambda>nm. configure_cell conf
               \<lparr>cell_id = rg_next_id r + 1, cell_name = nm, cell_address = None, cell_excluded = False, cell_allowed_lans = [],
                cell_enable_particles_vpn = True, cell_owner = (case own of None \<Rightarrow> uvn_owner (rg_uvn r) | Some i \<Rightarrow> Some i)\<rparr>)"
  obtain c2 where f: "?F = Inr c2" using 1 by (cases ?F) simp_all
  have v: "validate_cell (rg_uvn r) c2 = Inr ()" and c2: "c2 = c1"
    and r1: "r1 = r\<lparr>rg_next_id := rg_next_id r + 1, rg_uvn := (rg_uvn r)\<lparr>uvn_all_cells := uvn_all_cells (rg_uvn r) @ [c1]\<rparr>\<rparr>"
    using 1 f by (cases "validate_cell (rg_uvn r) c2"; simp add: Let_def)+
  obtain nm' where q: "configure_cell conf
               \<lparr>cell_id = rg_next_id r + 1, cell_name = nm', cell_address = None, cell_excluded = False, cell_allowed_lans = [],
                cell_enable_particles_vpn = True, cell_owner = (case own of None \<Rightarrow> uvn_owner (rg_uvn r) | Some i \<Rightarrow> Some i)\<rparr> = Inr c1"
    using f unfolding c2 rbind_Inr_conv by (elim exE conjE) (rule that)
  have "cell_id c1 = rg_next_id r + 1" "\<not> cell_excluded c1" using q by (auto simp: configure_cell_def res_simps)
  then show ?thesis using v r1 c c2 by simp
qed

text \<open>C29: A cell is only compared with the active cells when it is added: the UVN stays valid exactly when the networks of the
  new cell do not clash with those of an excluded cell.\<close>

theorem add_cell_validity:
  assumes "add_cell nm own conf r = (Inr c, r')" and "vo_initialized (rg_obj r)"
    and "validate_uvn (rg_uvn r) = Inr ()"
    and "\<forall>c \<in> set (uvn_all_cells (rg_uvn r)). lans_ok c \<and> cell_id c \<noteq> rg_next_id r + 1" and "lans_ok c"
  shows "uvn_all_cells (rg_uvn r') = uvn_all_cells (rg_uvn r) @ [c]
    \<and> (validate_uvn (rg_uvn r') = Inr () \<longleftrightarrow> (\<forall>x \<in> set (uvn_excluded_cells (rg_uvn r)). lans_disjoint c x))"
proof -
  let ?u = "rg_uvn r" and ?u' = "(rg_uvn r)\<lparr>uvn_all_cells := uvn_all_cells (rg_uvn r) @ [c]\<rparr>"
  obtain r1 where r1: "r1 = r\<lparr>rg_next_id := rg_next_id r + 1, rg_uvn := ?u'\<rparr>" and id: "cell_id c = rg_next_id r + 1"
    and act: "\<not> cell_excluded c" and v: "validate_cell ?u c = Inr ()" and ch: "cells_changed r1 = (Inr (), r')"
    using add_cell_success [OF assms(1)] by blast
  have u': "rg_uvn r' = ?u'" using cells_changed_marks [OF _ ch] assms(2) by (simp add: r1)
  have ok: "\<forall>c \<in> set (uvn_all_cells ?u). lans_ok c" "\<forall>c \<in> set (uvn_all_cells ?u'). lans_ok c" using assms(4,5) by auto
  have new: "validate_cell ?u' c = Inr ()"
    using v by (simp add: validate_cell_disjoint [OF ok(1) assms(5)] validate_cell_disjoint [OF ok(2) assms(5)])
  have old: "validate_cell ?u' x = Inr () \<longleftrightarrow> lans_disjoint x c" if x: "x \<in> set (uvn_all_cells ?u)" for x
  proof -
    have okx: "lans_ok x" and ne: "cell_id c \<noteq> cell_id x" using assms(4) x id by auto
    have "validate_cell ?u x = Inr ()" using assms(3) x by (simp add: validate_uvn_Inr)
    then show ?thesis using act ne
      by (auto simp: validate_cell_disjoint [OF ok(1) okx] validate_cell_disjoint [OF ok(2) okx])
  qed
  have active: "lans_disjoint x c" if "x \<in> set (uvn_all_cells ?u)" "\<not> cell_excluded x" for x
  proof -
    have "cell_id x \<noteq> cell_id c" using assms(4) that(1) id by auto
    then have "lans_disjoint c x" using v that unfolding validate_cell_disjoint [OF ok(1) assms(5)] by blast
    then show ?thesis by (simp add: lans_disjoint_sym)
  qed
  have "validate_uvn ?u' = Inr () \<longleftrightarrow> (\<forall>x \<in> set (uvn_all_cells ?u). lans_disjoint x c)"
    unfolding validate_uvn_Inr using new old by auto
  also have "\<dots> \<longleftrightarrow> (\<forall>x \<in> set (uvn_excluded_cells ?u). lans_disjoint c x)"
    using active by (auto simp: uvn_excluded_cells_def lans_disjoint_sym)
  finally show ?thesis by (simp add: u')
qed

section \<open>Runs of operations\<close>



section \<open>Examples\<close>

definition demo_env :: "(nat, nat) reg_env" where
  "demo_env = \<lparr>en_gen = \<lambda>n. n, en_pgen = \<lambda>n. n, en_pub = (\<lambda>_. ''pub''), en_priv = (\<lambda>_. ''priv''), en_psk = (\<lambda>_. ''psk''),
     en_rnd = \<lparr>shuffle_public = id, shuffle_private = id, iter_set = id, rnd_sample = id\<rparr>,
     en_config_id = (\<lambda>_. ''c1''), en_now = ''now''\<rparr>"

definition demo_new :: "(nat, nat) registry" where
  "demo_new = new_registry ''u'' ''me@x'' ''c0''"

definition demo_created :: "(py_error + unit) \<times> (nat, nat) registry" where
  "demo_created = create_registry demo_env ''u'' ''me@x'' ''c0'' None default_uvn_settings None"

definition demo_cell_of :: "int \<Rightarrow> bool \<Rightarrow> cell" where
  "demo_cell_of i excluded = \<lparr>cell_id = i, cell_name = ''c'', cell_address = Some ''a.x'', cell_excluded = excluded,
     cell_allowed_lans = [], cell_enable_particles_vpn = True, cell_owner = Some 1\<rparr>"

definition demo_root_key :: "string \<Rightarrow> nat \<Rightarrow> nat wkey" where
  "demo_root_key peer m = \<lparr>wk_id = ''u:vpn:root:'' @ peer, wk_material = m, wk_dropped = False, wk_saved = True\<rparr>"

text \<open>A registry with an active and an excluded cell, whose root keys are in the database.\<close>

definition demo_two :: "(nat, nat) registry" where
  "demo_two = demo_new\<lparr>rg_uvn := (rg_uvn demo_new)\<lparr>uvn_all_cells := [demo_cell_of 3 False, demo_cell_of 4 True]\<rparr>,
     rg_asymm := [demo_root_key ''root'' 0, demo_root_key ''peer:3'' 1, demo_root_key ''peer:4'' 2]\<rparr>"

lemma demo_reachable: "reg_reachable (snd demo_created)"
  unfolding demo_created_def by (rule reg_reachable.created [OF prod.collapse [symmetric]])

lemma run_result: "fst x = Inr () \<Longrightarrow> x = (Inr (), snd x)"
  by (cases x) simp



theorem generate_redeploys_witness:
  "needs_redeployment demo_new \<and> \<not> needs_redeployment (snd (generate_artifacts demo_env demo_new))
    \<and> (\<exists>links rest. redeploy_links (en_rnd demo_env) (rg_uvn demo_new) = Inr (links, rest)
         \<and> rg_deployment (snd (generate_artifacts demo_env demo_new)) = Some links)"
proof -
  have g: "generate_artifacts demo_env demo_new = (Inr (), snd (generate_artifacts demo_env demo_new))"
    by (rule run_result) code_simp
  have n: "needs_redeployment demo_new" "\<not> rg_readonly demo_new"
    by (simp_all add: demo_new_def new_registry_def Let_def needs_redeployment_def)
  show ?thesis using generate_redeploys [OF g n(2)] n(1) by simp
qed

lemma demo_rekeyed_cell: "fst (rekey_cell (demo_cell_of 3 False) True False False demo_two) = Inr ()"
  by code_simp

theorem rekeyed_id_kept_witness:
  "rg_rekeyed_id (snd (rekey_cell (demo_cell_of 3 False) True False False demo_two)) = Some ''c0''"
proof -
  have i: "vo_initialized (rg_obj demo_two)" "rg_rekeyed_id demo_two = None" "rg_config_id demo_two = ''c0''"
    by (simp_all add: demo_two_def demo_new_def new_registry_def Let_def)
  show ?thesis using rekeyed_id_kept [OF i(1) disjI2 [OF run_result [OF demo_rekeyed_cell]]] i by simp
qed

theorem rekey_locks_out_excluded_witness:
  "isl (fst (assert_root_vpn demo_env (snd (rekey_cell (demo_cell_of 3 False) True False False demo_two))))"
proof -
  have i: "root_fresh demo_two" "vo_initialized (rg_obj demo_two)" "\<not> rg_readonly demo_two"
      "us_enable_root_vpn (uvn_settings (rg_uvn demo_two))" "demo_cell_of 4 True \<in> set (uvn_all_cells (rg_uvn demo_two))"
      "cell_id (demo_cell_of 4 True) \<notin> set (active_ids demo_two)" "cell_id (demo_cell_of 4 True) \<noteq> 0"
    by (simp_all add: demo_two_def demo_new_def new_registry_def Let_def root_fresh_def is_cached_def blank_def
        default_uvn_settings_def active_ids_def uvn_cells_def demo_cell_of_def)
  show ?thesis using rekey_locks_out_excluded [OF run_result [OF demo_rekeyed_cell] i] by blast
qed

theorem ban_exact_witness:
  "map cell_excluded (uvn_all_cells (rg_uvn (snd (ban (\<lambda>_. True) True False [TCell 3] demo_two)))) = [True, True]"
proof -
  have i: "vo_initialized (rg_obj demo_two)" "\<not> rg_readonly demo_two"
      "distinct (map cell_id (uvn_all_cells (rg_uvn demo_two)))" "distinct (map particle_id (uvn_all_particles (rg_uvn demo_two)))"
      "\<forall>i. uvn_owner (rg_uvn demo_two) = Some i \<longrightarrow> TUser i \<notin> set [TCell 3]"
    by (simp_all add: demo_two_def demo_new_def new_registry_def Let_def demo_cell_of_def)
  show ?thesis using ban_exact [OF i, of "\<lambda>_. True" True False]
    by (auto simp: banned_with_user_def demo_two_def demo_cell_of_def)
qed

text \<open>A third cell with a network of its own.\<close>

definition demo_third :: "(py_error + cell) \<times> (nat, nat) registry" where
  "demo_third = add_cell ''three'' None \<lparr>cc_address = Some ''b.x'', cc_allowed_lans = Some [net 10 0 0 0 24],
     cc_enable_particles_vpn = None\<rparr> (demo_two\<lparr>rg_next_id := 4\<rparr>)"

theorem add_cell_validity_witness:
  "validate_uvn (rg_uvn (snd demo_third)) = Inr ()"
proof -
  let ?r = "demo_two\<lparr>rg_next_id := 4\<rparr>"
  have "case fst demo_third of Inl _ \<Rightarrow> False | Inr c \<Rightarrow> cell_allowed_lans c = [net 10 0 0 0 24]" by code_simp
  then obtain c where f: "fst demo_third = Inr c" and l: "cell_allowed_lans c = [net 10 0 0 0 24]"
    by (cases "fst demo_third") auto
  then have a: "demo_third = (Inr c, snd demo_third)" by (metis prod.collapse)
  have i: "vo_initialized (rg_obj ?r)"
      "\<forall>c \<in> set (uvn_all_cells (rg_uvn ?r)). lans_ok c \<and> cell_id c \<noteq> rg_next_id ?r + 1"
    by (simp_all add: demo_two_def demo_new_def new_registry_def Let_def demo_cell_of_def lans_ok_def)
  have v: "validate_uvn (rg_uvn ?r) = Inr ()" by code_simp
  have ok: "lans_ok c" using l by (simp add: lans_ok_def) code_simp
  have "\<forall>x \<in> set (uvn_excluded_cells (rg_uvn ?r)). lans_disjoint c x"
    by (auto simp: uvn_excluded_cells_def demo_two_def demo_cell_of_def lans_disjoint_def)
  then show ?thesis using add_cell_validity [OF a [unfolded demo_third_def] i(1) v i(2) ok]
    by (simp add: demo_third_def)
qed

end
