(* ===== verification/Database.thy ===== *)
theory Database
  imports Versioned "HOL-Library.Product_Lexorder"
begin

text \<open>
  The object store of \<open>registry/database.py\<close> and \<open>registry/database_object.py\<close>: tables of rows, objects with their
  flags, transactions, and saving, loading, deleting and owning objects. A statement of SQL is the change it makes to
  the tables. A column holds a \<open>json\<close> value; \<open>JNull\<close> is NULL, and a value that is dumped into a text column stands for
  the text. The constraints of the SQL schema are in the record of the schema. An object is a reference; two objects
  that Python compares as equal are taken to be the same object.
\<close>

section \<open>Tables\<close>

type_synonym row = "string \<Rightarrow> json"

text \<open>Rows in the order of their insertion, and the table \<open>next_id\<close>.\<close>

record sqldb =
  sq_rows :: "string \<Rightarrow> (nat \<times> row) list"
  sq_next :: "(string \<times> nat) list"

record db_class =
  c_name :: string
  c_table :: "string option"
  c_pool :: "string option"
  c_props :: "string list"
  c_keys :: "string list list"
  c_secrets :: "string list"
  c_cached :: bool
  c_order :: "string list"
  c_owner_col :: "string option"
  c_owners :: "string list"
  c_ownable :: bool

text \<open>\<open>sc_unique\<close> and \<open>sc_check\<close> are the constraints of the tables, \<open>sc_types\<close> is \<open>DatabaseSchema._ObjectsByTable\<close>;
  \<open>sc_valid\<close> tells whether \<open>validate\<close> accepts an object that was loaded with these values.\<close>

record db_schema =
  sc_unique :: "string \<Rightarrow> string list list"
  sc_check :: "string \<Rightarrow> row \<Rightarrow> bool"
  sc_types :: "(string \<times> db_class) list"
  sc_valid :: "db_class \<Rightarrow> row \<Rightarrow> bool"

definition row_put :: "(string \<times> json) list \<Rightarrow> row \<Rightarrow> row" where
  "row_put kvs r = (\<lambda>c. case map_of kvs c of None \<Rightarrow> r c | Some v \<Rightarrow> v)"

definition no_row :: row where "no_row = (\<lambda>_. JNull)"

definition same_key :: "string list \<Rightarrow> row \<Rightarrow> row \<Rightarrow> bool" where
  "same_key cols r r' \<longleftrightarrow> (\<forall>c \<in> set cols. r c \<noteq> JNull \<and> r c = r' c)"

text \<open>A row is accepted beside the others: the checks hold and no unique key is taken.\<close>

definition row_ok :: "db_schema \<Rightarrow> string \<Rightarrow> nat \<Rightarrow> row \<Rightarrow> sqldb \<Rightarrow> bool" where
  "row_ok sc t i r db \<longleftrightarrow> sc_check sc t r \<and>
     (\<forall>(j, r') \<in> set (sq_rows db t). j \<noteq> i \<longrightarrow> (\<forall>cols \<in> set (sc_unique sc t). \<not> same_key cols r r'))"

definition sql_insert :: "db_schema \<Rightarrow> string \<Rightarrow> nat \<Rightarrow> (string \<times> json) list \<Rightarrow> (sqldb, unit) op" where
  "sql_insert sc t i kvs db =
     (let r = row_put kvs no_row in
      if i = 0 \<or> map_of (sq_rows db t) i \<noteq> None \<or> \<not> row_ok sc t i r db then op_raise IntegrityError db
      else op_return () (db\<lparr>sq_rows := (sq_rows db)(t := sq_rows db t @ [(i, r)])\<rparr>))"

definition sql_update :: "db_schema \<Rightarrow> string \<Rightarrow> nat \<Rightarrow> (string \<times> json) list \<Rightarrow> (sqldb, unit) op" where
  "sql_update sc t i kvs db =
     (case map_of (sq_rows db t) i of
        None \<Rightarrow> op_return () db
      | Some r \<Rightarrow>
          if \<not> row_ok sc t i (row_put kvs r) db then op_raise IntegrityError db
          else op_return () (db\<lparr>sq_rows := (sq_rows db)(t := AList.update i (row_put kvs r) (sq_rows db t))\<rparr>))"

definition sql_delete :: "string \<Rightarrow> (nat \<times> row \<Rightarrow> bool) \<Rightarrow> sqldb \<Rightarrow> sqldb" where
  "sql_delete t wh db = db\<lparr>sq_rows := (sq_rows db)(t := filter (\<lambda>x. \<not> wh x) (sq_rows db t))\<rparr>"

section \<open>Objects\<close>

type_synonym ref = nat

text \<open>\<open>o_vals\<close> are the values of the attributes as \<open>serialize\<close> and \<open>_dump_field\<close> leave them.
  An owner is its \<open>object_id\<close>; \<open>o_given\<close> is the owner from the constructor, \<open>o_owner\<close> the cached property.\<close>

type_synonym object_id = "string \<times> nat"

record dbobj =
  o_class :: db_class
  o_id :: "nat option"
  o_parent :: "ref option"
  o_vals :: "string \<Rightarrow> json"
  o_saved :: bool
  o_loaded :: bool
  o_disposed :: bool
  o_valid :: bool
  o_changed :: "string set"
  o_given :: "object_id option"
  o_owner :: "object_id option option"

text \<open>An object with what its property \<open>nested\<close> yields.\<close>

datatype onode = ONode (nd_ref: ref) (nd_nested: "onode list")

text \<open>The cache is keyed by table, but \<open>delete\<close> removes a key that is an id.\<close>

datatype cache_key = TableKey string | IdKey nat

text \<open>\<open>ds_work\<close> is what the connection sees, \<open>ds_done\<close> what is committed.\<close>

record db_state =
  ds_work :: sqldb
  ds_done :: sqldb
  ds_objs :: "ref \<Rightarrow> dbobj"
  ds_fresh :: ref
  ds_cache :: "(cache_key \<times> (nat \<times> ref) list) list"
  ds_cursor :: bool

definition obj_table :: "db_state \<Rightarrow> ref \<Rightarrow> string option" where
  "obj_table s r = c_table (o_class (ds_objs s r))"

definition transient_object :: "db_state \<Rightarrow> ref \<Rightarrow> bool" where
  "transient_object s r \<longleftrightarrow> obj_table s r = None"

definition set_obj :: "ref \<Rightarrow> (dbobj \<Rightarrow> dbobj) \<Rightarrow> db_state \<Rightarrow> db_state" where
  "set_obj r f s = s\<lparr>ds_objs := (ds_objs s)(r := f (ds_objs s r))\<rparr>"

text \<open>\<open>lookup_table_by_object\<close> and \<open>lookup_id_table_by_object\<close>.\<close>

definition lookup_table :: "db_class \<Rightarrow> string res" where
  "lookup_table c = the_or KeyError (c_table c)"

definition lookup_id_table :: "db_class \<Rightarrow> string res" where
  "lookup_id_table c = (case c_pool c of Some p \<Rightarrow> Inr p | None \<Rightarrow> lookup_table c)"

definition lookup_object_by_table :: "db_schema \<Rightarrow> string \<Rightarrow> db_class res" where
  "lookup_object_by_table sc t = the_or KeyError (map_of (sc_types sc) t)"

text \<open>\<open>register_type\<close>; the last argument tells when the class extends the one that has the table.\<close>

definition register_type :: "db_class \<Rightarrow> (db_class \<Rightarrow> bool) \<Rightarrow> db_schema \<Rightarrow> db_schema res" where
  "register_type c subclass sc =
     (case c_table c of
        None \<Rightarrow> Inr sc
      | Some t \<Rightarrow> (case map_of (sc_types sc) t of
            None \<Rightarrow> Inr (sc\<lparr>sc_types := AList.update t c (sc_types sc)\<rparr>)
          | Some c' \<Rightarrow> if subclass c' then Inr sc else Inl (ValueError ''DB_TABLE already in use'')))"

fun set_id :: "nat \<Rightarrow> dbobj \<Rightarrow> dbobj res" where
  "set_id i o1 = (if o_id o1 \<noteq> None \<and> o_id o1 \<noteq> Some i then Inl (ValueError ''cannot change already set id'')
                  else Inr (o1\<lparr>o_id := Some i\<rparr>))"

section \<open>Nested objects and flags\<close>

fun collect_nested :: "(onode \<Rightarrow> bool) \<Rightarrow> onode \<Rightarrow> onode list" where
  "collect_nested p (ONode r ns) =
     concat (map (collect_nested p) ns) @ (if p (ONode r ns) then [ONode r ns] else [])"

definition subnodes :: "onode \<Rightarrow> onode list" where
  "subnodes = collect_nested (\<lambda>_. True)"

lemma subnodes_simp [simp]: "subnodes (ONode r ns) = concat (map subnodes ns) @ [ONode r ns]"
  by (simp add: subnodes_def)

lemma collect_nested_filter: "collect_nested p n = filter p (subnodes n)"
  by (induction n) (simp add: filter_concat cong: map_cong)

lemma subnodes_size: "m \<in> set (subnodes n) \<Longrightarrow> size m \<le> size n"
proof (induction n)
  case (ONode r ns)
  show ?case
  proof (cases "m = ONode r ns")
    case False
    then obtain n' where n': "n' \<in> set ns" "m \<in> set (subnodes n')"
      using ONode.prems by auto
    have "size n' \<le> size_list size ns"
      using n'(1) by (simp add: size_list_estimation')
    then show ?thesis
      using ONode.IH [OF n'] by simp
  qed simp
qed

text \<open>The property \<open>saved\<close>: the own flag, and no nested object that is not saved.\<close>

function is_saved :: "db_state \<Rightarrow> onode \<Rightarrow> bool" where
  "is_saved s (ONode r ns) \<longleftrightarrow>
     o_saved (ds_objs s r) \<and>
     (\<forall>n \<in> set ns. \<forall>m \<in> set (subnodes n). nd_ref m = r \<or> is_saved s m)"
  by pat_completeness auto

termination is_saved
proof (relation "measure (\<lambda>(s, n). size n)")
  fix s r ns n m
  assume "n \<in> set ns" "m \<in> set (subnodes n)" 
  then have "size m \<le> size_list size ns"
    using subnodes_size [of m n] by (meson le_trans size_list_estimation' order_refl)
  then show "((s, m), (s, ONode r ns)) \<in> measure (\<lambda>(s, n). size n)"
    by simp
qed simp

definition dirty :: "db_state \<Rightarrow> onode \<Rightarrow> bool" where
  "dirty s n \<longleftrightarrow> \<not> is_saved s n"

text \<open>\<open>saved = True\<close> goes down to transient objects, \<open>saved = False\<close> up the parents, within Python's limit of calls.\<close>

fun set_saved :: "onode \<Rightarrow> db_state \<Rightarrow> db_state" where
  "set_saved (ONode r ns) s =
     fold (\<lambda>n s. if transient_object s (nd_ref n) then set_saved n s else s) ns
       (set_obj r (\<lambda>x. x\<lparr>o_saved := True\<rparr>) s)"

primrec mark_unsaved :: "nat \<Rightarrow> ref \<Rightarrow> (db_state, unit) op" where
  "mark_unsaved 0 r = op_raise (RuntimeError ''RecursionError'')"
| "mark_unsaved (Suc n) r = (\<lambda>s.
     let s1 = set_obj r (\<lambda>x. x\<lparr>o_saved := False\<rparr>) s in
     case o_parent (ds_objs s r) of None \<Rightarrow> op_return () s1 | Some p \<Rightarrow> mark_unsaved n p s1)"

definition collect_changes :: "db_state \<Rightarrow> onode \<Rightarrow> onode list" where
  "collect_changes s = collect_nested (dirty s)"

section \<open>Cursors and transactions\<close>

text \<open>\<open>inject_cursor\<close>: the first argument tells that the caller passed a cursor. After an exception the
  created cursor stays.\<close>

definition inject_cursor :: "bool \<Rightarrow> (db_state, 'a) op \<Rightarrow> (db_state, 'a) op" where
  "inject_cursor passed wrapped s =
     (if passed then wrapped s
      else case wrapped (s\<lparr>ds_cursor := True\<rparr>) of
             (Inl e, s') \<Rightarrow> (Inl e, s')
           | (Inr x, s') \<Rightarrow> (Inr x, if ds_cursor s then s' else s'\<lparr>ds_cursor := False\<rparr>))"

text \<open>\<open>with db._db\<close>: commit, or roll back and raise. The objects keep what was done to them.\<close>

definition with_db :: "(db_state, 'a) op \<Rightarrow> (db_state, 'a) op" where
  "with_db action s =
     (case action s of
        (Inr x, s') \<Rightarrow> (Inr x, s'\<lparr>ds_done := ds_work s'\<rparr>)
      | (Inl e, s') \<Rightarrow> (Inl e, s'\<lparr>ds_work := ds_done s'\<rparr>))"

definition inject_transaction :: "bool \<Rightarrow> (db_state, 'a) op \<Rightarrow> (db_state, 'a) op" where
  "inject_transaction passed action =
     inject_cursor passed (if passed then action else with_db action)"

definition sql :: "(sqldb, 'a) op \<Rightarrow> (db_state, 'a) op" where
  "sql stmt s = (case stmt (ds_work s) of (r, db) \<Rightarrow> (r, s\<lparr>ds_work := db\<rparr>))"

text \<open>The next id of a table; the counter is a row of the database too.\<close>

definition next_id :: "db_class \<Rightarrow> (db_state, nat) op" where
  "next_id c s =
     (case lookup_id_table c of
        Inl e \<Rightarrow> (Inl e, s)
      | Inr t \<Rightarrow> (case map_of (sq_next (ds_work s)) t of
            None \<Rightarrow> (Inl (AttributeError ''next''), s)
          | Some n \<Rightarrow> (Inr (Suc n),
              s\<lparr>ds_work := (ds_work s)\<lparr>sq_next := AList.update t (Suc n) (sq_next (ds_work s))\<rparr>\<rparr>)))"

section \<open>Writing one object\<close>

definition obj_fields :: "bool \<Rightarrow> dbobj \<Rightarrow> (string \<times> json) list" where
  "obj_fields public x =
     map (\<lambda>p. (p, if public \<and> p \<in> set (c_secrets (o_class x)) then JNull else o_vals x p)) (c_props (o_class x))"

definition key_matches :: "dbobj \<Rightarrow> string list \<Rightarrow> nat \<times> row \<Rightarrow> bool" where
  "key_matches x key ir \<longleftrightarrow> (\<forall>f \<in> set key. o_vals x f \<noteq> JNull \<and> snd ir f = o_vals x f)"

definition delete_where :: "string \<Rightarrow> (nat \<times> row \<Rightarrow> bool) \<Rightarrow> (db_state, unit) op" where
  "delete_where t wh = op_modify (\<lambda>s. s\<lparr>ds_work := sql_delete t wh (ds_work s)\<rparr>)"

definition ensure_id :: "ref \<Rightarrow> (db_state, unit) op" where
  "ensure_id r s =
     (case o_id (ds_objs s r) of
        Some i \<Rightarrow> op_return () s
      | None \<Rightarrow> op_bind (next_id (o_class (ds_objs s r)))
          (\<lambda>i s1. case set_id i (ds_objs s1 r) of Inl e \<Rightarrow> (Inl e, s1) | Inr x \<Rightarrow> (Inr (), set_obj r (\<lambda>_. x) s1)) s)"

text \<open>An import replaces the rows with the same keys, or asks whether the row is there.\<close>

definition write_creates :: "ref \<Rightarrow> string \<Rightarrow> bool \<Rightarrow> bool \<Rightarrow> (db_state, bool) op" where
  "write_creates r t import create s =
     (let x = ds_objs s r in
      if \<not> import then (Inr create, s)
      else if c_keys (o_class x) \<noteq> []
      then op_then (op_each (\<lambda>key. delete_where t (key_matches x key)) (c_keys (o_class x))) (op_return True) s
      else (Inr (case o_id x of None \<Rightarrow> True | Some i \<Rightarrow> map_of (sq_rows (ds_work s) t) i = None), s))"

definition create_or_update ::
  "db_schema \<Rightarrow> ref \<Rightarrow> (string \<times> json) list \<Rightarrow> string \<Rightarrow> bool \<Rightarrow> bool \<Rightarrow> (db_state, unit) op" where
  "create_or_update sc r kvs t import create =
     op_then (ensure_id r) (op_bind (write_creates r t import create) (\<lambda>create s.
       let cols = filter (\<lambda>(p, v). p \<noteq> ''id'') kvs in
       case o_id (ds_objs s r) of
         None \<Rightarrow> (Inl AssertionError, s)
       | Some i \<Rightarrow>
           if create then sql (sql_insert sc t i cols) s
           else if cols = [] then (Inl OperationalError, s)
           else sql (sql_update sc t i cols) s))"

text \<open>\<open>Versioned.save\<close>; \<open>now\<close> is the time of the save.\<close>

definition obj_save :: "db_schema \<Rightarrow> json \<Rightarrow> bool \<Rightarrow> bool \<Rightarrow> bool \<Rightarrow> ref \<Rightarrow> (db_state, unit) op" where
  "obj_save sc now public import create r s =
     (if c_props (o_class (ds_objs s r)) = [] then (Inr (), s)
      else let s1 = set_obj r (\<lambda>x. x\<lparr>o_vals := (o_vals x)(''generation_ts'' := now)\<rparr>) s in
        case obj_table s1 r of
          None \<Rightarrow> (Inr (), s1)
        | Some t \<Rightarrow> create_or_update sc r (obj_fields public (ds_objs s1 r)) t import create s1)"

section \<open>Loading\<close>

definition cache_of :: "db_state \<Rightarrow> string \<Rightarrow> (nat \<times> ref) list" where
  "cache_of s t = (case map_of (ds_cache s) (TableKey t) of None \<Rightarrow> [] | Some c \<Rightarrow> c)"

definition cache_put :: "string \<Rightarrow> nat \<Rightarrow> ref \<Rightarrow> db_state \<Rightarrow> db_state" where
  "cache_put t i r s = s\<lparr>ds_cache := AList.update (TableKey t) (AList.update i r (cache_of s t)) (ds_cache s)\<rparr>"

text \<open>\<open>deserialize\<close> of a row, and the flags that \<open>load\<close> sets on a new instance.\<close>

definition deserialize :: "db_schema \<Rightarrow> db_class \<Rightarrow> string \<Rightarrow> object_id option \<Rightarrow> nat \<times> row \<Rightarrow> (db_state, ref) op" where
  "deserialize sc c t owner ir s =
     (case map_of (cache_of s t) (fst ir) of
        Some r \<Rightarrow> (Inr r, s)
      | None \<Rightarrow>
          let r = ds_fresh s;
              x = \<lparr>o_class = c, o_id = Some (fst ir), o_parent = None, o_vals = snd ir, o_saved = True, o_loaded = True,
                   o_disposed = False, o_valid = sc_valid sc c (snd ir), o_changed = {}, o_given = owner, o_owner = None\<rparr>;
              s1 = s\<lparr>ds_objs := (ds_objs s)(r := x), ds_fresh := Suc r\<rparr>
          in (Inr r, if c_cached c \<and> fst ir \<noteq> 0 then cache_put t (fst ir) r s1 else s1))"

datatype query = ById nat | Where "nat \<times> row \<Rightarrow> bool" | ByOwner object_id | AllRows

definition owner_value :: "object_id \<Rightarrow> json" where
  "owner_value oid = JList [JStr (fst oid), JInt (int (snd oid))]"

definition order_value :: "nat \<times> row \<Rightarrow> string \<Rightarrow> nat \<times> string" where
  "order_value ir col =
     (if col = ''id'' then (fst ir, [])
      else case snd ir col of
          JStr v \<Rightarrow> (0, v)
        | JInt v \<Rightarrow> (nat v, [])
        | JBool b \<Rightarrow> (if b then 1 else 0, [])
        | _ \<Rightarrow> (0, []))"

definition order_by :: "db_class \<Rightarrow> (nat \<times> row) list \<Rightarrow> (nat \<times> row) list" where
  "order_by c = sort_key (\<lambda>ir. map (order_value ir) (c_order c))"

text \<open>The rows that a query selects. An owner is found through the column of the object's own table.\<close>

definition select_rows :: "db_class \<Rightarrow> string \<Rightarrow> query \<Rightarrow> sqldb \<Rightarrow> (nat \<times> row) list res" where
  "select_rows c t q db =
     (case q of
        ById i \<Rightarrow> Inr (filter (\<lambda>ir. fst ir = i) (sq_rows db t))
      | Where wh \<Rightarrow> Inr (order_by c (filter wh (sq_rows db t)))
      | AllRows \<Rightarrow> Inr (order_by c (sq_rows db t))
      | ByOwner oid \<Rightarrow>
          if \<not> c_ownable c then Inl (ValueError ''not ownable'')
          else case c_owner_col c of
              None \<Rightarrow> Inl (RuntimeError ''NotImplementedError'')
            | Some col \<Rightarrow>
                if fst oid \<notin> set (c_owners c) then Inl KeyError
                else Inr (order_by c (filter (\<lambda>ir. snd ir col = owner_value oid) (sq_rows db t))))"

fun load_each :: "db_schema \<Rightarrow> db_class \<Rightarrow> string \<Rightarrow> object_id option \<Rightarrow> (nat \<times> row) list \<Rightarrow> (db_state, ref list) op" where
  "load_each sc c t owner [] = op_return []"
| "load_each sc c t owner (ir # rows) =
     op_bind (deserialize sc c t owner ir) (\<lambda>r. op_bind (load_each sc c t owner rows) (\<lambda>rs. op_return (r # rs)))"

definition load :: "db_schema \<Rightarrow> db_class \<Rightarrow> query \<Rightarrow> (db_state, ref list) op" where
  "load sc c q s =
     (case lookup_table c of
        Inl e \<Rightarrow> (Inl e, s)
      | Inr t \<Rightarrow>
          let rows = (case select_rows c t q (ds_work s) of
                        Inl e \<Rightarrow> (Inl e, s)
                      | Inr rs \<Rightarrow> load_each sc c t (case q of ByOwner oid \<Rightarrow> Some oid | _ \<Rightarrow> None) rs s)
          in case q of
               ById i \<Rightarrow> (case map_of (cache_of s t) i of Some r \<Rightarrow> (Inr [r], s) | None \<Rightarrow> rows)
             | _ \<Rightarrow> rows)"

definition load_object_id :: "db_schema \<Rightarrow> object_id \<Rightarrow> (db_state, ref) op" where
  "load_object_id sc oid s =
     (case lookup_object_by_table sc (fst oid) of
        Inl e \<Rightarrow> (Inl e, s)
      | Inr c \<Rightarrow> op_bind (load sc c (ById (snd oid))) (\<lambda>rs. case rs of [] \<Rightarrow> op_raise StopIteration | r # _ \<Rightarrow> op_return r) s)"

section \<open>Owners\<close>

text \<open>\<open>lookup_owner_table_by_object\<close>: the column of an owner's class.\<close>

definition owner_column :: "db_class \<Rightarrow> string \<Rightarrow> string res" where
  "owner_column c owner_table =
     (if \<not> c_ownable c then Inl (ValueError ''not ownable'')
      else case c_owner_col c of
          None \<Rightarrow> Inl (RuntimeError ''NotImplementedError'')
        | Some col \<Rightarrow> if owner_table \<in> set (c_owners c) then Inr col else Inl KeyError)"

fun parse_owner_id :: "json \<Rightarrow> object_id res" where
  "parse_owner_id (JList (JStr t # JInt i # _)) = Inr (t, nat i)"
| "parse_owner_id _ = Inl (TypeError ''owner_id'')"

text \<open>All owner classes share the column, so it is searched once. The owner must be a row or be cached.\<close>

definition db_owner :: "db_schema \<Rightarrow> ref \<Rightarrow> (db_state, object_id option) op" where
  "db_owner sc r s =
     (let c = o_class (ds_objs s r) in
      if \<not> c_ownable c then (Inl AssertionError, s)
      else if c_owners c = [] then (Inr None, s)
      else case rbind (owner_column c (hd (c_owners c))) (\<lambda>col. rbind (lookup_table c) (\<lambda>t. Inr (col, t))) of
          Inl e \<Rightarrow> (Inl e, s)
        | Inr (col, t) \<Rightarrow>
            case (case o_id (ds_objs s r) of None \<Rightarrow> None | Some i \<Rightarrow> map_of (sq_rows (ds_work s) t) i) of
              None \<Rightarrow> (Inr None, s)
            | Some row \<Rightarrow>
                if row col = JNull then (Inr None, s)
                else case rbind (parse_owner_id (row col)) (\<lambda>oid.
                       rbind (lookup_object_by_table sc (fst oid)) (\<lambda>_.
                       rbind (require (fst oid \<in> set (c_owners c)) AssertionError) (\<lambda>_. Inr oid))) of
                    Inl e \<Rightarrow> (Inl e, s)
                  | Inr oid \<Rightarrow> op_then (load_object_id sc oid) (op_return (Some oid)) s)"

text \<open>The cached property \<open>owner\<close>: the constructor's argument wins.\<close>

definition get_owner :: "db_schema \<Rightarrow> ref \<Rightarrow> (db_state, object_id option) op" where
  "get_owner sc r s =
     (let x = ds_objs s r in
      case o_owner x of
        Some v \<Rightarrow> (Inr v, s)
      | None \<Rightarrow>
          op_bind (if o_given x \<noteq> None then op_return (o_given x)
                   else if o_id x = None then op_return None
                   else db_owner sc r)
            (\<lambda>v. op_then (op_modify (set_obj r (\<lambda>x. x\<lparr>o_owner := Some v\<rparr>))) (op_return v)) s)"

text \<open>\<open>_set_ownership\<close> for one target; the result tells whether the ownership changed. The attribute
  \<open>owner_id\<close> is computed anew, from the constructor's owner when there is one.\<close>

definition own_one ::
  "db_schema \<Rightarrow> object_id \<Rightarrow> bool \<Rightarrow> (ref \<times> object_id option) list \<Rightarrow> ref \<Rightarrow> (db_state, bool) op" where
  "own_one sc owner owned current r s =
     (let now = (case map_of current r of Some v \<Rightarrow> v | None \<Rightarrow> None); c = o_class (ds_objs s r) in
      if (owned \<and> now = Some owner) \<or> (\<not> owned \<and> now \<noteq> Some owner) then (Inr False, s)
      else case rbind (owner_column c (fst owner)) (\<lambda>col. rbind (lookup_table c) (\<lambda>t. Inr (col, t))) of
          Inl e \<Rightarrow> (Inl e, s)
        | Inr (col, t) \<Rightarrow>
            op_then
              (case o_id (ds_objs s r) of
                 None \<Rightarrow> op_return ()
               | Some i \<Rightarrow> sql (sql_update sc t i [(col, if owned then owner_value owner else JNull)]))
              (op_then (op_modify (set_obj r (\<lambda>x. x\<lparr>o_owner := None,
                  o_vals := (o_vals x)(''owner_id'' :=
                    (case o_given x of Some oid \<Rightarrow> owner_value oid | None \<Rightarrow> if owned then owner_value owner else JNull))\<rparr>)))
                (op_return True)) s)"

fun own_each ::
  "db_schema \<Rightarrow> object_id \<Rightarrow> bool \<Rightarrow> (ref \<times> object_id option) list \<Rightarrow> ref list \<Rightarrow> (db_state, (ref \<times> bool) list) op" where
  "own_each sc owner owned current [] = op_return []"
| "own_each sc owner owned current (r # rs) =
     op_bind (own_one sc owner owned current r) (\<lambda>b.
     op_bind (own_each sc owner owned current rs) (\<lambda>bs. op_return ((r, b) # bs)))"

text \<open>The owner is \<open>None\<close> when it has no \<open>object_id\<close> yet.\<close>

definition set_ownership_rows ::
  "db_schema \<Rightarrow> object_id option \<Rightarrow> bool \<Rightarrow> (ref \<times> object_id option) list \<Rightarrow> ref list \<Rightarrow> (db_state, (ref \<times> bool) list) op" where
  "set_ownership_rows sc owner owned current targets =
     (case owner of
        None \<Rightarrow> op_raise (ValueError ''invalid owner'')
      | Some oid \<Rightarrow> own_each sc oid owned current targets)"

fun owners_of :: "db_schema \<Rightarrow> ref list \<Rightarrow> (db_state, (ref \<times> object_id option) list) op" where
  "owners_of sc [] = op_return []"
| "owners_of sc (r # rs) =
     op_bind (db_owner sc r) (\<lambda>v. op_bind (owners_of sc rs) (\<lambda>vs. op_return ((r, v) # vs)))"

definition db_set_ownership ::
  "db_schema \<Rightarrow> object_id option \<Rightarrow> bool \<Rightarrow> ref list \<Rightarrow> bool \<Rightarrow> bool \<Rightarrow> (db_state, (ref \<times> bool) list) op" where
  "db_set_ownership sc owner excluded targets owned cursor =
     inject_transaction cursor
       (if excluded \<and> owned then op_raise (ValueError ''cannot transfer ownership to excluded owner'')
        else op_bind (owners_of sc targets) (\<lambda>current. set_ownership_rows sc owner owned current targets))"

section \<open>Deleting\<close>

text \<open>\<open>_query_targets\<close>: an object is put back behind its nested ones, and yielded when it comes up again.\<close>

definition queue_refs :: "onode list \<Rightarrow> ref set" where
  "queue_refs q = nd_ref ` set (concat (map subnodes q))"

lemma queue_refs_simps [simp]:
  "queue_refs [] = {}"
  "queue_refs (n # q) = nd_ref ` set (subnodes n) \<union> queue_refs q"
  "queue_refs (q @ q') = queue_refs q \<union> queue_refs q'"
  by (auto simp: queue_refs_def)

lemma queue_refs_nested: "nd_ref ` set (subnodes (ONode r ns)) = insert r (queue_refs ns)"
  by (auto simp: queue_refs_def)

lemma queue_refs_finite [simp]: "finite (queue_refs q)"
  by (simp add: queue_refs_def)

function delete_targets :: "ref set \<Rightarrow> onode list \<Rightarrow> ref list" where
  "delete_targets processed [] = []"
| "delete_targets processed (ONode r ns # remaining) =
     (if r \<in> processed then r # delete_targets processed remaining
      else delete_targets (insert r processed) (remaining @ ns @ [ONode r ns]))"
  by pat_completeness auto

termination delete_targets
proof (relation "measures [\<lambda>(p, q). card (queue_refs q - p), \<lambda>(p, q). length q]")
  fix p r ns q
  have "card (queue_refs q - p) \<le> card (queue_refs (ONode r ns # q) - p)"
    by (rule card_mono) (auto simp: queue_refs_finite simp del: subnodes_simp)
  then show "((p, q), (p, ONode r ns # q)) \<in> measures [\<lambda>(p, q). card (queue_refs q - p), \<lambda>(p, q). length q]"
    by auto
next
  fix p :: "ref set" and r :: ref and ns q
  assume "r \<notin> p"
  then have "queue_refs (q @ ns @ [ONode r ns]) - insert r p \<subset> queue_refs (ONode r ns # q) - p"
    by (auto simp: queue_refs_nested simp del: subnodes_simp)
  then have "card (queue_refs (q @ ns @ [ONode r ns]) - insert r p) < card (queue_refs (ONode r ns # q) - p)"
    by (meson psubset_card_mono finite_Diff queue_refs_finite)
  then show "((insert r p, q @ ns @ [ONode r ns]), (p, ONode r ns # q))
      \<in> measures [\<lambda>(p, q). card (queue_refs q - p), \<lambda>(p, q). length q]"
    by auto
qed simp

text \<open>\<open>_set_ownership\<close> is called without the current owners, and so finds every ownership unchanged.\<close>

definition release_one :: "db_schema \<Rightarrow> ref \<Rightarrow> (db_state, unit) op" where
  "release_one sc r s =
     (if \<not> c_ownable (o_class (ds_objs s r)) then (Inr (), s)
      else op_bind (get_owner sc r) (\<lambda>v. case v of
             None \<Rightarrow> op_return ()
           | Some _ \<Rightarrow> op_then (set_ownership_rows sc v False [] [r]) (op_return ())) s)"

definition delete_one :: "db_class \<Rightarrow> ref \<Rightarrow> (db_state, unit) op" where
  "delete_one root r s =
     (case lookup_table root of
        Inl e \<Rightarrow> (Inl e, s)
      | Inr t \<Rightarrow>
          let i = o_id (ds_objs s r);
              s1 = (case i of None \<Rightarrow> s | Some k \<Rightarrow> s\<lparr>ds_cache := AList.delete (IdKey k) (ds_cache s)\<rparr>)
          in delete_where t (\<lambda>ir. i = Some (fst ir)) s1)"

definition delete_body :: "db_schema \<Rightarrow> onode \<Rightarrow> (db_state, unit) op" where
  "delete_body sc obj s =
     (let targets = delete_targets {} [obj] in
      op_then (op_each (release_one sc) targets)
        (op_each (delete_one (o_class (ds_objs s (nd_ref obj)))) targets) s)"

definition db_delete :: "db_schema \<Rightarrow> onode \<Rightarrow> bool \<Rightarrow> (db_state, unit) op" where
  "db_delete sc obj cursor = inject_transaction cursor (delete_body sc obj)"

section \<open>Saving\<close>

record save_args =
  sa_public :: bool
  sa_import :: bool
  sa_dirty :: bool
  sa_force :: bool
  sa_delete :: bool
  sa_chown :: "(object_id option \<times> ref list) list"

text \<open>\<open>iter_query_targets\<close> for the objects collected from one target. A \<open>StopIteration\<close> in a generator is a
  \<open>RuntimeError\<close>. The dictionary keeps the first position of an object.\<close>

definition gen_stop :: "py_error \<Rightarrow> (db_state, 'a) op" where
  "gen_stop e = op_raise (if e = StopIteration then RuntimeError ''generator raised StopIteration'' else e)"

definition current_owner :: "db_schema \<Rightarrow> ref \<Rightarrow> (db_state, object_id option) op" where
  "current_owner sc r s =
     (let x = ds_objs s r in
      if c_ownable (o_class x) \<and> o_id x \<noteq> None \<and> o_id x \<noteq> Some 0 then op_catch (db_owner sc r) gen_stop s
      else (Inr None, s))"

fun query_nodes ::
  "db_schema \<Rightarrow> save_args \<Rightarrow> bool \<Rightarrow> onode list \<Rightarrow> (ref \<times> object_id option) list \<Rightarrow> (db_state, (ref \<times> object_id option) list) op" where
  "query_nodes sc a failed [] acc =
     (if failed then op_raise (RuntimeError ''validation failed'') else op_return acc)"
| "query_nodes sc a failed (m # ms) acc = (\<lambda>s.
     let x = ds_objs s (nd_ref m) in
     if failed then op_then (db_delete sc m True) (query_nodes sc a True ms acc) s
     else if o_valid x
     then op_bind (current_owner sc (nd_ref m)) (\<lambda>v. query_nodes sc a False ms (AList.update (nd_ref m) v acc)) s
     else if sa_delete a \<or> \<not> o_loaded x
     then op_then (db_delete sc m True) (query_nodes sc a True ms acc) s
     else (Inl ValidationError, s))"

fun query_targets ::
  "db_schema \<Rightarrow> save_args \<Rightarrow> onode list \<Rightarrow> (ref \<times> object_id option) list \<Rightarrow> (db_state, (ref \<times> object_id option) list) op" where
  "query_targets sc a [] acc = op_return acc"
| "query_targets sc a (n # ns) acc = (\<lambda>s.
     op_bind (query_nodes sc a False (if sa_dirty a \<and> \<not> sa_import a then collect_changes s n else subnodes n) acc)
       (query_targets sc a ns) s)"

definition find_node :: "onode list \<Rightarrow> ref \<Rightarrow> onode" where
  "find_node ns r = (case filter (\<lambda>m. nd_ref m = r) (concat (map subnodes ns)) of [] \<Rightarrow> ONode r [] | m # _ \<Rightarrow> m)"

text \<open>A disposed object cannot be saved: its handler is passed to \<open>delete\<close> twice.\<close>

definition save_one :: "db_schema \<Rightarrow> json \<Rightarrow> save_args \<Rightarrow> onode \<Rightarrow> (db_state, unit) op" where
  "save_one sc now a n s =
     (let r = nd_ref n; x = ds_objs s r; create = (c_table (o_class x) \<noteq> None \<and> (\<not> o_loaded x \<or> sa_force a)) in
      if o_disposed x then (Inl (TypeError ''multiple values for do_in_transaction''), s)
      else op_then (obj_save sc now (sa_public a) (sa_import a) create r)
        (op_modify (\<lambda>s1. set_obj r (\<lambda>x. x\<lparr>o_loaded := (c_table (o_class x) \<noteq> None)\<rparr>)
                       (set_saved n (set_obj r (\<lambda>x. x\<lparr>o_changed := {}\<rparr>) s1)))) s)"

definition chown_one :: "db_schema \<Rightarrow> (ref \<times> object_id option) list \<Rightarrow> object_id option \<times> ref list \<Rightarrow> (db_state, unit) op" where
  "chown_one sc current oc = op_then (set_ownership_rows sc (fst oc) True current (snd oc)) (op_return ())"

definition sort_targets :: "db_state \<Rightarrow> onode list \<Rightarrow> onode list" where
  "sort_targets s = sort_key (\<lambda>n. c_name (o_class (ds_objs s (nd_ref n))))"

definition save_body :: "db_schema \<Rightarrow> json \<Rightarrow> save_args \<Rightarrow> onode list \<Rightarrow> (db_state, ref list) op" where
  "save_body sc now a targets s =
     op_bind (query_targets sc a (sort_targets s targets) []) (\<lambda>qs.
       op_then (op_each (\<lambda>r. save_one sc now a (find_node targets r)) (map fst qs))
      (op_then (op_each (chown_one sc qs) (sa_chown a)) (op_return (map fst qs)))) s"

definition save_all :: "db_schema \<Rightarrow> json \<Rightarrow> save_args \<Rightarrow> onode list \<Rightarrow> bool \<Rightarrow> (db_state, ref list) op" where
  "save_all sc now a targets cursor = inject_transaction cursor (save_body sc now a targets)"

text \<open>\<open>new\<close>, given the constructed object: a new object of a class with a table is saved with its owner.\<close>

definition db_new ::
  "db_schema \<Rightarrow> json \<Rightarrow> onode \<Rightarrow> object_id option option \<Rightarrow> bool \<Rightarrow> bool \<Rightarrow> (db_state, ref) op" where
  "db_new sc now n owner save cursor =
     inject_transaction cursor (\<lambda>s.
       let c = o_class (ds_objs s (nd_ref n));
           chown = (case owner of Some oid \<Rightarrow> if c_ownable c then [(oid, [nd_ref n])] else [] | None \<Rightarrow> [])
       in if save \<and> c_table c \<noteq> None
          then op_then (save_all sc now \<lparr>sa_public = False, sa_import = False, sa_dirty = True, sa_force = False,
                          sa_delete = True, sa_chown = chown\<rparr> [n] True) (op_return (nd_ref n)) s
          else (Inr (nd_ref n), s))"

section \<open>Classes of the registry\<close>

definition versioned_columns :: "string list" where
  "versioned_columns = [''id'', ''generation_ts'', ''init_ts'']"

definition user_class :: db_class where
  "user_class = \<lparr>c_name = ''User'', c_table = Some ''users'', c_pool = None,
     c_props = versioned_columns @ [''email'', ''name'', ''realm'', ''password'', ''excluded''],
     c_keys = [], c_secrets = [], c_cached = True, c_order = [''id''], c_owner_col = None, c_owners = [], c_ownable = False\<rparr>"

definition cell_class :: db_class where
  "cell_class = \<lparr>c_name = ''Cell'', c_table = Some ''cells'', c_pool = None,
     c_props = versioned_columns @ [''uvn_id'', ''settings'', ''address'', ''excluded'', ''name'', ''allowed_lans'', ''owner_id''],
     c_keys = [], c_secrets = [], c_cached = True, c_order = [''id''],
     c_owner_col = Some ''owner_id'', c_owners = [''users''], c_ownable = True\<rparr>"

definition cell_settings_class :: db_class where
  "cell_settings_class = \<lparr>c_name = ''CellSettings'', c_table = None, c_pool = None,
     c_props = versioned_columns @ [''enable_particles_vpn'', ''httpd_port'', ''location''],
     c_keys = [], c_secrets = [], c_cached = True, c_order = [''id''], c_owner_col = None, c_owners = [], c_ownable = True\<rparr>"

definition uvn_class :: db_class where
  "uvn_class = \<lparr>c_name = ''Uvn'', c_table = Some ''uvns'', c_pool = None,
     c_props = versioned_columns @ [''name'', ''address'', ''settings'', ''owner_id''],
     c_keys = [], c_secrets = [], c_cached = True, c_order = [''id''],
     c_owner_col = Some ''owner_id'', c_owners = [''users''], c_ownable = True\<rparr>"

text \<open>The unique columns of the tables of users, UVNs and cells.\<close>

definition registry_tables :: db_schema where
  "registry_tables = \<lparr>
     sc_unique = (\<lambda>t. if t = ''users'' then [[''email''], [''password'']] else if t \<in> {''cells'', ''uvns''} then [[''name''], [''address'']] else []),
     sc_check = (\<lambda>_ _. True),
     sc_types = [(''users'', user_class), (''uvns'', uvn_class), (''cells'', cell_class)],
     sc_valid = (\<lambda>_ _. True)\<rparr>"

end
