(* ===== verification/Database_Laws.thy ===== *)
theory Database_Laws
  imports Database
begin

text \<open>
  What the object store promises. The tables are seen as a map from object ids to rows; the locale \<open>row_store\<close> is the
  contract of such a store, interpreted on the tables. Saving refines the update of this map, keeps objects and rows in
  agreement and gives no id twice; a transaction that fails restores the rows and not the objects.
\<close>

declare split_paired_All [simp del] split_paired_Ex [simp del]

section \<open>The abstract store\<close>

type_synonym store = "object_id \<Rightarrow> row option"

locale row_store =
  fixes look :: "'d \<Rightarrow> 'k \<Rightarrow> 'r option"
    and put :: "'k \<Rightarrow> 'r \<Rightarrow> 'd \<Rightarrow> 'd"
    and keep :: "('k \<Rightarrow> bool) \<Rightarrow> 'd \<Rightarrow> 'd"
  assumes look_put: "look (put k r d) = (look d)(k \<mapsto> r)"
    and look_keep: "look (keep p d) = (\<lambda>k. if p k then look d k else None)"
begin

definition write_all :: "('k \<times> ('r option \<Rightarrow> 'r)) list \<Rightarrow> 'd \<Rightarrow> 'd" where
  "write_all ws d = fold (\<lambda>(k, f) d. put k (f (look d k)) d) ws d"

lemma look_write_all_other: "k \<notin> fst ` set ws \<Longrightarrow> look (write_all ws d) k = look d k"
  by (induction ws arbitrary: d) (auto simp: write_all_def look_put)

lemma look_write_all: "distinct (map fst ws) \<Longrightarrow> (k, f) \<in> set ws \<Longrightarrow> look (write_all ws d) k = Some (f (look d k))"
proof (induction ws arbitrary: d)
  case (Cons w ws)
  obtain k1 f1 where w: "w = (k1, f1)" by (cases w)
  let ?d = "put k1 (f1 (look d k1)) d"
  have step: "write_all (w # ws) d = write_all ws ?d" by (simp add: write_all_def w)
  show ?case
  proof (cases "(k, f) = w")
    case True
    then have "k \<notin> fst ` set ws" using Cons.prems by (auto simp: w)
    then show ?thesis using True by (simp add: step [unfolded w] look_write_all_other look_put w)
  next
    case False
    then have "(k, f) \<in> set ws" "k \<noteq> k1" using Cons.prems by (auto simp: w rev_image_eqI)
    then show ?thesis using Cons.IH [of ?d] Cons.prems by (simp add: step look_put)
  qed
qed simp

lemma write_then_keep: "p k \<Longrightarrow> look (keep p (put k r d)) k = Some r"
  by (simp add: look_keep look_put)

end

section \<open>The tables as a store\<close>

definition view :: "sqldb \<Rightarrow> store" where
  "view db k = map_of (sq_rows db (fst k)) (snd k)"

definition tab_put :: "object_id \<Rightarrow> row \<Rightarrow> sqldb \<Rightarrow> sqldb" where
  "tab_put k r db = db\<lparr>sq_rows := (sq_rows db)(fst k := AList.update (snd k) r (sq_rows db (fst k)))\<rparr>"

definition tab_keep :: "(object_id \<Rightarrow> bool) \<Rightarrow> sqldb \<Rightarrow> sqldb" where
  "tab_keep p db = db\<lparr>sq_rows := (\<lambda>t. filter (\<lambda>ir. p (t, fst ir)) (sq_rows db t))\<rparr>"

lemma view_put: "view (tab_put k r db) = (view db)(k \<mapsto> r)"
  by (rule ext) (auto simp: view_def tab_put_def prod_eq_iff)

lemma view_keep: "view (tab_keep p db) = (\<lambda>k. if p k then view db k else None)"
proof
  fix k :: object_id
  have "map_of (filter (\<lambda>ir. p (fst k, fst ir)) xs) i = (if p (fst k, i) then map_of xs i else None)" for xs :: "(nat \<times> row) list" and i
    by (induction xs) auto
  then show "view (tab_keep p db) k = (if p k then view db k else None)"
    by (simp add: view_def tab_keep_def)
qed

interpretation tab: row_store view tab_put tab_keep
  by unfold_locales (simp_all add: view_put view_keep)

lemma next_put [simp]: "sq_next (tab_put k r db) = sq_next db"
  by (simp add: tab_put_def)

lemma sql_insert_put:
  assumes "sql_insert sc t i kvs db = (Inr u, db')"
  shows "view db (t, i) = None \<and> db' = tab_put (t, i) (row_put kvs no_row) db"
proof -
  have none: "map_of (sq_rows db t) i = None"
    using assms by (auto simp: sql_insert_def Let_def op_simps split: if_splits)
  then have "i \<notin> fst ` set (sq_rows db t)" by (simp add: map_of_eq_None_iff)
  then show ?thesis
    using assms none by (auto simp: sql_insert_def Let_def op_simps view_def tab_put_def update_new split: if_splits)
qed

lemma sql_update_put:
  assumes "sql_update sc t i kvs db = (Inr u, db')"
  shows "(view db (t, i) = None \<and> db' = db) \<or> (\<exists>r. view db (t, i) = Some r \<and> db' = tab_put (t, i) (row_put kvs r) db)"
  using assms by (auto simp: sql_update_def op_simps view_def tab_put_def split: option.splits if_splits)

lemma sql_delete_keep: "sql_delete t (\<lambda>ir. P (fst ir)) db = tab_keep (\<lambda>k. \<not> (fst k = t \<and> P (snd k))) db"
  by (auto simp: sql_delete_def tab_keep_def intro!: arg_cong [where f = "\<lambda>f. db\<lparr>sq_rows := f\<rparr>"])

section \<open>Operations that only read\<close>

definition reads :: "db_state \<Rightarrow> db_state \<Rightarrow> bool" where
  "reads s s' \<longleftrightarrow> ds_work s' = ds_work s \<and> ds_done s' = ds_done s \<and> ds_fresh s \<le> ds_fresh s' \<and>
     (\<forall>r < ds_fresh s. ds_objs s' r = ds_objs s r) \<and>
     (\<forall>t i r. map_of (cache_of s t) i = Some r \<longrightarrow> map_of (cache_of s' t) i = Some r)"

lemma reads_refl [simp]: "reads s s"
  by (simp add: reads_def)

lemma reads_trans [trans]: "reads s s' \<Longrightarrow> reads s' s'' \<Longrightarrow> reads s s''"
  by (auto simp: reads_def)

definition reader :: "(db_state, 'a) op \<Rightarrow> bool" where
  "reader m \<longleftrightarrow> (\<forall>s. reads s (snd (m s)))"

named_theorems reader_intros "operations that only read"

lemma readerD: "reader m \<Longrightarrow> m s = (r, s') \<Longrightarrow> reads s s'"
  unfolding reader_def by (metis snd_conv)

lemma reader_return [reader_intros]: "reader (op_return x)"
  by (simp add: reader_def op_return_def)

lemma reader_raise [reader_intros]: "reader (op_raise e)"
  by (simp add: reader_def op_raise_def)

lemma reader_bind [reader_intros]: "reader m \<Longrightarrow> (\<And>x. reader (f x)) \<Longrightarrow> reader (op_bind m f)"
  by (auto simp: reader_def op_bind_def split: prod.splits sum.splits) (metis reads_trans snd_conv)+

lemma reader_then [reader_intros]: "reader m \<Longrightarrow> reader n \<Longrightarrow> reader (op_then m n)"
  by (simp add: op_then_def reader_bind)

lemma reader_catch [reader_intros]: "reader m \<Longrightarrow> (\<And>e. reader (h e)) \<Longrightarrow> reader (op_catch m h)"
  by (auto simp: reader_def op_catch_def split: prod.splits sum.splits) (metis reads_trans snd_conv)+

lemma reader_deserialize [reader_intros]: "reader (deserialize sc c t owner ir)"
  by (auto simp: reader_def reads_def deserialize_def cache_put_def cache_of_def Let_def split: option.splits)

lemma reader_load_each [reader_intros]: "reader (load_each sc c t owner rows)"
  by (induction rows) (auto intro!: reader_intros)

lemma reader_load [reader_intros]: "reader (load sc c q)"
  unfolding reader_def load_def
  by (auto simp: Let_def split: sum.splits query.splits option.splits
      intro: readerD [OF reader_load_each surjective_pairing])

lemma reader_load_object_id [reader_intros]: "reader (load_object_id sc oid)"
proof -
  have "reader (op_bind (load sc c (ById (snd oid))) (\<lambda>rs. case rs of [] \<Rightarrow> op_raise StopIteration | r # _ \<Rightarrow> op_return r))" for c
    by (intro reader_intros) (auto split: list.splits intro: reader_intros)
  then show ?thesis
    by (auto simp: reader_def load_object_id_def split: sum.splits)
qed

lemma reader_db_owner [reader_intros]: "reader (db_owner sc r)"
proof -
  have "reader (op_then (load_object_id sc oid) (op_return (Some oid)))" for oid
    by (intro reader_intros)
  then show ?thesis
    by (auto simp: reader_def db_owner_def Let_def split: sum.splits option.splits)
qed

lemma reader_current_owner [reader_intros]: "reader (current_owner sc r)"
proof -
  have "reader (op_catch (db_owner sc r) gen_stop)"
    by (intro reader_intros) (simp add: gen_stop_def reader_raise)
  then show ?thesis
    by (auto simp: reader_def current_owner_def Let_def)
qed

lemma query_nodes_failed: "fst (query_nodes sc a True ms acc s) \<noteq> Inr qs"
proof (induction ms arbitrary: s)
  case (Cons m ms)
  then show ?case
    by (cases "db_delete sc m True s") (auto simp: op_then_def op_bind_def split: sum.splits)
qed (simp add: op_raise_def)

lemma query_nodes_success:
  "query_nodes sc a failed ms acc s = (Inr qs, s') \<Longrightarrow>
     \<not> failed \<and> reads s s' \<and> fst ` set qs = fst ` set acc \<union> nd_ref ` set ms \<and>
     (distinct (map fst acc) \<longrightarrow> distinct (map fst qs)) \<and> (\<forall>m \<in> set ms. nd_ref m < ds_fresh s \<longrightarrow> o_valid (ds_objs s (nd_ref m)))"
proof (induction ms arbitrary: acc s failed)
  case Nil
  then show ?case by (auto simp: op_simps split: if_splits)
next
  case (Cons m ms)
  let ?x = "ds_objs s (nd_ref m)"
  have no: "op_then (db_delete sc m True) (query_nodes sc a True ms acc) s \<noteq> (Inr qs, s')"
    using query_nodes_failed [of sc a ms acc _ qs] by (auto simp: op_then_Inr) (metis fst_conv)
  then have f: "\<not> failed" and v: "o_valid ?x"
    using Cons.prems by (auto simp: Let_def split: if_splits)
  then obtain w s1 where 1: "current_owner sc (nd_ref m) s = (Inr w, s1)"
    "query_nodes sc a False ms (AList.update (nd_ref m) w acc) s1 = (Inr qs, s')"
    using Cons.prems by (auto simp: Let_def op_bind_Inr)
  have r1: "reads s s1" by (rule readerD [OF reader_current_owner 1(1)])
  note ih = Cons.IH [OF 1(2)]
  have "o_valid (ds_objs s (nd_ref m'))" if "m' \<in> set ms" "nd_ref m' < ds_fresh s" for m'
    using ih r1 that by (auto simp: reads_def)
  then show ?case
    using ih f v r1 reads_trans [OF r1] by (auto simp: distinct_keys_update simp del: keys_update)
qed

section \<open>Dirty objects\<close>

lemma subnodes_self [simp]: "n \<in> set (subnodes n)"
  by (cases n) simp

lemma subnodes_trans: "m \<in> set (subnodes n) \<Longrightarrow> set (subnodes m) \<subseteq> set (subnodes n)"
proof (induction n)
  case (ONode r ns)
  show ?case
  proof (cases "m = ONode r ns")
    case False
    then obtain n where n: "n \<in> set ns" "m \<in> set (subnodes n)" using ONode.prems by auto
    have "set (subnodes n) \<subseteq> set (subnodes (ONode r ns))" using n(1) by auto
    then show ?thesis using ONode.IH [OF n] by blast
  qed simp
qed

lemma nested_subnodes:
  assumes "ONode r ns \<in> set (subnodes n)"
  shows "set ns \<subseteq> set (subnodes n)"
proof
  fix m assume "m \<in> set ns"
  then have "m \<in> set (subnodes (ONode r ns))" using subnodes_self [of m] by force
  then show "m \<in> set (subnodes n)" using subnodes_trans [OF assms] by blast
qed

lemma is_saved_iff: "is_saved s n \<longleftrightarrow> (\<forall>m \<in> set (subnodes n). o_saved (ds_objs s (nd_ref m)))"
proof (induction s n rule: is_saved.induct)
  case (1 s r ns)
  have sub: "is_saved s m \<longleftrightarrow> (\<forall>m' \<in> set (subnodes m). o_saved (ds_objs s (nd_ref m')))"
    if "n \<in> set ns" "m \<in> set (subnodes n)" "nd_ref m \<noteq> r" for n m
    using 1 that by blast
  show ?case
  proof
    assume l: "is_saved s (ONode r ns)"
    have "o_saved (ds_objs s (nd_ref m))" if "n \<in> set ns" "m \<in> set (subnodes n)" for n m
    proof (cases "nd_ref m = r")
      case False
      then have "is_saved s m" using l that by auto
      then show ?thesis using sub [OF that False] by auto
    qed (use l in simp)
    then show "\<forall>m \<in> set (subnodes (ONode r ns)). o_saved (ds_objs s (nd_ref m))" using l by auto
  next
    assume a: "\<forall>m \<in> set (subnodes (ONode r ns)). o_saved (ds_objs s (nd_ref m))"
    have "nd_ref m = r \<or> is_saved s m" if "n \<in> set ns" "m \<in> set (subnodes n)" for n m
      using sub [OF that] subnodes_trans [OF that(2)] a that by auto
    then show "is_saved s (ONode r ns)" using a by auto
  qed
qed

lemma dirty_iff: "dirty s n \<longleftrightarrow> (\<exists>m \<in> set (subnodes n). \<not> o_saved (ds_objs s (nd_ref m)))"
  by (simp add: dirty_def is_saved_iff)

definition graph_refs :: "onode list \<Rightarrow> ref set" where
  "graph_refs ns = nd_ref ` (\<Union>n \<in> set ns. set (subnodes n))"

definition dirty_refs :: "db_state \<Rightarrow> onode list \<Rightarrow> ref set" where
  "dirty_refs s ns = nd_ref ` {m \<in> \<Union>n \<in> set ns. set (subnodes n). dirty s m}"

lemma dirty_reads:
  assumes "reads s s'" "nd_ref ` set (subnodes m) \<subseteq> {r. r < ds_fresh s}"
  shows "dirty s' m = dirty s m"
proof -
  have "ds_objs s' (nd_ref k) = ds_objs s (nd_ref k)" if "k \<in> set (subnodes m)" for k
    using assms that by (simp add: reads_def image_subset_iff)
  then show ?thesis by (simp add: dirty_iff cong: bex_cong)
qed

lemma graph_refs_sub: "n \<in> set ns \<Longrightarrow> m \<in> set (subnodes n) \<Longrightarrow> nd_ref ` set (subnodes m) \<subseteq> graph_refs ns"
  using subnodes_trans [of m n] by (fastforce simp: graph_refs_def)

lemma query_targets_success:
  "query_targets sc a ns acc s = (Inr qs, s') \<Longrightarrow> sa_dirty a \<Longrightarrow> \<not> sa_import a \<Longrightarrow>
     graph_refs ns \<subseteq> {r. r < ds_fresh s} \<Longrightarrow>
     reads s s' \<and> fst ` set qs = fst ` set acc \<union> dirty_refs s ns \<and> (distinct (map fst acc) \<longrightarrow> distinct (map fst qs))"
proof (induction ns arbitrary: acc s)
  case Nil
  then show ?case by (auto simp: op_simps dirty_refs_def)
next
  case (Cons n ns)
  obtain acc1 s1 where 1: "query_nodes sc a False (collect_changes s n) acc s = (Inr acc1, s1)"
    "query_targets sc a ns acc1 s1 = (Inr qs, s')"
    using Cons.prems(1-3) by (auto simp: op_bind_Inr)
  note q = query_nodes_success [OF 1(1)]
  have fresh: "graph_refs ns \<subseteq> {r. r < ds_fresh s}" using Cons.prems(4) by (auto simp: graph_refs_def)
  then have "graph_refs ns \<subseteq> {r. r < ds_fresh s1}" using q by (auto simp: reads_def)
  note ih = Cons.IH [OF 1(2) Cons.prems(2,3) this]
  have "dirty s1 m = dirty s m" if "n' \<in> set ns" "m \<in> set (subnodes n')" for n' m
    using q graph_refs_sub [OF that] fresh by (intro dirty_reads) auto
  then have same: "dirty_refs s1 ns = dirty_refs s ns"
    unfolding dirty_refs_def by (intro arg_cong [where f = "image nd_ref"] Collect_cong) auto
  have "dirty_refs s (n # ns) = nd_ref ` set (collect_changes s n) \<union> dirty_refs s ns"
    by (auto simp: dirty_refs_def collect_changes_def collect_nested_filter)
  then show ?case
    using ih q same reads_trans [of s s1 s'] by (simp add: Un_assoc)
qed

section \<open>Objects and their rows\<close>

definition row_key :: "dbobj \<Rightarrow> object_id option" where
  "row_key x = (case (c_table (o_class x), o_id x) of (Some t, Some i) \<Rightarrow> Some (t, i) | _ \<Rightarrow> None)"

lemma row_key_Some: "row_key x = Some k \<longleftrightarrow> c_table (o_class x) = Some (fst k) \<and> o_id x = Some (snd k)"
  by (cases k) (auto simp: row_key_def split: option.splits)

definition agrees :: "dbobj \<Rightarrow> row \<Rightarrow> bool" where
  "agrees x row \<longleftrightarrow> (\<forall>p \<in> set (c_props (o_class x)) - {''id''}. row p = o_vals x p)"

definition stored :: "db_state \<Rightarrow> ref \<Rightarrow> bool" where
  "stored s r \<longleftrightarrow> (\<exists>k row. row_key (ds_objs s r) = Some k \<and> view (ds_work s) k = Some row \<and> agrees (ds_objs s r) row)"

text \<open>Every class of the source has \<open>generation_ts\<close> among its columns and none has a pool of ids of its own.\<close>

definition class_ok :: "db_class \<Rightarrow> bool" where
  "class_ok c \<longleftrightarrow> (c_table c \<noteq> None \<longrightarrow> c_pool c = None \<and> ''generation_ts'' \<in> set (c_props c))"

text \<open>Loaded objects have rows, no two objects share one, and no id is above its counter.\<close>

definition ids_ok :: "ref set \<Rightarrow> db_state \<Rightarrow> bool" where
  "ids_ok R s \<longleftrightarrow>
     (\<forall>r \<in> R. r < ds_fresh s \<and> class_ok (o_class (ds_objs s r))) \<and>
     (\<forall>r \<in> R. o_loaded (ds_objs s r) \<and> c_table (o_class (ds_objs s r)) \<noteq> None \<longrightarrow>
        (\<exists>k. row_key (ds_objs s r) = Some k \<and> view (ds_work s) k \<noteq> None)) \<and>
     (\<forall>r \<in> R. \<forall>r' \<in> R. \<forall>k. row_key (ds_objs s r) = Some k \<and> row_key (ds_objs s r') = Some k \<longrightarrow> r = r') \<and>
     (\<forall>r \<in> R. \<forall>k n. row_key (ds_objs s r) = Some k \<and> map_of (sq_next (ds_work s)) (fst k) = Some n \<longrightarrow> snd k \<le> n) \<and>
     (\<forall>k n. view (ds_work s) k \<noteq> None \<and> map_of (sq_next (ds_work s)) (fst k) = Some n \<longrightarrow> snd k \<le> n)"

lemma ids_ok_loaded:
  "ids_ok R s \<Longrightarrow> r \<in> R \<Longrightarrow> o_loaded (ds_objs s r) \<Longrightarrow> c_table (o_class (ds_objs s r)) \<noteq> None \<Longrightarrow>
     \<exists>k. row_key (ds_objs s r) = Some k \<and> view (ds_work s) k \<noteq> None"
  unfolding ids_ok_def by blast

definition saved_ok :: "ref set \<Rightarrow> db_state \<Rightarrow> bool" where
  "saved_ok R s \<longleftrightarrow>
     (\<forall>r \<in> R. o_saved (ds_objs s r) \<and> c_table (o_class (ds_objs s r)) \<noteq> None \<longrightarrow> stored s r)"

definition obj_cols :: "dbobj \<Rightarrow> (string \<times> json) list" where
  "obj_cols x = filter (\<lambda>(p, v). p \<noteq> ''id'') (obj_fields False x)"

lemma row_put_cols:
  "row_put (obj_cols x) r p = (if p \<in> set (c_props (o_class x)) - {''id''} then o_vals x p else r p)"
proof -
  have "map_of (filter (\<lambda>(p, v). p \<noteq> ''id'') (map (\<lambda>p. (p, f p)) ps)) p = (if p \<in> set ps - {''id''} then Some (f p) else None)"
    for ps and f :: "string \<Rightarrow> json"
    by (induction ps) auto
  then show ?thesis
    by (simp add: row_put_def obj_cols_def obj_fields_def)
qed

lemma agrees_put: "agrees x (row_put (obj_cols x) r)"
  by (simp add: agrees_def row_put_cols)

definition stamped :: "json \<Rightarrow> dbobj \<Rightarrow> dbobj" where
  "stamped now x = x\<lparr>o_vals := (o_vals x)(''generation_ts'' := now)\<rparr>"

definition row_of :: "row option \<Rightarrow> row" where
  "row_of v = (case v of None \<Rightarrow> no_row | Some r \<Rightarrow> r)"

lemma ensure_id_success:
  assumes "ensure_id r s = (Inr u, s')"
  obtains (old) i where "o_id (ds_objs s r) = Some i" "s' = s"
  | (new) t n where "o_id (ds_objs s r) = None" "lookup_id_table (o_class (ds_objs s r)) = Inr t"
      "map_of (sq_next (ds_work s)) t = Some n"
      "s' = set_obj r (\<lambda>x. x\<lparr>o_id := Some (Suc n)\<rparr>)
              (s\<lparr>ds_work := (ds_work s)\<lparr>sq_next := AList.update t (Suc n) (sq_next (ds_work s))\<rparr>\<rparr>)"
  using assms
  by (auto simp: ensure_id_def next_id_def set_obj_def op_simps split: option.splits sum.splits)

lemma create_or_update_success:
  assumes "create_or_update sc r kvs t False create s = (Inr u, s')"
  obtains s1 i db where "ensure_id r s = (Inr (), s1)" "o_id (ds_objs s1 r) = Some i" "s' = s1\<lparr>ds_work := db\<rparr>"
    "create \<Longrightarrow> sql_insert sc t i (filter (\<lambda>(p, v). p \<noteq> ''id'') kvs) (ds_work s1) = (Inr (), db)"
    "\<not> create \<Longrightarrow> sql_update sc t i (filter (\<lambda>(p, v). p \<noteq> ''id'') kvs) (ds_work s1) = (Inr (), db)"
proof -
  from assms obtain s1 where 1: "ensure_id r s = (Inr (), s1)"
    by (auto simp: create_or_update_def op_then_Inr)
  moreover from assms 1 obtain i where 2: "o_id (ds_objs s1 r) = Some i"
    by (auto simp: create_or_update_def op_then_def op_bind_def write_creates_def Let_def split: option.splits)
  ultimately show ?thesis
    using assms that
    by (auto simp: create_or_update_def op_then_def op_bind_def write_creates_def Let_def sql_def
        split: if_splits prod.splits)
qed

lemma obj_save_success:
  assumes save: "obj_save sc now False False (\<not> o_loaded (ds_objs s r)) r s = (Inr u, s')"
    and ids: "ids_ok R s" "r \<in> R" and t: "c_table (o_class (ds_objs s r)) = Some t"
  obtains i where "ds_objs s' = (ds_objs s)(r := (stamped now (ds_objs s r))\<lparr>o_id := Some i\<rparr>)"
    "ds_fresh s' = ds_fresh s"
    "view (ds_work s') = (view (ds_work s))((t, i) \<mapsto>
       row_put (obj_cols (stamped now (ds_objs s r))) (row_of (view (ds_work s) (t, i))))"
    "(o_id (ds_objs s r) = Some i \<and> sq_next (ds_work s') = sq_next (ds_work s)) \<or>
     (o_id (ds_objs s r) = None \<and> (\<exists>n. map_of (sq_next (ds_work s)) t = Some n \<and> i = Suc n \<and>
        sq_next (ds_work s') = AList.update t i (sq_next (ds_work s))))"
proof -
  let ?x = "ds_objs s r" and ?s0 = "set_obj r (stamped now) s"
  have cl: "class_ok (o_class ?x)" using ids by (simp add: ids_ok_def)
  then have ne: "c_props (o_class ?x) \<noteq> []" and pool: "c_pool (o_class ?x) = None" using t by (auto simp: class_ok_def)
  have s0: "set_obj r (\<lambda>x. x\<lparr>o_vals := (o_vals x)(''generation_ts'' := now)\<rparr>) s = ?s0"
    by (simp add: set_obj_def stamped_def)
  have cols: "filter (\<lambda>(p, v). p \<noteq> ''id'') (obj_fields False (stamped now ?x)) = obj_cols (stamped now ?x)"
    by (simp add: obj_cols_def)
  have "create_or_update sc r (obj_fields False (stamped now ?x)) t False (\<not> o_loaded ?x) ?s0 = (Inr u, s')"
    using save ne t unfolding obj_save_def s0 Let_def by (simp add: obj_table_def set_obj_def stamped_def)
  from create_or_update_success [OF this, unfolded cols] obtain s1 i db where
    1: "ensure_id r ?s0 = (Inr (), s1)" and i: "o_id (ds_objs s1 r) = Some i" and s': "s' = s1\<lparr>ds_work := db\<rparr>"
    and ins: "\<not> o_loaded ?x \<Longrightarrow> sql_insert sc t i (obj_cols (stamped now ?x)) (ds_work s1) = (Inr (), db)"
    and upd: "o_loaded ?x \<Longrightarrow> sql_update sc t i (obj_cols (stamped now ?x)) (ds_work s1) = (Inr (), db)"
    by auto
  have v1: "view (ds_work s1) = view (ds_work s)"
    using 1 by (rule ensure_id_success) (auto simp: set_obj_def view_def)
  have loaded: "view (ds_work s) (t, i) \<noteq> None" if "o_loaded ?x"
  proof -
    from ids that t obtain k where k: "row_key ?x = Some k" "view (ds_work s) k \<noteq> None"
      by (auto simp: ids_ok_def)
    then have "s1 = ?s0"
      using 1 by (elim ensure_id_success) (auto simp: row_key_Some set_obj_def stamped_def)
    then show ?thesis using k i t by (auto simp: row_key_Some set_obj_def stamped_def)
  qed
  have put: "db = tab_put (t, i) (row_put (obj_cols (stamped now ?x)) (row_of (view (ds_work s) (t, i)))) (ds_work s1)"
  proof (cases "o_loaded ?x")
    case True
    then show ?thesis using sql_update_put [OF upd [OF True]] loaded by (auto simp: v1 row_of_def)
  next
    case False
    then show ?thesis using sql_insert_put [OF ins [OF False]] by (auto simp: v1 row_of_def)
  qed
  have view': "view (ds_work s') = (view (ds_work s))((t, i) \<mapsto>
       row_put (obj_cols (stamped now ?x)) (row_of (view (ds_work s) (t, i))))"
    by (simp add: s' put view_put v1)
  from 1 show ?thesis
  proof (cases rule: ensure_id_success)
    case (old j)
    then show ?thesis using i by (intro that [OF _ _ view']) (auto simp: s' put set_obj_def stamped_def)
  next
    case (new t' n)
    then have "t' = t" using pool t by (simp add: lookup_id_table_def lookup_table_def set_obj_def stamped_def)
    then show ?thesis using new i by (intro that [OF _ _ view']) (auto simp: s' put set_obj_def stamped_def)
  qed
qed

section \<open>Saving one object\<close>

definition flag_saved :: "ref set \<Rightarrow> db_state \<Rightarrow> db_state" where
  "flag_saved F s = s\<lparr>ds_objs := (\<lambda>r. if r \<in> F then (ds_objs s r)\<lparr>o_saved := True\<rparr> else ds_objs s r)\<rparr>"

lemma flag_saved_simps [simp]:
  "ds_work (flag_saved F s) = ds_work s" "ds_done (flag_saved F s) = ds_done s" "ds_fresh (flag_saved F s) = ds_fresh s"
  "o_class (ds_objs (flag_saved F s) r) = o_class (ds_objs s r)" "o_id (ds_objs (flag_saved F s) r) = o_id (ds_objs s r)"
  "o_vals (ds_objs (flag_saved F s) r) = o_vals (ds_objs s r)" "o_loaded (ds_objs (flag_saved F s) r) = o_loaded (ds_objs s r)"
  "o_saved (ds_objs (flag_saved F s) r) = (r \<in> F \<or> o_saved (ds_objs s r))"
  "obj_table (flag_saved F s) r = obj_table s r"
  by (simp_all add: flag_saved_def obj_table_def)

lemma flag_saved_twice: "flag_saved F (flag_saved G s) = flag_saved (F \<union> G) s"
  by (auto simp: flag_saved_def intro!: arg_cong [where f = "\<lambda>f. s\<lparr>ds_objs := f\<rparr>"])

lemma flag_saved_one: "set_obj r (\<lambda>x. x\<lparr>o_saved := True\<rparr>) s = flag_saved {r} s"
  by (auto simp: flag_saved_def set_obj_def intro!: arg_cong [where f = "\<lambda>f. s\<lparr>ds_objs := f\<rparr>"])

lemma set_saved_flags: "\<exists>F. set_saved n s = flag_saved F s \<and> nd_ref n \<in> F \<and> (\<forall>r \<in> F. r = nd_ref n \<or> obj_table s r = None)"
proof (induction n arbitrary: s)
  case (ONode r ns)
  let ?step = "\<lambda>n s. if transient_object s (nd_ref n) then set_saved n s else s"
  have "\<exists>F. fold ?step ms s = flag_saved F s \<and> (\<forall>r \<in> F. obj_table s r = None)" if "set ms \<subseteq> set ns" for ms s
    using that
  proof (induction ms arbitrary: s)
    case Nil
    have "flag_saved {} s = s" by (simp add: flag_saved_def)
    then show ?case by (auto intro!: exI [of _ "{}"])
  next
    case (Cons m ms)
    show ?case
    proof (cases "transient_object s (nd_ref m)")
      case True
      then obtain F where F: "set_saved m s = flag_saved F s" "\<forall>r \<in> F. r = nd_ref m \<or> obj_table s r = None"
        using ONode.IH [of m s] Cons.prems by auto
      obtain G where "fold ?step ms (flag_saved F s) = flag_saved G (flag_saved F s)" "\<forall>r \<in> G. obj_table s r = None"
        using Cons.IH [of "flag_saved F s"] Cons.prems by auto
      then show ?thesis
        using F True by (intro exI [of _ "G \<union> F"]) (auto simp: flag_saved_twice transient_object_def)
    next
      case False
      then show ?thesis using Cons by auto
    qed
  qed
  from this [of ns "flag_saved {r} s"] obtain F where
    "fold ?step ns (flag_saved {r} s) = flag_saved F (flag_saved {r} s)" "\<forall>r \<in> F. obj_table s r = None"
    by auto
  then show ?case
    by (intro exI [of _ "F \<union> {r}"]) (auto simp: flag_saved_one flag_saved_twice)
qed

text \<open>The effect of saving one object on the store.\<close>

definition write_of :: "dbobj \<Rightarrow> (object_id \<times> (row option \<Rightarrow> row)) list" where
  "write_of x = (case row_key x of None \<Rightarrow> [] | Some k \<Rightarrow> [(k, \<lambda>old. row_put (obj_cols x) (row_of old))])"

definition store_write :: "(object_id \<times> (row option \<Rightarrow> row)) list \<Rightarrow> store \<Rightarrow> store" where
  "store_write ws m = fold (\<lambda>(k, f) m. m(k \<mapsto> f (m k))) ws m"

lemma store_write_simps [simp]:
  "store_write [] m = m"
  "store_write (w # ws) m = store_write ws (m(fst w \<mapsto> snd w (m (fst w))))"
  "store_write (ws @ ws') m = store_write ws' (store_write ws m)"
  by (simp_all add: store_write_def case_prod_beta)

text \<open>What a save leaves of an object: everything but the flags.\<close>

definition same_obj :: "dbobj \<Rightarrow> dbobj \<Rightarrow> bool" where
  "same_obj x y \<longleftrightarrow> o_class y = o_class x \<and> o_id y = o_id x \<and> o_vals y = o_vals x"

lemma same_obj_refl [simp]: "same_obj x x"
  by (simp add: same_obj_def)

lemma same_obj_trans: "same_obj x y \<Longrightarrow> same_obj y z \<Longrightarrow> same_obj x z"
  by (simp add: same_obj_def)

lemma same_obj_facts:
  assumes "same_obj x y"
  shows "row_key y = row_key x" "agrees y row = agrees x row" "write_of y = write_of x" "c_table (o_class y) = c_table (o_class x)"
proof -
  have c: "o_class y = o_class x" and i: "o_id y = o_id x" and v: "o_vals y = o_vals x"
    using assms by (simp_all add: same_obj_def)
  show k: "row_key y = row_key x" by (simp add: row_key_def c i)
  show "agrees y row = agrees x row" by (simp add: agrees_def c v)
  have "obj_cols y = obj_cols x" by (simp add: obj_cols_def obj_fields_def c v)
  then show "write_of y = write_of x" by (simp add: write_of_def k split: option.split)
  show "c_table (o_class y) = c_table (o_class x)" by (simp add: c)
qed

lemma save_one_success:
  assumes save: "save_one sc now a n s = (Inr u, s')" and a: "\<not> sa_public a" "\<not> sa_import a" "\<not> sa_force a"
    and ids: "ids_ok R s" and r: "nd_ref n \<in> R"
  obtains F x where
    "ds_objs s' = (\<lambda>r. if r = nd_ref n then x
        else if r \<in> F then (ds_objs s r)\<lparr>o_saved := True\<rparr> else ds_objs s r)"
    "\<forall>r \<in> F. c_table (o_class (ds_objs s r)) = None"
    "o_class x = o_class (ds_objs s (nd_ref n))" "o_saved x" "o_loaded x = (c_table (o_class x) \<noteq> None)"
    "ds_fresh s' = ds_fresh s" "view (ds_work s') = store_write (write_of x) (view (ds_work s))"
    "c_table (o_class x) = None \<and> o_id x = o_id (ds_objs s (nd_ref n)) \<and> ds_work s' = ds_work s \<or>
     (\<exists>t i. c_table (o_class x) = Some t \<and> o_id x = Some i \<and>
       ((o_id (ds_objs s (nd_ref n)) = Some i \<and> sq_next (ds_work s') = sq_next (ds_work s)) \<or>
        (o_id (ds_objs s (nd_ref n)) = None \<and> (\<exists>m. map_of (sq_next (ds_work s)) t = Some m \<and> i = Suc m \<and>
           sq_next (ds_work s') = AList.update t i (sq_next (ds_work s))))))"
proof -
  let ?r = "nd_ref n" and ?x = "ds_objs s (nd_ref n)"
  let ?create = "c_table (o_class ?x) \<noteq> None \<and> \<not> o_loaded ?x"
  from save a obtain s1 where
    1: "obj_save sc now False False ?create ?r s = (Inr (), s1)"
    and s': "s' = set_obj ?r (\<lambda>x. x\<lparr>o_loaded := (c_table (o_class x) \<noteq> None)\<rparr>)
                (set_saved n (set_obj ?r (\<lambda>x. x\<lparr>o_changed := {}\<rparr>) s1))"
    by (auto simp: save_one_def Let_def op_then_Inr op_modify_def split: if_splits)
  let ?s2 = "set_obj ?r (\<lambda>x. x\<lparr>o_changed := {}\<rparr>) s1"
  obtain F where F: "set_saved n ?s2 = flag_saved F ?s2" "?r \<in> F" "\<forall>r \<in> F. r = ?r \<or> obj_table ?s2 r = None"
    using set_saved_flags by blast
  define x where "x = (ds_objs s1 ?r)\<lparr>o_changed := {}, o_saved := True, o_loaded := (c_table (o_class (ds_objs s1 ?r)) \<noteq> None)\<rparr>"
  have x: "same_obj (ds_objs s1 ?r) x" "o_saved x" "o_loaded x = (c_table (o_class x) \<noteq> None)"
    by (simp_all add: x_def same_obj_def)
  have objs1: "ds_objs s1 r = ds_objs s r" if "r \<noteq> ?r" for r
  proof (cases "c_table (o_class ?x)")
    case None
    then show ?thesis
      using 1 that by (auto simp: obj_save_def Let_def set_obj_def obj_table_def split: if_splits)
  next
    case (Some t)
    then have "obj_save sc now False False (\<not> o_loaded ?x) ?r s = (Inr (), s1)" using 1 by simp
    then show ?thesis using ids r Some by (rule obj_save_success) (simp add: that)
  qed
  have objs: "ds_objs s' = (\<lambda>r. if r = ?r then x else if r \<in> F - {?r} then (ds_objs s r)\<lparr>o_saved := True\<rparr> else ds_objs s r)"
    unfolding s' F(1) using F(2) objs1 by (auto simp: flag_saved_def set_obj_def x_def fun_eq_iff)
  have rest: "ds_work s' = ds_work s1" "ds_fresh s' = ds_fresh s1"
    unfolding s' F(1) by (simp_all add: set_obj_def)
  have tr: "\<forall>r \<in> F - {?r}. c_table (o_class (ds_objs s r)) = None"
  proof
    fix r assume r': "r \<in> F - {?r}"
    then have "obj_table ?s2 r = None" using F(3) by blast
    then show "c_table (o_class (ds_objs s r)) = None" using r' objs1 [of r] by (simp add: obj_table_def set_obj_def)
  qed
  show ?thesis
  proof (cases "c_table (o_class ?x)")
    case None
    then have "same_obj (ds_objs s1 ?r) x \<and> o_class (ds_objs s1 ?r) = o_class ?x \<and> o_id (ds_objs s1 ?r) = o_id ?x \<and>
        ds_work s1 = ds_work s \<and> ds_fresh s1 = ds_fresh s"
      using 1 x(1) by (auto simp: obj_save_def Let_def set_obj_def obj_table_def split: if_splits)
    then show ?thesis
      using None by (intro that [OF objs tr _ x(2,3)]) (auto simp: same_obj_def rest write_of_def row_key_def)
  next
    case (Some t)
    then have 1: "obj_save sc now False False (\<not> o_loaded ?x) ?r s = (Inr (), s1)" using 1 by simp
    from 1 ids r Some show ?thesis
    proof (rule obj_save_success)
      fix i
      assume o1: "ds_objs s1 = (ds_objs s)(?r := (stamped now ?x)\<lparr>o_id := Some i\<rparr>)"
        and fr: "ds_fresh s1 = ds_fresh s"
        and v: "view (ds_work s1) = (view (ds_work s))((t, i) \<mapsto> row_put (obj_cols (stamped now ?x)) (row_of (view (ds_work s) (t, i))))"
        and nx: "(o_id ?x = Some i \<and> sq_next (ds_work s1) = sq_next (ds_work s)) \<or>
          (o_id ?x = None \<and> (\<exists>n. map_of (sq_next (ds_work s)) t = Some n \<and> i = Suc n \<and>
             sq_next (ds_work s1) = AList.update t i (sq_next (ds_work s))))"
      have cl: "o_class x = o_class ?x" and xi: "o_id x = Some i" and xv: "o_vals x = o_vals (stamped now ?x)"
        using x(1) o1 by (simp_all add: same_obj_def stamped_def)
      then have "row_key x = Some (t, i)" "obj_cols x = obj_cols (stamped now ?x)"
        using Some by (simp_all add: row_key_Some obj_cols_def obj_fields_def stamped_def)
      then have "view (ds_work s') = store_write (write_of x) (view (ds_work s))"
        using v by (simp add: rest write_of_def)
      then show ?thesis
        using Some nx by (intro that [OF objs tr cl x(2,3)]) (auto simp: rest fr cl xi)
    qed
  qed
qed

text \<open>Both invariants are kept, and what was saved stays saved.\<close>

lemma view_write: "store_write (write_of x) m k = (if row_key x = Some k then Some (row_put (obj_cols x) (row_of (m k))) else m k)"
  by (auto simp: write_of_def split: option.split)

lemma save_one_keeps:
  assumes save: "save_one sc now a n s = (Inr u, s')" and a: "\<not> sa_public a" "\<not> sa_import a" "\<not> sa_force a"
    and ids: "ids_ok R s" and sv: "saved_ok R s" and r: "nd_ref n \<in> R"
  shows "ids_ok R s' \<and> saved_ok R s' \<and> ds_fresh s' = ds_fresh s \<and> o_saved (ds_objs s' (nd_ref n)) \<and>
    view (ds_work s') = store_write (write_of (ds_objs s' (nd_ref n))) (view (ds_work s)) \<and>
    (\<forall>r. o_class (ds_objs s' r) = o_class (ds_objs s r) \<and> (o_saved (ds_objs s r) \<longrightarrow> o_saved (ds_objs s' r)) \<and>
       (r \<noteq> nd_ref n \<longrightarrow> same_obj (ds_objs s r) (ds_objs s' r)))"
proof -
  let ?r = "nd_ref n"
  from save a ids r obtain F x where
    objs: "ds_objs s' = (\<lambda>r. if r = ?r then x else if r \<in> F then (ds_objs s r)\<lparr>o_saved := True\<rparr> else ds_objs s r)"
    and tr: "\<forall>r \<in> F. c_table (o_class (ds_objs s r)) = None"
    and x: "o_class x = o_class (ds_objs s ?r)" "o_saved x" "o_loaded x = (c_table (o_class x) \<noteq> None)"
    and fr: "ds_fresh s' = ds_fresh s" and vw: "view (ds_work s') = store_write (write_of x) (view (ds_work s))"
    and cases: "c_table (o_class x) = None \<and> o_id x = o_id (ds_objs s ?r) \<and> ds_work s' = ds_work s \<or>
     (\<exists>t i. c_table (o_class x) = Some t \<and> o_id x = Some i \<and>
       ((o_id (ds_objs s ?r) = Some i \<and> sq_next (ds_work s') = sq_next (ds_work s)) \<or>
        (o_id (ds_objs s ?r) = None \<and> (\<exists>m. map_of (sq_next (ds_work s)) t = Some m \<and> i = Suc m \<and>
           sq_next (ds_work s') = AList.update t i (sq_next (ds_work s))))))"
    by (rule save_one_success)
  have same: "same_obj (ds_objs s r) (ds_objs s' r)" if "r \<noteq> ?r" for r
    using that by (simp add: objs same_obj_def)
  have cls: "o_class (ds_objs s' r) = o_class (ds_objs s r)" for r
    using x(1) by (simp add: objs)
  have key: "row_key (ds_objs s' r) = row_key (ds_objs s r)" if "r \<noteq> ?r" for r
    using same [OF that] by (rule same_obj_facts)
  have ld: "o_loaded (ds_objs s' r) = o_loaded (ds_objs s r)" if "r \<noteq> ?r" for r
    using that by (simp add: objs)
  have here: "ds_objs s' ?r = x" by (simp add: objs)
  have mono: "\<exists>n. map_of (sq_next (ds_work s)) t = Some n \<and> n \<le> n'" if "map_of (sq_next (ds_work s')) t = Some n'" for t n'
    using cases that by (auto split: if_splits)
  have has_id: "\<exists>k. row_key x = Some k" if "c_table (o_class x) \<noteq> None"
    using cases that by (auto simp: row_key_def)
  have old_or_new: "row_key (ds_objs s ?r) = Some k \<or>
      (\<exists>m. map_of (sq_next (ds_work s)) (fst k) = Some m \<and> snd k = Suc m \<and> map_of (sq_next (ds_work s')) (fst k) = Some (Suc m))"
    if "row_key x = Some k" for k
    using cases that x(1) by (auto simp: row_key_Some)
  have fresh_key: "row_key (ds_objs s r) \<noteq> Some k" if "r \<in> R" "r \<noteq> ?r" "row_key x = Some k" for r k
    using old_or_new [OF that(3)] that(1,2) ids unfolding ids_ok_def by (metis Suc_n_not_le_n r)
  have bound: "snd k \<le> n'" if "row_key x = Some k" "map_of (sq_next (ds_work s')) (fst k) = Some n'" for k n'
    using old_or_new [OF that(1)] mono [OF that(2)] that(2) ids r unfolding ids_ok_def by (metis le_trans option.inject order_refl)
  have vw': "view (ds_work s') k = (if row_key x = Some k then Some (row_put (obj_cols x) (row_of (view (ds_work s) k))) else view (ds_work s) k)" for k
    by (simp add: vw view_write)
  have "r < ds_fresh s' \<and> class_ok (o_class (ds_objs s' r))" if "r \<in> R" for r
    using ids that by (simp add: ids_ok_def fr cls)
  moreover have "\<exists>k. row_key (ds_objs s' r) = Some k \<and> view (ds_work s') k \<noteq> None"
    if "r \<in> R" "o_loaded (ds_objs s' r)" "c_table (o_class (ds_objs s' r)) \<noteq> None" for r
  proof (cases "r = ?r")
    case True
    then show ?thesis using has_id that here by (auto simp: vw')
  next
    case False
    note asm = that
    from False obtain k where "row_key (ds_objs s r) = Some k" "view (ds_work s) k \<noteq> None"
      using ids_ok_loaded [OF ids asm(1)] asm by (auto simp: ld cls)
    then show ?thesis using key [OF False] by (auto simp: vw')
  qed
  moreover have "r = r'" if "r \<in> R" "r' \<in> R" "row_key (ds_objs s' r) = Some k" "row_key (ds_objs s' r') = Some k" for r r' k
    using that key [of r] key [of r'] fresh_key [of r k] fresh_key [of r' k] here ids unfolding ids_ok_def by metis
  moreover have "snd k \<le> n'" if "r \<in> R" "row_key (ds_objs s' r) = Some k" "map_of (sq_next (ds_work s')) (fst k) = Some n'" for r k n'
    using that key [of r] bound mono [OF that(3)] here ids unfolding ids_ok_def by (metis le_trans)
  moreover have "snd k \<le> n'" if "view (ds_work s') k \<noteq> None" "map_of (sq_next (ds_work s')) (fst k) = Some n'" for k n'
    using that bound [of k n'] mono [OF that(2)] ids unfolding ids_ok_def vw' by (metis le_trans)
  ultimately have "ids_ok R s'" by (simp add: ids_ok_def)
  moreover have "stored s' r" if "r \<in> R" "o_saved (ds_objs s' r)" "c_table (o_class (ds_objs s' r)) \<noteq> None" for r
  proof (cases "r = ?r")
    case True
    then show ?thesis using has_id that here by (auto simp: stored_def vw' agrees_put)
  next
    case False
    then have "o_saved (ds_objs s r)" using that tr cls by (auto simp: objs split: if_splits)
    then have "stored s r" using sv that by (simp add: saved_ok_def cls)
    then obtain k row where k: "row_key (ds_objs s r) = Some k" "view (ds_work s) k = Some row" "agrees (ds_objs s r) row"
      unfolding stored_def by blast
    then have "row_key x \<noteq> Some k" using fresh_key [OF that(1) False] by blast
    then show ?thesis
      using k key [OF False] same_obj_facts(2) [OF same [OF False]] by (auto simp: stored_def vw')
  qed
  then have "saved_ok R s'" by (simp add: saved_ok_def)
  moreover have "o_saved (ds_objs s' r)" if "o_saved (ds_objs s r)" for r
    using that x(2) by (simp add: objs)
  ultimately show ?thesis
    using fr vw same cls x(2) by (simp add: here)
qed

section \<open>Saving a forest\<close>

text \<open>The writes that the saved objects stand for, in order.\<close>

definition writes :: "db_state \<Rightarrow> ref list \<Rightarrow> (object_id \<times> (row option \<Rightarrow> row)) list" where
  "writes s rs = concat (map (\<lambda>r. write_of (ds_objs s r)) rs)"

lemma save_each_keeps:
  "op_each (\<lambda>r. save_one sc now a (f r)) rs s = (Inr u, s') \<Longrightarrow> \<not> sa_public a \<Longrightarrow> \<not> sa_import a \<Longrightarrow> \<not> sa_force a \<Longrightarrow>
     ids_ok R s \<Longrightarrow> saved_ok R s \<Longrightarrow> set rs \<subseteq> R \<Longrightarrow> (\<forall>r \<in> set rs. nd_ref (f r) = r) \<Longrightarrow> distinct rs \<Longrightarrow>
     ids_ok R s' \<and> saved_ok R s' \<and> ds_fresh s' = ds_fresh s \<and>
     (\<forall>r. o_saved (ds_objs s r) \<or> r \<in> set rs \<longrightarrow> o_saved (ds_objs s' r)) \<and>
     (\<forall>r. o_class (ds_objs s' r) = o_class (ds_objs s r) \<and> (r \<notin> set rs \<longrightarrow> same_obj (ds_objs s r) (ds_objs s' r))) \<and>
     view (ds_work s') = store_write (writes s' rs) (view (ds_work s))"
proof (induction rs arbitrary: s)
  case Nil
  then show ?case by (simp add: op_simps writes_def)
next
  case (Cons r rs)
  from Cons.prems(1) obtain v s1 where 1: "save_one sc now a (f r) s = (Inr v, s1)"
    "op_each (\<lambda>r. save_one sc now a (f r)) rs s1 = (Inr u, s')"
    by (auto simp: op_then_Inr)
  have fr: "nd_ref (f r) = r" "r \<in> R" using Cons.prems by auto
  note k = save_one_keeps [OF 1(1) Cons.prems(2-6), unfolded fr(1), OF fr(2)]
  have ih: "ids_ok R s' \<and> saved_ok R s' \<and> ds_fresh s' = ds_fresh s1 \<and>
     (\<forall>r. o_saved (ds_objs s1 r) \<or> r \<in> set rs \<longrightarrow> o_saved (ds_objs s' r)) \<and>
     (\<forall>r. o_class (ds_objs s' r) = o_class (ds_objs s1 r) \<and> (r \<notin> set rs \<longrightarrow> same_obj (ds_objs s1 r) (ds_objs s' r))) \<and>
     view (ds_work s') = store_write (writes s' rs) (view (ds_work s1))"
    using k Cons.prems by (intro Cons.IH [OF 1(2)]) auto
  have "same_obj (ds_objs s1 r) (ds_objs s' r)" using ih Cons.prems(9) by auto
  then have w: "write_of (ds_objs s' r) = write_of (ds_objs s1 r)" by (rule same_obj_facts)
  have same: "same_obj (ds_objs s r') (ds_objs s' r')" if "r' \<notin> set (r # rs)" for r'
    using k ih that same_obj_trans by (metis list.set_intros(1,2))
  show ?case
    using k ih same by (simp add: writes_def w)
qed

lemma saved_ok_reads: "reads s s' \<Longrightarrow> R \<subseteq> {r. r < ds_fresh s} \<Longrightarrow> ids_ok R s \<and> saved_ok R s \<Longrightarrow> ids_ok R s' \<and> saved_ok R s'"
proof -
  assume rd: "reads s s'" and R: "R \<subseteq> {r. r < ds_fresh s}" and ok: "ids_ok R s \<and> saved_ok R s"
  have o: "ds_objs s' r = ds_objs s r" if "r \<in> R" for r using rd R that by (auto simp: reads_def)
  have w: "ds_work s' = ds_work s" and f: "ds_fresh s \<le> ds_fresh s'" using rd by (auto simp: reads_def)
  have "ids_ok R s'"
    using ok f unfolding ids_ok_def w by (simp add: o) (meson less_le_trans)
  moreover have "saved_ok R s'"
    using ok unfolding saved_ok_def stored_def w by (simp add: o)
  ultimately show ?thesis ..
qed

lemma find_node_ref: "r \<in> graph_refs ns \<Longrightarrow> nd_ref (find_node ns r) = r"
proof -
  assume "r \<in> graph_refs ns"
  then have ne: "filter (\<lambda>m. nd_ref m = r) (concat (map subnodes ns)) \<noteq> []"
    by (auto simp: graph_refs_def filter_empty_conv)
  then obtain m ms where m: "filter (\<lambda>m. nd_ref m = r) (concat (map subnodes ns)) = m # ms"
    by (meson neq_Nil_conv)
  have "m \<in> set (filter (\<lambda>m. nd_ref m = r) (concat (map subnodes ns)))" by (simp add: m)
  then have "nd_ref m = r" by (simp only: set_filter mem_Collect_eq)
  then show ?thesis by (simp add: find_node_def m)
qed

lemma graph_refs_sort [simp]: "graph_refs (sort_targets s ns) = graph_refs ns"
  by (simp add: graph_refs_def sort_targets_def)

lemma dirty_refs_sort [simp]: "dirty_refs s' (sort_targets s ns) = dirty_refs s' ns"
  by (simp add: dirty_refs_def sort_targets_def)

lemma save_body_success:
  assumes save: "save_body sc now a ns s = (Inr saved, s')" and a: "\<not> sa_public a" "\<not> sa_import a" "\<not> sa_force a" "sa_dirty a" "sa_chown a = []"
    and ok: "ids_ok R s" "saved_ok R s" and sub: "graph_refs ns \<subseteq> R"
  shows "view (ds_work s') = store_write (writes s' saved) (view (ds_work s)) \<and> set saved = dirty_refs s ns \<and> distinct saved \<and>
    (\<forall>n \<in> set ns. \<not> dirty s' n) \<and> ids_ok R s' \<and> saved_ok R s'"
proof -
  from save a obtain qs s1 u where
    1: "query_targets sc a (sort_targets s ns) [] s = (Inr qs, s1)"
    and 2: "op_each (\<lambda>r. save_one sc now a (find_node ns r)) (map fst qs) s1 = (Inr u, s')" and sv: "saved = map fst qs"
    by (auto simp: save_body_def op_bind_Inr op_then_Inr op_return_def)
  have fresh: "R \<subseteq> {r. r < ds_fresh s}" using ok by (auto simp: ids_ok_def)
  have q: "reads s s1 \<and> fst ` set qs = dirty_refs s ns \<and> distinct (map fst qs)"
    using query_targets_success [OF 1 a(4) a(2)] sub fresh by auto
  have ok1: "ids_ok R s1 \<and> saved_ok R s1" using saved_ok_reads [of s s1 R] q ok fresh by blast
  have sub1: "dirty_refs s ns \<subseteq> graph_refs ns" by (auto simp: dirty_refs_def graph_refs_def)
  have qs: "set (map fst qs) = dirty_refs s ns" using q by simp
  have inR: "set (map fst qs) \<subseteq> R" using qs sub sub1 by blast
  have nodes: "\<forall>r \<in> set (map fst qs). nd_ref (find_node ns r) = r" using qs sub1 find_node_ref by blast
  note k = save_each_keeps [OF 2 a(1-3) conjunct1 [OF ok1] conjunct2 [OF ok1] inR nodes conjunct2 [OF conjunct2 [OF q]]]
  have w: "ds_work s1 = ds_work s" using q by (simp add: reads_def)
  have "o_saved (ds_objs s' (nd_ref m))" if n: "n \<in> set ns" "m \<in> set (subnodes n)" for n m
  proof (cases "nd_ref m \<in> dirty_refs s ns")
    case False
    then have "\<not> dirty s m" using n by (auto simp: dirty_refs_def)
    then have "o_saved (ds_objs s (nd_ref m))" by (auto simp: dirty_iff)
    moreover have "nd_ref m < ds_fresh s" using n sub fresh by (auto simp: graph_refs_def)
    ultimately have "o_saved (ds_objs s1 (nd_ref m))" using q by (simp add: reads_def)
    then show ?thesis using k by blast
  qed (use k qs in blast)
  then have "\<not> dirty s' n" if "n \<in> set ns" for n using that by (auto simp: dirty_iff)
  then show ?thesis using k qs q sv w by simp
qed

section \<open>Failing transactions\<close>

definition commits_nothing :: "(db_state, 'a) op \<Rightarrow> bool" where
  "commits_nothing m \<longleftrightarrow> (\<forall>s. ds_done (snd (m s)) = ds_done s)"

named_theorems commit_intros "operations that commit nothing"

lemma commits_reader: "reader m \<Longrightarrow> commits_nothing m"
  by (auto simp: reader_def reads_def commits_nothing_def)

lemma commits_return [commit_intros]: "commits_nothing (op_return x)"
  by (simp add: commits_nothing_def op_return_def)

lemma commits_raise [commit_intros]: "commits_nothing (op_raise e)"
  by (simp add: commits_nothing_def op_raise_def)

lemma commits_modify [commit_intros]: "(\<And>s. ds_done (f s) = ds_done s) \<Longrightarrow> commits_nothing (op_modify f)"
  by (simp add: commits_nothing_def op_modify_def)

lemma commits_bind [commit_intros]: "commits_nothing m \<Longrightarrow> (\<And>x. commits_nothing (f x)) \<Longrightarrow> commits_nothing (op_bind m f)"
  by (auto simp: commits_nothing_def op_bind_def split: prod.splits sum.splits) (metis snd_conv)+

lemma commits_then [commit_intros]: "commits_nothing m \<Longrightarrow> commits_nothing n \<Longrightarrow> commits_nothing (op_then m n)"
  by (simp add: op_then_def commits_bind)

lemma commits_each [commit_intros]: "(\<And>x. commits_nothing (f x)) \<Longrightarrow> commits_nothing (op_each f xs)"
  by (induction xs) (auto intro: commit_intros)

lemma commits_sql [commit_intros]: "commits_nothing (sql stmt)"
  by (simp add: commits_nothing_def sql_def split: prod.splits)

lemma commits_at: "commits_nothing m \<Longrightarrow> ds_done (snd (m s)) = ds_done s"
  by (simp add: commits_nothing_def)

lemma commits_catch [commit_intros]: "commits_nothing m \<Longrightarrow> (\<And>e. commits_nothing (h e)) \<Longrightarrow> commits_nothing (op_catch m h)"
  by (auto simp: commits_nothing_def op_catch_def split: prod.splits sum.splits) (metis snd_conv)+

lemmas commits_read [commit_intros] = commits_reader [OF reader_db_owner] commits_reader [OF reader_current_owner]

lemma commits_set_obj [simp]: "ds_done (set_obj r f s) = ds_done s"
  by (simp add: set_obj_def)

lemma commits_next_id [commit_intros]: "commits_nothing (next_id c)"
  by (auto simp: commits_nothing_def next_id_def split: sum.splits option.splits)

lemma commits_ensure_id [commit_intros]: "commits_nothing (ensure_id r)"
proof -
  have "commits_nothing (op_bind (next_id c)
      (\<lambda>i s1. case set_id i (ds_objs s1 r) of Inl e \<Rightarrow> (Inl e, s1) | Inr x \<Rightarrow> (Inr (), set_obj r (\<lambda>_. x) s1)))" for c
    by (intro commit_intros) (auto simp: commits_nothing_def)
  then show ?thesis
    by (auto simp: commits_nothing_def ensure_id_def op_return_def split: option.splits)
qed

lemma commits_delete_where [commit_intros]: "commits_nothing (delete_where t wh)"
  by (simp add: commits_nothing_def delete_where_def op_modify_def)

lemma commits_write_creates [commit_intros]: "commits_nothing (write_creates r t import create)"
proof -
  have "commits_nothing (op_then (op_each (\<lambda>key. delete_where t (key_matches x key)) ks) (op_return True))" for x ks
    by (intro commit_intros)
  then show ?thesis
    by (auto simp: commits_nothing_def write_creates_def Let_def)
qed

lemma commits_create_or_update [commit_intros]: "commits_nothing (create_or_update sc r kvs t import create)"
  unfolding create_or_update_def
  by (intro commit_intros)
    (auto simp: commits_nothing_def Let_def split: option.splits intro: commits_at [OF commits_sql])

lemma commits_obj_save [commit_intros]: "commits_nothing (obj_save sc now public import create r)"
  by (auto simp: commits_nothing_def obj_save_def Let_def split: option.splits
      intro: trans [OF commits_at [OF commits_create_or_update]])

lemma commits_get_owner [commit_intros]: "commits_nothing (get_owner sc r)"
proof -
  have h: "ds_done (snd (op_bind m (\<lambda>v. op_then (op_modify (set_obj r (\<lambda>x. x\<lparr>o_owner := Some v\<rparr>))) (op_return v)) s)) = ds_done s"
    if "commits_nothing m" for m s
    using that by (intro commits_at commit_intros) auto
  show ?thesis
    by (auto simp: commits_nothing_def [of "get_owner sc r"] get_owner_def Let_def split: option.splits
        intro!: h commit_intros)
qed

lemma commits_own_one [commit_intros]: "commits_nothing (own_one sc owner owned current r)"
proof -
  have h: "ds_done (snd (op_then m (op_then (op_modify (set_obj r f)) (op_return True)) s)) = ds_done s"
    if "commits_nothing m" for m f s
    using that by (intro commits_at commit_intros) auto
  show ?thesis
    by (auto simp: commits_nothing_def [of "own_one sc owner owned current r"] own_one_def Let_def
        split: option.splits sum.splits intro!: h commit_intros)
qed

lemma commits_own_each [commit_intros]: "commits_nothing (own_each sc owner owned current rs)"
  by (induction rs) (auto intro!: commit_intros)

lemma commits_set_ownership [commit_intros]: "commits_nothing (set_ownership_rows sc owner owned current targets)"
  by (auto simp: set_ownership_rows_def split: option.splits intro: commit_intros)

lemma commits_release [commit_intros]: "commits_nothing (release_one sc r)"
proof -
  have "commits_nothing (op_bind (get_owner sc r) (\<lambda>v. case v of None \<Rightarrow> op_return ()
      | Some _ \<Rightarrow> op_then (set_ownership_rows sc v False [] [r]) (op_return ())))"
    by (intro commit_intros) (auto split: option.splits intro: commit_intros)
  then show ?thesis
    by (auto simp: commits_nothing_def release_one_def)
qed

lemma commits_delete_one [commit_intros]: "commits_nothing (delete_one c r)"
  by (auto simp: commits_nothing_def delete_one_def Let_def delete_where_def op_modify_def split: sum.splits option.splits)

lemma commits_delete [commit_intros]: "commits_nothing (db_delete sc n True)"
proof -
  have "commits_nothing (op_then (op_each (release_one sc) ts) (op_each (delete_one c) ts))" for ts c
    by (intro commit_intros)
  then show ?thesis
    by (auto simp: commits_nothing_def db_delete_def inject_transaction_def inject_cursor_def delete_body_def Let_def)
qed

lemma commits_query_nodes [commit_intros]: "commits_nothing (query_nodes sc a failed ms acc)"
proof (induction ms arbitrary: failed acc)
  case (Cons m ms)
  have "commits_nothing (op_then (db_delete sc m True) (query_nodes sc a True ms acc))"
    "commits_nothing (op_bind (current_owner sc r) (\<lambda>v. query_nodes sc a False ms (AList.update r' v acc)))" for r r'
    using Cons by (intro commit_intros; simp)+
  then show ?case
    by (auto simp: commits_nothing_def Let_def)
qed (auto intro: commit_intros)

lemma commits_query_targets [commit_intros]: "commits_nothing (query_targets sc a ns acc)"
proof (induction ns arbitrary: acc)
  case (Cons n ns)
  have "commits_nothing (op_bind (query_nodes sc a False ms acc) (query_targets sc a ns))" for ms
    using Cons by (intro commit_intros)
  then show ?case
    by (auto simp: commits_nothing_def)
qed (auto intro: commit_intros)

lemma commits_set_saved [simp]: "ds_done (set_saved n s) = ds_done s"
  using set_saved_flags [of n s] by auto

lemma commits_save_one [commit_intros]: "commits_nothing (save_one sc now a n)"
proof -
  have "commits_nothing (op_then (obj_save sc now p i c r) (op_modify (\<lambda>s1. set_obj r f (set_saved n (set_obj r g s1)))))" for p i c r f g
    by (intro commit_intros) simp
  then show ?thesis
    by (auto simp: commits_nothing_def save_one_def Let_def)
qed

lemma commits_save_body [commit_intros]: "commits_nothing (save_body sc now a ns)"
proof -
  have "commits_nothing (op_bind (query_targets sc a ms []) (\<lambda>qs.
       op_then (op_each (\<lambda>r. save_one sc now a (find_node ns r)) (map fst qs))
      (op_then (op_each (chown_one sc qs) (sa_chown a)) (op_return (map fst qs)))))" for ms
    unfolding chown_one_def by (intro commit_intros)
  then show ?thesis
    by (auto simp: commits_nothing_def save_body_def)
qed

section \<open>Deleting\<close>

definition consistent :: "onode \<Rightarrow> bool" where
  "consistent n \<longleftrightarrow> (\<forall>m \<in> set (subnodes n). \<forall>m' \<in> set (subnodes n). nd_ref m = nd_ref m' \<longrightarrow> m = m')"

lemma delete_targets_heads: "nd_ref ` set q \<subseteq> set (delete_targets p q)"
  by (induction p q rule: delete_targets.induct) auto

lemma delete_targets_refs: "set (delete_targets p q) \<subseteq> queue_refs q"
proof (induction p q rule: delete_targets.induct)
  case (2 p r ns q)
  then show ?case by (auto simp: queue_refs_nested simp del: subnodes_simp)
qed simp

text \<open>What has been processed has its nested objects processed or queued.\<close>

definition closed_under :: "onode \<Rightarrow> ref set \<Rightarrow> onode list \<Rightarrow> bool" where
  "closed_under n p q \<longleftrightarrow>
     (\<forall>m \<in> set (subnodes n). nd_ref m \<in> p \<longrightarrow> nd_ref ` set (nd_nested m) \<subseteq> p \<union> nd_ref ` set q)"

lemma delete_targets_closed:
  "consistent n \<Longrightarrow> set q \<subseteq> set (subnodes n) \<Longrightarrow> closed_under n p q \<Longrightarrow>
     \<exists>p'. p \<subseteq> p' \<and> nd_ref ` set q \<subseteq> p' \<and> p' \<subseteq> p \<union> set (delete_targets p q) \<and> closed_under n p' []"
proof (induction p q rule: delete_targets.induct)
  case (2 p r ns q)
  let ?m = "ONode r ns"
  have sub: "set q \<subseteq> set (subnodes n)" "?m \<in> set (subnodes n)" using 2(4) by auto
  show ?case
  proof (cases "r \<in> p")
    case True
    then have c: "closed_under n p q" using 2(5) by (auto simp: closed_under_def)
    from 2(1) [OF True 2(3) sub(1) c] obtain p' where
      "p \<subseteq> p'" "nd_ref ` set q \<subseteq> p'" "p' \<subseteq> p \<union> set (delete_targets p q)" "closed_under n p' []"
      by (elim exE conjE) (rule that)
    then show ?thesis using True by (intro exI [of _ p']) auto
  next
    case False
    have "set ns \<subseteq> set (subnodes n)" using nested_subnodes [OF sub(2)] .
    then have a: "set (q @ ns @ [?m]) \<subseteq> set (subnodes n)" using sub by auto
    have b: "closed_under n (insert r p) (q @ ns @ [?m])"
      unfolding closed_under_def
    proof (intro ballI impI)
      fix m
      assume m: "m \<in> set (subnodes n)" "nd_ref m \<in> insert r p"
      show "nd_ref ` set (nd_nested m) \<subseteq> insert r p \<union> nd_ref ` set (q @ ns @ [?m])"
      proof (cases "nd_ref m = r")
        case True
        then have "m = ?m" using 2(3) m(1) sub(2) unfolding consistent_def by (metis onode.sel(1))
        then show ?thesis by auto
      next
        case False
        then have "nd_ref ` set (nd_nested m) \<subseteq> p \<union> nd_ref ` set (?m # q)"
          using 2(5) m unfolding closed_under_def by blast
        then show ?thesis by auto
      qed
    qed
    from 2(2) [OF False 2(3) a b] obtain p' where p': "insert r p \<subseteq> p'" "nd_ref ` set (q @ ns @ [?m]) \<subseteq> p'"
      "p' \<subseteq> insert r p \<union> set (delete_targets (insert r p) (q @ ns @ [?m]))" "closed_under n p' []"
      by (elim exE conjE) (rule that)
    have "r \<in> set (delete_targets (insert r p) (q @ ns @ [?m]))"
      using delete_targets_heads [of "q @ ns @ [?m]" "insert r p"] by auto
    then show ?thesis using p' False by (intro exI [of _ p']) auto
  qed
qed auto

lemma closed_all:
  "closed_under n p [] \<Longrightarrow> m \<in> set (subnodes n) \<Longrightarrow> nd_ref m \<in> p \<Longrightarrow> nd_ref ` set (subnodes m) \<subseteq> p"
proof (induction m)
  case (ONode r ns)
  have "nd_ref ` set (subnodes m) \<subseteq> p" if "m \<in> set ns" for m
  proof -
    have "m \<in> set (subnodes n)" using nested_subnodes [OF ONode.prems(2)] that by blast
    moreover have "nd_ref ` set (nd_nested (ONode r ns)) \<subseteq> p \<union> nd_ref ` set []"
      using ONode.prems unfolding closed_under_def by blast
    then have "nd_ref m \<in> p" using that by auto
    ultimately show ?thesis using ONode.IH [OF that ONode.prems(1)] by blast
  qed
  then show ?case using ONode.prems(3) by auto
qed

lemma delete_targets_all:
  assumes "consistent n"
  shows "set (delete_targets {} [n]) = nd_ref ` set (subnodes n)"
proof
  show "set (delete_targets {} [n]) \<subseteq> nd_ref ` set (subnodes n)"
    using delete_targets_refs [of "{}" "[n]"] by simp
  obtain p' where "nd_ref n \<in> p'" "p' \<subseteq> set (delete_targets {} [n])" "closed_under n p' []"
    using delete_targets_closed [OF assms, of "[n]" "{}"] by (auto simp: closed_under_def)
  then show "nd_ref ` set (subnodes n) \<subseteq> set (delete_targets {} [n])"
    using closed_all [of n p' n] by auto
qed

text \<open>Releasing the owners changes neither rows nor ids.\<close>

definition keeps_rows :: "db_state \<Rightarrow> db_state \<Rightarrow> bool" where
  "keeps_rows s s' \<longleftrightarrow> ds_work s' = ds_work s \<and> ds_fresh s \<le> ds_fresh s' \<and>
     (\<forall>r < ds_fresh s. o_id (ds_objs s' r) = o_id (ds_objs s r) \<and> o_class (ds_objs s' r) = o_class (ds_objs s r)) \<and>
     (\<forall>t i r. map_of (cache_of s t) i = Some r \<longrightarrow> map_of (cache_of s' t) i = Some r)"

lemma keeps_rows_refl [simp]: "keeps_rows s s"
  by (simp add: keeps_rows_def)

lemma keeps_rows_trans: "keeps_rows s s' \<Longrightarrow> keeps_rows s' s'' \<Longrightarrow> keeps_rows s s''"
  by (auto simp: keeps_rows_def)

lemma reads_keeps: "reads s s' \<Longrightarrow> keeps_rows s s'"
  by (auto simp: reads_def keeps_rows_def)

lemma own_none: "own_each sc owner False [] [r] s = (Inr [(r, False)], s)"
  by (simp add: own_one_def op_simps)

lemma get_owner_keeps: "get_owner sc r s = (v, s') \<Longrightarrow> keeps_rows s s'"
proof -
  assume g: "get_owner sc r s = (v, s')"
  let ?m = "if o_given (ds_objs s r) \<noteq> None then op_return (o_given (ds_objs s r))
            else if o_id (ds_objs s r) = None then op_return None else db_owner sc r"
  obtain w s1 where 1: "?m s = (w, s1)" by (cases "?m s")
  have "reader ?m" by (auto intro: reader_intros)
  then have k: "keeps_rows s s1" using 1 by (intro reads_keeps) (rule readerD)
  have set: "keeps_rows s1 (set_obj r (\<lambda>x. x\<lparr>o_owner := Some y\<rparr>) s1)" for y
    by (auto simp: keeps_rows_def set_obj_def cache_of_def)
  show ?thesis
    using g 1 k keeps_rows_trans [OF k set]
    by (auto simp: get_owner_def Let_def op_bind_def op_then_def op_modify_def op_return_def split: option.splits sum.splits)
qed

lemma release_one_keeps: "release_one sc r s = (v, s') \<Longrightarrow> keeps_rows s s'"
proof -
  assume rel: "release_one sc r s = (v, s')"
  obtain w s1 where 1: "get_owner sc r s = (w, s1)" by (cases "get_owner sc r s")
  have "s' = s \<or> s' = s1"
    using rel 1 own_none by (auto simp: release_one_def op_simps set_ownership_rows_def split: if_splits sum.splits option.splits)
  then show ?thesis using get_owner_keeps [OF 1] by auto
qed

lemma release_each_keeps: "op_each (release_one sc) rs s = (v, s') \<Longrightarrow> keeps_rows s s'"
proof (induction rs arbitrary: s)
  case (Cons r rs)
  obtain w s1 where 1: "release_one sc r s = (w, s1)" by (cases "release_one sc r s")
  show ?case
    using Cons.prems 1 Cons.IH [of s1] release_one_keeps [OF 1] keeps_rows_trans [of s s1 s']
    by (auto simp: op_then_def op_bind_def split: sum.splits)
qed (simp add: op_return_def)

lemma delete_each_rows:
  assumes "c_table c = Some t"
  shows "op_each (delete_one c) rs s = (v, s') \<Longrightarrow>
    v = Inr () \<and> ds_objs s' = ds_objs s \<and> cache_of s' = cache_of s \<and>
    view (ds_work s') = (\<lambda>k. if fst k = t \<and> (\<exists>r \<in> set rs. o_id (ds_objs s r) = Some (snd k)) then None else view (ds_work s) k)"
proof (induction rs arbitrary: s)
  case Nil
  then show ?case by (simp add: op_return_def)
next
  case (Cons r rs)
  define s1 where "s1 = snd (delete_one c r s)"
  have fst1: "fst (delete_one c r s) = Inr ()" and objs: "ds_objs s1 = ds_objs s" and cache: "cache_of s1 = cache_of s"
    using assms
    by (auto simp: s1_def delete_one_def lookup_table_def delete_where_def op_modify_def cache_of_def fun_eq_iff Let_def
        split: option.splits)
  have "view (ds_work s1) = (\<lambda>k. if fst k = t \<and> o_id (ds_objs s r) = Some (snd k) then None else view (ds_work s) k)"
    using assms sql_delete_keep [of t "\<lambda>i. o_id (ds_objs s r) = Some i" "ds_work s"]
    by (auto simp: s1_def delete_one_def lookup_table_def delete_where_def op_modify_def view_keep Let_def fun_eq_iff
        split: option.splits)
  moreover have "op_each (delete_one c) rs s1 = (v, s')"
    using Cons.prems fst1 by (cases "delete_one c r s") (auto simp: op_then_def op_bind_def s1_def)
  ultimately show ?case
    using Cons.IH [of s1] objs cache by (auto simp: fun_eq_iff)
qed

section \<open>What the store promises\<close>

lemma ok_update [simp]:
  "ids_ok R (s\<lparr>ds_cursor := b\<rparr>) = ids_ok R s" "ids_ok R (s\<lparr>ds_done := d\<rparr>) = ids_ok R s"
  "saved_ok R (s\<lparr>ds_cursor := b\<rparr>) = saved_ok R s" "saved_ok R (s\<lparr>ds_done := d\<rparr>) = saved_ok R s"
  "dirty (s\<lparr>ds_cursor := b\<rparr>) n = dirty s n" "dirty (s\<lparr>ds_done := d\<rparr>) n = dirty s n"
  "writes (s\<lparr>ds_cursor := b\<rparr>) rs = writes s rs" "writes (s\<lparr>ds_done := d\<rparr>) rs = writes s rs"
  "dirty_refs (s\<lparr>ds_cursor := b\<rparr>) ns = dirty_refs s ns" "sort_targets (s\<lparr>ds_cursor := b\<rparr>) ns = sort_targets s ns"
  by (simp_all add: ids_ok_def saved_ok_def stored_def dirty_iff writes_def dirty_refs_def sort_targets_def)

lemma inject_success:
  assumes "inject_transaction cursor m s = (Inr x, s')"
  obtains s0 s1 where "s0 = s \<or> s0 = s\<lparr>ds_cursor := True\<rparr>" "m s0 = (Inr x, s1)"
    "ds_objs s' = ds_objs s1 \<and> ds_work s' = ds_work s1 \<and> ds_fresh s' = ds_fresh s1 \<and> ds_cache s' = ds_cache s1"
    "\<not> cursor \<Longrightarrow> ds_done s' = ds_work s'"
proof (cases cursor)
  case True
  then show ?thesis
    using assms by (intro that [of s s']) (auto simp: inject_transaction_def inject_cursor_def)
next
  case False
  then obtain s1 where 1: "m (s\<lparr>ds_cursor := True\<rparr>) = (Inr x, s1)"
    and s': "s' = s1\<lparr>ds_done := ds_work s1\<rparr> \<or> s' = s1\<lparr>ds_done := ds_work s1, ds_cursor := False\<rparr>"
    using assms by (auto simp: inject_transaction_def inject_cursor_def with_db_def split: prod.splits sum.splits if_splits)
  then show ?thesis
    by (intro that [OF _ 1]) auto
qed

lemma dirty_stored:
  assumes "saved_ok R s" "graph_refs ns \<subseteq> R" "\<forall>n \<in> set ns. \<not> dirty s n" "r \<in> graph_refs ns" "obj_table s r \<noteq> None"
  shows "stored s r"
proof -
  from assms(4) obtain n m where "n \<in> set ns" "m \<in> set (subnodes n)" "r = nd_ref m"
    by (auto simp: graph_refs_def)
  then have "o_saved (ds_objs s r)" using assms(3) by (auto simp: dirty_iff)
  then show ?thesis using assms by (auto simp: saved_ok_def obj_table_def)
qed

lemma same_state_ok:
  assumes "ds_objs s' = ds_objs s" "ds_work s' = ds_work s" "ds_fresh s' = ds_fresh s"
  shows "ids_ok R s' = ids_ok R s" "saved_ok R s' = saved_ok R s" "dirty s' n = dirty s n" "writes s' rs = writes s rs"
  by (simp_all add: ids_ok_def saved_ok_def stored_def dirty_iff writes_def assms)

text \<open>C3. A successful save refines the update of the abstract store: exactly the objects that were dirty are written,
  each as one update of the row with its key, in order, and nothing else changes. Afterwards no object of the forest is
  dirty, every one with a table agrees with its row, and ids stay unique and below the counters.\<close>

theorem save_refines_store:
  assumes "save_all sc now a ns cursor s = (Inr saved, s')"
    and "\<not> sa_public a" "\<not> sa_import a" "\<not> sa_force a" "sa_dirty a" "sa_chown a = []"
    and "ids_ok R s" "saved_ok R s" "graph_refs ns \<subseteq> R"
  shows "view (ds_work s') = store_write (writes s' saved) (view (ds_work s))
    \<and> set saved = dirty_refs s ns \<and> distinct saved
    \<and> (\<forall>n \<in> set ns. \<not> dirty s' n) \<and> (\<forall>r \<in> graph_refs ns. obj_table s' r \<noteq> None \<longrightarrow> stored s' r)
    \<and> ids_ok R s' \<and> saved_ok R s' \<and> (\<not> cursor \<longrightarrow> ds_done s' = ds_work s')"
proof -
  from assms(1)[unfolded save_all_def] obtain s0 s1 where
    0: "s0 = s \<or> s0 = s\<lparr>ds_cursor := True\<rparr>" and 1: "save_body sc now a ns s0 = (Inr saved, s1)"
    and 2: "ds_objs s' = ds_objs s1 \<and> ds_work s' = ds_work s1 \<and> ds_fresh s' = ds_fresh s1 \<and> ds_cache s' = ds_cache s1"
    and 3: "\<not> cursor \<Longrightarrow> ds_done s' = ds_work s'"
    by (rule inject_success) blast
  have "ids_ok R s0" "saved_ok R s0" using 0 assms by auto
  note k = save_body_success [OF 1 assms(2-6) this assms(9)]
  have s0: "ds_work s0 = ds_work s" "dirty_refs s0 ns = dirty_refs s ns" using 0 by auto
  have e: "ds_objs s' = ds_objs s1" "ds_work s' = ds_work s1" "ds_fresh s' = ds_fresh s1" using 2 by blast+
  note s1 = same_state_ok [OF e]
  have clean: "\<forall>n \<in> set ns. \<not> dirty s' n" and ok: "ids_ok R s'" "saved_ok R s'" unfolding s1 using k by blast+
  have "\<forall>r \<in> graph_refs ns. obj_table s' r \<noteq> None \<longrightarrow> stored s' r"
    using dirty_stored [OF ok(2) assms(9) clean] by blast
  moreover have "view (ds_work s') = store_write (writes s' saved) (view (ds_work s))"
    using k 2 s0(1) unfolding s1(4) by simp
  ultimately show ?thesis
    using k 3 s0(2) clean ok by blast
qed


text \<open>C21. Deleting an object removes, from the table of that object alone, the rows with the ids of the object and of
  all its nested ones; what was cached is still loaded afterwards.\<close>

theorem delete_uses_root_table:
  assumes "db_delete sc n cursor s = (Inr u, s')" "consistent n" "c_table (o_class (ds_objs s (nd_ref n))) = Some t"
    and "nd_ref ` set (subnodes n) \<subseteq> {r. r < ds_fresh s}"
  shows "view (ds_work s') = (\<lambda>k. if fst k = t \<and> (\<exists>m \<in> set (subnodes n). o_id (ds_objs s (nd_ref m)) = Some (snd k))
                                   then None else view (ds_work s) k)
    \<and> (\<forall>c t' i r. c_table c = Some t' \<and> map_of (cache_of s t') i = Some r \<longrightarrow> load sc c (ById i) s' = (Inr [r], s'))"
proof -
  from assms(1)[unfolded db_delete_def] obtain s0 s2 where
    0: "s0 = s \<or> s0 = s\<lparr>ds_cursor := True\<rparr>" and 1: "delete_body sc n s0 = (Inr u, s2)"
    and 2: "ds_objs s' = ds_objs s2 \<and> ds_work s' = ds_work s2 \<and> ds_fresh s' = ds_fresh s2 \<and> ds_cache s' = ds_cache s2"
    by (rule inject_success) blast
  let ?ts = "delete_targets {} [n]"
  have c0: "o_class (ds_objs s0 (nd_ref n)) = o_class (ds_objs s (nd_ref n))" using 0 by auto
  obtain s1 where r: "op_each (release_one sc) ?ts s0 = (Inr (), s1)"
    and d: "op_each (delete_one (o_class (ds_objs s (nd_ref n)))) ?ts s1 = (Inr u, s2)"
    using 1 by (auto simp: delete_body_def op_then_Inr c0 Let_def)
  note k = release_each_keeps [OF r]
  note d' = delete_each_rows [OF assms(3) d]
  have k': "ds_work s1 = ds_work s" and ids: "\<forall>r < ds_fresh s. o_id (ds_objs s1 r) = o_id (ds_objs s r)"
    and cache: "map_of (cache_of s t) i = Some r \<Longrightarrow> map_of (cache_of s1 t) i = Some r" for t i r
    using k 0 by (auto simp: keeps_rows_def cache_of_def)
  have same: "o_id (ds_objs s1 (nd_ref m)) = o_id (ds_objs s (nd_ref m))" if "m \<in> set (subnodes n)" for m
    using assms(4) ids that by blast
  have tgt: "(\<exists>r \<in> set ?ts. o_id (ds_objs s1 r) = Some j) \<longleftrightarrow> (\<exists>m \<in> set (subnodes n). o_id (ds_objs s (nd_ref m)) = Some j)" for j
    by (simp add: delete_targets_all [OF assms(2)] same cong: bex_cong)
  have "cache_of s' = cache_of s1" using d' 2 by (simp add: cache_of_def fun_eq_iff)
  then have "load sc c (ById i) s' = (Inr [r], s')" if "c_table c = Some t'" "map_of (cache_of s t') i = Some r" for c t' i r
    using cache [OF that(2)] that(1) by (simp add: load_def lookup_table_def)
  moreover have "view (ds_work s') = (\<lambda>k. if fst k = t \<and> (\<exists>r \<in> set ?ts. o_id (ds_objs s1 r) = Some (snd k)) then None else view (ds_work s1) k)"
    using d' 2 by simp
  ultimately show ?thesis unfolding tgt k' by blast
qed

section \<open>Concrete stores\<close>

definition new_object :: "db_class \<Rightarrow> ref option \<Rightarrow> (string \<Rightarrow> json) \<Rightarrow> dbobj" where
  "new_object c p vals = \<lparr>o_class = c, o_id = None, o_parent = p, o_vals = vals, o_saved = False, o_loaded = False,
     o_disposed = False, o_valid = True, o_changed = {}, o_given = None, o_owner = None\<rparr>"

definition empty_store :: "dbobj list \<Rightarrow> db_state" where
  "empty_store xs =
     (let db = \<lparr>sq_rows = (\<lambda>_. []), sq_next = [(''users'', 0), (''uvns'', 0), (''cells'', 0)]\<rparr> in
      \<lparr>ds_work = db, ds_done = db, ds_objs = (\<lambda>r. if r < length xs then xs ! r else new_object cell_settings_class None no_row),
       ds_fresh = length xs, ds_cache = [], ds_cursor = False\<rparr>)"

definition plain_save :: save_args where
  "plain_save = \<lparr>sa_public = False, sa_import = False, sa_dirty = True, sa_force = False, sa_delete = False, sa_chown = []\<rparr>"

definition a_cell :: db_state where
  "a_cell = empty_store [new_object cell_class None (no_row(''name'' := JStr ''home'')), new_object cell_settings_class (Some 0) no_row]"

definition save_cell :: "ref list res \<times> db_state" where
  "save_cell = save_all registry_tables (JInt 7) plain_save [ONode 0 [ONode 1 []]] False a_cell"

lemmas eval_objs = a_cell_def empty_store_def new_object_def no_row_def plain_save_def set_obj_def obj_table_def transient_object_def

lemmas eval_classes = cell_class_def cell_settings_class_def user_class_def uvn_class_def versioned_columns_def registry_tables_def

lemmas eval_sql = sql_def sql_insert_def sql_update_def row_ok_def row_put_def same_key_def next_id_def lookup_id_table_def lookup_table_def

lemmas eval_save = save_all_def inject_transaction_def inject_cursor_def with_db_def save_body_def sort_targets_def
  collect_changes_def dirty_def current_owner_def save_one_def obj_save_def create_or_update_def ensure_id_def write_creates_def
  obj_fields_def find_node_def op_simps Let_def

lemma save_cell_result: "fst save_cell = Inr [1, 0]" "map fst (sq_rows (ds_done (snd save_cell)) ''cells'') = [1]"
  unfolding save_cell_def by (simp_all add: eval_objs eval_classes eval_sql eval_save)

lemma plain_save_simps:
  "\<not> sa_public plain_save" "\<not> sa_import plain_save" "\<not> sa_force plain_save" "sa_dirty plain_save" "sa_chown plain_save = []"
  by (simp_all add: plain_save_def)

lemma empty_store_ok:
  "class_ok c1 \<Longrightarrow> class_ok c2 \<Longrightarrow> ids_ok {0, 1} (empty_store [new_object c1 p1 v1, new_object c2 p2 v2])"
  "saved_ok {0, 1} (empty_store [new_object c1 p1 v1, new_object c2 p2 v2])"
  by (auto simp: ids_ok_def saved_ok_def empty_store_def new_object_def view_def row_key_def Let_def split: option.splits)

lemma classes_ok: "class_ok user_class" "class_ok cell_class" "class_ok cell_settings_class" "class_ok uvn_class"
  by (simp_all add: class_ok_def user_class_def cell_class_def cell_settings_class_def uvn_class_def versioned_columns_def)

theorem save_refines_store_witness:
  "{1, 0} = dirty_refs a_cell [ONode 0 [ONode 1 []]] \<and> \<not> dirty (snd save_cell) (ONode 0 [ONode 1 []]) \<and>
   map fst (sq_rows (ds_done (snd save_cell)) ''cells'') = [1]"
proof -
  have ok: "ids_ok {0, 1} a_cell" "saved_ok {0, 1} a_cell"
    unfolding a_cell_def by (intro empty_store_ok classes_ok)+
  have res: "save_cell = (Inr [1, 0], snd save_cell)" using save_cell_result(1) by (intro prod_eqI) simp_all
  have "graph_refs [ONode 0 [ONode 1 []]] \<subseteq> {0, 1}" by (auto simp: graph_refs_def)
  note r = save_refines_store [OF res [unfolded save_cell_def] plain_save_simps ok this, folded save_cell_def]
  have "set [1, 0] = dirty_refs a_cell [ONode 0 [ONode 1 []]]" "\<not> dirty (snd save_cell) (ONode 0 [ONode 1 []])"
    using r by (blast, simp)
  then show ?thesis using save_cell_result(2) by simp
qed

text \<open>Two new users with one address: the first is left as saved, with an id, but without a row, and the next save of
  it does nothing.\<close>

definition two_users :: db_state where
  "two_users = empty_store [new_object user_class None (no_row(''email'' := JStr ''a'')), new_object user_class None (no_row(''email'' := JStr ''a''))]"

definition save_users :: "ref list res \<times> db_state" where
  "save_users = save_all registry_tables (JInt 7) plain_save [ONode 0 [], ONode 1 []] False two_users"

lemma save_users_result: "fst save_users = Inl IntegrityError" "\<not> dirty (snd save_users) (ONode 0 [])"
  "o_id (ds_objs (snd save_users) 0) = Some 1" "fst (save_all registry_tables (JInt 7) plain_save [ONode 0 []] False (snd save_users)) = Inr []"
  unfolding save_users_def two_users_def by (simp_all add: eval_objs eval_classes eval_sql eval_save)


text \<open>A UVN with id 2 and a cell with id 1: the UVN with id 1 goes, and the cell stays.\<close>

definition two_uvns :: db_state where
  "two_uvns = (empty_store [(new_object uvn_class None no_row)\<lparr>o_id := Some 2, o_saved := True, o_loaded := True\<rparr>,
                            (new_object cell_class (Some 0) no_row)\<lparr>o_id := Some 1, o_saved := True, o_loaded := True\<rparr>])
     \<lparr>ds_work := \<lparr>sq_rows = (\<lambda>t. if t = ''uvns'' then [(1, no_row), (2, no_row)] else if t = ''cells'' then [(1, no_row)] else []),
                  sq_next = [(''users'', 0), (''uvns'', 2), (''cells'', 1)]\<rparr>\<rparr>"

definition delete_uvn :: "unit res \<times> db_state" where
  "delete_uvn = db_delete registry_tables (ONode 0 [ONode 1 []]) True two_uvns"

lemma delete_uvn_result: "fst delete_uvn = Inr ()"
  unfolding delete_uvn_def two_uvns_def
  by (simp add: eval_objs eval_classes db_delete_def inject_transaction_def inject_cursor_def delete_body_def release_one_def
      get_owner_def db_owner_def owner_column_def lookup_table_def delete_one_def delete_where_def op_simps Let_def
      split: option.splits)

theorem delete_uses_root_table_witness:
  "view (ds_work (snd delete_uvn)) (''uvns'', 1) = None \<and> view (ds_work (snd delete_uvn)) (''cells'', 1) \<noteq> None"
proof -
  have res: "delete_uvn = (Inr (), snd delete_uvn)" using delete_uvn_result by (intro prod_eqI) simp_all
  have c: "consistent (ONode 0 [ONode 1 []])" by (simp add: consistent_def)
  have t: "c_table (o_class (ds_objs two_uvns (nd_ref (ONode 0 [ONode 1 []])))) = Some ''uvns''"
    and f: "nd_ref ` set (subnodes (ONode 0 [ONode 1 []])) \<subseteq> {r. r < ds_fresh two_uvns}"
    by (simp_all add: two_uvns_def eval_objs eval_classes Let_def)
  note r = conjunct1 [OF delete_uses_root_table [OF res [unfolded delete_uvn_def] c t f], folded delete_uvn_def]
  show ?thesis
    unfolding r by (simp add: two_uvns_def eval_objs view_def Let_def)
qed

end
