(* ===== verification/Firewall.thy ===== *)
theory Firewall
  imports Wg "HOL-Library.Product_Lexorder"
begin

text \<open>
  The packet filter of an agent (\<open>agent/uvn_net.py\<close>) and the filter commands of \<open>core/ip.py\<close>. The commands are kept as
  the lists of words of the source, and the program that runs them is an argument: it maps the tables of the kernel, a
  policy for every built-in chain and a list of rules for every chain, to new ones, or refuses. \<open>iptables\<close> is the
  documented effect of the commands that the source uses, and \<open>forwards\<close> says what such tables do with a packet.
\<close>

section \<open>The tables of the kernel\<close>

type_synonym rule = "string list"
type_synonym chain_id = "string \<times> string"

record netfilter =
  nf_chains :: "(chain_id \<times> rule list) list"
  nf_policy :: "(chain_id \<times> string) list"

definition nf_targets :: "string list" where
  "nf_targets = [''ACCEPT'', ''DROP'', ''RETURN'', ''TCPMSS'', ''MASQUERADE'']"

text \<open>The target of a rule; the other options are skipped with their values.\<close>

fun jump_of :: "rule \<Rightarrow> string option" where
  "jump_of (a # b # r) =
     (if a = ''-j'' then Some b
      else if a \<in> {''-i'', ''-o'', ''-s'', ''-p'', ''-m'', ''--ctstate''} then jump_of r
      else if a = ''--tcp-flags'' then jump_of (tl r)
      else jump_of (b # r))"
| "jump_of _ = None"

definition target_ok :: "netfilter \<Rightarrow> string \<Rightarrow> rule \<Rightarrow> bool" where
  "target_ok nf t r = (case jump_of r of None \<Rightarrow> True | Some j \<Rightarrow> j \<in> set nf_targets \<or> map_of (nf_chains nf) (t, j) \<noteq> None)"

definition referenced :: "netfilter \<Rightarrow> chain_id \<Rightarrow> bool" where
  "referenced nf tc \<longleftrightarrow> (\<exists>(k, rs) \<in> set (nf_chains nf). fst k = fst tc \<and> (\<exists>r \<in> set rs. jump_of r = Some (snd tc)))"

definition set_chain :: "chain_id \<Rightarrow> rule list \<Rightarrow> netfilter \<Rightarrow> netfilter" where
  "set_chain tc rs nf = nf\<lparr>nf_chains := AList.update tc rs (nf_chains nf)\<rparr>"

text \<open>A rule number after the chain is the position of an insertion.\<close>

definition insert_rule :: "rule \<Rightarrow> rule list \<Rightarrow> rule list" where
  "insert_rule spec rs =
     (case spec of [] \<Rightarrow> spec # rs
      | n # spec' \<Rightarrow> (case read_nat n of None \<Rightarrow> spec # rs | Some k \<Rightarrow> take (k - 1) rs @ spec' # drop (k - 1) rs))"

definition nf_cmd :: "string \<Rightarrow> string \<Rightarrow> string list \<Rightarrow> netfilter \<Rightarrow> netfilter option" where
  "nf_cmd t op params nf =
     (case params of
        [] \<Rightarrow>
          if op = ''-F'' then Some (nf\<lparr>nf_chains := map (\<lambda>(k, rs). (k, if fst k = t then [] else rs)) (nf_chains nf)\<rparr>)
          else if op = ''-X'' then Some (nf\<lparr>nf_chains := filter (\<lambda>(k, rs). fst k \<noteq> t \<or> k \<in> fst ` set (nf_policy nf)) (nf_chains nf)\<rparr>)
          else None
      | c # spec \<Rightarrow>
          (case map_of (nf_chains nf) (t, c) of
             None \<Rightarrow> if op = ''-N'' \<and> spec = [] then Some (set_chain (t, c) [] nf) else None
           | Some rs \<Rightarrow>
               if op = ''-A'' then if target_ok nf t spec then Some (set_chain (t, c) (rs @ [spec]) nf) else None
               else if op = ''-I'' then if target_ok nf t spec then Some (set_chain (t, c) (insert_rule spec rs) nf) else None
               else if op = ''-D'' then if spec \<in> set rs then Some (set_chain (t, c) (remove1 spec rs) nf) else None
               else if op = ''-X'' then
                 if spec = [] \<and> rs = [] \<and> (t, c) \<notin> fst ` set (nf_policy nf) \<and> \<not> referenced nf (t, c)
                 then Some (nf\<lparr>nf_chains := AList.delete (t, c) (nf_chains nf)\<rparr>) else None
               else if op = ''-P'' then
                 (case spec of [p] \<Rightarrow> if (t, c) \<in> fst ` set (nf_policy nf)
                                      then Some (nf\<lparr>nf_policy := AList.update (t, c) p (nf_policy nf)\<rparr>) else None
                  | _ \<Rightarrow> None)
               else None))"

text \<open>The documented effect of a command; the program itself is an argument of the operations below.\<close>

type_synonym nf_program = "rule \<Rightarrow> netfilter \<Rightarrow> netfilter option"

definition iptables :: nf_program where
  "iptables ws nf =
     (case ws of
        [l, c] \<Rightarrow>
          if l = ''-n'' then if take 2 c = ''-L'' \<and> map_of (nf_chains nf) (''filter'', drop 2 c) \<noteq> None then Some nf else None
          else nf_cmd ''filter'' l [c] nf
      | t0 # t # op # params \<Rightarrow> if t0 = ''-t'' then nf_cmd t op params nf else nf_cmd ''filter'' t0 (t # op # params) nf
      | op # params \<Rightarrow> nf_cmd ''filter'' op params nf
      | [] \<Rightarrow> None)"

text \<open>What the development relies on: a command that the program runs has the documented effect, it refuses no command that
  takes something away that is there, and it lists the chains that exist.\<close>

definition nf_op :: "rule \<Rightarrow> string" where
  "nf_op ws = (case ws of [] \<Rightarrow> [] | w # r \<Rightarrow> if w = ''-t'' then (case r of t # op # _ \<Rightarrow> op | _ \<Rightarrow> []) else w)"

locale packet_filter =
  fixes ipt :: nf_program
  assumes success_effect: "nf_op ws \<in> {''-A'', ''-I'', ''-D'', ''-N'', ''-X'', ''-P'', ''-F''} \<Longrightarrow> ipt ws nf = Some nf' \<Longrightarrow> iptables ws nf = Some nf'"
    and removal_works: "nf_op ws \<in> {''-D'', ''-X'', ''-P'', ''-F''} \<Longrightarrow> iptables ws nf = Some nf' \<Longrightarrow> ipt ws nf = Some nf'"
    and lists_chains: "ipt [''-n'', ''-L'' @ c] nf = None \<longleftrightarrow> map_of (nf_chains nf) (''filter'', c) = None"

interpretation nf: packet_filter iptables
  by unfold_locales (auto simp: iptables_def)

section \<open>The state of the service\<close>

record fw_agent =
  fa_lans :: "string list"
  fa_root :: "wg_config option"
  fa_particles :: "wg_config option"
  fa_backbone :: "wg_config list"
  fa_root_subnet :: ipv4_network
  fa_particles_subnet :: ipv4_network
  fa_backbone_subnet :: ipv4_network
  fa_cell_lans :: "ipv4_network list"
  fa_runs :: exec
  fa_conf :: "wg_config \<Rightarrow> bool \<times> string"
  fa_iptables :: nf_program

text \<open>\<open>fa_conf\<close> tells whether the configuration of an interface can be written, and its path; \<open>fa_iptables\<close> is the program.
  \<open>un_backup\<close> is the file \<open>iptables_backup.rules\<close>, \<open>un_rules\<close> is \<open>_iptables_rules\<close>.\<close>

record net_state =
  un_nf :: netfilter
  un_backup :: "netfilter option"
  un_forward :: bool
  un_rules :: "(string \<times> rule list) list"
  un_vpns :: "string \<Rightarrow> wg_iface"

definition vpn_interfaces :: "fw_agent \<Rightarrow> wg_config list" where
  "vpn_interfaces ag = (case fa_root ag of None \<Rightarrow> [] | Some v \<Rightarrow> [v]) @
     (case fa_particles ag of None \<Rightarrow> [] | Some v \<Rightarrow> [v]) @ fa_backbone ag"

definition vpn_name :: "wg_config \<Rightarrow> string" where
  "vpn_name v = wi_name (wc_intf v)"

text \<open>A command that fails raises.\<close>

definition run_iptables :: "nf_program \<Rightarrow> rule \<Rightarrow> (net_state, unit) op" where
  "run_iptables ipt ws s = (case ipt ws (un_nf s) of
     None \<Rightarrow> (Inl (RuntimeError ''CalledProcessError''), s)
   | Some nf \<Rightarrow> (Inr (), s\<lparr>un_nf := nf\<rparr>))"

definition detect_docker :: "nf_program \<Rightarrow> net_state \<Rightarrow> bool" where
  "detect_docker ipt s \<longleftrightarrow> ipt [''-n'', ''-L'' @ ''DOCKER-USER''] (un_nf s) \<noteq> None"

definition iptables_save :: "net_state \<Rightarrow> net_state" where
  "iptables_save s = s\<lparr>un_backup := Some (un_nf s)\<rparr>"

definition reset_commands :: "rule list" where
  "reset_commands = [[''-P'', ''INPUT'', ''ACCEPT''], [''-P'', ''FORWARD'', ''ACCEPT''], [''-P'', ''OUTPUT'', ''ACCEPT''],
     [''-t'', ''nat'', ''-F''], [''-t'', ''mangle'', ''-F''], [''-F''], [''-X'']]"

definition iptables_reset :: "nf_program \<Rightarrow> (net_state, unit) op" where
  "iptables_reset ipt = op_each (run_iptables ipt) reset_commands"

definition iptables_restore :: "nf_program \<Rightarrow> (net_state, unit) op" where
  "iptables_restore ipt = op_then (iptables_reset ipt) (\<lambda>s.
     case un_backup s of
       None \<Rightarrow> (Inl (RuntimeError ''CalledProcessError''), s)
     | Some nf \<Rightarrow> (Inr (), s\<lparr>un_nf := nf, un_backup := None\<rparr>))"

text \<open>\<open>_iptables_install\<close>: run the rule and remember it.\<close>

definition remember :: "string \<Rightarrow> rule \<Rightarrow> net_state \<Rightarrow> net_state" where
  "remember rule_id r s =
     s\<lparr>un_rules := AList.update rule_id ((case map_of (un_rules s) rule_id of None \<Rightarrow> [] | Some rs \<Rightarrow> rs) @ [r]) (un_rules s)\<rparr>"

definition iptables_install :: "nf_program \<Rightarrow> bool \<Rightarrow> string \<times> rule \<Rightarrow> (net_state, unit) op" where
  "iptables_install ipt noop ir =
     op_then (if noop then op_return () else run_iptables ipt (snd ir)) (op_modify (remember (fst ir) (snd ir)))"

section \<open>The rules\<close>

definition pmtu_rule :: rule where
  "pmtu_rule = [''-A'', ''FORWARD'', ''-p'', ''tcp'', ''--tcp-flags'', ''SYN,RST'', ''SYN'', ''-j'', ''TCPMSS'', ''--clamp-mss-to-pmtu'']"

definition fwd_chain :: "string \<Rightarrow> string" where
  "fwd_chain nic = ''FORWARD_'' @ nic"

definition known_subnets :: "fw_agent \<Rightarrow> ipv4_network list" where
  "known_subnets ag = sort_key (\<lambda>n. (network_address n, prefixlen n))
     ((if fa_root ag \<noteq> None then [fa_root_subnet ag] else []) @
      (if fa_particles ag \<noteq> None then [fa_particles_subnet ag] else []) @
      (if fa_backbone ag \<noteq> [] then [fa_backbone_subnet ag] else []) @ fa_cell_lans ag)"

definition managed_nics :: "fw_agent \<Rightarrow> string list" where
  "managed_nics ag = map vpn_name (vpn_interfaces ag) @ fa_lans ag"

definition forward_rules :: "fw_agent \<Rightarrow> bool \<Rightarrow> string \<Rightarrow> rule list" where
  "forward_rules ag docker nic =
     [[''-N'', fwd_chain nic],
      [''-A'', ''FORWARD'', ''-j'', fwd_chain nic],
      [''-A'', fwd_chain nic, ''-o'', nic, ''-m'', ''conntrack'', ''--ctstate'', ''RELATED,ESTABLISHED'', ''-j'', ''ACCEPT'']] @
     map (\<lambda>n. [''-A'', fwd_chain nic, ''-s'', show_net n, ''-i'', nic, ''-j'', ''ACCEPT'']) (known_subnets ag) @
     (if docker then map (\<lambda>o'. [''-I'', ''DOCKER-USER'', ''-i'', nic, ''-o'', o', ''-j'', ''ACCEPT'']) (sort (managed_nics ag)) else []) @
     [[''-A'', fwd_chain nic, ''-i'', nic, ''-j'', ''DROP''],
      [''-A'', fwd_chain nic, ''-j'', ''RETURN'']]"

definition iptables_forward :: "fw_agent \<Rightarrow> bool \<Rightarrow> string \<Rightarrow> (net_state, unit) op" where
  "iptables_forward ag noop nic s =
     op_each (iptables_install (fa_iptables ag) noop) (map (Pair nic) (forward_rules ag (detect_docker (fa_iptables ag) s) nic)) s"

text \<open>The subnet of an interface is that of its address.\<close>

definition vpn_subnet :: "wg_config \<Rightarrow> ipv4_network" where
  "vpn_subnet v = (let a = wi_address (wc_intf v); p = wi_netmask (wc_intf v) in
     \<lparr>network_address = a - host_part a p, prefixlen = p\<rparr>)"

definition masquerade_rules :: "fw_agent \<Rightarrow> wg_config \<Rightarrow> rule list" where
  "masquerade_rules ag vpn =
     map (\<lambda>nic. [''-t'', ''nat'', ''-A'', ''POSTROUTING'', ''-s'', show_net (vpn_subnet vpn), ''-o'', nic, ''-j'', ''MASQUERADE''])
       (sort (fa_lans ag) @ map vpn_name (filter (\<lambda>v. v \<noteq> vpn) (sort_key vpn_name (vpn_interfaces ag))))"

definition vpn_masquerade :: "fw_agent \<Rightarrow> bool \<Rightarrow> wg_config \<Rightarrow> (net_state, unit) op" where
  "vpn_masquerade ag noop vpn = op_each (iptables_install (fa_iptables ag) noop) (map (Pair (vpn_name vpn)) (masquerade_rules ag vpn))"

section \<open>Starting and stopping\<close>

definition on_vpn :: "wg_config \<Rightarrow> (wg_iface, unit) op \<Rightarrow> (net_state, unit) op" where
  "on_vpn v m s = (case m (un_vpns s (vpn_name v)) of (r, x) \<Rightarrow> (r, s\<lparr>un_vpns := (un_vpns s)(vpn_name v := x)\<rparr>))"

definition start_vpn :: "fw_agent \<Rightarrow> bool \<Rightarrow> wg_config \<Rightarrow> (net_state, unit) op" where
  "start_vpn ag noop v =
     op_then (on_vpn v (wg_start (fa_runs ag) (wc_intf v) noop (fst (fa_conf ag v)) (snd (fa_conf ag v))))
     (op_then (iptables_forward ag noop (vpn_name v))
       (if wc_masquerade v = Some True then vpn_masquerade ag noop v else op_return ()))"

definition net_start :: "fw_agent \<Rightarrow> bool \<Rightarrow> (net_state, unit) op" where
  "net_start ag noop =
     op_then (if noop then op_return () else op_modify (\<lambda>s. iptables_save (s\<lparr>un_forward := True\<rparr>)))
     (op_then (iptables_install (fa_iptables ag) noop (''forward_drop'', [''-P'', ''FORWARD'', ''DROP'']))
     (op_then (iptables_install (fa_iptables ag) noop (''tcp_pmtu'', pmtu_rule))
     (op_then (op_each (iptables_forward ag noop) (fa_lans ag))
       (op_each (start_vpn ag noop) (vpn_interfaces ag)))))"

text \<open>The command that undoes a rule: a policy becomes ACCEPT, and every word is looked up in the table.\<close>

definition undo_word :: "string \<Rightarrow> string" where
  "undo_word w = (if w = ''-I'' \<or> w = ''-A'' then ''-D'' else if w = ''-N'' then ''-X'' else w)"

definition undo_rule :: "rule \<Rightarrow> rule res" where
  "undo_rule r =
     (case r of
        [] \<Rightarrow> Inl IndexError
      | w # _ \<Rightarrow>
          if w = ''-P'' then rbind (require (length r = 3) AssertionError) (\<lambda>_. Inr (take 2 r @ [''ACCEPT'']))
          else Inr (map undo_word r))"

text \<open>With \<open>assert_stopped\<close> errors are logged.\<close>

definition unless_asserted :: "bool \<Rightarrow> (net_state, unit) op \<Rightarrow> (net_state, unit) op" where
  "unless_asserted a m = op_catch m (\<lambda>e. if a then op_return () else op_raise e)"

definition delete_rule :: "nf_program \<Rightarrow> bool \<Rightarrow> rule \<Rightarrow> (net_state, unit) op" where
  "delete_rule ipt a r = unless_asserted a (case undo_rule r of Inl e \<Rightarrow> op_raise e | Inr d \<Rightarrow> run_iptables ipt d)"

definition stop_vpn :: "fw_agent \<Rightarrow> bool \<Rightarrow> wg_config \<Rightarrow> (net_state, unit) op" where
  "stop_vpn ag a v = unless_asserted a (on_vpn v (wg_stop (fa_runs ag) (wc_intf v) a))"

definition delete_rules :: "nf_program \<Rightarrow> bool \<Rightarrow> (net_state, unit) op" where
  "delete_rules ipt a s = op_each (delete_rule ipt a) (concat (map (\<lambda>(i, rs). rev rs) (un_rules s))) s"

definition net_stop :: "fw_agent \<Rightarrow> bool \<Rightarrow> (net_state, unit) op" where
  "net_stop ag a =
     op_then (op_each (stop_vpn ag a) (vpn_interfaces ag)) (\<lambda>s.
       if un_backup s = None then unless_asserted a (iptables_restore (fa_iptables ag)) s
       else op_then (if a \<and> un_rules s = [] then net_start ag True else op_return ()) (delete_rules (fa_iptables ag) a) s)"

definition take_over_net :: "fw_agent \<Rightarrow> (net_state, unit) op" where
  "take_over_net ag = net_start ag True"

section \<open>What the tables do with a packet\<close>

record packet =
  pk_in :: string
  pk_out :: string
  pk_src :: ipv4
  pk_tcp :: bool
  pk_syn :: bool
  pk_established :: bool

definition read_net :: "string \<Rightarrow> ipv4_network option" where
  "read_net w = (case split_char (CHR ''/'') w of
     [a, p] \<Rightarrow> (case (read_ipv4 a, read_nat p) of
        (Inr a', Some p') \<Rightarrow> Some \<lparr>network_address = a', prefixlen = p'\<rparr> | _ \<Rightarrow> None)
   | _ \<Rightarrow> None)"

fun spec_matches :: "packet \<Rightarrow> rule \<Rightarrow> bool" where
  "spec_matches p (a # b # r) =
     (if a = ''-i'' then pk_in p = b \<and> spec_matches p r
      else if a = ''-o'' then pk_out p = b \<and> spec_matches p r
      else if a = ''-s'' then (case read_net b of None \<Rightarrow> False | Some n \<Rightarrow> in_network (pk_src p) n) \<and> spec_matches p r
      else if a = ''-p'' then b = ''tcp'' \<and> pk_tcp p \<and> spec_matches p r
      else if a = ''--ctstate'' then b = ''RELATED,ESTABLISHED'' \<and> pk_established p \<and> spec_matches p r
      else if a = ''--tcp-flags'' then pk_syn p \<and> spec_matches p (tl r)
      else spec_matches p r)"
| "spec_matches p _ = True"

datatype verdict = Accepted | Dropped | Returned

text \<open>The first argument bounds the depth of the jumps.\<close>

fun run_chain :: "nat \<Rightarrow> netfilter \<Rightarrow> packet \<Rightarrow> rule list \<Rightarrow> verdict" where
  "run_chain n nf p [] = Returned"
| "run_chain 0 nf p (r # rs) = Returned"
| "run_chain (Suc n) nf p (r # rs) =
     (case (if spec_matches p r then jump_of r else None) of
        None \<Rightarrow> run_chain (Suc n) nf p rs
      | Some j \<Rightarrow>
          if j = ''ACCEPT'' then Accepted
          else if j = ''DROP'' then Dropped
          else if j = ''RETURN'' then Returned
          else if j \<in> set nf_targets then run_chain (Suc n) nf p rs
          else (case map_of (nf_chains nf) (''filter'', j) of
                  None \<Rightarrow> run_chain (Suc n) nf p rs
                | Some sub \<Rightarrow> (case run_chain n nf p sub of Returned \<Rightarrow> run_chain (Suc n) nf p rs | v \<Rightarrow> v)))"

definition forwards :: "netfilter \<Rightarrow> packet \<Rightarrow> bool" where
  "forwards nf p =
     (case map_of (nf_chains nf) (''filter'', ''FORWARD'') of
        None \<Rightarrow> False
      | Some rs \<Rightarrow>
          (case run_chain (Suc (length (nf_chains nf))) nf p rs of
             Accepted \<Rightarrow> True
           | Dropped \<Rightarrow> False
           | Returned \<Rightarrow> map_of (nf_policy nf) (''filter'', ''FORWARD'') = Some ''ACCEPT''))"

end
