(* ===== verification/Firewall_Laws.thy ===== *)
theory Firewall_Laws
  imports Firewall "HOL-Library.Multiset"
begin

text \<open>
  What the packet filter of an agent does: after a successful start the tables forward exactly the packets of a small
  decision function.
\<close>

declare split_paired_All [simp del] split_paired_Ex [simp del]

section \<open>Commands on chains\<close>

definition chain :: "netfilter \<Rightarrow> chain_id \<Rightarrow> rule list option" where
  "chain nf tc = map_of (nf_chains nf) tc"

lemma chain_set [simp]: "chain (set_chain tc rs nf) tc' = (if tc' = tc then Some rs else chain nf tc')"
  by (simp add: chain_def set_chain_def)

lemma policy_set [simp]: "nf_policy (set_chain tc rs nf) = nf_policy nf"
  by (simp add: set_chain_def)

lemma iptables_append:
  assumes "iptables (''-A'' # c # w # spec) nf = Some nf'"
  obtains rs where "chain nf (''filter'', c) = Some rs" "nf' = set_chain (''filter'', c) (rs @ [w # spec]) nf"
  using assms by (auto simp: iptables_def nf_cmd_def chain_def split: option.splits if_splits)

lemma iptables_new:
  assumes "iptables [''-N'', c] nf = Some nf'"
  shows "chain nf (''filter'', c) = None \<and> nf' = set_chain (''filter'', c) [] nf"
  using assms by (auto simp: iptables_def nf_cmd_def chain_def split: option.splits if_splits)

lemma iptables_policy:
  assumes "iptables [''-P'', c, p] nf = Some nf'"
  shows "nf' = nf\<lparr>nf_policy := AList.update (''filter'', c) p (nf_policy nf)\<rparr>"
  using assms by (auto simp: iptables_def nf_cmd_def split: option.splits if_splits)

lemma iptables_nat:
  assumes "iptables (''-t'' # ''nat'' # ''-A'' # c # spec) nf = Some nf'"
  obtains rs where "chain nf (''nat'', c) = Some rs" "nf' = set_chain (''nat'', c) (rs @ [spec]) nf"
  using assms by (auto simp: iptables_def nf_cmd_def chain_def split: option.splits if_splits)

lemma remember_nf [simp]: "un_nf (remember i r s) = un_nf s"
  by (simp add: remember_def)

lemma nf_op_simps [simp]:
  "nf_op (''-t'' # t # w # r) = w" "w \<noteq> ''-t'' \<Longrightarrow> nf_op (w # r) = w"
  by (simp_all add: nf_op_def)

context packet_filter
begin

lemma install_success:
  assumes "iptables_install ipt False (i, r) s = (Inr u, s')" and "nf_op r \<in> {''-A'', ''-I'', ''-D'', ''-N'', ''-X'', ''-P'', ''-F''}"
  shows "\<exists>nf. iptables r (un_nf s) = Some nf \<and> s' = remember i r (s\<lparr>un_nf := nf\<rparr>)"
  using assms success_effect [OF assms(2)] by (auto simp: iptables_install_def run_iptables_def op_simps split: option.splits)

lemma append_all:
  "op_each (iptables_install ipt False) (map (Pair i) (map (\<lambda>spec. ''-A'' # c # spec) specs)) s = (Inr u, s') \<Longrightarrow>
     [] \<notin> set specs \<Longrightarrow> specs \<noteq> [] \<Longrightarrow>
     \<exists>rs. chain (un_nf s) (''filter'', c) = Some rs \<and> chain (un_nf s') (''filter'', c) = Some (rs @ specs) \<and>
       (\<forall>tc. tc \<noteq> (''filter'', c) \<longrightarrow> chain (un_nf s') tc = chain (un_nf s) tc) \<and> nf_policy (un_nf s') = nf_policy (un_nf s)"
proof (induction specs arbitrary: s)
  case (Cons spec specs)
  obtain w ws where spec: "spec = w # ws" using Cons.prems(2) by (cases spec) auto
  from Cons.prems(1) obtain v s1 where 1: "iptables_install ipt False (i, ''-A'' # c # spec) s = (Inr v, s1)"
    and 2: "op_each (iptables_install ipt False) (map (Pair i) (map (\<lambda>spec. ''-A'' # c # spec) specs)) s1 = (Inr u, s')"
    by (auto simp: op_then_Inr)
  from install_success [OF 1] obtain rs where
    rs: "chain (un_nf s) (''filter'', c) = Some rs" "un_nf s1 = set_chain (''filter'', c) (rs @ [spec]) (un_nf s)"
    unfolding spec by (auto elim!: iptables_append)
  show ?case
  proof (cases "specs = []")
    case True
    then show ?thesis using 2 rs by (auto simp: op_return_def)
  next
    case False
    then show ?thesis using Cons.IH [OF 2] Cons.prems(2) rs by auto
  qed
qed simp

end

section \<open>The chains of the interfaces\<close>

definition chain_specs :: "fw_agent \<Rightarrow> string \<Rightarrow> rule list" where
  "chain_specs ag nic =
     [[''-o'', nic, ''-m'', ''conntrack'', ''--ctstate'', ''RELATED,ESTABLISHED'', ''-j'', ''ACCEPT'']] @
     map (\<lambda>n. [''-s'', show_net n, ''-i'', nic, ''-j'', ''ACCEPT'']) (known_subnets ag) @
     [[''-i'', nic, ''-j'', ''DROP''], [''-j'', ''RETURN'']]"

lemma forward_rules_specs:
  "forward_rules ag False nic =
     [''-N'', fwd_chain nic] # [''-A'', ''FORWARD'', ''-j'', fwd_chain nic] # map (\<lambda>spec. ''-A'' # fwd_chain nic # spec) (chain_specs ag nic)"
  by (simp add: forward_rules_def chain_specs_def)

lemma chain_specs_ne: "[] \<notin> set (chain_specs ag nic)" "chain_specs ag nic \<noteq> []"
  by (auto simp: chain_specs_def)

lemma fwd_chain_inj [simp]: "fwd_chain a = fwd_chain b \<longleftrightarrow> a = b"
  by (simp add: fwd_chain_def)

lemma fwd_chain_other [simp]:
  "fwd_chain a \<noteq> ''FORWARD''" "fwd_chain a \<noteq> ''DOCKER-USER''" "''FORWARD'' \<noteq> fwd_chain a"
  "fwd_chain a \<notin> set nf_targets" "fwd_chain a \<noteq> ''ACCEPT''" "fwd_chain a \<noteq> ''DROP''" "fwd_chain a \<noteq> ''RETURN''"
  by (simp_all add: fwd_chain_def nf_targets_def)

text \<open>What is installed for a list of interfaces, in order.\<close>

definition jump_rule :: "string \<Rightarrow> rule" where
  "jump_rule nic = [''-j'', fwd_chain nic]"

definition installed :: "fw_agent \<Rightarrow> rule list \<Rightarrow> string list \<Rightarrow> netfilter \<Rightarrow> bool" where
  "installed ag f nics nf \<longleftrightarrow>
     chain nf (''filter'', ''FORWARD'') = Some (f @ map jump_rule nics) \<and> distinct nics \<and>
     (\<forall>n \<in> set nics. chain nf (''filter'', fwd_chain n) = Some (chain_specs ag n)) \<and>
     chain nf (''filter'', ''DOCKER-USER'') = None \<and> map_of (nf_policy nf) (''filter'', ''FORWARD'') = Some ''DROP''"

context packet_filter
begin

lemma docker_chain: "detect_docker ipt s \<longleftrightarrow> chain (un_nf s) (''filter'', ''DOCKER-USER'') \<noteq> None"
  using lists_chains [of "''DOCKER-USER''" "un_nf s"] by (simp add: detect_docker_def chain_def)

lemma iptables_forward_installs:
  assumes ag: "fa_iptables ag = ipt" and fwd: "iptables_forward ag False nic s = (Inr u, s')" and inst: "installed ag f nics (un_nf s)"
  shows "installed ag f (nics @ [nic]) (un_nf s')"
proof -
  have nodocker: "\<not> detect_docker ipt s" using inst by (simp add: installed_def docker_chain)
  from fwd nodocker obtain u1 u2 s1 s2 where
    1: "iptables_install ipt False (nic, [''-N'', fwd_chain nic]) s = (Inr u1, s1)"
    and 2: "iptables_install ipt False (nic, [''-A'', ''FORWARD'', ''-j'', fwd_chain nic]) s1 = (Inr u2, s2)"
    and 3: "op_each (iptables_install ipt False) (map (Pair nic) (map (\<lambda>spec. ''-A'' # fwd_chain nic # spec) (chain_specs ag nic))) s2 = (Inr u, s')"
    by (auto simp: iptables_forward_def ag forward_rules_specs op_then_Inr simp del: list.map)
      (auto simp: op_then_Inr)
  have n1: "chain (un_nf s) (''filter'', fwd_chain nic) = None" "un_nf s1 = set_chain (''filter'', fwd_chain nic) [] (un_nf s)"
    using install_success [OF 1] by (auto dest!: iptables_new)
  obtain rs where n2: "chain (un_nf s1) (''filter'', ''FORWARD'') = Some rs"
      "un_nf s2 = set_chain (''filter'', ''FORWARD'') (rs @ [jump_rule nic]) (un_nf s1)"
    using install_success [OF 2] by (auto simp: jump_rule_def elim!: iptables_append)
  from append_all [OF 3 chain_specs_ne]
  have n3: "chain (un_nf s') (''filter'', fwd_chain nic) = Some (chain_specs ag nic)"
    "\<forall>tc. tc \<noteq> (''filter'', fwd_chain nic) \<longrightarrow> chain (un_nf s') tc = chain (un_nf s2) tc"
    "nf_policy (un_nf s') = nf_policy (un_nf s2)"
    using n1 n2 by auto
  have new: "nic \<notin> set nics" using inst n1 by (auto simp: installed_def)
  have old: "chain (un_nf s') (''filter'', fwd_chain n) = chain (un_nf s) (''filter'', fwd_chain n)" if "n \<noteq> nic" for n
    using n1 n2 n3(2) [rule_format, of "(''filter'', fwd_chain n)"] that by simp
  have "chain (un_nf s') (''filter'', ''FORWARD'') = Some (f @ map jump_rule (nics @ [nic]))"
    using inst n1 n2 n3(2) [rule_format, of "(''filter'', ''FORWARD'')"] by (simp add: installed_def)
  moreover have "chain (un_nf s') (''filter'', ''DOCKER-USER'') = None"
    using inst n1 n2 n3(2) [rule_format, of "(''filter'', ''DOCKER-USER'')"] fwd_chain_other(2) [of nic] by (auto simp: installed_def)
  moreover have "chain (un_nf s') (''filter'', fwd_chain n) = Some (chain_specs ag n)" if "n \<in> set (nics @ [nic])" for n
    using that inst n3(1) old [of n] by (cases "n = nic") (auto simp: installed_def)
  ultimately show ?thesis
    using inst n1(2) n2(2) n3(3) new by (simp add: installed_def)
qed

end

definition filtered_nics :: "fw_agent \<Rightarrow> string list" where
  "filtered_nics ag = fa_lans ag @ map vpn_name (vpn_interfaces ag)"

text \<open>Rules of the table for address translation leave the filter alone.\<close>

definition same_filter :: "netfilter \<Rightarrow> netfilter \<Rightarrow> bool" where
  "same_filter nf nf' \<longleftrightarrow> nf_policy nf' = nf_policy nf \<and> (\<forall>c. chain nf' (''filter'', c) = chain nf (''filter'', c))"

lemma same_filter_installed: "same_filter nf nf' \<Longrightarrow> installed ag f nics nf \<Longrightarrow> installed ag f nics nf'"
  by (simp add: same_filter_def installed_def)

context packet_filter
begin

lemma masquerade_same_filter:
  "op_each (iptables_install ipt False) (map (Pair i) (map (\<lambda>nic. ''-t'' # ''nat'' # ''-A'' # ''POSTROUTING'' # g nic) ns)) s = (Inr u, s')
     \<Longrightarrow> same_filter (un_nf s) (un_nf s')"
proof (induction ns arbitrary: s)
  case Nil
  then show ?case by (simp add: op_return_def same_filter_def)
next
  case (Cons n ns)
  then obtain v s1 where 1: "iptables_install ipt False (i, ''-t'' # ''nat'' # ''-A'' # ''POSTROUTING'' # g n) s = (Inr v, s1)"
    and 2: "op_each (iptables_install ipt False) (map (Pair i) (map (\<lambda>nic. ''-t'' # ''nat'' # ''-A'' # ''POSTROUTING'' # g nic) ns)) s1 = (Inr u, s')"
    by (auto simp: op_then_Inr)
  from install_success [OF 1] have "same_filter (un_nf s) (un_nf s1)"
    by (auto simp: same_filter_def elim!: iptables_nat)
  then show ?case using Cons.IH [OF 2] by (auto simp: same_filter_def)
qed

lemma start_vpn_installs:
  assumes "start_vpn ag False v s = (Inr u, s')" "installed ag f nics (un_nf s)" and ag: "fa_iptables ag = ipt"
  shows "installed ag f (nics @ [vpn_name v]) (un_nf s')"
proof -
  from assms(1) obtain u1 u2 s1 s2 where
    1: "on_vpn v (wg_start (fa_runs ag) (wc_intf v) False (fst (fa_conf ag v)) (snd (fa_conf ag v))) s = (Inr u1, s1)"
    and 2: "iptables_forward ag False (vpn_name v) s1 = (Inr u2, s2)"
    and 3: "(if wc_masquerade v = Some True then vpn_masquerade ag False v else op_return ()) s2 = (Inr u, s')"
    by (auto simp: start_vpn_def op_then_Inr)
  have "un_nf s1 = un_nf s" using 1 by (auto simp: on_vpn_def split: prod.splits)
  then have i: "installed ag f (nics @ [vpn_name v]) (un_nf s2)"
    using iptables_forward_installs [OF ag 2] assms(2) by simp
  show ?thesis
  proof (cases "wc_masquerade v = Some True")
    case True
    then have "vpn_masquerade ag False v s2 = (Inr u, s')" using 3 by simp
    then have "same_filter (un_nf s2) (un_nf s')"
      unfolding vpn_masquerade_def masquerade_rules_def ag
      by (rule masquerade_same_filter [where g = "\<lambda>nic. [''-s'', show_net (vpn_subnet v), ''-o'', nic, ''-j'', ''MASQUERADE'']"])
    then show ?thesis using i by (rule same_filter_installed)
  next
    case False
    then show ?thesis using 3 i by (simp add: op_return_def)
  qed
qed

lemma each_installs:
  "op_each m xs s = (Inr u, s') \<Longrightarrow> (\<And>x s u s' nics. m x s = (Inr u, s') \<Longrightarrow> installed ag f nics (un_nf s) \<Longrightarrow> installed ag f (nics @ [g x]) (un_nf s'))
     \<Longrightarrow> installed ag f nics (un_nf s) \<Longrightarrow> installed ag f (nics @ map g xs) (un_nf s')"
proof (induction xs arbitrary: s nics)
  case (Cons x xs)
  then obtain v s1 where 1: "m x s = (Inr v, s1)" "op_each m xs s1 = (Inr u, s')" by (auto simp: op_then_Inr)
  show ?case using Cons.IH [OF 1(2) Cons.prems(2) Cons.prems(2) [OF 1(1) Cons.prems(3)]] by simp
qed (simp add: op_return_def)

lemma net_start_installs:
  assumes ag: "fa_iptables ag = ipt" and start: "net_start ag False s = (Inr u, s')" and f: "chain (un_nf s) (''filter'', ''FORWARD'') = Some f"
    and docker: "chain (un_nf s) (''filter'', ''DOCKER-USER'') = None"
  shows "installed ag (f @ [tl (tl pmtu_rule)]) (filtered_nics ag) (un_nf s')"
proof -
  let ?s0 = "iptables_save (s\<lparr>un_forward := True\<rparr>)"
  from start obtain u1 u2 u3 s1 s2 s3 where
    1: "iptables_install ipt False (''forward_drop'', [''-P'', ''FORWARD'', ''DROP'']) ?s0 = (Inr u1, s1)"
    and 2: "iptables_install ipt False (''tcp_pmtu'', pmtu_rule) s1 = (Inr u2, s2)"
    and 3: "op_each (iptables_forward ag False) (fa_lans ag) s2 = (Inr u3, s3)"
    and 4: "op_each (start_vpn ag False) (vpn_interfaces ag) s3 = (Inr u, s')"
    by (auto simp: net_start_def ag op_then_Inr op_modify_def)
  have n1: "chain (un_nf s1) tc = chain (un_nf s) tc" "map_of (nf_policy (un_nf s1)) (''filter'', ''FORWARD'') = Some ''DROP''" for tc
    using install_success [OF 1] by (auto simp: chain_def iptables_save_def dest!: iptables_policy)
  have "installed ag (f @ [tl (tl pmtu_rule)]) [] (un_nf s2)"
    using install_success [OF 2] n1 f docker by (auto simp: installed_def pmtu_rule_def elim!: iptables_append)
  from each_installs [OF 3 _ this, of id] have "installed ag (f @ [tl (tl pmtu_rule)]) (fa_lans ag) (un_nf s3)"
    by (auto intro: iptables_forward_installs [OF ag])
  from each_installs [OF 4 _ this, of vpn_name] show ?thesis
    by (auto simp: filtered_nics_def intro: start_vpn_installs [OF _ _ ag])
qed

end

section \<open>The decision\<close>

lemma read_show_net [simp]: "valid_network n \<Longrightarrow> read_net (show_net n) = Some n"
proof -
  assume v: "valid_network n"
  have no: "CHR ''/'' \<notin> set (show_nat k)" for k
    using set_show_nat [of "CHR ''/''" k] by (auto simp: char_digit_def)
  then have "CHR ''/'' \<notin> set (show_ipv4 (network_address n))"
    by (auto simp: show_ipv4_def)
  then have "split_char (CHR ''/'') (join_char (CHR ''/'') [show_ipv4 (network_address n), show_nat (prefixlen n)])
      = [show_ipv4 (network_address n), show_nat (prefixlen n)]"
    using no by (intro split_join) auto
  then show ?thesis using v by (simp add: read_net_def show_net_def valid_network_def)
qed

text \<open>The decision function: the chains are asked in order; the first one of the outgoing interface lets established
  traffic pass, the one of the incoming interface asks for a known source.\<close>

fun gate :: "ipv4_network list \<Rightarrow> string list \<Rightarrow> packet \<Rightarrow> bool" where
  "gate nets [] p = False"
| "gate nets (n # ns) p =
     (if pk_out p = n \<and> pk_established p then True
      else if pk_in p = n then \<exists>net \<in> set nets. in_network (pk_src p) net
      else gate nets ns p)"

lemma run_sources:
  "\<forall>n \<in> set nets. valid_network n \<Longrightarrow>
     run_chain (Suc k) nf p (map (\<lambda>n. [''-s'', show_net n, ''-i'', nic, ''-j'', ''ACCEPT'']) nets @ rs) =
     (if pk_in p = nic \<and> (\<exists>net \<in> set nets. in_network (pk_src p) net) then Accepted else run_chain (Suc k) nf p rs)"
proof (induction nets)
  case (Cons n nets)
  let ?r = "[''-s'', show_net n, ''-i'', nic, ''-j'', ''ACCEPT'']"
  have m: "spec_matches p ?r \<longleftrightarrow> in_network (pk_src p) n \<and> pk_in p = nic" and j: "jump_of ?r = Some ''ACCEPT''"
    using Cons.prems by auto
  have step: "run_chain (Suc k) nf p (?r # rs') = (if in_network (pk_src p) n \<and> pk_in p = nic then Accepted else run_chain (Suc k) nf p rs')" for rs'
    by (simp add: m j del: spec_matches.simps jump_of.simps)
  have "\<forall>n \<in> set nets. valid_network n" using Cons.prems by simp
  note ih = Cons.IH [OF this]
  show ?case
    by (subst list.map, subst append_Cons, subst step, subst ih, cases "pk_in p = nic";
        cases "in_network (pk_src p) n"; simp del: run_chain.simps)
qed (simp del: run_chain.simps)

lemma run_specs:
  assumes "\<forall>n \<in> set (known_subnets ag). valid_network n"
  shows "run_chain (Suc k) nf p (chain_specs ag nic) =
     (if pk_out p = nic \<and> pk_established p then Accepted
      else if pk_in p = nic then if \<exists>net \<in> set (known_subnets ag). in_network (pk_src p) net then Accepted else Dropped
      else Returned)"
  using run_sources [OF assms, of k nf p nic] by (simp add: chain_specs_def)

lemma run_jumps:
  assumes "\<forall>n \<in> set (known_subnets ag). valid_network n"
  shows "\<forall>n \<in> set nics. chain nf (''filter'', fwd_chain n) = Some (chain_specs ag n) \<Longrightarrow>
    run_chain (Suc (Suc k)) nf p (map jump_rule nics) \<noteq> Returned \<and>
      (run_chain (Suc (Suc k)) nf p (map jump_rule nics) = Accepted \<longleftrightarrow> gate (known_subnets ag) nics p) \<or>
    run_chain (Suc (Suc k)) nf p (map jump_rule nics) = Returned \<and> \<not> gate (known_subnets ag) nics p"
proof (induction nics)
  case (Cons n ns)
  then show ?case
    using run_specs [OF assms, of k nf p n] by (auto simp: jump_rule_def chain_def)
qed simp

text \<open>C6. After a successful start over an empty FORWARD chain the kernel forwards exactly the packets that the decision
  function lets through, with the interfaces in the order in which they were set up, each of them once. Without a match
  the packet is dropped.\<close>

theorem forwards_exactly_gate:
  assumes "net_start ag False s = (Inr u, s')"
    and "map_of (nf_chains (un_nf s)) (''filter'', ''FORWARD'') = Some []" "\<not> detect_docker (fa_iptables ag) s"
    and doc: "packet_filter (fa_iptables ag)" and "\<forall>n \<in> set (known_subnets ag). valid_network n"
  shows "forwards (un_nf s') p = gate (known_subnets ag) (filtered_nics ag) p \<and> distinct (filtered_nics ag)"
proof -
  let ?nf = "un_nf s'" and ?m = "tl (tl pmtu_rule)"
  have i: "installed ag ([] @ [?m]) (filtered_nics ag) ?nf"
    using assms(1-3) by (intro packet_filter.net_start_installs [OF doc refl]) (auto simp: chain_def packet_filter.docker_chain [OF doc])
  then have f: "map_of (nf_chains ?nf) (''filter'', ''FORWARD'') = Some (?m # map jump_rule (filtered_nics ag))"
    and pol: "map_of (nf_policy ?nf) (''filter'', ''FORWARD'') = Some ''DROP''"
    and ch: "\<forall>n \<in> set (filtered_nics ag). chain ?nf (''filter'', fwd_chain n) = Some (chain_specs ag n)"
    by (simp_all add: installed_def chain_def)
  have "nf_chains ?nf \<noteq> []" using f by auto
  then obtain k where k: "length (nf_chains ?nf) = Suc k" by (cases "nf_chains ?nf") auto
  have "run_chain (Suc (Suc k)) ?nf p (?m # rs) = run_chain (Suc (Suc k)) ?nf p rs" for rs
    by (simp add: pmtu_rule_def nf_targets_def)
  then have "forwards ?nf p = (run_chain (Suc (Suc k)) ?nf p (map jump_rule (filtered_nics ag)) = Accepted)"
    unfolding forwards_def f k using pol by (auto split: verdict.splits simp del: run_chain.simps)
  then show ?thesis
    using run_jumps [OF assms(5) ch, of k p] i by (auto simp: installed_def simp del: run_chain.simps)
qed

section \<open>A gateway\<close>

text \<open>One local network and the VPN of the particles, over the tables of a fresh kernel.\<close>

definition demo_vpn :: wg_config where
  "demo_vpn = \<lparr>wc_intf = demo_intf, wc_peers = [], wc_tunnel = False, wc_tunnel_root = False, wc_masquerade = Some True,
     wc_forward = None, wc_generation_ts = ''''\<rparr>"

definition demo_gateway :: fw_agent where
  "demo_gateway = \<lparr>fa_lans = [''eth0''], fa_root = None, fa_particles = Some demo_vpn, fa_backbone = [],
     fa_root_subnet = \<lparr>network_address = 0, prefixlen = 24\<rparr>, fa_particles_subnet = \<lparr>network_address = 0, prefixlen = 24\<rparr>,
     fa_backbone_subnet = \<lparr>network_address = 0, prefixlen = 24\<rparr>, fa_cell_lans = [\<lparr>network_address = 512, prefixlen = 24\<rparr>],
     fa_runs = \<lambda>_ _. True, fa_conf = \<lambda>_. (True, ''/wg0.conf''), fa_iptables = iptables\<rparr>"

definition demo_tables :: netfilter where
  "demo_tables = \<lparr>nf_chains = [((''filter'', ''INPUT''), []), ((''filter'', ''FORWARD''), []), ((''filter'', ''OUTPUT''), []), ((''nat'', ''POSTROUTING''), [])],
     nf_policy = [((''filter'', ''INPUT''), ''ACCEPT''), ((''filter'', ''FORWARD''), ''ACCEPT''), ((''filter'', ''OUTPUT''), ''ACCEPT'')]\<rparr>"

definition demo_net :: net_state where
  "demo_net = \<lparr>un_nf = demo_tables, un_backup = None, un_forward = False, un_rules = [],
     un_vpns = \<lambda>_. \<lparr>wx_created = False, wx_up = False, wx_trace = []\<rparr>\<rparr>"


lemma demo_subnets: "known_subnets demo_gateway = [\<lparr>network_address = 0, prefixlen = 24\<rparr>, \<lparr>network_address = 512, prefixlen = 24\<rparr>]"
  by (simp add: known_subnets_def demo_gateway_def)

lemma demo_nics: "filtered_nics demo_gateway = [''eth0'', ''wg0'']"
  by (simp add: filtered_nics_def demo_gateway_def vpn_interfaces_def vpn_name_def demo_vpn_def demo_intf_def)

lemmas eval_firewall = net_start_def op_simps iptables_save_def iptables_install_def run_iptables_def iptables_def nf_cmd_def set_chain_def
  target_ok_def nf_targets_def insert_rule_def remember_def pmtu_rule_def iptables_forward_def forward_rules_def detect_docker_def fwd_chain_def
  vpn_masquerade_def masquerade_rules_def start_vpn_def on_vpn_def vpn_interfaces_def vpn_name_def

lemma demo_fields:
  "fa_lans demo_gateway = [''eth0'']" "fa_root demo_gateway = None" "fa_particles demo_gateway = Some demo_vpn" "fa_backbone demo_gateway = []"
  "fa_runs demo_gateway = (\<lambda>_ _. True)" "fa_conf demo_gateway v = (True, ''/wg0.conf'')" "wc_masquerade demo_vpn = Some True" "fa_iptables demo_gateway = iptables"
  "wi_name (wc_intf demo_vpn) = ''wg0''" "wc_intf demo_vpn = demo_intf" "wi_name demo_intf = ''wg0''"
  by (simp_all add: demo_gateway_def demo_vpn_def demo_intf_def)

lemma demo_wg_start:
  "\<exists>x. wg_start (\<lambda>_ _. True) demo_intf False True ''/wg0.conf'' \<lparr>wx_created = False, wx_up = False, wx_trace = []\<rparr> = (Inr (), x)"
  by (simp add: wg_start_def wg_create_def wg_bring_up_def op_simps wg_try_eq exec_command_def demo_intf_def Let_def)

lemma demo_start: "\<exists>s'. net_start demo_gateway False demo_net = (Inr (), s')"
proof -
  obtain x where x: "wg_start (\<lambda>_ _. True) demo_intf False True ''/wg0.conf'' \<lparr>wx_created = False, wx_up = False, wx_trace = []\<rparr> = (Inr (), x)"
    using demo_wg_start by blast
  show ?thesis
    by (simp add: eval_firewall demo_subnets demo_fields demo_net_def demo_tables_def x)
qed

definition demo_packet :: "string \<Rightarrow> string \<Rightarrow> nat \<Rightarrow> packet" where
  "demo_packet i o' a = \<lparr>pk_in = i, pk_out = o', pk_src = a, pk_tcp = False, pk_syn = False, pk_established = False\<rparr>"

theorem forwards_exactly_gate_witness:
  "\<exists>s'. net_start demo_gateway False demo_net = (Inr (), s') \<and> forwards (un_nf s') (demo_packet ''wg0'' ''eth0'' 10) \<and>
     \<not> forwards (un_nf s') (demo_packet ''wg0'' ''eth0'' 300) \<and> \<not> forwards (un_nf s') (demo_packet ''eth1'' ''wg0'' 10)"
proof -
  obtain s' where s': "net_start demo_gateway False demo_net = (Inr (), s')" using demo_start by blast
  have g: "forwards (un_nf s') p = gate (known_subnets demo_gateway) (filtered_nics demo_gateway) p" for p
    using forwards_exactly_gate [OF s', of p] nf.packet_filter_axioms
    by (simp add: demo_net_def demo_tables_def detect_docker_def demo_subnets demo_fields valid_network_def host_part_def net_size_def iptables_def)
  show ?thesis
    using s' by (intro exI [of _ s']) (simp add: g demo_subnets demo_nics demo_packet_def in_network_def host_part_def net_size_def)
qed

end
