(* ===== verification/Firewall_Undo.thy ===== *)
theory Firewall_Undo
  imports Firewall_Laws "HOL-Library.Multiset"
begin

text \<open>
  Stopping the packet filter: the rules that starting added are deleted, and the chains are left with the rules that they
  had before, in whatever order these were added.
\<close>

declare split_paired_All [simp del] split_paired_Ex [simp del]

section \<open>Tables and the rules added to them\<close>

text \<open>The chain and the rule that a command adds, and the chain that it creates.\<close>

definition added :: "rule \<Rightarrow> (chain_id \<times> rule) option" where
  "added r =
     (case r of
        w # x # rest \<Rightarrow>
          if w = ''-t''
          then (case rest of op # c # spec \<Rightarrow> if op = ''-A'' then Some ((x, c), spec) else None | _ \<Rightarrow> None)
          else if w = ''-A'' \<or> w = ''-I'' then Some ((''filter'', x), rest) else None
      | _ \<Rightarrow> None)"

definition made :: "rule \<Rightarrow> chain_id option" where
  "made r = (case r of [w, c] \<Rightarrow> if w = ''-N'' then Some (''filter'', c) else None | _ \<Rightarrow> None)"

definition added_to :: "chain_id \<Rightarrow> rule \<Rightarrow> rule multiset" where
  "added_to tc r = (case added r of None \<Rightarrow> {#} | Some (k, spec) \<Rightarrow> if k = tc then {#spec#} else {#})"

definition adds :: "chain_id \<Rightarrow> rule list \<Rightarrow> rule multiset" where
  "adds tc L = sum_list (map (added_to tc) L)"

definition mades :: "rule list \<Rightarrow> chain_id list" where
  "mades L = List.map_filter made L"

lemma adds_simps [simp]:
  "adds tc [] = {#}" "adds tc (r # L) = added_to tc r + adds tc L" "adds tc (L @ L') = adds tc L + adds tc L'"
  by (simp_all add: adds_def)

lemma mades_simps [simp]:
  "mades [] = []" "mades (r # L) = (case made r of None \<Rightarrow> mades L | Some k \<Rightarrow> k # mades L)" "mades (L @ L') = mades L @ mades L'"
  by (auto simp: mades_def List.map_filter_def split: option.splits)

lemma adds_perm: "mset L = mset L' \<Longrightarrow> adds tc L = adds tc L'"
  unfolding adds_def by (metis mset_map sum_mset_sum_list)

lemma mades_perm: "mset L = mset L' \<Longrightarrow> mset (mades L) = mset (mades L')"
  by (simp add: mades_def List.map_filter_def)

lemma adds_member: "spec \<in># adds k L \<Longrightarrow> \<exists>r \<in> set L. added r = Some (k, spec)"
  by (induction L) (auto simp: added_to_def split: option.splits if_splits)

text \<open>\<open>cov nf0 L nf\<close>: the tables are \<open>nf0\<close> with the rules of \<open>L\<close>, in any order.\<close>

definition chain_cov :: "rule list option \<Rightarrow> bool \<Rightarrow> rule multiset \<Rightarrow> rule list option \<Rightarrow> bool" where
  "chain_cov c0 new add c =
     (case c of
        None \<Rightarrow> c0 = None \<and> \<not> new \<and> add = {#}
      | Some rs \<Rightarrow> (case c0 of None \<Rightarrow> new \<and> mset rs = add | Some r0 \<Rightarrow> \<not> new \<and> mset rs = mset r0 + add))"

definition cov :: "netfilter \<Rightarrow> rule list \<Rightarrow> netfilter \<Rightarrow> bool" where
  "cov nf0 L nf \<longleftrightarrow> distinct (map fst (nf_chains nf)) \<and> distinct (mades L) \<and>
     fst ` set (nf_policy nf) = fst ` set (nf_policy nf0) \<and>
     (\<forall>tc. chain_cov (chain nf0 tc) (tc \<in> set (mades L)) (adds tc L) (chain nf tc))"

lemma covD: "cov nf0 L nf \<Longrightarrow> chain_cov (chain nf0 tc) (tc \<in> set (mades L)) (adds tc L) (chain nf tc)"
  by (simp add: cov_def)

lemma cov_start: "distinct (map fst (nf_chains nf0)) \<Longrightarrow> cov nf0 [] nf0"
  by (auto simp: cov_def chain_cov_def split: option.splits)

lemma cov_perm: "mset L = mset L' \<Longrightarrow> cov nf0 L nf \<Longrightarrow> cov nf0 L' nf"
  using mades_perm [of L L'] adds_perm [of L L'] mset_eq_setD [of "mades L" "mades L'"]
    mset_eq_imp_distinct_iff [of "mades L" "mades L'"]
  by (simp add: cov_def)

lemma distinct_set_chain: "distinct (map fst (nf_chains nf)) \<Longrightarrow> distinct (map fst (nf_chains (set_chain tc rs nf)))"
  by (simp add: set_chain_def distinct_keys_update)

text \<open>Appending to a chain, and taking the rule out again.\<close>

lemma cov_add:
  assumes "cov nf0 L nf" "added r = Some (tc, spec)" "made r = None" "chain nf tc = Some rs" "mset rs' = add_mset spec (mset rs)"
  shows "cov nf0 (r # L) (set_chain tc rs' nf)"
proof -
  have "chain_cov (chain nf0 k) (k \<in> set (mades (r # L))) (adds k (r # L)) (chain (set_chain tc rs' nf) k)" for k
    using covD [OF assms(1), of k] assms(2-5) by (auto simp: chain_cov_def added_to_def split: option.splits if_splits)
  then show ?thesis using assms(1,3) by (simp add: cov_def distinct_set_chain)
qed

lemma cov_remove:
  assumes "cov nf0 (r # L) nf" "added r = Some (tc, spec)" "made r = None"
  shows "\<exists>rs. chain nf tc = Some rs \<and> spec \<in> set rs \<and> cov nf0 L (set_chain tc (remove1 spec rs) nf)"
proof -
  from covD [OF assms(1), of tc] assms(2,3) obtain rs where rs: "chain nf tc = Some rs" "spec \<in> set rs"
    by (auto simp: chain_cov_def added_to_def split: option.splits simp flip: set_mset_mset)
  have "chain_cov (chain nf0 k) (k \<in> set (mades L)) (adds k L) (chain (set_chain tc (remove1 spec rs) nf) k)" for k
    using covD [OF assms(1), of k] assms(2,3) rs by (auto simp: chain_cov_def added_to_def split: option.splits if_splits)
  then show ?thesis using assms(1,3) rs by (simp add: cov_def distinct_set_chain)
qed

section \<open>Single rules\<close>

text \<open>Words that survive the translation to a deletion.\<close>

definition plain :: "string list \<Rightarrow> bool" where
  "plain ws \<longleftrightarrow> set ws \<inter> {''-I'', ''-A'', ''-N''} = {}"

lemma plain_simps [simp]:
  "plain []" "plain (w # ws) \<longleftrightarrow> w \<noteq> ''-I'' \<and> w \<noteq> ''-A'' \<and> w \<noteq> ''-N'' \<and> plain ws"
  by (auto simp: plain_def)

lemma undo_plain [simp]: "plain ws \<Longrightarrow> map undo_word ws = ws"
  by (induction ws) (auto simp: undo_word_def)

lemma undo_plain1 [simp]: "plain [w] \<Longrightarrow> undo_word w = w"
  by (auto simp: undo_word_def)

definition adder :: "rule \<Rightarrow> bool" where
  "adder r \<longleftrightarrow> (\<exists>tc w ws. added r = Some (tc, w # ws) \<and> read_nat w = None \<and> plain [fst tc, snd tc] \<and> plain (w # ws))"

lemma added_cases:
  assumes "added r = Some (tc, spec)"
  obtains (table) "r = ''-t'' # fst tc # ''-A'' # snd tc # spec"
    | (append) "r = ''-A'' # snd tc # spec" "fst tc = ''filter''"
    | (insert) "r = ''-I'' # snd tc # spec" "fst tc = ''filter''"
  using assms unfolding added_def by (auto split: list.splits if_splits)

lemma adder_not_made: "added r = Some (tc, w # ws) \<Longrightarrow> made r = None"
  by (elim added_cases) (simp_all add: made_def)

lemma nf_cmd_add:
  assumes "nf_cmd t op (c # w # ws) nf = Some nf'" "op = ''-A'' \<or> op = ''-I''" "read_nat w = None"
  shows "\<exists>rs rs'. chain nf (t, c) = Some rs \<and> nf' = set_chain (t, c) rs' nf \<and> mset rs' = add_mset (w # ws) (mset rs)"
  using assms by (auto simp: nf_cmd_def insert_rule_def chain_def split: if_splits option.splits)

lemma adder_install:
  assumes "adder r" "iptables r nf = Some nf'" "cov nf0 L nf"
  shows "cov nf0 (r # L) nf'"
proof -
  from assms(1) obtain t c w ws where a: "added r = Some ((t, c), w # ws)" "read_nat w = None"
    by (auto simp: adder_def)
  have "\<exists>op. iptables r nf = nf_cmd t op (c # w # ws) nf \<and> (op = ''-A'' \<or> op = ''-I'')"
    using a(1) by (cases rule: added_cases) (auto simp: iptables_def)
  then obtain op where op: "nf_cmd t op (c # w # ws) nf = Some nf'" "op = ''-A'' \<or> op = ''-I''"
    using assms(2) by auto
  from nf_cmd_add [OF op a(2)] obtain rs rs' where
    "chain nf (t, c) = Some rs" "nf' = set_chain (t, c) rs' nf" "mset rs' = add_mset (w # ws) (mset rs)" by blast
  then show ?thesis using cov_add [OF assms(3) a(1) adder_not_made [OF a(1)]] by blast
qed

context packet_filter
begin

lemma delete_ok:
  assumes "undo_rule r = Inr d" "iptables d (un_nf s) = Some nf" and op: "nf_op d \<in> {''-D'', ''-X'', ''-P'', ''-F''}"
  shows "delete_rule ipt a r s = (Inr (), s\<lparr>un_nf := nf\<rparr>)"
  using assms(1) removal_works [OF op assms(2)] by (simp add: delete_rule_def unless_asserted_def run_iptables_def op_catch_def)

lemma adder_delete:
  assumes "adder r" "cov nf0 (r # L) (un_nf s)"
  shows "\<exists>nf. delete_rule ipt a r s = (Inr (), s\<lparr>un_nf := nf\<rparr>) \<and> cov nf0 L nf \<and> nf_policy nf = nf_policy (un_nf s)"
proof -
  from assms(1) obtain t c w ws where ad: "added r = Some ((t, c), w # ws)"
    and p: "plain [t]" "plain [c]" "plain (w # ws)"
    by (auto simp: adder_def)
  from cov_remove [OF assms(2) ad adder_not_made [OF ad]] obtain rs where
    rs: "chain (un_nf s) (t, c) = Some rs" "w # ws \<in> set rs" "cov nf0 L (set_chain (t, c) (remove1 (w # ws) rs) (un_nf s))"
    by blast
  have "\<exists>d. undo_rule r = Inr d \<and> nf_op d = ''-D'' \<and> iptables d (un_nf s) = nf_cmd t ''-D'' (c # w # ws) (un_nf s)"
    using ad p by (cases rule: added_cases) (auto simp: undo_rule_def undo_word_def iptables_def)
  moreover have "nf_cmd t ''-D'' (c # w # ws) (un_nf s) = Some (set_chain (t, c) (remove1 (w # ws) rs) (un_nf s))"
    using rs by (simp add: nf_cmd_def chain_def)
  ultimately obtain d where d: "undo_rule r = Inr d" "iptables d (un_nf s) = Some (set_chain (t, c) (remove1 (w # ws) rs) (un_nf s))"
      "nf_op d \<in> {''-D'', ''-X'', ''-P'', ''-F''}"
    by auto
  show ?thesis
    using delete_ok [OF d, of a] rs(3) by (intro exI [of _ "set_chain (t, c) (remove1 (w # ws) rs) (un_nf s)"]) simp
qed

end

text \<open>A rule uses a chain when it is in it or jumps to it.\<close>

definition uses_chain :: "string \<Rightarrow> rule \<Rightarrow> bool" where
  "uses_chain c r = (case added r of None \<Rightarrow> False | Some (k, spec) \<Rightarrow> k = (''filter'', c) \<or> jump_of spec = Some c)"

text \<open>Tables of a kernel: keys are unique, built-in chains exist and jumps lead to chains.\<close>

definition nf_ok :: "netfilter \<Rightarrow> bool" where
  "nf_ok nf \<longleftrightarrow> distinct (map fst (nf_chains nf)) \<and> (\<forall>tc \<in> fst ` set (nf_policy nf). map_of (nf_chains nf) tc \<noteq> None) \<and>
     (\<forall>(tc, rs) \<in> set (nf_chains nf). \<forall>r \<in> set rs. target_ok nf (fst tc) r)"

lemma made_new [simp]: "made [''-N'', c] = Some (''filter'', c)" "added [''-N'', c] = None" "added_to k [''-N'', c] = {#}"
  by (simp_all add: made_def added_def added_to_def)

lemma new_install:
  assumes "iptables [''-N'', c] nf = Some nf'" "cov nf0 L nf"
  shows "cov nf0 ([''-N'', c] # L) nf'"
proof -
  note n = iptables_new [OF assms(1)]
  have "chain_cov (chain nf0 k) (k \<in> set (mades ([''-N'', c] # L))) (adds k ([''-N'', c] # L)) (chain nf' k)" for k
    using covD [OF assms(2), of k] n by (auto simp: chain_cov_def split: option.splits if_splits)
  moreover have "(''filter'', c) \<notin> set (mades L)" using covD [OF assms(2), of "(''filter'', c)"] n by (simp add: chain_cov_def)
  ultimately show ?thesis using assms(2) n by (simp add: cov_def distinct_set_chain)
qed

lemma not_used_empty: "\<forall>r \<in> set L. \<not> uses_chain c r \<Longrightarrow> adds (''filter'', c) L = {#}"
  by (induction L) (auto simp: added_to_def uses_chain_def split: option.splits if_splits)

lemma not_referenced:
  assumes c: "cov nf0 L nf" and ok: "nf_ok nf0" and u: "\<forall>r \<in> set L. \<not> uses_chain c r" and t: "c \<notin> set nf_targets"
    and c0: "chain nf0 (''filter'', c) = None"
  shows "\<not> referenced nf (''filter'', c)"
proof
  assume "referenced nf (''filter'', c)"
  then obtain x rs r where k: "((''filter'', x), rs) \<in> set (nf_chains nf)" "r \<in> set rs" "jump_of r = Some c"
    by (auto simp: referenced_def)
  let ?k = "(''filter'', x)"
  have rs: "chain nf ?k = Some rs" using c k(1) by (simp add: chain_def cov_def map_of_is_SomeI)
  have "r \<in># adds ?k L \<or> (\<exists>r0. chain nf0 ?k = Some r0 \<and> r \<in> set r0)"
    using covD [OF c, of ?k] rs k(2) by (auto simp: chain_cov_def split: option.splits simp flip: set_mset_mset)
  then show False
  proof
    assume "r \<in># adds ?k L"
    then show False using adds_member [of r ?k L] u k(3) by (auto simp: uses_chain_def)
  next
    assume "\<exists>r0. chain nf0 ?k = Some r0 \<and> r \<in> set r0"
    then obtain r0 where r0: "(?k, r0) \<in> set (nf_chains nf0)" "r \<in> set r0" by (auto simp: chain_def dest: map_of_SomeD)
    have "target_ok nf0 ''filter'' r" using ok r0 unfolding nf_ok_def by fastforce
    then show False using k(3) t c0 by (simp add: target_ok_def chain_def)
  qed
qed

lemma chain_delete: "chain (nf\<lparr>nf_chains := AList.delete tc (nf_chains nf)\<rparr>) k = (if k = tc then None else chain nf k)"
  by (simp add: chain_def delete_conv')

context packet_filter
begin

lemma new_delete:
  assumes c: "cov nf0 ([''-N'', c] # L) (un_nf s)" and ok: "nf_ok nf0" and u: "\<forall>r \<in> set L. \<not> uses_chain c r"
    and p: "plain [c]" "c \<notin> set nf_targets"
  shows "\<exists>nf. delete_rule ipt a [''-N'', c] s = (Inr (), s\<lparr>un_nf := nf\<rparr>) \<and> cov nf0 L nf \<and> nf_policy nf = nf_policy (un_nf s)"
proof -
  let ?nf = "un_nf s" and ?tc = "(''filter'', c)" and ?r = "[''-N'', c]"
  let ?nf' = "?nf\<lparr>nf_chains := AList.delete ?tc (nf_chains ?nf)\<rparr>"
  have c0: "chain nf0 ?tc = None" and ch: "chain ?nf ?tc = Some []"
    using covD [OF c, of ?tc] not_used_empty [OF u] by (auto simp: chain_cov_def split: option.splits)
  have new: "?tc \<notin> set (mades L)" using c by (simp add: cov_def)
  have pol: "?tc \<notin> fst ` set (nf_policy ?nf)" using c ok c0 by (auto simp: cov_def nf_ok_def chain_def)
  have ref: "\<not> referenced ?nf ?tc"
    using u p(2) by (intro not_referenced [OF c ok _ _ c0]) (auto simp: uses_chain_def)
  have "chain_cov (chain nf0 k) (k \<in> set (mades L)) (adds k L) (chain ?nf' k)" for k
  proof (cases "k = ?tc")
    case True
    then show ?thesis using c0 new not_used_empty [OF u] by (simp add: chain_delete chain_cov_def)
  next
    case False
    then show ?thesis using covD [OF c, of k] by (simp add: chain_delete)
  qed
  then have "cov nf0 L ?nf'" using c by (simp add: cov_def distinct_keys_delete)
  moreover have "iptables [''-X'', c] ?nf = Some ?nf'"
    using ch pol ref by (simp add: iptables_def nf_cmd_def chain_def)
  moreover have "undo_rule ?r = Inr [''-X'', c]" using p(1) by (simp add: undo_rule_def undo_word_def)
  ultimately show ?thesis
    using delete_ok [of ?r "[''-X'', c]" s ?nf' a] by (intro exI [of _ ?nf']) simp
qed

end

section \<open>Deleting a list of rules\<close>

abbreviation fwd_policy :: chain_id where
  "fwd_policy \<equiv> (''filter'', ''FORWARD'')"

definition policy_rule :: rule where
  "policy_rule = [''-P'', ''FORWARD'', ''DROP'']"

lemma policy_rule_adds [simp]: "made policy_rule = None" "added policy_rule = None" "added_to k policy_rule = {#}" "uses_chain c policy_rule = False"
  by (simp_all add: policy_rule_def made_def added_def added_to_def uses_chain_def)

lemma cov_policy_rule [simp]: "cov nf0 (policy_rule # L) nf = cov nf0 L nf"
  by (simp add: cov_def)

lemma cov_chain: "cov nf0 L nf \<Longrightarrow> chain nf0 tc \<noteq> None \<Longrightarrow> chain nf tc \<noteq> None"
  using covD [of nf0 L nf tc] by (auto simp: chain_cov_def split: option.splits)

lemma keys_update_same: "k \<in> fst ` set al \<Longrightarrow> fst ` set (AList.update k v al) = fst ` set al"
  by (induction al) auto

lemma cov_set_policy: "k \<in> fst ` set (nf_policy nf) \<Longrightarrow> cov nf0 L nf \<Longrightarrow> cov nf0 L (nf\<lparr>nf_policy := AList.update k p (nf_policy nf)\<rparr>)"
  by (simp add: cov_def chain_def keys_update_same insert_absorb)

fun deletable :: "rule list \<Rightarrow> bool" where
  "deletable [] = True"
| "deletable (r # D) \<longleftrightarrow> deletable D \<and> (r = policy_rule \<or> adder r \<or>
     (\<exists>c. r = [''-N'', c] \<and> plain [c] \<and> c \<notin> set nf_targets \<and> (\<forall>r' \<in> set D. \<not> uses_chain c r')))"

definition policy_kept :: "bool \<Rightarrow> netfilter \<Rightarrow> netfilter \<Rightarrow> bool" where
  "policy_kept reset nf nf' \<longleftrightarrow> (\<forall>k. map_of (nf_policy nf') k =
     (if k = fwd_policy \<and> reset then Some ''ACCEPT'' else map_of (nf_policy nf) k))"

context packet_filter
begin

lemma policy_delete:
  assumes c: "cov nf0 D (un_nf s)" and ok: "nf_ok nf0" and b: "fwd_policy \<in> fst ` set (nf_policy nf0)"
  shows "\<exists>nf. delete_rule ipt a policy_rule s = (Inr (), s\<lparr>un_nf := nf\<rparr>) \<and> cov nf0 D nf \<and> policy_kept True (un_nf s) nf"
proof -
  let ?nf = "un_nf s" and ?d = "[''-P'', ''FORWARD'', ''ACCEPT'']"
  let ?nf' = "?nf\<lparr>nf_policy := AList.update fwd_policy ''ACCEPT'' (nf_policy ?nf)\<rparr>"
  have k: "fwd_policy \<in> fst ` set (nf_policy ?nf)" using c b by (simp add: cov_def)
  have "chain nf0 fwd_policy \<noteq> None" using ok b unfolding nf_ok_def chain_def by blast
  then obtain rs where "chain ?nf fwd_policy = Some rs" using cov_chain [OF c] by fastforce
  then have "iptables ?d ?nf = Some ?nf'" using k by (simp add: iptables_def nf_cmd_def chain_def)
  moreover have "undo_rule policy_rule = Inr ?d" by (simp add: undo_rule_def policy_rule_def)
  moreover have "policy_kept True ?nf ?nf'" by (simp add: policy_kept_def update_conv')
  ultimately show ?thesis
    using delete_ok [of policy_rule ?d s ?nf' a] cov_set_policy [OF k c] by (intro exI [of _ ?nf']) simp
qed

lemma delete_one:
  assumes c: "cov nf0 (r # D) (un_nf s)" and ok: "nf_ok nf0" and b: "fwd_policy \<in> fst ` set (nf_policy nf0)" and d: "deletable (r # D)"
  shows "\<exists>nf. delete_rule ipt a r s = (Inr (), s\<lparr>un_nf := nf\<rparr>) \<and> cov nf0 D nf \<and> policy_kept (r = policy_rule) (un_nf s) nf"
proof (cases "r = policy_rule")
  case True
  then show ?thesis using policy_delete [OF _ ok b] c by simp
next
  case False
  have "\<exists>nf. delete_rule ipt a r s = (Inr (), s\<lparr>un_nf := nf\<rparr>) \<and> cov nf0 D nf \<and> nf_policy nf = nf_policy (un_nf s)"
    using d False adder_delete [OF _ c] new_delete [OF _ ok, of _ D s] c by auto
  then show ?thesis using False unfolding policy_kept_def by auto
qed

lemma delete_all:
  assumes ok: "nf_ok nf0" and b: "fwd_policy \<in> fst ` set (nf_policy nf0)"
  shows "cov nf0 D (un_nf s) \<Longrightarrow> deletable D \<Longrightarrow>
    \<exists>nf. op_each (delete_rule ipt a) D s = (Inr (), s\<lparr>un_nf := nf\<rparr>) \<and> cov nf0 [] nf \<and> policy_kept (policy_rule \<in> set D) (un_nf s) nf"
proof (induction D arbitrary: s)
  case Nil
  then show ?case by (intro exI [of _ "un_nf s"]) (simp add: op_return_def policy_kept_def)
next
  case (Cons r D)
  from delete_one [OF Cons.prems(1) ok b Cons.prems(2)] obtain nf where
    1: "delete_rule ipt a r s = (Inr (), s\<lparr>un_nf := nf\<rparr>)" "cov nf0 D nf" "policy_kept (r = policy_rule) (un_nf s) nf" by blast
  with Cons.IH [of "s\<lparr>un_nf := nf\<rparr>"] Cons.prems(2) obtain nf' where
    2: "op_each (delete_rule ipt a) D (s\<lparr>un_nf := nf\<rparr>) = (Inr (), s\<lparr>un_nf := nf'\<rparr>)" "cov nf0 [] nf'" "policy_kept (policy_rule \<in> set D) nf nf'"
    by auto
  have "policy_kept (policy_rule \<in> set (r # D)) (un_nf s) nf'" using 1(3) 2(3) by (auto simp: policy_kept_def)
  then show ?case using 1 2 by (intro exI [of _ nf']) (simp add: op_simps)
qed

end

section \<open>The rules that were remembered\<close>

definition all_rules :: "net_state \<Rightarrow> rule list" where
  "all_rules s = concat (map snd (un_rules s))"

definition of_group :: "string \<Rightarrow> rule \<Rightarrow> bool" where
  "of_group i r \<longleftrightarrow> (\<forall>n. uses_chain (fwd_chain n) r \<longrightarrow> n = i) \<and> (\<forall>k. made r = Some k \<longrightarrow> k = (''filter'', fwd_chain i))"

definition group_ok :: "string \<times> rule list \<Rightarrow> bool" where
  "group_ok g \<longleftrightarrow> deletable (rev (snd g)) \<and> (\<forall>r \<in> set (snd g). of_group (fst g) r)"

lemma deletable_append:
  "deletable A \<Longrightarrow> deletable B \<Longrightarrow> (\<And>c r. [''-N'', c] \<in> set A \<Longrightarrow> r \<in> set B \<Longrightarrow> \<not> uses_chain c r) \<Longrightarrow> deletable (A @ B)"
  by (induction A) (simp, auto)

lemma of_group_other: "of_group i [''-N'', c] \<Longrightarrow> of_group j r \<Longrightarrow> i \<noteq> j \<Longrightarrow> \<not> uses_chain c r"
  by (auto simp: of_group_def)

lemma deletable_groups:
  "distinct (map fst gs) \<Longrightarrow> \<forall>g \<in> set gs. group_ok g \<Longrightarrow> deletable (concat (map (\<lambda>(i, rs). rev rs) gs))"
proof (induction gs)
  case (Cons g gs)
  obtain i rs where g: "g = (i, rs)" by (cases g)
  have "\<not> uses_chain c r" if "[''-N'', c] \<in> set (rev rs)" "r \<in> set (concat (map (\<lambda>(i, rs). rev rs) gs))" for c r
  proof -
    from that(2) obtain j rs' where j: "(j, rs') \<in> set gs" "r \<in> set rs'" by auto
    then have "i \<noteq> j" using Cons.prems(1) g by force
    moreover have "of_group i [''-N'', c]" "of_group j r" using Cons.prems(2) that(1) j g by (auto simp: group_ok_def)
    ultimately show ?thesis using of_group_other by blast
  qed
  then show ?case
    using Cons g deletable_append [of "rev rs" "concat (map (\<lambda>(i, rs). rev rs) gs)"] by (simp add: group_ok_def)
qed simp

lemma mset_groups: "mset (concat (map (\<lambda>(i, rs). rev rs) gs)) = mset (concat (map snd gs))"
  by (induction gs) auto

lemma update_groups: "\<forall>g \<in> set gs. P g \<Longrightarrow> P (i, v) \<Longrightarrow> \<forall>g \<in> set (AList.update i v gs). P g"
  by (induction gs) auto

lemma mset_update_groups:
  "mset (concat (map snd (AList.update i ((case map_of gs i of None \<Rightarrow> [] | Some rs \<Rightarrow> rs) @ [r]) gs))) = add_mset r (mset (concat (map snd gs)))"
  by (induction gs) auto

lemma all_rules_remember: "mset (all_rules (remember i r s)) = add_mset r (mset (all_rules s))"
  by (simp add: all_rules_def remember_def mset_update_groups)

lemma set_mades_perm: "mset L = add_mset r (mset L') \<Longrightarrow> set (mades L) = set (mades (r # L'))"
proof -
  assume "mset L = add_mset r (mset L')"
  then have "mset (mades L) = mset (mades (r # L'))" by (intro mades_perm) simp
  then show ?thesis by (rule mset_eq_setD)
qed


text \<open>What holds all along a start: the tables are those of before with the remembered rules, every group of them can be
  deleted from its end, and a chain is used only after it was made.\<close>

definition tracked :: "netfilter \<Rightarrow> net_state \<Rightarrow> bool" where
  "tracked nf0 s \<longleftrightarrow> cov nf0 (all_rules s) (un_nf s) \<and> distinct (map fst (un_rules s)) \<and> (\<forall>g \<in> set (un_rules s). group_ok g) \<and>
     (\<forall>r \<in> set (all_rules s). \<forall>n. uses_chain (fwd_chain n) r \<longrightarrow> (''filter'', fwd_chain n) \<in> set (mades (all_rules s))) \<and>
     policy_rule \<in> set (all_rules s) \<and> un_backup s \<noteq> None \<and>
     nf_policy (un_nf s) = AList.update fwd_policy ''DROP'' (nf_policy nf0)"

definition made_before :: "net_state \<Rightarrow> rule \<Rightarrow> bool" where
  "made_before s r \<longleftrightarrow> (\<forall>n. uses_chain (fwd_chain n) r \<longrightarrow> (''filter'', fwd_chain n) \<in> set (mades (all_rules s)))"

lemma group_ok_append: "group_ok (i, rs) \<Longrightarrow> of_group i r \<Longrightarrow> deletable (r # rev rs) \<Longrightarrow> group_ok (i, rs @ [r])"
  by (simp add: group_ok_def)

lemma all_rules_group: "map_of (un_rules s) i = Some rs \<Longrightarrow> set rs \<subseteq> set (all_rules s)"
  by (auto simp: all_rules_def dest!: map_of_SomeD intro: bexI)

text \<open>Remembering a rule that was run.\<close>

lemma tracked_remember:
  assumes t: "tracked nf0 s" and c: "cov nf0 (r # all_rules s) nf" and p: "nf_policy nf = nf_policy (un_nf s)"
    and g: "of_group i r" and b: "made_before s r"
    and d: "\<And>rs. set rs \<subseteq> set (all_rules s) \<Longrightarrow> deletable (rev rs) \<Longrightarrow> deletable (r # rev rs)"
  shows "tracked nf0 (remember i r (s\<lparr>un_nf := nf\<rparr>))"
proof -
  let ?s' = "remember i r (s\<lparr>un_nf := nf\<rparr>)" and ?old = "case map_of (un_rules s) i of None \<Rightarrow> [] | Some rs \<Rightarrow> rs"
  have all: "mset (all_rules ?s') = add_mset r (mset (all_rules s))"
    using all_rules_remember [of i r "s\<lparr>un_nf := nf\<rparr>"] by (simp add: all_rules_def)
  then have sets: "set (all_rules ?s') = insert r (set (all_rules s))"
    by (metis set_mset_add_mset_insert set_mset_mset)
  have mades: "set (mades (all_rules ?s')) = set (mades (r # all_rules s))" using all by (rule set_mades_perm)
  have rules: "un_rules ?s' = AList.update i (?old @ [r]) (un_rules s)" by (simp add: remember_def)
  have sub: "set ?old \<subseteq> set (all_rules s)" using all_rules_group [of s i] by (cases "map_of (un_rules s) i") auto
  have "group_ok (i, ?old)"
    using t by (cases "map_of (un_rules s) i") (auto simp: tracked_def group_ok_def dest: map_of_SomeD)
  then have "group_ok (i, ?old @ [r])"
    using group_ok_append [OF _ g d [OF sub]] by (simp add: group_ok_def)
  then have "\<forall>g \<in> set (un_rules ?s'). group_ok g"
    unfolding rules using t by (intro update_groups) (simp_all add: tracked_def)
  moreover have "distinct (map fst (un_rules ?s'))" unfolding rules using t by (simp add: tracked_def distinct_keys_update)
  moreover have "cov nf0 (all_rules ?s') (un_nf ?s')"
  proof -
    have "mset (r # all_rules s) = mset (all_rules ?s')" unfolding all by simp
    moreover have "un_nf ?s' = nf" by simp
    ultimately show ?thesis using cov_perm c by metis
  qed
  moreover have "(''filter'', fwd_chain n) \<in> set (mades (all_rules ?s'))" if "x \<in> set (all_rules ?s')" "uses_chain (fwd_chain n) x" for x n
  proof -
    have "(''filter'', fwd_chain n) \<in> set (mades (all_rules s))"
      using that t b unfolding sets tracked_def made_before_def by blast
    then show ?thesis unfolding mades by (simp split: option.splits)
  qed
  ultimately show ?thesis using t sets p unfolding tracked_def by (simp add: remember_def)
qed

lemma made_before_mono: "made_before s r \<Longrightarrow> made_before (remember i x (s\<lparr>un_nf := nf\<rparr>)) r"
  using set_mades_perm [OF all_rules_remember [of i x "s\<lparr>un_nf := nf\<rparr>"]]
  by (auto simp: made_before_def all_rules_def split: option.splits)

lemma adder_op: "adder r \<Longrightarrow> nf_op r \<in> {''-A'', ''-I'', ''-D'', ''-N'', ''-X'', ''-P'', ''-F''}"
proof -
  assume "adder r"
  then obtain tc w ws where "added r = Some (tc, w # ws)" by (auto simp: adder_def)
  then show ?thesis by (cases rule: added_cases) simp_all
qed

lemma nf_policy_add: "iptables r nf = Some nf' \<Longrightarrow> adder r \<Longrightarrow> nf_policy nf' = nf_policy nf"
proof -
  assume i: "iptables r nf = Some nf'" and "adder r"
  then obtain t c w ws where a: "added r = Some ((t, c), w # ws)" "read_nat w = None" by (auto simp: adder_def)
  have "\<exists>op. iptables r nf = nf_cmd t op (c # w # ws) nf \<and> (op = ''-A'' \<or> op = ''-I'')"
    using a(1) by (cases rule: added_cases) (auto simp: iptables_def)
  then obtain op where "nf_cmd t op (c # w # ws) nf = Some nf'" "op = ''-A'' \<or> op = ''-I''" using i by auto
  from nf_cmd_add [OF this a(2)] show ?thesis by auto
qed

context packet_filter
begin

lemma tracked_adder:
  assumes i: "iptables_install ipt False (i, r) s = (Inr u, s')" and t: "tracked nf0 s" and a: "adder r" "of_group i r" "made_before s r"
  shows "tracked nf0 s' \<and> (\<forall>x. made_before s x \<longrightarrow> made_before s' x)"
proof -
  from install_success [OF i adder_op [OF a(1)]] obtain nf where nf: "iptables r (un_nf s) = Some nf" "s' = remember i r (s\<lparr>un_nf := nf\<rparr>)" by blast
  have "cov nf0 (r # all_rules s) nf" using adder_install [OF a(1) nf(1)] t by (simp add: tracked_def)
  then have "tracked nf0 s'" unfolding nf(2)
    using a nf_policy_add [OF nf(1) a(1)] by (intro tracked_remember [OF t]) auto
  then show ?thesis using made_before_mono nf(2) by blast
qed

lemma tracked_new:
  assumes i: "iptables_install ipt False (i, [''-N'', fwd_chain i]) s = (Inr u, s')" and t: "tracked nf0 s"
  shows "tracked nf0 s' \<and> (''filter'', fwd_chain i) \<in> set (mades (all_rules s'))"
proof -
  let ?r = "[''-N'', fwd_chain i]"
  from install_success [OF i] obtain nf where nf: "iptables ?r (un_nf s) = Some nf" "s' = remember i ?r (s\<lparr>un_nf := nf\<rparr>)" by auto
  have c: "cov nf0 (?r # all_rules s) nf" using new_install [OF nf(1)] t by (simp add: tracked_def)
  have fresh: "(''filter'', fwd_chain i) \<notin> set (mades (all_rules s))" using c by (simp add: cov_def)
  have "nf_policy nf = nf_policy (un_nf s)" using iptables_new [OF nf(1)] by simp
  moreover have "of_group i ?r" "made_before s ?r" by (simp_all add: of_group_def made_before_def uses_chain_def)
  moreover have "deletable (?r # rev rs)" if "set rs \<subseteq> set (all_rules s)" "deletable (rev rs)" for rs
  proof -
    have "\<not> uses_chain (fwd_chain i) x" if "x \<in> set (all_rules s)" for x
      using t that fresh unfolding tracked_def by blast
    moreover have "plain [fwd_chain i]" by (simp add: fwd_chain_def)
    ultimately show ?thesis using that by auto
  qed
  ultimately have "tracked nf0 s'" unfolding nf(2) using tracked_remember [OF t c] by blast
  moreover have "set (mades (all_rules s')) = set (mades (?r # all_rules s))"
    unfolding nf(2) using all_rules_remember [of i ?r "s\<lparr>un_nf := nf\<rparr>"] by (intro set_mades_perm) (simp add: all_rules_def)
  ultimately show ?thesis by simp
qed

lemma tracked_adders:
  "op_each (iptables_install ipt False) (map (Pair i) rs) s = (Inr u, s') \<Longrightarrow> tracked nf0 s \<Longrightarrow>
     \<forall>r \<in> set rs. adder r \<and> of_group i r \<and> made_before s r \<Longrightarrow> tracked nf0 s'"
proof (induction rs arbitrary: s)
  case (Cons r rs)
  from Cons.prems(1) obtain v s1 where 1: "iptables_install ipt False (i, r) s = (Inr v, s1)"
    and 2: "op_each (iptables_install ipt False) (map (Pair i) rs) s1 = (Inr u, s')"
    by (auto simp: op_then_Inr)
  have "tracked nf0 s1" "\<forall>x. made_before s x \<longrightarrow> made_before s1 x" using tracked_adder [OF 1 Cons.prems(2)] Cons.prems(3) by auto
  then show ?case using Cons.IH [OF 2] Cons.prems(3) by simp
qed (simp add: op_return_def)

end

section \<open>The rules of an agent\<close>

definition nics_ok :: "fw_agent \<Rightarrow> bool" where
  "nics_ok ag \<longleftrightarrow> plain (filtered_nics ag)"

lemma plain_show_net [simp]: "show_net n \<noteq> ''-I''" "show_net n \<noteq> ''-A''" "show_net n \<noteq> ''-N''"
proof -
  have "CHR ''/'' \<in> set (show_net n)" by (simp add: show_net_def)
  then show "show_net n \<noteq> ''-I''" "show_net n \<noteq> ''-A''" "show_net n \<noteq> ''-N''" by auto
qed

lemma plain_fwd_chain [simp]: "fwd_chain n \<noteq> ''-I''" "fwd_chain n \<noteq> ''-A''" "fwd_chain n \<noteq> ''-N''"
  by (simp_all add: fwd_chain_def)

lemma fwd_chain_neq [simp]:
  "''ACCEPT'' \<noteq> fwd_chain n" "''DROP'' \<noteq> fwd_chain n" "''RETURN'' \<noteq> fwd_chain n" "''DOCKER-USER'' \<noteq> fwd_chain n"
  "''MASQUERADE'' \<noteq> fwd_chain n" "''POSTROUTING'' \<noteq> fwd_chain n"
  by (simp_all add: fwd_chain_def)

lemma options_not_numbers [simp]:
  "read_nat ''-i'' = None" "read_nat ''-j'' = None" "read_nat ''-o'' = None" "read_nat ''-s'' = None" "read_nat ''-p'' = None"
  by code_simp+

lemma adderI: "added r = Some ((t, c), w # ws) \<Longrightarrow> read_nat w = None \<Longrightarrow> plain [t, c] \<Longrightarrow> plain (w # ws) \<Longrightarrow> adder r"
  by (auto simp: adder_def)

lemma tail_rules:
  assumes "plain [nic]" "plain (filtered_nics ag)" and r: "r \<in> set (drop 1 (forward_rules ag docker nic))"
  shows "adder r \<and> of_group nic r \<and> (made_before s r \<longleftrightarrow> (\<exists>n. uses_chain (fwd_chain n) r) \<longrightarrow> (''filter'', fwd_chain nic) \<in> set (mades (all_rules s)))"
proof -
  have nics: "plain [o']" if "o' \<in> set (managed_nics ag)" for o'
    using that assms(2) by (auto simp: managed_nics_def filtered_nics_def plain_def)
  have "adder r"
    using r assms(1) nics
    by (auto simp: forward_rules_def added_def intro!: adderI split: if_splits)
  moreover have g: "of_group nic r"
    using r by (auto simp: forward_rules_def of_group_def uses_chain_def added_def made_def split: if_splits)
  moreover have "made_before s r \<longleftrightarrow> (\<exists>n. uses_chain (fwd_chain n) r) \<longrightarrow> (''filter'', fwd_chain nic) \<in> set (mades (all_rules s))"
    using g by (auto simp: made_before_def of_group_def)
  ultimately show ?thesis by blast
qed

lemma forward_rules_new: "forward_rules ag docker nic = [''-N'', fwd_chain nic] # drop 1 (forward_rules ag docker nic)"
  by (simp add: forward_rules_def)

lemma masquerade_rule:
  assumes "plain (filtered_nics ag)" "r \<in> set (masquerade_rules ag v)"
  shows "adder r \<and> of_group i r \<and> made_before s r"
proof -
  from assms(2) obtain nic where r: "r = [''-t'', ''nat'', ''-A'', ''POSTROUTING'', ''-s'', show_net (vpn_subnet v), ''-o'', nic, ''-j'', ''MASQUERADE'']"
    and nic: "nic \<in> set (filtered_nics ag)"
    by (auto simp: masquerade_rules_def filtered_nics_def)
  have "plain [nic]" using nic assms(1) by (auto simp: plain_def)
  moreover have "\<not> uses_chain (fwd_chain n) r" "made r = None" for n by (simp_all add: r uses_chain_def added_def made_def)
  ultimately show ?thesis by (auto simp: r added_def of_group_def made_before_def intro!: adderI)
qed

lemma on_vpn_keeps: "on_vpn v m s = (r, s') \<Longrightarrow> un_nf s' = un_nf s \<and> un_rules s' = un_rules s \<and> un_backup s' = un_backup s"
  by (auto simp: on_vpn_def split: prod.splits)

lemma tracked_cong: "un_nf s' = un_nf s \<Longrightarrow> un_rules s' = un_rules s \<Longrightarrow> un_backup s' = un_backup s \<Longrightarrow> tracked nf0 s \<Longrightarrow> tracked nf0 s'"
  by (simp add: tracked_def all_rules_def)

lemma each_keeps:
  "op_each m xs s = (Inr u, s') \<Longrightarrow> (\<And>x s u s'. x \<in> set xs \<Longrightarrow> m x s = (Inr u, s') \<Longrightarrow> P s \<Longrightarrow> P s') \<Longrightarrow> P s \<Longrightarrow> P s'"
proof (induction xs arbitrary: s)
  case (Cons x xs)
  then obtain v s1 where 1: "m x s = (Inr v, s1)" "op_each m xs s1 = (Inr u, s')" by (auto simp: op_then_Inr)
  then have "P s1" using Cons.prems(2) [of x s v s1] Cons.prems(3) by simp
  then show ?case using Cons.IH [OF 1(2)] Cons.prems(2) by (meson list.set_intros(2))
qed (simp add: op_return_def)

context packet_filter
begin

lemma tracked_forward:
  assumes ag: "fa_iptables ag = ipt" and f: "iptables_forward ag False nic s = (Inr u, s')" and t: "tracked nf0 s" and n: "nics_ok ag" "nic \<in> set (filtered_nics ag)"
  shows "tracked nf0 s'"
proof -
  let ?rs = "drop 1 (forward_rules ag (detect_docker ipt s) nic)"
  have p: "plain [nic]" "plain (filtered_nics ag)" using n by (auto simp: nics_ok_def plain_def)
  from f have "op_each (iptables_install ipt False) (map (Pair nic) ([''-N'', fwd_chain nic] # ?rs)) s = (Inr u, s')"
    unfolding iptables_forward_def ag by (subst (asm) forward_rules_new) simp
  then obtain v s1 where 1: "iptables_install ipt False (nic, [''-N'', fwd_chain nic]) s = (Inr v, s1)"
    and 2: "op_each (iptables_install ipt False) (map (Pair nic) ?rs) s1 = (Inr u, s')"
    by (auto simp: op_then_Inr)
  from tracked_new [OF 1 t] have "tracked nf0 s1" "(''filter'', fwd_chain nic) \<in> set (mades (all_rules s1))" by auto
  then show ?thesis using tail_rules [OF p, of _ "detect_docker ipt s" s1] by (intro tracked_adders [OF 2]) auto
qed

lemma tracked_start_vpn:
  assumes ag: "fa_iptables ag = ipt" and v: "start_vpn ag False v s = (Inr u, s')" and t: "tracked nf0 s" and n: "nics_ok ag" "v \<in> set (vpn_interfaces ag)"
  shows "tracked nf0 s'"
proof -
  from v obtain u1 u2 s1 s2 where
    1: "on_vpn v (wg_start (fa_runs ag) (wc_intf v) False (fst (fa_conf ag v)) (snd (fa_conf ag v))) s = (Inr u1, s1)"
    and 2: "iptables_forward ag False (vpn_name v) s1 = (Inr u2, s2)"
    and 3: "(if wc_masquerade v = Some True then vpn_masquerade ag False v else op_return ()) s2 = (Inr u, s')"
    by (auto simp: start_vpn_def op_then_Inr)
  have "tracked nf0 s1" using on_vpn_keeps [OF 1] t by (auto intro: tracked_cong)
  then have t2: "tracked nf0 s2" using n by (intro tracked_forward [OF ag 2]) (auto simp: filtered_nics_def)
  show ?thesis
  proof (cases "wc_masquerade v = Some True")
    case True
    then have "op_each (iptables_install ipt False) (map (Pair (vpn_name v)) (masquerade_rules ag v)) s2 = (Inr u, s')"
      using 3 by (simp add: vpn_masquerade_def ag)
    then show ?thesis using masquerade_rule [of ag _ v] n by (intro tracked_adders [OF _ t2]) (auto simp: nics_ok_def)
  next
    case False
    then show ?thesis using 3 t2 by (simp add: op_return_def)
  qed
qed

lemma net_start_tracked:
  assumes ag: "fa_iptables ag = ipt" and start: "net_start ag False s = (Inr u, s')" and ok: "nf_ok (un_nf s)" "un_rules s = []" "nics_ok ag"
    and b: "fwd_policy \<in> fst ` set (nf_policy (un_nf s))"
  shows "tracked (un_nf s) s'"
proof -
  let ?s0 = "iptables_save (s\<lparr>un_forward := True\<rparr>)" and ?nf0 = "un_nf s"
  from start obtain u1 u2 u3 s1 s2 s3 where
    1: "iptables_install ipt False (''forward_drop'', policy_rule) ?s0 = (Inr u1, s1)"
    and 2: "iptables_install ipt False (''tcp_pmtu'', pmtu_rule) s1 = (Inr u2, s2)"
    and 3: "op_each (iptables_forward ag False) (fa_lans ag) s2 = (Inr u3, s3)"
    and 4: "op_each (start_vpn ag False) (vpn_interfaces ag) s3 = (Inr u, s')"
    by (auto simp: net_start_def ag op_then_Inr op_modify_def policy_rule_def)
  have nf1: "un_nf s1 = ?nf0\<lparr>nf_policy := AList.update fwd_policy ''DROP'' (nf_policy ?nf0)\<rparr>"
    and rules1: "un_rules s1 = [(''forward_drop'', [policy_rule])]" and backup1: "un_backup s1 \<noteq> None"
    using install_success [OF 1] ok(2) by (auto simp: policy_rule_def remember_def iptables_save_def dest!: iptables_policy)
  have all1: "all_rules s1 = [policy_rule]" by (simp add: all_rules_def rules1)
  have "cov ?nf0 [] (un_nf s1)" unfolding nf1 using ok(1) b by (intro cov_set_policy cov_start) (auto simp: nf_ok_def)
  then have t1: "tracked ?nf0 s1"
    using all1 rules1 nf1 backup1 by (simp add: tracked_def group_ok_def of_group_def)
  have a: "adder pmtu_rule" "of_group ''tcp_pmtu'' pmtu_rule" "made_before s1 pmtu_rule"
    unfolding pmtu_rule_def
    by (rule adderI, auto simp: added_def of_group_def uses_chain_def made_def made_before_def nf_targets_def)
      (auto simp: fwd_chain_def)
  have t2: "tracked ?nf0 s2" using tracked_adder [OF 2 t1 a] by simp
  have t3: "tracked ?nf0 s3"
    using ok(3) by (intro each_keeps [where P = "tracked ?nf0", OF 3 _ t2]) (auto intro: tracked_forward [OF ag] simp: filtered_nics_def)
  show ?thesis using ok(3) by (intro each_keeps [where P = "tracked ?nf0", OF 4 _ t3]) (auto intro: tracked_start_vpn [OF ag])
qed

end

text \<open>Taking all rules back leaves the chains as they were, up to the order of the rules.\<close>

definition same_tables :: "netfilter \<Rightarrow> netfilter \<Rightarrow> bool" where
  "same_tables nf0 nf \<longleftrightarrow>
     (\<forall>tc. rel_option (\<lambda>r0 rs. mset r0 = mset rs) (map_of (nf_chains nf0) tc) (map_of (nf_chains nf) tc)) \<and>
     (\<forall>k. map_of (nf_policy nf) k = (if k = fwd_policy then Some ''ACCEPT'' else map_of (nf_policy nf0) k))"

lemma cov_nil_same:
  assumes "cov nf0 [] nf"
  shows "rel_option (\<lambda>r0 rs. mset r0 = mset rs) (map_of (nf_chains nf0) tc) (map_of (nf_chains nf) tc)"
  using covD [OF assms, of tc] by (auto simp: chain_cov_def chain_def split: option.splits)

context packet_filter
begin

lemma tracked_deletes:
  assumes t: "tracked nf0 s" and ok: "nf_ok nf0" and b: "fwd_policy \<in> fst ` set (nf_policy nf0)"
  shows "\<exists>nf. delete_rules ipt a s = (Inr (), s\<lparr>un_nf := nf\<rparr>) \<and> same_tables nf0 nf"
proof -
  let ?D = "concat (map (\<lambda>(i, rs). rev rs) (un_rules s))"
  have m: "mset (all_rules s) = mset ?D" by (simp add: all_rules_def mset_groups)
  have c: "cov nf0 ?D (un_nf s)" using t cov_perm [OF m] by (simp add: tracked_def)
  have d: "deletable ?D" using t by (intro deletable_groups) (simp_all add: tracked_def)
  have "policy_rule \<in> set ?D" using t mset_eq_setD [OF m] by (simp add: tracked_def)
  with delete_all [OF ok b c d, of a] obtain nf where
    nf: "op_each (delete_rule ipt a) ?D s = (Inr (), s\<lparr>un_nf := nf\<rparr>)" "cov nf0 [] nf" "policy_kept True (un_nf s) nf" by auto
  have "same_tables nf0 nf"
    unfolding same_tables_def using cov_nil_same [OF nf(2)] nf(3) t by (simp add: policy_kept_def tracked_def update_conv')
  then show ?thesis using nf(1) by (auto simp: delete_rules_def)
qed

end

lemma stop_vpns_keep:
  "op_each (stop_vpn ag a) vs s = (r, s') \<Longrightarrow> un_nf s' = un_nf s \<and> un_rules s' = un_rules s \<and> un_backup s' = un_backup s"
proof (induction vs arbitrary: s)
  case (Cons v vs)
  obtain x s1 where 1: "stop_vpn ag a v s = (x, s1)" by fastforce
  then have k: "un_nf s1 = un_nf s \<and> un_rules s1 = un_rules s \<and> un_backup s1 = un_backup s"
    by (auto simp: stop_vpn_def unless_asserted_def op_simps split: sum.splits prod.splits if_splits dest!: on_vpn_keeps)
  show ?case
  proof (cases x)
    case (Inl e)
    then show ?thesis using Cons.prems 1 k by (simp add: op_simps)
  next
    case (Inr v')
    then show ?thesis using Cons.prems 1 k Cons.IH [of s1] by (simp add: op_simps)
  qed
qed (simp add: op_return_def)

lemma stop_vpns_asserted: "\<exists>s'. op_each (stop_vpn ag True) vs s = (Inr (), s')"
proof (induction vs arbitrary: s)
  case (Cons v vs)
  have "\<exists>s1. stop_vpn ag True v s = (Inr (), s1)"
    by (auto simp: stop_vpn_def unless_asserted_def op_simps split: sum.splits prod.splits)
  then show ?case using Cons.IH by (fastforce simp: op_simps)
qed (simp add: op_return_def)



section \<open>Stopping without a backup\<close>

definition builtin_chains :: "netfilter \<Rightarrow> bool" where
  "builtin_chains nf \<longleftrightarrow> (\<forall>c \<in> {''INPUT'', ''FORWARD'', ''OUTPUT''}. (''filter'', c) \<in> fst ` set (nf_policy nf))"

lemma set_policy_ok:
  assumes "nf_ok nf" "(''filter'', c) \<in> fst ` set (nf_policy nf)"
  shows "iptables [''-P'', c, p] nf = Some (nf\<lparr>nf_policy := AList.update (''filter'', c) p (nf_policy nf)\<rparr>)"
proof -
  have "map_of (nf_chains nf) (''filter'', c) \<noteq> None" using assms unfolding nf_ok_def by blast
  then obtain rs where "map_of (nf_chains nf) (''filter'', c) = Some rs" by blast
  then show ?thesis using assms(2) by (simp add: iptables_def nf_cmd_def)
qed

lemma nf_ok_set_policy:
  assumes "nf_ok nf" "k \<in> fst ` set (nf_policy nf)"
  shows "nf_ok (nf\<lparr>nf_policy := AList.update k p (nf_policy nf)\<rparr>)" (is "nf_ok ?nf")
proof -
  have same: "target_ok ?nf = target_ok nf" "nf_chains ?nf = nf_chains nf" "fst ` set (nf_policy ?nf) = fst ` set (nf_policy nf)"
    using assms(2) by (simp_all add: fun_eq_iff target_ok_def keys_update_same insert_absorb split: option.splits)
  show ?thesis using assms(1) unfolding nf_ok_def same .
qed

definition flush :: "string \<Rightarrow> netfilter \<Rightarrow> netfilter" where
  "flush t nf = nf\<lparr>nf_chains := map (\<lambda>(k, rs). (k, if fst k = t then [] else rs)) (nf_chains nf)\<rparr>"

definition drop_chains :: "netfilter \<Rightarrow> netfilter" where
  "drop_chains nf = nf\<lparr>nf_chains := filter (\<lambda>(k, rs). fst k \<noteq> ''filter'' \<or> k \<in> fst ` set (nf_policy nf)) (nf_chains nf)\<rparr>"

lemma flush_commands:
  "iptables [''-t'', t, ''-F''] nf = Some (flush t nf)" "iptables [''-F''] nf = Some (flush ''filter'' nf)"
  "iptables [''-X''] nf = Some (drop_chains nf)"
  by (simp_all add: iptables_def nf_cmd_def flush_def drop_chains_def)

definition accept_all :: "netfilter \<Rightarrow> netfilter" where
  "accept_all nf = nf\<lparr>nf_policy := AList.update (''filter'', ''OUTPUT'') ''ACCEPT'' (AList.update (''filter'', ''FORWARD'') ''ACCEPT''
     (AList.update (''filter'', ''INPUT'') ''ACCEPT'' (nf_policy nf)))\<rparr>"

definition emptied :: "netfilter \<Rightarrow> netfilter" where
  "emptied nf = drop_chains (flush ''filter'' (flush ''mangle'' (flush ''nat'' (accept_all nf))))"

context packet_filter
begin

lemma run_iptables_ok:
  assumes op: "nf_op ws \<in> {''-D'', ''-X'', ''-P'', ''-F''}" and "iptables ws (un_nf s) = Some nf"
  shows "run_iptables ipt ws s = (Inr (), s\<lparr>un_nf := nf\<rparr>)"
  using removal_works [OF assms] by (simp add: run_iptables_def)

lemma iptables_reset_ok:
  assumes "nf_ok (un_nf s)" "builtin_chains (un_nf s)"
  shows "iptables_reset ipt s = (Inr (), s\<lparr>un_nf := emptied (un_nf s)\<rparr>)"
proof -
  let ?nf = "un_nf s"
  let ?p = "\<lambda>c nf. nf\<lparr>nf_policy := AList.update (''filter'', c) ''ACCEPT'' (nf_policy nf)\<rparr>"
  have b: "(''filter'', c) \<in> fst ` set (nf_policy ?nf)" if "c \<in> {''INPUT'', ''FORWARD'', ''OUTPUT''}" for c
    using that assms(2) unfolding builtin_chains_def by blast
  have 1: "nf_ok (?p ''INPUT'' ?nf)" using assms(1) b by (rule nf_ok_set_policy) simp
  have 2: "nf_ok (?p ''FORWARD'' (?p ''INPUT'' ?nf))" using b by (intro nf_ok_set_policy [OF 1]) (simp add: keys_update_same)
  have "iptables [''-P'', ''INPUT'', ''ACCEPT''] ?nf = Some (?p ''INPUT'' ?nf)" using assms(1) b by (intro set_policy_ok) simp_all
  moreover have "iptables [''-P'', ''FORWARD'', ''ACCEPT''] (?p ''INPUT'' ?nf) = Some (?p ''FORWARD'' (?p ''INPUT'' ?nf))"
    using 1 b by (intro set_policy_ok) (simp_all add: keys_update_same)
  moreover have "iptables [''-P'', ''OUTPUT'', ''ACCEPT''] (?p ''FORWARD'' (?p ''INPUT'' ?nf)) = Some (accept_all ?nf)"
    using 2 b by (subst set_policy_ok) (simp_all add: keys_update_same accept_all_def)
  ultimately show ?thesis
    by (simp add: iptables_reset_def reset_commands_def run_iptables_ok flush_commands op_simps emptied_def)
qed

end

lemma map_of_flush: "map_of (nf_chains (flush t nf)) k = map_option (\<lambda>rs. if fst k = t then [] else rs) (map_of (nf_chains nf) k)"
proof -
  have "map_of (map (\<lambda>(k, rs). (k, if fst k = t then [] else rs)) xs) k = map_option (\<lambda>rs. if fst k = t then [] else rs) (map_of xs k)" for xs
    by (induction xs) auto
  then show ?thesis by (simp add: flush_def)
qed

lemma map_of_filter_keys: "map_of (filter (\<lambda>(k, v). P k) xs) k = (if P k then map_of xs k else None)"
  by (induction xs) auto

lemma emptied_filter:
  assumes "nf_ok nf" "builtin_chains nf"
  shows "map_of (nf_chains (emptied nf)) (''filter'', c) = (if (''filter'', c) \<in> fst ` set (nf_policy nf) then Some [] else None)"
proof -
  have b: "(''filter'', x) \<in> fst ` set (nf_policy nf)" if "x \<in> {''INPUT'', ''FORWARD'', ''OUTPUT''}" for x
    using that assms(2) unfolding builtin_chains_def by blast
  have keys: "fst ` set (nf_policy (flush t (flush t' (flush t'' (accept_all nf))))) = fst ` set (nf_policy nf)" for t t' t''
    using b by (simp add: flush_def accept_all_def keys_update_same insert_absorb)
  have chains: "nf_chains (accept_all nf) = nf_chains nf" by (simp add: accept_all_def)
  have drop: "map_of (nf_chains (drop_chains nf')) (''filter'', c) =
      (if (''filter'', c) \<in> fst ` set (nf_policy nf') then map_of (nf_chains nf') (''filter'', c) else None)" for nf'
    using map_of_filter_keys [of "\<lambda>k. fst k \<noteq> ''filter'' \<or> k \<in> fst ` set (nf_policy nf')" "nf_chains nf'" "(''filter'', c)"]
    by (simp add: drop_chains_def del: map_of_filter_keys)
  show ?thesis
  proof (cases "(''filter'', c) \<in> fst ` set (nf_policy nf)")
    case True
    then have "map_of (nf_chains nf) (''filter'', c) \<noteq> None" using assms(1) unfolding nf_ok_def by blast
    then show ?thesis unfolding emptied_def drop keys using True by (auto simp: map_of_flush chains simp del: map_of_eq_None_iff)
  next
    case False
    then show ?thesis unfolding emptied_def drop keys by simp
  qed
qed

text \<open>C33. Without its backup, the service restores what it does not have: an asserted stop ends without an error and
  leaves all chains of the filter empty, those of other programs gone, and nothing but ACCEPT as policy.\<close>

theorem stop_without_backup:
  assumes "un_backup s = None" "nf_ok (un_nf s)" "builtin_chains (un_nf s)" and doc: "packet_filter (fa_iptables ag)"
  shows "\<exists>s2. net_stop ag True s = (Inr (), s2) \<and>
     (\<forall>c. map_of (nf_chains (un_nf s2)) (''filter'', c) = (if (''filter'', c) \<in> fst ` set (nf_policy (un_nf s)) then Some [] else None)) \<and>
     (\<forall>c \<in> {''INPUT'', ''FORWARD'', ''OUTPUT''}. map_of (nf_policy (un_nf s2)) (''filter'', c) = Some ''ACCEPT'')"
proof -
  obtain s1 where v: "op_each (stop_vpn ag True) (vpn_interfaces ag) s = (Inr (), s1)"
    using stop_vpns_asserted by blast
  from stop_vpns_keep [OF v] have k: "un_nf s1 = un_nf s" "un_backup s1 = None" using assms(1) by simp_all
  let ?s2 = "s1\<lparr>un_nf := emptied (un_nf s)\<rparr>"
  have "iptables_reset (fa_iptables ag) s1 = (Inr (), ?s2)" using packet_filter.iptables_reset_ok [OF doc, of s1] assms k by simp
  then have "net_stop ag True s = (Inr (), ?s2)"
    unfolding net_stop_def op_then_def op_bind_def using v k by (simp add: iptables_restore_def unless_asserted_def op_simps)
  moreover have "nf_policy (emptied nf) = nf_policy (accept_all nf)" for nf
    by (simp add: emptied_def drop_chains_def flush_def)
  ultimately show ?thesis using emptied_filter [OF assms(2,3)] by (simp add: accept_all_def update_conv')
qed

lemma demo_net_ok: "nf_ok demo_tables" "nics_ok demo_gateway" "fwd_policy \<in> fst ` set (nf_policy demo_tables)" "builtin_chains demo_tables"
  by (simp_all add: nf_ok_def demo_tables_def nics_ok_def demo_nics builtin_chains_def)

lemma demo_documented: "packet_filter (fa_iptables demo_gateway)"
  by (simp add: demo_fields nf.packet_filter_axioms)


text \<open>The chain of another program and the rule that jumps to it.\<close>

definition demo_foreign :: net_state where
  "demo_foreign = demo_net\<lparr>un_nf := set_chain (''filter'', ''INPUT'') [[''-j'', ''f2b'']]
     (set_chain (''filter'', ''f2b'') [[''-s'', ''10.0.0.1/32'', ''-j'', ''DROP'']] demo_tables)\<rparr>"

theorem stop_without_backup_witness:
  "\<exists>s2. net_stop demo_gateway True demo_foreign = (Inr (), s2) \<and> map_of (nf_chains (un_nf s2)) (''filter'', ''f2b'') = None \<and>
     map_of (nf_chains (un_nf s2)) (''filter'', ''INPUT'') = Some []"
proof -
  have ok: "nf_ok (un_nf demo_foreign)" "builtin_chains (un_nf demo_foreign)" "un_backup demo_foreign = None"
    by (simp_all add: demo_foreign_def demo_net_def demo_tables_def set_chain_def nf_ok_def target_ok_def nf_targets_def builtin_chains_def)
  have "fst ` set (nf_policy (un_nf demo_foreign)) = {(''filter'', ''INPUT''), (''filter'', ''FORWARD''), (''filter'', ''OUTPUT'')}"
    by (simp add: demo_foreign_def demo_tables_def)
  then have pol: "(''filter'', ''INPUT'') \<in> fst ` set (nf_policy (un_nf demo_foreign))" "(''filter'', ''f2b'') \<notin> fst ` set (nf_policy (un_nf demo_foreign))"
    by simp_all
  from stop_without_backup [OF ok(3,1,2) demo_documented] obtain s2 where
    s2: "net_stop demo_gateway True demo_foreign = (Inr (), s2)"
    "\<forall>c. map_of (nf_chains (un_nf s2)) (''filter'', c) = (if (''filter'', c) \<in> fst ` set (nf_policy (un_nf demo_foreign)) then Some [] else None)"
    by blast
  have "map_of (nf_chains (un_nf s2)) (''filter'', ''f2b'') = None" "map_of (nf_chains (un_nf s2)) (''filter'', ''INPUT'') = Some []"
    unfolding s2(2) [rule_format] using pol by (simp_all only: if_True if_False simp_thms)
  with s2(1) show ?thesis by blast
qed

end
