(* ===== verification/Ip_Commands.thy ===== *)
theory Ip_Commands
  imports Firewall_Undo
begin

text \<open>
  The commands of \<open>core/ip.py\<close>: switching address translation and forwarding on and off, and the routes that the kernel
  reports. The kernel has tables for IPv4 and for IPv6, with a program for each of them. What a command prints is an
  argument.
\<close>

declare split_paired_All [simp del] split_paired_Ex [simp del]

section \<open>Switching translation and forwarding\<close>

type_synonym ip_tables = "bool \<Rightarrow> netfilter"

text \<open>The first argument selects the tables for IPv6, with the second one a failure is ignored.\<close>

definition run_on :: "(bool \<Rightarrow> nf_program) \<Rightarrow> bool \<Rightarrow> bool \<Rightarrow> rule \<Rightarrow> (ip_tables, unit) op" where
  "run_on ipt v6 noexcept ws T = (case ipt v6 ws (T v6) of
     None \<Rightarrow> (if noexcept then Inr () else Inl (RuntimeError ''CalledProcessError''), T)
   | Some nf \<Rightarrow> (Inr (), T(v6 := nf)))"

definition ipv4_enable_source_nat :: "(bool \<Rightarrow> nf_program) \<Rightarrow> string \<Rightarrow> ipv4_network \<Rightarrow> (ip_tables, unit) op" where
  "ipv4_enable_source_nat ipt nic src_network =
     op_then (run_on ipt False False [''-I'', ''INPUT'', ''1'', ''-i'', nic, ''-j'', ''ACCEPT''])
       (run_on ipt False False [''-t'', ''nat'', ''-I'', ''POSTROUTING'', ''1'', ''-s'', show_net src_network, ''-o'', nic, ''-j'', ''MASQUERADE''])"

definition ipv4_disable_source_nat :: "(bool \<Rightarrow> nf_program) \<Rightarrow> string \<Rightarrow> ipv4_network \<Rightarrow> (ip_tables, unit) op" where
  "ipv4_disable_source_nat ipt nic src_network =
     op_then (run_on ipt False False [''-D'', ''INPUT'', ''-i'', nic, ''-j'', ''ACCEPT''])
       (run_on ipt False False [''-t'', ''nat'', ''-D'', ''POSTROUTING'', ''-s'', show_net src_network, ''-o'', nic, ''-j'', ''MASQUERADE''])"

definition ipv4_enable_output_nat :: "(bool \<Rightarrow> nf_program) \<Rightarrow> string \<Rightarrow> bool \<Rightarrow> (ip_tables, unit) op" where
  "ipv4_enable_output_nat ipt nic v6 = run_on ipt v6 False [''-t'', ''nat'', ''-A'', ''POSTROUTING'', ''-o'', nic, ''-j'', ''MASQUERADE'']"

definition ipv4_disable_output_nat :: "(bool \<Rightarrow> nf_program) \<Rightarrow> string \<Rightarrow> bool \<Rightarrow> bool \<Rightarrow> (ip_tables, unit) op" where
  "ipv4_disable_output_nat ipt nic v6 ignore_errors =
     run_on ipt v6 ignore_errors [''-t'', ''nat'', ''-D'', ''POSTROUTING'', ''-o'', nic, ''-j'', ''MASQUERADE'']"

definition ipv4_enable_forward :: "(bool \<Rightarrow> nf_program) \<Rightarrow> string \<Rightarrow> bool \<Rightarrow> (ip_tables, unit) op" where
  "ipv4_enable_forward ipt nic v6 =
     op_then (run_on ipt v6 False [''-A'', ''FORWARD'', ''-i'', nic, ''-j'', ''ACCEPT''])
       (run_on ipt v6 False [''-A'', ''FORWARD'', ''-i'', nic, ''-m'', ''state'', ''--state'', ''ESTABLISHED,RELATED'', ''-j'', ''ACCEPT''])"

definition ipv4_disable_forward :: "(bool \<Rightarrow> nf_program) \<Rightarrow> string \<Rightarrow> bool \<Rightarrow> bool \<Rightarrow> (ip_tables, unit) op" where
  "ipv4_disable_forward ipt nic v6 ignore_errors =
     op_then (run_on ipt v6 ignore_errors [''-D'', ''FORWARD'', ''-i'', nic, ''-j'', ''ACCEPT''])
       (run_on ipt v6 False [''-D'', ''FORWARD'', ''-i'', nic, ''-m'', ''state'', ''--state'', ''ESTABLISHED,RELATED'', ''-j'', ''ACCEPT''])"

definition iptables_docker_forward :: "(bool \<Rightarrow> nf_program) \<Rightarrow> string \<Rightarrow> string \<Rightarrow> bool \<Rightarrow> bool \<Rightarrow> (ip_tables, unit) op" where
  "iptables_docker_forward ipt nic_a nic_b bidir enable =
     (let action = (\<lambda>a b. run_on ipt False False [if enable then ''-I'' else ''-D'', ''DOCKER-USER'', ''-i'', a, ''-o'', b, ''-j'', ''ACCEPT'']) in
      op_then (action nic_a nic_b) (if bidir then action nic_b nic_a else op_return ()))"

definition iptables_tcp_pmtu :: "(bool \<Rightarrow> nf_program) \<Rightarrow> bool \<Rightarrow> (ip_tables, unit) op" where
  "iptables_tcp_pmtu ipt enable = run_on ipt False False
     [if enable then ''-A'' else ''-D'', ''FORWARD'', ''-p'', ''tcp'', ''--tcp-flags'', ''SYN,RST'', ''SYN'', ''-j'', ''TCPMSS'', ''--clamp-mss-to-pmtu'']"

text \<open>The first step of a switch adds rules, one after the other; the second one deletes them in the same order.\<close>

definition adds_rule :: "rule \<Rightarrow> rule \<Rightarrow> bool" where
  "adds_rule r ws \<longleftrightarrow> nf_op ws \<in> {''-A'', ''-I''} \<and> (\<exists>t c w us. added r = Some ((t, c), w # us) \<and> read_nat w = None \<and>
     (\<exists>op. (op = ''-A'' \<or> op = ''-I'') \<and> (\<forall>nf. iptables ws nf = nf_cmd t op (c # w # us) nf) \<or>
           (\<forall>nf. iptables ws nf = nf_cmd t ''-I'' (c # ''1'' # w # us) nf)))"

definition deletes_rule :: "rule \<Rightarrow> rule \<Rightarrow> bool" where
  "deletes_rule r ws \<longleftrightarrow> nf_op ws = ''-D'' \<and> (\<exists>t c w us. added r = Some ((t, c), w # us) \<and> (\<forall>nf. iptables ws nf = nf_cmd t ''-D'' (c # w # us) nf))"

lemma adds_op: "adds_rule r ws \<Longrightarrow> nf_op ws \<in> {''-A'', ''-I'', ''-D'', ''-N'', ''-X'', ''-P'', ''-F''}"
  by (auto simp: adds_rule_def)

lemma deletes_op: "deletes_rule r ws \<Longrightarrow> nf_op ws \<in> {''-D'', ''-X'', ''-P'', ''-F''}"
  by (simp add: deletes_rule_def)

lemma nf_cmd_first:
  assumes "nf_cmd t ''-I'' (c # ''1'' # w # us) nf = Some nf'"
  shows "\<exists>rs rs'. chain nf (t, c) = Some rs \<and> nf' = set_chain (t, c) rs' nf \<and> mset rs' = add_mset (w # us) (mset rs)"
proof -
  have "read_nat ''1'' = Some 1" by code_simp
  then show ?thesis using assms by (auto simp: nf_cmd_def insert_rule_def chain_def split: if_splits option.splits)
qed

lemma switch_on:
  assumes "adds_rule r ws" "iptables ws nf = Some nf'" "cov nf0 L nf"
  shows "cov nf0 (r # L) nf' \<and> nf_policy nf' = nf_policy nf"
proof -
  from assms(1) obtain t c w us where a: "added r = Some ((t, c), w # us)" "read_nat w = None"
    and "(\<exists>op. (op = ''-A'' \<or> op = ''-I'') \<and> (\<forall>nf. iptables ws nf = nf_cmd t op (c # w # us) nf)) \<or>
      (\<forall>nf. iptables ws nf = nf_cmd t ''-I'' (c # ''1'' # w # us) nf)"
    unfolding adds_rule_def by blast
  then have "\<exists>rs rs'. chain nf (t, c) = Some rs \<and> nf' = set_chain (t, c) rs' nf \<and> mset rs' = add_mset (w # us) (mset rs)"
  proof (elim disjE exE conjE)
    fix op assume "op = ''-A''" "\<forall>nf. iptables ws nf = nf_cmd t op (c # w # us) nf"
    then show ?thesis using nf_cmd_add [of t op c w us nf nf'] a(2) assms(2) by simp
  next
    fix op assume "op = ''-I''" "\<forall>nf. iptables ws nf = nf_cmd t op (c # w # us) nf"
    then show ?thesis using nf_cmd_add [of t op c w us nf nf'] a(2) assms(2) by simp
  next
    assume "\<forall>nf. iptables ws nf = nf_cmd t ''-I'' (c # ''1'' # w # us) nf"
    then show ?thesis using nf_cmd_first [of t c w us nf nf'] assms(2) by simp
  qed
  then show ?thesis using cov_add [OF assms(3) a(1) adder_not_made [OF a(1)]] by auto
qed

lemma switch_off:
  assumes "deletes_rule r ws" "cov nf0 (r # L) nf"
  shows "\<exists>nf'. iptables ws nf = Some nf' \<and> cov nf0 L nf' \<and> nf_policy nf' = nf_policy nf"
proof -
  from assms(1) obtain t c w us where a: "added r = Some ((t, c), w # us)" "iptables ws nf = nf_cmd t ''-D'' (c # w # us) nf"
    unfolding deletes_rule_def by blast
  from cov_remove [OF assms(2) a(1) adder_not_made [OF a(1)]] obtain rs where
    "chain nf (t, c) = Some rs" "w # us \<in> set rs" "cov nf0 L (set_chain (t, c) (remove1 (w # us) rs) nf)" by blast
  then show ?thesis using a(2) by (simp add: nf_cmd_def chain_def)
qed

definition same_rules :: "netfilter \<Rightarrow> netfilter \<Rightarrow> bool" where
  "same_rules nf0 nf \<longleftrightarrow> nf_policy nf = nf_policy nf0 \<and>
     (\<forall>tc. rel_option (\<lambda>r0 rs. mset r0 = mset rs) (map_of (nf_chains nf0) tc) (map_of (nf_chains nf) tc))"

lemma switch1:
  assumes doc: "packet_filter (ipt v)" and on: "run_on ipt v False ws T = (Inr u, T1)" and d: "distinct (map fst (nf_chains (T v)))" and r: "adds_rule r ws" "deletes_rule r ds"
  shows "\<exists>nf. run_on ipt v ne ds T1 = (Inr (), T(v := nf)) \<and> same_rules (T v) nf"
proof -
  from on obtain nf1 where 1: "ipt v ws (T v) = Some nf1" "T1 = T(v := nf1)" by (auto simp: run_on_def split: option.splits)
  note i1 = packet_filter.success_effect [OF doc adds_op [OF r(1)] 1(1)]
  have c: "cov (T v) [r] nf1 \<and> nf_policy nf1 = nf_policy (T v)" using switch_on [OF r(1) i1 cov_start [OF d]] .
  then obtain nf2 where 2: "iptables ds nf1 = Some nf2" "cov (T v) [] nf2" "nf_policy nf2 = nf_policy nf1"
    using switch_off [OF r(2)] by blast
  have "same_rules (T v) nf2" unfolding same_rules_def using c 2(3) cov_nil_same [OF 2(2)] by simp
  then show ?thesis using 1 2 by (intro exI [of _ nf2]) (simp add: run_on_def packet_filter.removal_works [OF doc deletes_op [OF r(2)]])
qed

lemma switch2:
  assumes doc: "packet_filter (ipt v)" and on: "op_then (run_on ipt v False ws) (run_on ipt v False ws') T = (Inr u, T1)"
    and d: "distinct (map fst (nf_chains (T v)))" and r: "adds_rule r ws" "deletes_rule r ds" "adds_rule r' ws'" "deletes_rule r' ds'"
  shows "\<exists>nf. op_then (run_on ipt v ne ds) (run_on ipt v ne' ds') T1 = (Inr (), T(v := nf)) \<and> same_rules (T v) nf"
proof -
  from on obtain nf1 nf2 where 1: "ipt v ws (T v) = Some nf1" "ipt v ws' nf1 = Some nf2" "T1 = T(v := nf2)"
    by (auto simp: run_on_def op_then_Inr split: option.splits)
  note i1 = packet_filter.success_effect [OF doc adds_op [OF r(1)] 1(1)]
  note i2 = packet_filter.success_effect [OF doc adds_op [OF r(3)] 1(2)]
  have c1: "cov (T v) [r] nf1 \<and> nf_policy nf1 = nf_policy (T v)" using switch_on [OF r(1) i1 cov_start [OF d]] .
  then have c2: "cov (T v) [r', r] nf2 \<and> nf_policy nf2 = nf_policy nf1" using switch_on [OF r(3) i2] by blast
  then have "cov (T v) [r, r'] nf2" using cov_perm [of "[r', r]" "[r, r']"] by simp
  then obtain nf3 where 3: "iptables ds nf2 = Some nf3" "cov (T v) [r'] nf3" "nf_policy nf3 = nf_policy nf2"
    using switch_off [OF r(2)] by blast
  then obtain nf4 where 4: "iptables ds' nf3 = Some nf4" "cov (T v) [] nf4" "nf_policy nf4 = nf_policy nf3"
    using switch_off [OF r(4)] by blast
  have "same_rules (T v) nf4" unfolding same_rules_def using c1 c2 3(3) 4(3) cov_nil_same [OF 4(2)] by simp
  then show ?thesis using 1 3 4 by (intro exI [of _ nf4]) (simp add: run_on_def op_simps packet_filter.removal_works [OF doc deletes_op [OF r(2)]]
        packet_filter.removal_works [OF doc deletes_op [OF r(4)]])
qed

lemma adds_append: "adds_rule (''-A'' # c # w # us) (''-A'' # c # w # us)" if "read_nat w = None" for c w us
  using that by (auto simp: adds_rule_def added_def iptables_def)

lemma adds_insert: "adds_rule (''-A'' # c # w # us) (''-I'' # c # w # us)" if "read_nat w = None" for c w us
  using that by (auto simp: adds_rule_def added_def iptables_def)

lemma adds_first: "adds_rule (''-A'' # c # w # us) (''-I'' # c # ''1'' # w # us)" if "read_nat w = None" for c w us
  using that by (auto simp: adds_rule_def added_def iptables_def)

lemma adds_table: "adds_rule (''-t'' # t # ''-A'' # c # w # us) (''-t'' # t # ''-A'' # c # w # us)" if "read_nat w = None" for t c w us
  using that by (auto simp: adds_rule_def added_def iptables_def)

lemma adds_table_first: "adds_rule (''-t'' # t # ''-A'' # c # w # us) (''-t'' # t # ''-I'' # c # ''1'' # w # us)" if "read_nat w = None" for t c w us
  using that by (auto simp: adds_rule_def added_def iptables_def)

lemma deletes_filter: "deletes_rule (''-A'' # c # w # us) (''-D'' # c # w # us)"
  by (auto simp: deletes_rule_def added_def iptables_def)

lemma deletes_table: "deletes_rule (''-t'' # t # ''-A'' # c # w # us) (''-t'' # t # ''-D'' # c # w # us)"
  by (auto simp: deletes_rule_def added_def iptables_def)

lemmas rule_intros = adds_append adds_first adds_insert adds_table_first adds_table deletes_filter deletes_table

text \<open>C34. What a switch turned on it turns off: whenever the first function of a pair succeeds the second one does, and
  the tables of the kernel have the rules and the policies that they had before, up to the order of the rules.\<close>

theorem ip_switches_undone:
  assumes "(on, off, v) \<in> {(ipv4_enable_source_nat ipt nic n, ipv4_disable_source_nat ipt nic n, False),
       (ipv4_enable_output_nat ipt nic v6, ipv4_disable_output_nat ipt nic v6 ignore_errors, v6),
       (ipv4_enable_forward ipt nic v6, ipv4_disable_forward ipt nic v6 ignore_errors, v6),
       (iptables_docker_forward ipt nic nic_b bidir True, iptables_docker_forward ipt nic nic_b bidir False, False),
       (iptables_tcp_pmtu ipt True, iptables_tcp_pmtu ipt False, False)}"
    and doc: "packet_filter (ipt v)" and on: "on T = (Inr u, T1)" and d: "distinct (map fst (nf_chains (T v)))"
  shows "\<exists>nf. off T1 = (Inr (), T(v := nf)) \<and> same_rules (T v) nf"
proof -
  consider (src) "on = ipv4_enable_source_nat ipt nic n" "off = ipv4_disable_source_nat ipt nic n" "v = False"
    | (out) "on = ipv4_enable_output_nat ipt nic v6" "off = ipv4_disable_output_nat ipt nic v6 ignore_errors" "v = v6"
    | (fwd) "on = ipv4_enable_forward ipt nic v6" "off = ipv4_disable_forward ipt nic v6 ignore_errors" "v = v6"
    | (docker) "on = iptables_docker_forward ipt nic nic_b bidir True" "off = iptables_docker_forward ipt nic nic_b bidir False" "v = False"
    | (pmtu) "on = iptables_tcp_pmtu ipt True" "off = iptables_tcp_pmtu ipt False" "v = False"
    using assms(1) by blast
  then show ?thesis
  proof cases
    case src
    show ?thesis using doc on d unfolding src ipv4_enable_source_nat_def ipv4_disable_source_nat_def
      by (rule switch2) (rule rule_intros; simp)+
  next
    case out
    show ?thesis using doc on d unfolding out ipv4_enable_output_nat_def ipv4_disable_output_nat_def
      by (rule switch1) (rule rule_intros; simp)+
  next
    case fwd
    show ?thesis using doc on d unfolding fwd ipv4_enable_forward_def ipv4_disable_forward_def
      by (rule switch2) (rule rule_intros; simp)+
  next
    case docker
    show ?thesis
    proof (cases bidir)
      case True
      then have b: "bidir = True" by simp
      show ?thesis using doc on d unfolding docker iptables_docker_forward_def Let_def b if_True if_False
        by (rule switch2) (rule rule_intros; simp)+
    next
      case False
      then have "run_on ipt False False [''-I'', ''DOCKER-USER'', ''-i'', nic, ''-o'', nic_b, ''-j'', ''ACCEPT''] T = (Inr u, T1)"
        using on unfolding docker by (simp add: iptables_docker_forward_def op_then_Inr op_return_def)
      with switch1 [OF doc [unfolded docker] this d [unfolded docker] adds_insert deletes_filter, of False]
      show ?thesis unfolding docker by (auto simp: iptables_docker_forward_def op_simps False)
    qed
  next
    case pmtu
    show ?thesis using doc on d unfolding pmtu iptables_tcp_pmtu_def if_True if_False
      by (rule switch1) (rule rule_intros; simp)+
  qed
qed

theorem ip_switches_undone_witness:
  "\<exists>T1 nf. ipv4_enable_source_nat (\<lambda>_. iptables) ''eth0'' \<lparr>network_address = 0, prefixlen = 24\<rparr> (\<lambda>_. demo_tables) = (Inr (), T1) \<and>
     ipv4_disable_source_nat (\<lambda>_. iptables) ''eth0'' \<lparr>network_address = 0, prefixlen = 24\<rparr> T1 = (Inr (), (\<lambda>_. demo_tables)(False := nf)) \<and> same_rules demo_tables nf"
proof -
  have one: "read_nat ''1'' = Some 1" by code_simp
  obtain T1 where T1: "ipv4_enable_source_nat (\<lambda>_. iptables) ''eth0'' \<lparr>network_address = 0, prefixlen = 24\<rparr> (\<lambda>_. demo_tables) = (Inr (), T1)"
    by (simp add: ipv4_enable_source_nat_def run_on_def op_simps eval_firewall demo_tables_def one)
  have "distinct (map fst (nf_chains demo_tables))" by (simp add: demo_tables_def)
  with ip_switches_undone [where ipt = "\<lambda>_. iptables" and on = "ipv4_enable_source_nat (\<lambda>_. iptables) ''eth0'' \<lparr>network_address = 0, prefixlen = 24\<rparr>" and off = "ipv4_disable_source_nat (\<lambda>_. iptables) ''eth0'' \<lparr>network_address = 0, prefixlen = 24\<rparr>" and v = False
    and nic = "''eth0''" and n = "\<lparr>network_address = 0, prefixlen = 24\<rparr>", OF _ nf.packet_filter_axioms T1] T1
  show ?thesis by blast
qed

section \<open>Routes\<close>

text \<open>\<open>str.splitlines\<close>, without the empty lines, and \<open>str.split\<close>.\<close>

fun split_by :: "(char \<Rightarrow> bool) \<Rightarrow> string \<Rightarrow> string list" where
  "split_by P [] = [[]]"
| "split_by P (x # xs) =
     (if P x then [] # split_by P xs else (case split_by P xs of [] \<Rightarrow> [[x]] | p # ps \<Rightarrow> (x # p) # ps))"

definition line_break :: "char \<Rightarrow> bool" where
  "line_break c \<longleftrightarrow> of_char c \<in> {10, 11, 12, 13, 28, 29, 30, 133 :: nat}"

definition white_space :: "char \<Rightarrow> bool" where
  "white_space c \<longleftrightarrow> of_char c \<in> {9, 31, 32, 160 :: nat} \<or> line_break c"

definition text_lines :: "string \<Rightarrow> string list" where
  "text_lines s = filter (\<lambda>w. w \<noteq> []) (split_by line_break s)"

definition text_words :: "string \<Rightarrow> string list" where
  "text_words s = filter (\<lambda>w. w \<noteq> []) (split_by white_space s)"

definition strip_text :: "string \<Rightarrow> string" where
  "strip_text s = rev (dropWhile white_space (rev (dropWhile white_space s)))"

text \<open>The output of a command that fails is \<open>None\<close>. The third word of a line is read as an address; without a third word
  the default route raises, since the message of the handler needs the word, too.\<close>

fun default_gateway_in :: "string list \<Rightarrow> ipv4 res" where
  "default_gateway_in [] = Inl (RuntimeError ''failed to determine default gateway'')"
| "default_gateway_in (l # ls) =
     (if \<not> starts_with ''default via '' l then default_gateway_in ls
      else (case text_words l of
              a # b # w # _ \<Rightarrow> (case read_ipv4 w of Inl _ \<Rightarrow> default_gateway_in ls | Inr gw \<Rightarrow> Inr gw)
            | _ \<Rightarrow> Inl IndexError))"

definition ipv4_default_gateway :: "(rule \<Rightarrow> string option) \<Rightarrow> ipv4 res" where
  "ipv4_default_gateway run =
     (case run [''ip'', ''route'', ''show'', ''default''] of
        None \<Rightarrow> Inl (RuntimeError ''CalledProcessError'')
      | Some out \<Rightarrow> default_gateway_in (text_lines (strip_text out)))"

fun route_in :: "string \<Rightarrow> string list \<Rightarrow> ipv4 option" where
  "route_in target [] = None"
| "route_in target (l # ls) =
     (if \<not> starts_with target l then route_in target ls
      else (case text_words l of
              a # b # w # _ \<Rightarrow> (case read_ipv4 w of Inl _ \<Rightarrow> route_in target ls | Inr gw \<Rightarrow> Some gw)
            | _ \<Rightarrow> route_in target ls))"

definition ipv4_get_route :: "(rule \<Rightarrow> string option) \<Rightarrow> ipv4 \<Rightarrow> ipv4 res" where
  "ipv4_get_route run target =
     (case run [''ip'', ''route'', ''get'', show_ipv4 target] of
        None \<Rightarrow> Inl (RuntimeError ''CalledProcessError'')
      | Some out \<Rightarrow> (case route_in (show_ipv4 target) (text_lines (strip_text out)) of
                        Some gw \<Rightarrow> Inr gw | None \<Rightarrow> ipv4_default_gateway run))"

lemma split_by_append: "\<forall>c \<in> set s. \<not> P c \<Longrightarrow> P x \<Longrightarrow> split_by P (s @ x # t) = s # split_by P t"
  by (induction s) auto

lemma split_by_nonempty [simp]: "split_by P s \<noteq> []"
  by (induction s) (auto split: list.splits)

lemma split_by_plain: "\<forall>c \<in> set s. \<not> P c \<Longrightarrow> split_by P s = [s]"
  by (induction s) auto

lemma text_words_word: "\<forall>c \<in> set w. \<not> white_space c \<Longrightarrow> w \<noteq> [] \<Longrightarrow> white_space x \<Longrightarrow> text_words (w @ x # t) = w # text_words t"
  by (simp add: text_words_def split_by_append)

lemma text_words_last: "\<forall>c \<in> set w. \<not> white_space c \<Longrightarrow> w \<noteq> [] \<Longrightarrow> text_words w = [w]"
  by (simp add: text_words_def split_by_plain)

lemma text_lines_first: "\<forall>c \<in> set l. \<not> line_break c \<Longrightarrow> l \<noteq> [] \<Longrightarrow> line_break x \<Longrightarrow> text_lines (l @ x # t) = l # text_lines t"
  by (simp add: text_lines_def split_by_append)

lemma show_ipv4_plain: "c \<in> set (show_ipv4 a) \<Longrightarrow> \<not> white_space c"
proof -
  have d: "\<not> white_space c" if "c \<in> set (show_nat n)" for n
    using set_show_nat [OF that] by (auto simp: char_digit_def Let_def white_space_def line_break_def split: if_splits)
  have "\<not> white_space (CHR ''.'')" by code_simp
  then show "c \<in> set (show_ipv4 a) \<Longrightarrow> \<not> white_space c" using d by (auto simp: show_ipv4_def simp del: show_nat.simps)
qed

lemma show_ipv4_ne [simp]: "show_ipv4 a \<noteq> []"
  by (simp add: show_ipv4_def)

lemma blank_space [simp]: "white_space (CHR '' '')"
  by code_simp

text \<open>A line for a target that is reached through a gateway names it; for a target on a network of the host the third word
  is the name of the interface, and the default gateway is reported in place of the target.\<close>

lemma ipv4_get_route_line:
  assumes run: "run [''ip'', ''route'', ''get'', show_ipv4 t] = Some out"
    and out: "text_lines (strip_text out) = (show_ipv4 t @ CHR '' '' # a @ CHR '' '' # w @ CHR '' '' # rest) # ls"
    and plain: "\<forall>c \<in> set (a @ w). \<not> white_space c" "a \<noteq> []" "w \<noteq> []" and rest: "\<forall>l \<in> set ls. \<not> starts_with (show_ipv4 t) l"
  shows "ipv4_get_route run t = (case read_ipv4 w of Inr gw \<Rightarrow> Inr gw | Inl _ \<Rightarrow> ipv4_default_gateway run)"
proof -
  have words: "text_words (show_ipv4 t @ CHR '' '' # a @ CHR '' '' # w @ CHR '' '' # rest) = show_ipv4 t # a # w # text_words rest"
    using plain show_ipv4_plain by (simp add: text_words_word)
  have none: "route_in (show_ipv4 t) ls = None" using rest by (induction ls) auto
  show ?thesis
    unfolding ipv4_get_route_def run option.case out route_in.simps words
    using none by (simp add: starts_with_def split: sum.splits)
qed

lemma ipv4_get_route_via:
  assumes "run [''ip'', ''route'', ''get'', show_ipv4 t] = Some out" "gw < 2 ^ 32"
    and "text_lines (strip_text out) = [show_ipv4 t @ '' via '' @ show_ipv4 gw @ '' dev '' @ rest]"
  shows "ipv4_get_route run t = Inr gw"
proof -
  have "\<not> white_space (CHR ''v'')" "\<not> white_space (CHR ''i'')" "\<not> white_space (CHR ''a'')" by code_simp+
  with ipv4_get_route_line [where run = run and t = t and a = "''via''" and w = "show_ipv4 gw" and rest = "''dev '' @ rest" and ls = "[]",
      OF assms(1)] assms(2,3) show_ipv4_plain
  show ?thesis by auto
qed

end
