(* ===== verification/Agent_Nets.thy ===== *)
theory Agent_Nets
  imports Ip_Commands Services Uvn
begin

text \<open>
  What an agent runs on (\<open>agent/agent.py\<close>): the local networks and the VPN interfaces of its owner, the packet filter over
  them, the chain of its services, and the file with the process id that keeps a second agent from running on the host.
\<close>

declare split_paired_All [simp del] split_paired_Ex [simp del]

section \<open>Networks of the host\<close>

text \<open>\<open>NicDescriptor\<close> and \<open>LanDescriptor\<close>.\<close>

record local_nic =
  ln_name :: string
  ln_address :: ipv4
  ln_subnet :: ipv4_network

record agent_lan =
  ag_nic :: local_nic
  ag_gw :: ipv4

datatype agent_owner = OwnerUvn | OwnerCell cell

definition list_local_networks :: "nic_json list \<Rightarrow> string list option \<Rightarrow> string list option \<Rightarrow> local_nic list res" where
  "list_local_networks available interfaces skip =
     rbind (list_local_nics available interfaces skip False) (\<lambda>nics.
       Inr (concat (map (\<lambda>(nic, nic_addrs). map (\<lambda>(a, p, n). \<lparr>ln_name = nic, ln_address = a, ln_subnet = n\<rparr>) nic_addrs) nics)))"

definition agent_allowed_lans :: "agent_owner \<Rightarrow> ipv4_network list" where
  "agent_allowed_lans ow = (case ow of OwnerUvn \<Rightarrow> [] | OwnerCell c \<Rightarrow> cell_allowed_lans c)"

definition allowed_nic :: "ipv4_network list \<Rightarrow> local_nic \<Rightarrow> bool" where
  "allowed_nic allowed nic \<longleftrightarrow> (\<exists>lan \<in> set allowed. in_network (ln_address nic) lan)"

definition agent_lans :: "nic_json list \<Rightarrow> (rule \<Rightarrow> string option) \<Rightarrow> agent_owner \<Rightarrow> string list \<Rightarrow> agent_lan list res" where
  "agent_lans available run ow vpns =
     (if agent_allowed_lans ow = [] then Inr []
      else rbind (list_local_networks available None (Some vpns)) (\<lambda>nics.
        rmap (\<lambda>nic. rbind (ipv4_get_route run (network_address (ln_subnet nic))) (\<lambda>gw. Inr \<lparr>ag_nic = nic, ag_gw = gw\<rparr>))
          (filter (allowed_nic (agent_allowed_lans ow)) nics)))"

text \<open>\<open>_validate\<close>; the first argument is the variable \<open>UNO_AGENT_ALLOW_INVALID_NETWORKS\<close>.\<close>

definition validate_agent :: "bool \<Rightarrow> agent_owner \<Rightarrow> agent_lan list \<Rightarrow> unit res" where
  "validate_agent allow_invalid ow lans =
     (let allowed_lans = show_net ` set (agent_allowed_lans ow);
          enabled_lans = (\<lambda>l. show_net (ln_subnet (ag_nic l))) ` set lans in
      if \<not> allow_invalid \<and> allowed_lans \<noteq> {} \<and> allowed_lans \<noteq> enabled_lans
      then Inl (RuntimeError ''invalid network interfaces'') else Inr ())"

section \<open>VPN interfaces\<close>

text \<open>The configurations of the registry for an owner.\<close>

record vpn_source =
  vr_root :: "agent_owner \<Rightarrow> wg_config option"
  vr_particles :: "cell \<Rightarrow> wg_config option"
  vr_backbone :: "(int \<Rightarrow> wg_config list) option"

definition agent_particles_vpn :: "vpn_source \<Rightarrow> agent_owner \<Rightarrow> wg_config option" where
  "agent_particles_vpn vr ow = (case ow of OwnerUvn \<Rightarrow> None | OwnerCell c \<Rightarrow> vr_particles vr c)"

definition agent_backbone_vpns :: "vpn_source \<Rightarrow> agent_owner \<Rightarrow> wg_config list" where
  "agent_backbone_vpns vr ow =
     (case (ow, vr_backbone vr) of (OwnerCell c, Some peer_config) \<Rightarrow> peer_config (cell_id c) | _ \<Rightarrow> [])"

definition bind_addresses :: "agent_lan list \<Rightarrow> wg_config list \<Rightarrow> ipv4 list" where
  "bind_addresses lans vpns = map (\<lambda>l. ln_address (ag_nic l)) lans @ map (\<lambda>v. wi_address (wc_intf v)) vpns"

definition vpn_traffic :: "(wg_config \<times> (string \<times> peer_stat) list) list \<Rightarrow> int \<times> int" where
  "vpn_traffic intf_stats =
     (sum_list (concat (map (\<lambda>(v, peers). map (\<lambda>(k, p). st_recv p) peers) intf_stats)),
      sum_list (concat (map (\<lambda>(v, peers). map (\<lambda>(k, p). st_send p) peers) intf_stats)))"

text \<open>What the packet filter sees of the agent.\<close>

definition agent_firewall :: "uvn \<Rightarrow> vpn_source \<Rightarrow> agent_owner \<Rightarrow> agent_lan list \<Rightarrow> exec \<Rightarrow> (wg_config \<Rightarrow> bool \<times> string) \<Rightarrow> nf_program \<Rightarrow> fw_agent" where
  "agent_firewall u vr ow lans runs conf ipt = \<lparr>fa_lans = map (\<lambda>l. ln_name (ag_nic l)) lans, fa_root = vr_root vr ow,
     fa_particles = agent_particles_vpn vr ow, fa_backbone = agent_backbone_vpns vr ow,
     fa_root_subnet = vs_subnet (us_root_vpn (uvn_settings u)), fa_particles_subnet = vs_subnet (us_particles_vpn (uvn_settings u)),
     fa_backbone_subnet = vs_subnet (us_backbone_vpn (uvn_settings u)),
     fa_cell_lans = concat (map cell_allowed_lans (uvn_cells u)), fa_runs = runs, fa_conf = conf,
     fa_iptables = ipt\<rparr>"

section \<open>Synchronisation and services\<close>

datatype sync_mode = IMMEDIATE | CONNECTED

definition agent_sync_mode :: "string option \<Rightarrow> sync_mode" where
  "agent_sync_mode rekeyed_root_config_id = (if rekeyed_root_config_id \<noteq> None then CONNECTED else IMMEDIATE)"

text \<open>\<open>iter_static_services\<close>: every static service with the one before it, and the agent itself at the end.\<close>

fun iter_static_services :: "string option \<Rightarrow> svc list \<Rightarrow> string \<Rightarrow> (string \<times> string option) list" where
  "iter_static_services prev [] agent = [(agent, prev)]"
| "iter_static_services prev (v # vs) agent =
     (if \<not> sv_static v then iter_static_services prev vs agent
      else (sv_name v, prev) # iter_static_services (Some (sv_name v)) vs agent)"

section \<open>The process id\<close>

text \<open>The answer of \<open>os.kill(pid, 0)\<close>; every \<open>OSError\<close> counts as a process that does not exist.\<close>

datatype kill_answer = Signalled | KillOSError | KillOverflow

definition stored_pid :: "string option \<Rightarrow> int option" where
  "stored_pid f = (case f of None \<Rightarrow> None | Some t \<Rightarrow> read_int (strip_text t))"

definition external_agent_process :: "int \<Rightarrow> (int \<Rightarrow> kill_answer) \<Rightarrow> (string option, int option) op" where
  "external_agent_process own kill f =
     (case stored_pid f of
        None \<Rightarrow> (Inr None, f)
      | Some p \<Rightarrow>
          if p = own then (Inr None, f)
          else (case kill p of
                  Signalled \<Rightarrow> (Inr (Some p), f)
                | KillOSError \<Rightarrow> (Inr None, None)
                | KillOverflow \<Rightarrow> (Inl (ValueError ''OverflowError''), f)))"

definition write_pid_file :: "int \<Rightarrow> (string option, unit) op" where
  "write_pid_file own = op_modify (\<lambda>_. Some (show_int own))"

definition delete_pid_file :: "(string option, unit) op" where
  "delete_pid_file = op_modify (\<lambda>_. None)"

definition enter_pid_file :: "int \<Rightarrow> (int \<Rightarrow> kill_answer) \<Rightarrow> (string option, unit) op" where
  "enter_pid_file own kill =
     op_bind (external_agent_process own kill) (\<lambda>external.
       case external of
         Some p \<Rightarrow> op_raise (RuntimeError ''agent already running on host'')
       | None \<Rightarrow> write_pid_file own)"

text \<open>The body of the context changes the rest of the state; the file is removed whatever it does.\<close>

definition with_pid_file :: "int \<Rightarrow> (int \<Rightarrow> kill_answer) \<Rightarrow> (string option \<times> 's, 'a) op \<Rightarrow> (string option \<times> 's, 'a) op" where
  "with_pid_file own kill body s =
     (case enter_pid_file own kill (fst s) of
        (Inl e, f) \<Rightarrow> (Inl e, (f, snd s))
      | (Inr _, f) \<Rightarrow> (case body (f, snd s) of (r, (f', x)) \<Rightarrow> (r, (snd (delete_pid_file f'), x))))"

text \<open>Processes on a host: an agent enters the context, leaves it or dies in it. Another process may have the number of a
  process that died.\<close>

record pid_host =
  ph_file :: "string option"
  ph_alive :: "int set"
  ph_running :: "int set"

definition kill_of :: "pid_host \<Rightarrow> int \<Rightarrow> kill_answer" where
  "kill_of h p = (if p \<in> ph_alive h then Signalled else KillOSError)"

inductive pid_step :: "pid_host \<Rightarrow> pid_host \<Rightarrow> bool" where
  spawn: "p \<notin> ph_alive h \<Longrightarrow> pid_step h (h\<lparr>ph_alive := insert p (ph_alive h)\<rparr>)"
| enter: "p \<in> ph_alive h \<Longrightarrow> p \<notin> ph_running h \<Longrightarrow> enter_pid_file p (kill_of h) (ph_file h) = (Inr (), f) \<Longrightarrow>
    pid_step h (h\<lparr>ph_file := f, ph_running := insert p (ph_running h)\<rparr>)"
| refused: "p \<in> ph_alive h \<Longrightarrow> p \<notin> ph_running h \<Longrightarrow> enter_pid_file p (kill_of h) (ph_file h) = (Inl e, f) \<Longrightarrow>
    pid_step h (h\<lparr>ph_file := f\<rparr>)"
| leave: "p \<in> ph_running h \<Longrightarrow> pid_step h (h\<lparr>ph_file := snd (delete_pid_file (ph_file h)), ph_running := ph_running h - {p}\<rparr>)"
| die: "p \<in> ph_alive h \<Longrightarrow> pid_step h (h\<lparr>ph_alive := ph_alive h - {p}, ph_running := ph_running h - {p}\<rparr>)"

section \<open>One agent on a host\<close>

lemma strip_plain: "\<forall>c \<in> set s. \<not> white_space c \<Longrightarrow> strip_text s = s"
proof -
  have d: "dropWhile white_space t = t" if "\<forall>c \<in> set t. \<not> white_space c" for t
    using that by (cases t) auto
  assume a: "\<forall>c \<in> set s. \<not> white_space c"
  then show ?thesis using d [of s] d [of "rev s"] by (simp add: strip_text_def)
qed

lemma show_nat_plain: "c \<in> set (show_nat n) \<Longrightarrow> \<not> white_space c"
  using set_show_nat [of c n] by (auto simp: char_digit_def Let_def white_space_def line_break_def split: if_splits)

lemma stored_pid_written [simp]: "stored_pid (Some (show_int p)) = Some p"
proof -
  have "\<not> white_space (CHR ''-'')" by code_simp
  then have "\<forall>c \<in> set (show_int p). \<not> white_space c" using show_nat_plain by (auto simp: show_int_def simp del: show_nat.simps)
  then show ?thesis by (simp add: stored_pid_def strip_plain)
qed

lemma stored_pid_none [simp]: "stored_pid None = None"
  by (simp add: stored_pid_def)

lemma enter_alone:
  assumes "enter_pid_file p (kill_of h) (ph_file h) = (Inr (), f)"
  shows "f = Some (show_int p) \<and> (\<forall>q. stored_pid (ph_file h) = Some q \<longrightarrow> q = p \<or> q \<notin> ph_alive h)"
  using assms
  by (auto simp: enter_pid_file_def external_agent_process_def write_pid_file_def kill_of_def op_simps
      split: option.splits if_splits)

lemma enter_refused:
  assumes "enter_pid_file p (kill_of h) (ph_file h) = (Inl e, f)"
  shows "f = ph_file h"
  using assms
  by (auto simp: enter_pid_file_def external_agent_process_def write_pid_file_def kill_of_def op_simps
      split: option.splits if_splits)

definition pid_inv :: "pid_host \<Rightarrow> bool" where
  "pid_inv h \<longleftrightarrow> (\<forall>p \<in> ph_running h. p \<in> ph_alive h \<and> ph_file h = Some (show_int p))"

lemma pid_inv_same: "pid_inv h \<Longrightarrow> p \<in> ph_running h \<Longrightarrow> q \<in> ph_running h \<Longrightarrow> p = q"
  unfolding pid_inv_def using stored_pid_written by (metis option.inject)

lemma pid_step_inv: "pid_step h h' \<Longrightarrow> pid_inv h \<Longrightarrow> pid_inv h'"
proof (induction rule: pid_step.induct)
  case (enter p h f)
  note e = enter_alone [OF enter(3)]
  have "ph_running h = {}"
  proof (rule ccontr)
    assume "ph_running h \<noteq> {}"
    then obtain q where "q \<in> ph_running h" by blast
    then show False using enter e by (auto simp: pid_inv_def)
  qed
  then show ?case using enter(1) e by (simp add: pid_inv_def)
next
  case (refused p h e f)
  then show ?case using enter_refused [OF refused(3)] by (simp add: pid_inv_def)
next
  case (leave p h)
  then have "ph_running h = {p}" using pid_inv_same by blast
  then show ?case by (simp add: pid_inv_def)
next
  case (die p h)
  then show ?case by (auto simp: pid_inv_def)
qed (auto simp: pid_inv_def)


text \<open>A file left by a process that died does not keep the next one out.\<close>

definition demo_pid_host :: pid_host where
  "demo_pid_host = \<lparr>ph_file = Some ''17'', ph_alive = {5}, ph_running = {}\<rparr>"


lemma pid_file_removed:
  assumes "with_pid_file own kill body s = (r, s')"
  shows "(\<exists>f f'. enter_pid_file own kill (fst s) = (Inr (), f) \<and> body (f, snd s) = (r, (f', snd s')) \<and> fst s' = None) \<or>
    (\<exists>e. r = Inl e \<and> enter_pid_file own kill (fst s) = (Inl e, fst s') \<and> snd s' = snd s)"
  using assms by (auto simp: with_pid_file_def delete_pid_file_def op_modify_def split: prod.splits sum.splits)

section \<open>Local networks\<close>

lemma show_net_inj: "valid_network n \<Longrightarrow> valid_network m \<Longrightarrow> show_net n = show_net m \<longleftrightarrow> n = m"
  using read_show_net by (metis option.inject)

text \<open>What the kernel reports of its interfaces are addresses.\<close>

definition nics_sound :: "nic_json list \<Rightarrow> bool" where
  "nics_sound available \<longleftrightarrow> (\<forall>i \<in> set available. \<forall>a \<in> set (addr_infos i). addr_local a < 2 ^ 32 \<and> addr_prefixlen a \<le> 32)"

lemma local_network_sound:
  assumes l: "list_local_networks available ifs skip = Inr nics" and ok: "nics_sound available" and n: "nic \<in> set nics"
  shows "valid_network (ln_subnet nic) \<and> in_network (ln_address nic) (ln_subnet nic)"
proof -
  from l obtain ls where ls: "list_local_nics available ifs skip False = Inr ls"
    and nics: "nics = concat (map (\<lambda>(nic, nic_addrs). map (\<lambda>(a, p, n). \<lparr>ln_name = nic, ln_address = a, ln_subnet = n\<rparr>) nic_addrs) ls)"
    by (auto simp: list_local_networks_def rbind_Inr_conv)
  from n obtain name as a p m where as: "(name, as) \<in> set ls" "(a, p, m) \<in> set as" and nic: "ln_address nic = a" "ln_subnet nic = m"
    unfolding nics by auto
  from rmap_Inr_set [OF ls [unfolded list_local_nics_def] as(1)] obtain i where
    i: "i \<in> set available" "nic_addrs i = Inr as" by (auto simp: rbind_Inr_conv)
  from rmap_Inr_set [OF i(2) [unfolded nic_addrs_def] as(2)] obtain info where
    info: "info \<in> set (addr_infos i)" "ipv4_nic_network (addr_local info) (Cidr (addr_prefixlen info)) = Inr m" "a = addr_local info"
    by (auto simp: rbind_Inr_conv)
  have b: "addr_local info < 2 ^ 32" "addr_prefixlen info \<le> 32" using ok i(1) info(1) by (auto simp: nics_sound_def)
  have "m = \<lparr>network_address = a - host_part a (addr_prefixlen info), prefixlen = addr_prefixlen info\<rparr>"
    using info nic_network_cidr [OF b(2,1)] by simp
  moreover have "host_part (a - host_part a q) q = 0" for q by (simp add: host_part_def minus_mod_eq_div_mult)
  ultimately show ?thesis using nic b info(3) by (simp add: valid_network_def in_network_def)
qed

lemma agent_lans_nics:
  assumes "agent_lans available run ow vpns = Inr lans" "agent_allowed_lans ow \<noteq> []" "list_local_networks available None (Some vpns) = Inr nics"
  shows "map ag_nic lans = filter (allowed_nic (agent_allowed_lans ow)) nics"
proof -
  have "rmap (\<lambda>nic. rbind (ipv4_get_route run (network_address (ln_subnet nic))) (\<lambda>gw. Inr \<lparr>ag_nic = nic, ag_gw = gw\<rparr>)) xs = Inr ys
      \<Longrightarrow> map ag_nic ys = xs" for xs ys
    by (induction xs arbitrary: ys) (auto simp: rbind_Inr_conv)
  then show ?thesis using assms by (auto simp: agent_lans_def)
qed

text \<open>C32. An agent finds its networks valid exactly when every network that its cell allows is that of a local interface and
  every local interface with an address in such a network is on one of them.\<close>

theorem agent_networks_checked:
  assumes lans: "agent_lans available run ow vpns = Inr lans" and nics: "list_local_networks available None (Some vpns) = Inr nics"
    and ok: "nics_sound available" "\<forall>n \<in> set (agent_allowed_lans ow). valid_network n"
  shows "validate_agent False ow lans = Inr () \<longleftrightarrow> agent_allowed_lans ow = [] \<or>
    (\<forall>n \<in> set (agent_allowed_lans ow). \<exists>nic \<in> set nics. ln_subnet nic = n) \<and>
    (\<forall>nic \<in> set nics. allowed_nic (agent_allowed_lans ow) nic \<longrightarrow> ln_subnet nic \<in> set (agent_allowed_lans ow))"
proof (cases "agent_allowed_lans ow = []")
  case True
  then show ?thesis by (simp add: validate_agent_def)
next
  case False
  let ?al = "agent_allowed_lans ow" and ?on = "filter (allowed_nic (agent_allowed_lans ow)) nics"
  have sound: "valid_network (ln_subnet nic)" "in_network (ln_address nic) (ln_subnet nic)" if "nic \<in> set nics" for nic
    using local_network_sound [OF nics ok(1) that] by simp_all
  have "(\<lambda>l. show_net (ln_subnet (ag_nic l))) ` set lans = show_net ` ln_subnet ` set (map ag_nic lans)"
    by (simp add: image_image)
  then have enabled: "(\<lambda>l. show_net (ln_subnet (ag_nic l))) ` set lans = show_net ` ln_subnet ` set ?on"
    unfolding agent_lans_nics [OF lans False nics] .
  have "show_net ` set ?al = show_net ` ln_subnet ` set ?on \<longleftrightarrow> set ?al = ln_subnet ` set ?on"
  proof
    have v: "valid_network n" if "n \<in> set ?al \<union> ln_subnet ` set ?on" for n
      using that ok(2) sound(1) by auto
    have inj: "inj_on show_net (set ?al \<union> ln_subnet ` set ?on)"
      by (rule inj_onI) (use v show_net_inj in blast)
    assume "show_net ` set ?al = show_net ` ln_subnet ` set ?on"
    then show "set ?al = ln_subnet ` set ?on" using inj_on_image_eq_iff [OF inj, of "set ?al" "ln_subnet ` set ?on"] by blast
  qed simp
  moreover have "set ?al = ln_subnet ` set ?on \<longleftrightarrow>
      (\<forall>n \<in> set ?al. \<exists>nic \<in> set nics. ln_subnet nic = n) \<and> (\<forall>nic \<in> set nics. allowed_nic ?al nic \<longrightarrow> ln_subnet nic \<in> set ?al)"
    (is "?L \<longleftrightarrow> ?R")
  proof
    assume ?R
    then show ?L using sound(2) by (force simp: allowed_nic_def)
  qed auto
  ultimately show ?thesis using False enabled by (simp add: validate_agent_def Let_def)
qed

definition demo_available :: "nic_json list" where
  "demo_available = [\<lparr>ifname = ''eth0'', operstate = ''UP'', link_type = ''ether'',
     addr_infos = [\<lparr>family = ''inet'', addr_local = 513, addr_prefixlen = 24\<rparr>], nic_keys = [''ifname'']\<rparr>]"

definition demo_lan_cell :: cell where
  "demo_lan_cell = \<lparr>cell_id = 1, cell_name = ''home'', cell_address = None, cell_excluded = False,
     cell_allowed_lans = [\<lparr>network_address = 512, prefixlen = 24\<rparr>], cell_enable_particles_vpn = True, cell_owner = None\<rparr>"

lemma demo_networks: "list_local_networks demo_available None (Some []) =
    Inr [\<lparr>ln_name = ''eth0'', ln_address = 513, ln_subnet = \<lparr>network_address = 512, prefixlen = 24\<rparr>\<rparr>]"
  by (simp add: list_local_networks_def list_local_nics_def demo_available_def nic_selected_def nic_addrs_def nic_network_cidr
      host_part_def net_size_def)

theorem agent_networks_checked_witness:
  "\<exists>lans. agent_lans demo_available (\<lambda>_. Some ''default via 10.0.0.1 dev eth0'') (OwnerCell demo_lan_cell) [] = Inr lans \<and>
     validate_agent False (OwnerCell demo_lan_cell) lans = Inr ()"
proof -
  let ?al = "[\<lparr>network_address = 512, prefixlen = 24\<rparr>]" and ?run = "\<lambda>_. Some ''default via 10.0.0.1 dev eth0''"
  have al: "agent_allowed_lans (OwnerCell demo_lan_cell) = ?al" by (simp add: agent_allowed_lans_def demo_lan_cell_def)
  have d: "show_nat 0 = ''0''" "show_nat (Suc 0) = ''1''" "show_nat 2 = ''2''" "show_nat 10 = ''10''" by code_simp+
  have "text_lines (strip_text ''default via 10.0.0.1 dev eth0'') = [''default via 10.0.0.1 dev eth0'']"
    "text_words ''default via 10.0.0.1 dev eth0'' = [''default'', ''via'', ''10.0.0.1'', ''dev'', ''eth0'']"
    by code_simp+
  moreover have "read_ipv4 ''10.0.0.1'' = Inr 167772161" by (simp add: read_ipv4_def read_octet_def read_nat_def char_digit_def d)
  moreover have "\<not> starts_with (show_ipv4 512) ''default via 10.0.0.1 dev eth0''"
    by (simp add: show_ipv4_def starts_with_def d)
  ultimately have "ipv4_get_route ?run 512 = Inr 167772161"
    unfolding ipv4_get_route_def ipv4_default_gateway_def option.case by (simp add: starts_with_def)
  then obtain lans where lans: "agent_lans demo_available ?run (OwnerCell demo_lan_cell) [] = Inr lans"
    by (simp add: agent_lans_def al demo_networks allowed_nic_def in_network_def host_part_def net_size_def)
  have "nics_sound demo_available" "\<forall>n \<in> set (agent_allowed_lans (OwnerCell demo_lan_cell)). valid_network n"
    unfolding al by (simp_all add: nics_sound_def demo_available_def valid_network_def host_part_def net_size_def)
  from agent_networks_checked [OF lans demo_networks this] have "validate_agent False (OwnerCell demo_lan_cell) lans = Inr ()"
    unfolding al by (simp only: list.set ball_simps bex_simps local_nic.simps) simp
  with lans show ?thesis by blast
qed

end
