(* ===== verification/Routes.thy ===== *)
theory Routes
  imports Ip_Commands
begin

text \<open>
  The monitor of the routes of a cell (\<open>agent/routes_monitor.py\<close>): every poll compares the routes of the kernel with those
  in a file and reports the differences to the listeners. What a command prints is an argument, and so is the order in
  which a set is written.
\<close>

declare split_paired_All [simp del] split_paired_Ex [simp del]

type_synonym route_event = "string set \<times> string set"

definition ipv4_list_routes :: "(rule \<Rightarrow> string option) \<Rightarrow> string set res" where
  "ipv4_list_routes run = (case run [''ip'', ''-o'', ''route''] of
     None \<Rightarrow> Inl (RuntimeError ''CalledProcessError'') | Some out \<Rightarrow> Inr (set (text_lines out)))"

definition read_routes :: "string option \<Rightarrow> string set" where
  "read_routes f = (case f of None \<Rightarrow> {} | Some t \<Rightarrow> set (text_lines t))"

definition write_routes :: "(string set \<Rightarrow> string list) \<Rightarrow> string set \<Rightarrow> (string option, unit) op" where
  "write_routes order routes = op_modify (\<lambda>_. Some (concat (map (\<lambda>r. r @ [CHR 0x0A]) (order routes))))"

definition poll_routes :: "(rule \<Rightarrow> string option) \<Rightarrow> (string set \<Rightarrow> string list) \<Rightarrow> (string option, route_event) op" where
  "poll_routes run order f =
     (case ipv4_list_routes run of
        Inl e \<Rightarrow> (Inl e, f)
      | Inr current_routes \<Rightarrow>
          let prev_routes = read_routes f; new_routes = current_routes - prev_routes; gone_routes = prev_routes - current_routes in
          if new_routes = {} \<and> gone_routes = {} then (Inr ({}, {}), f)
          else op_then (write_routes order current_routes) (op_return (new_routes, gone_routes)) f)"

text \<open>The state is the file and what the listeners have heard.\<close>

definition process_routes :: "(string set \<Rightarrow> string list) \<Rightarrow> (rule \<Rightarrow> string option) \<Rightarrow> (string option \<times> route_event list, unit) op" where
  "process_routes order run s =
     (case poll_routes run order (fst s) of
        (Inl e, f) \<Rightarrow> (Inl e, (f, snd s))
      | (Inr ev, f) \<Rightarrow> (Inr (), (f, if fst ev \<noteq> {} \<or> snd ev \<noteq> {} then snd s @ [ev] else snd s)))"

text \<open>What a listener knows that follows the events.\<close>

definition apply_event :: "string set \<Rightarrow> route_event \<Rightarrow> string set" where
  "apply_event S ev = (S - snd ev) \<union> fst ev"

lemma split_by_members: "l \<in> set (split_by P s) \<Longrightarrow> \<forall>c \<in> set l. \<not> P c"
proof (induction s arbitrary: l)
  case (Cons x s)
  then show ?case by (cases "split_by P s") (force split: if_splits)+
qed simp

lemma text_lines_members: "l \<in> set (text_lines s) \<Longrightarrow> l \<noteq> [] \<and> (\<forall>c \<in> set l. \<not> line_break c)"
  using split_by_members by (auto simp: text_lines_def)

lemma line_break_newline [simp]: "line_break (CHR 0x0A)"
  by code_simp

lemma text_lines_nil [simp]: "text_lines [] = []"
  by (simp add: text_lines_def)

lemma text_lines_written: "\<forall>l \<in> set ls. l \<noteq> [] \<and> (\<forall>c \<in> set l. \<not> line_break c) \<Longrightarrow> text_lines (concat (map (\<lambda>r. r @ [CHR 0x0A]) ls)) = ls"
  by (induction ls) (simp_all add: text_lines_first)

lemma poll_spec:
  assumes ord: "\<And>S. finite S \<Longrightarrow> set (order S) = S" and p: "poll_routes run order f = (Inr ev, f')"
  shows "ipv4_list_routes run = Inr (read_routes f') \<and> ev = (read_routes f' - read_routes f, read_routes f - read_routes f')"
proof -
  from p obtain cur where cur: "ipv4_list_routes run = Inr cur" by (auto simp: poll_routes_def split: sum.splits)
  then have fin: "finite cur" and lines: "\<forall>l \<in> cur. l \<noteq> [] \<and> (\<forall>c \<in> set l. \<not> line_break c)"
    using text_lines_members by (auto simp: ipv4_list_routes_def split: option.splits)
  have w: "read_routes (Some (concat (map (\<lambda>r. r @ [CHR 0x0A]) (order cur)))) = cur"
    using text_lines_written [of "order cur"] lines ord [OF fin] by (simp add: read_routes_def)
  show ?thesis
  proof (cases "cur = read_routes f")
    case True
    then have "poll_routes run order f = (Inr ({}, {}), f)" using cur by (simp add: poll_routes_def)
    then have "ev = ({}, {})" "f' = f" using p by simp_all
    then show ?thesis using cur True by simp
  next
    case False
    then have "\<not> (cur - read_routes f = {} \<and> read_routes f - cur = {})" by blast
    then have "poll_routes run order f = (Inr (cur - read_routes f, read_routes f - cur),
        Some (concat (map (\<lambda>r. r @ [CHR 0x0A]) (order cur))))" (is "_ = (_, ?f)")
      unfolding poll_routes_def Let_def cur by (simp only: sum.case if_False) (simp add: write_routes_def op_simps)
    then have "ev = (cur - read_routes f, read_routes f - cur)" "f' = ?f" using p by simp_all
    then show ?thesis using cur w by simp
  qed
qed

lemma poll_failed: "poll_routes run order f = (Inl e, f') \<Longrightarrow> f' = f"
  by (auto simp: poll_routes_def Let_def write_routes_def op_simps split: sum.splits if_splits)

lemma process_total:
  assumes "ipv4_list_routes run = Inr cur"
  shows "\<exists>f es. process_routes order run s = (Inr (), f, es)"
proof -
  have "\<exists>ev f. poll_routes run order g = (Inr ev, f)" for g
    unfolding poll_routes_def assms sum.case Let_def by (simp add: write_routes_def op_simps)
  then obtain ev f where "poll_routes run order (fst s) = (Inr ev, f)" by blast
  then show ?thesis by (simp add: process_routes_def)
qed

lemma process_spec:
  assumes ord: "\<And>S. finite S \<Longrightarrow> set (order S) = S" and p: "process_routes order run s = (r, s')"
  shows "(\<exists>es. snd s' = snd s @ es \<and> foldl apply_event (read_routes (fst s)) es = read_routes (fst s') \<and> ({}, {}) \<notin> set es) \<and>
    (r = Inr () \<longrightarrow> ipv4_list_routes run = Inr (read_routes (fst s')))"
proof (cases "poll_routes run order (fst s)")
  case (Pair x f)
  show ?thesis
  proof (cases x)
    case (Inl e)
    then have "r = Inl e" "s' = (f, snd s)" "f = fst s"
      using p Pair poll_failed [of run order "fst s" e f] by (simp_all add: process_routes_def)
    then show ?thesis by simp
  next
    case (Inr ev)
    then have "poll_routes run order (fst s) = (Inr ev, f)" using Pair by simp
    from poll_spec [OF ord this] have e: "ipv4_list_routes run = Inr (read_routes f)"
      "ev = (read_routes f - read_routes (fst s), read_routes (fst s) - read_routes f)" by simp_all
    let ?es = "if fst ev \<noteq> {} \<or> snd ev \<noteq> {} then [ev] else []"
    have s': "r = Inr ()" "s' = (f, snd s @ ?es)" using p Pair Inr by (auto simp: process_routes_def)
    have "foldl apply_event (read_routes (fst s)) ?es = read_routes f"
      unfolding e(2) apply_event_def by auto
    moreover have "({}, {}) \<notin> set ?es" by auto
    ultimately show ?thesis unfolding s' using e(1) by (intro conjI exI [of _ ?es]) simp_all
  qed
qed

text \<open>C31. Whatever routes the kernel reports in a sequence of polls, failing ones included, a listener that knows the
  routes in the file and applies the events that it hears knows the routes in the file afterwards, no event is empty, and
  after a successful round these are the routes that the kernel reported last.\<close>

theorem listener_follows_routes:
  assumes ord: "\<And>S. finite S \<Longrightarrow> set (order S) = S" and run: "op_each (process_routes order) runs (f, []) = (r, f', es)"
  shows "foldl apply_event (read_routes f) es = read_routes f' \<and> ({}, {}) \<notin> set es \<and>
    (r = Inr () \<and> runs \<noteq> [] \<longrightarrow> ipv4_list_routes (last runs) = Inr (read_routes f'))"
proof -
  have "\<exists>es'. es = es0 @ es' \<and> foldl apply_event (read_routes f) es' = read_routes f' \<and> ({}, {}) \<notin> set es' \<and>
      (r = Inr () \<and> runs \<noteq> [] \<longrightarrow> ipv4_list_routes (last runs) = Inr (read_routes f'))"
    if "op_each (process_routes order) runs (f, es0) = (r, f', es)" for es0
    using that
  proof (induction runs arbitrary: f es0)
    case Nil
    then show ?case by (simp add: op_return_def)
  next
    case (Cons run runs)
    obtain x f1 es1 where 1: "process_routes order run (f, es0) = (x, f1, es1)" by (cases "process_routes order run (f, es0)") auto
    from process_spec [OF ord 1] obtain e where e: "es1 = es0 @ e" "foldl apply_event (read_routes f) e = read_routes f1" "({}, {}) \<notin> set e"
      and ok: "x = Inr () \<longrightarrow> ipv4_list_routes run = Inr (read_routes f1)" by auto
    show ?case
    proof (cases x)
      case (Inl err)
      then have "r = Inl err" "f' = f1" "es = es1" using Cons.prems 1 by (simp_all add: op_simps)
      then show ?thesis using e by (intro exI [of _ e]) simp
    next
      case (Inr u)
      then have "op_each (process_routes order) runs (f1, es1) = (r, f', es)" using Cons.prems 1 by (simp add: op_simps)
      from Cons.IH [OF this] obtain e' where e': "es = es1 @ e'" "foldl apply_event (read_routes f1) e' = read_routes f'" "({}, {}) \<notin> set e'"
        and last: "r = Inr () \<and> runs \<noteq> [] \<longrightarrow> ipv4_list_routes (last runs) = Inr (read_routes f')" by blast
      have "runs = [] \<Longrightarrow> f' = f1" using \<open>op_each (process_routes order) runs (f1, es1) = (r, f', es)\<close> by (simp add: op_return_def)
      then have "r = Inr () \<longrightarrow> ipv4_list_routes (last (run # runs)) = Inr (read_routes f')" using last ok Inr by auto
      then show ?thesis using e e' by (intro exI [of _ "e @ e'"]) simp
    qed
  qed
  from this [OF run] show ?thesis by simp
qed

theorem listener_follows_routes_witness:
  "\<exists>f' es. op_each (process_routes sorted_list_of_set) [\<lambda>_. Some ''a'', \<lambda>_. Some ''b''] (None, []) = (Inr (), f', es) \<and>
     foldl apply_event {} es = read_routes f' \<and> Inr {''b''} = (Inr (read_routes f') :: string set res)"
proof -
  have l: "text_lines ''b'' = [''b'']" by code_simp
  have total: "\<exists>f es. process_routes sorted_list_of_set (\<lambda>_. Some t) s = (Inr (), f, es)" for t s
    by (rule process_total [where cur = "set (text_lines t)"]) (simp add: ipv4_list_routes_def)
  obtain f1 es1 where 1: "process_routes sorted_list_of_set (\<lambda>_. Some ''a'') (None, []) = (Inr (), f1, es1)"
    using total by blast
  obtain f2 es2 where 2: "process_routes sorted_list_of_set (\<lambda>_. Some ''b'') (f1, es1) = (Inr (), f2, es2)"
    using total by blast
  have run: "op_each (process_routes sorted_list_of_set) [\<lambda>_. Some ''a'', \<lambda>_. Some ''b''] (None, []) = (Inr (), f2, es2)"
    using 1 2 by (simp add: op_simps)
  from listener_follows_routes [OF set_sorted_list_of_set run] have "foldl apply_event {} es2 = read_routes f2"
    "ipv4_list_routes (\<lambda>_. Some ''b'') = Inr (read_routes f2)" by (simp_all add: read_routes_def)
  then show ?thesis using run l by (simp add: ipv4_list_routes_def)
qed

end
