(* ===== verification/Router.thy ===== *)
theory Router
  imports Routes Agent_Nets Backbone
begin

text \<open>
  The router service of a cell (\<open>agent/router.py\<close>): the values that the configuration of the routing daemon is made from,
  and the files with what its shell prints. The templates and the daemon are outside; what a command prints, and whether
  it succeeds, is an argument.
\<close>

declare split_paired_All [simp del] split_paired_Ex [simp del]

section \<open>The configuration\<close>

record frr_vpn =
  fv_name :: string
  fv_address :: ipv4
  fv_address_peer :: ipv4
  fv_mask :: nat
  fv_neighbor :: ipv4
  fv_bgp_as :: int
  fv_subnet :: ipv4_network

record frr_lan =
  fl_name :: string
  fl_address :: ipv4
  fl_mask :: nat
  fl_subnet :: ipv4_network
  fl_area :: ipv4
  fl_gw :: ipv4

record frr_context =
  fc_bgp_as :: int
  fc_timing :: timing_profile
  fc_digest_key :: string
  fc_hostname :: "string option"
  fc_root :: frr_vpn
  fc_backbone :: "frr_vpn list"
  fc_lans :: "frr_lan list"
  fc_router_id :: string
  fc_log_dir :: string

text \<open>An address plus the number of a peer, and the first peer of an interface.\<close>

definition ip_plus :: "ipv4 \<Rightarrow> int \<Rightarrow> ipv4 res" where
  "ip_plus a k = (let r = int a + k in if 0 \<le> r \<and> r < 2 ^ 32 then Inr (nat r) else Inl AddressValueError)"

definition frr_serialize_vpn :: "ipv4 \<Rightarrow> wg_config \<Rightarrow> frr_vpn res" where
  "frr_serialize_vpn base v =
     (case wc_peers v of
        [] \<Rightarrow> Inl IndexError
      | p # _ \<Rightarrow> rbind (ip_plus base (wp_id p)) (\<lambda>neighbor.
          Inr \<lparr>fv_name = wi_name (wc_intf v), fv_address = wi_address (wc_intf v), fv_address_peer = wp_address p,
               fv_mask = wi_netmask (wc_intf v), fv_neighbor = neighbor, fv_bgp_as = wp_id p, fv_subnet = vpn_subnet v\<rparr>))"

definition frr_serialize_lan :: "agent_lan \<Rightarrow> frr_lan res" where
  "frr_serialize_lan l =
     (let nic = ag_nic l in
      rbind (ipv4_netmask_to_cidr (netmask_of (prefixlen (ln_subnet nic)))) (\<lambda>mask.
        Inr \<lparr>fl_name = ln_name nic, fl_address = ln_address nic, fl_mask = mask, fl_subnet = ln_subnet nic,
             fl_area = network_address (ln_subnet nic), fl_gw = ag_gw l\<rparr>))"

definition frr_config :: "uvn \<Rightarrow> string \<Rightarrow> cell \<Rightarrow> wg_config option \<Rightarrow> wg_config list \<Rightarrow> agent_lan list \<Rightarrow> string \<Rightarrow> frr_context res" where
  "frr_config u generation_ts owner root_vpn backbone lans log_dir =
     (let base = base_ip (us_root_vpn (uvn_settings u)) in
      rbind (the_or (AttributeError ''config'') root_vpn) (\<lambda>rv.
      rbind (frr_serialize_vpn base rv) (\<lambda>root.
      rbind (rmap (frr_serialize_vpn base) backbone) (\<lambda>bb.
      rbind (rmap frr_serialize_lan lans) (\<lambda>ls.
        Inr \<lparr>fc_bgp_as = cell_id owner, fc_timing = us_timing_profile (uvn_settings u),
             fc_digest_key = uvn_name u @ ''-'' @ generation_ts, fc_hostname = cell_address owner, fc_root = root,
             fc_backbone = bb, fc_lans = ls, fc_router_id = show_ipv4 (wi_address (wc_intf rv)), fc_log_dir = log_dir\<rparr>)))))"

section \<open>The files of the shell\<close>

type_synonym shell = "rule \<Rightarrow> bool \<times> string"
type_synonym file_map = "(string \<times> string) list"

definition vtysh :: "shell \<Rightarrow> rule \<Rightarrow> string option \<Rightarrow> (file_map, string option) op" where
  "vtysh run cmd output_file fs =
     (let res = run ([''vtysh'', ''-E'', ''-c''] @ cmd) in
      case output_file of
        Some p \<Rightarrow> (if fst res then Inr None else Inl (RuntimeError ''CalledProcessError''), AList.update p (snd res) fs)
      | None \<Rightarrow> (if fst res then Inr (Some (snd res)) else Inl (RuntimeError ''CalledProcessError''), fs))"

definition generate_ospf_neighbors :: "shell \<Rightarrow> string \<Rightarrow> (file_map, unit) op" where
  "generate_ospf_neighbors run output = op_then (vtysh run [''show ip ospf neighbor''] (Some output)) (op_return ())"

definition generate_ospf_routes :: "shell \<Rightarrow> string \<Rightarrow> (file_map, unit) op" where
  "generate_ospf_routes run output = op_then (vtysh run [''show ip ospf route''] (Some output)) (op_return ())"

definition generate_ospf_interfaces :: "shell \<Rightarrow> string \<Rightarrow> (file_map, unit) op" where
  "generate_ospf_interfaces run output = op_then (vtysh run [''show ip ospf interface''] (Some output)) (op_return ())"

definition generate_ospf_borders :: "shell \<Rightarrow> string \<Rightarrow> (file_map, unit) op" where
  "generate_ospf_borders run output = op_then (vtysh run [''show ip ospf border-routers''] (Some output)) (op_return ())"

text \<open>Several outputs, one after the other, in a file that is emptied first.\<close>

definition append_file :: "string \<Rightarrow> string \<Rightarrow> (file_map, unit) op" where
  "append_file p t = op_modify (\<lambda>fs. AList.update p ((case map_of fs p of None \<Rightarrow> [] | Some s \<Rightarrow> s) @ t) fs)"

definition vtysh_line :: "shell \<Rightarrow> string \<Rightarrow> string \<Rightarrow> (file_map, unit) op" where
  "vtysh_line run output cmd = op_bind (vtysh run [cmd] None) (\<lambda>t.
     append_file output ((case t of None \<Rightarrow> [] | Some s \<Rightarrow> s) @ [CHR 0x0A]))"

definition generate_ospf_lsa :: "shell \<Rightarrow> string \<Rightarrow> (file_map, unit) op" where
  "generate_ospf_lsa run output = op_then (op_modify (AList.update output [])) (op_each (vtysh_line run output)
     [''show ip ospf database self-originate'', ''show ip ospf database summary'', ''show ip ospf database asbr-summary'',
      ''show ip ospf database router''])"

definition generate_ospf_summary :: "shell \<Rightarrow> string \<Rightarrow> (file_map, unit) op" where
  "generate_ospf_summary run output = op_then (op_modify (AList.update output [])) (op_each (vtysh_line run output)
     [''show ip ospf database self-originate'', ''show ip ospf border-routers'', ''show ip ospf neighbor''])"

definition ospf_file :: "shell \<Rightarrow> string \<Rightarrow> string \<Rightarrow> (file_map, string) op" where
  "ospf_file run log_dir name = (let output = log_dir @ ''/'' @ name in op_then (generate_ospf_neighbors run output) (op_return output))"

definition ospf_neighbors :: "shell \<Rightarrow> string \<Rightarrow> (file_map, string) op" where
  "ospf_neighbors run log_dir = ospf_file run log_dir ''ospf.neighbors''"

definition ospf_routes :: "shell \<Rightarrow> string \<Rightarrow> (file_map, string) op" where
  "ospf_routes run log_dir = ospf_file run log_dir ''ospf.routes''"

definition ospf_interfaces :: "shell \<Rightarrow> string \<Rightarrow> (file_map, string) op" where
  "ospf_interfaces run log_dir = ospf_file run log_dir ''ospf.interfaces''"

definition ospf_borders :: "shell \<Rightarrow> string \<Rightarrow> (file_map, string) op" where
  "ospf_borders run log_dir = ospf_file run log_dir ''ospf.borders''"

definition ospf_lsa :: "shell \<Rightarrow> string \<Rightarrow> (file_map, string) op" where
  "ospf_lsa run log_dir = ospf_file run log_dir ''ospf.lsa''"

definition ospf_summary :: "shell \<Rightarrow> string \<Rightarrow> (file_map, string) op" where
  "ospf_summary run log_dir = ospf_file run log_dir ''ospf.summary''"

text \<open>All of the files hold the neighbors: the summary, for example, is not what its generator would write.\<close>

lemma ospf_files_hold_neighbors:
  assumes "view \<in> {ospf_neighbors, ospf_routes, ospf_interfaces, ospf_borders, ospf_lsa, ospf_summary}"
    and "view run log_dir fs = (Inr p, fs')"
  shows "map_of fs' p = Some (snd (run [''vtysh'', ''-E'', ''-c'', ''show ip ospf neighbor'']))"
  using assms
  by (auto simp: ospf_neighbors_def ospf_routes_def ospf_interfaces_def ospf_borders_def ospf_lsa_def ospf_summary_def
      ospf_file_def generate_ospf_neighbors_def vtysh_def Let_def op_simps update_conv' split: if_splits)

section \<open>Sessions between cells\<close>

lemma frr_vpns_total:
  assumes "\<forall>c \<in> set cs. \<exists>r. wc_peers c = [r] \<and> 0 \<le> int base + wp_id r \<and> int base + wp_id r < 2 ^ 32"
  shows "\<exists>vs. rmap (frr_serialize_vpn base) cs = Inr vs"
proof (rule rmap_exists)
  fix c assume "c \<in> set cs"
  then obtain r where "wc_peers c = [r]" "0 \<le> int base + wp_id r \<and> int base + wp_id r < 2 ^ 32" using assms by blast
  then show "\<exists>y. frr_serialize_vpn base c = Inr y" by (simp add: frr_serialize_vpn_def ip_plus_def Let_def)
qed

lemma frr_vpns_member:
  assumes "rmap (frr_serialize_vpn base) cs = Inr vs" and "c \<in> set cs"
  shows "\<exists>v \<in> set vs. frr_serialize_vpn base c = Inr v"
  using assms by (metis in_set_conv_nth rmap_Inr_length rmap_Inr_nth)

lemma frr_vpn_fields:
  "frr_serialize_vpn base c = Inr v \<Longrightarrow> wc_peers c = [r] \<Longrightarrow> fv_address v = wi_address (wc_intf c) \<and> fv_address_peer v = wp_address r \<and>
     fv_bgp_as v = wp_id r \<and> fv_mask v = wi_netmask (wc_intf c)"
  by (auto simp: frr_serialize_vpn_def rbind_Inr_conv)

lemma frr_config_succeeds:
  assumes "frr_serialize_vpn (base_ip (us_root_vpn (uvn_settings u))) rv = Inr root"
    and "rmap (frr_serialize_vpn (base_ip (us_root_vpn (uvn_settings u)))) cs = Inr vs" "rmap frr_serialize_lan lans = Inr ls"
  shows "\<exists>x. frr_config u ts c (Some rv) cs lans d = Inr x \<and> fc_bgp_as x = cell_id c \<and> fc_backbone x = vs"
  using assms by (simp add: frr_config_def the_or_def)

text \<open>C15. After a redeployment the routers of any two linked cells are configured for the same session: each has an
  entry for the other one, with the number of the other one as its remote system, the addresses crossed and the same
  mask. Without root VPN or with an interface without peers there is no configuration.\<close>

theorem router_sessions_match:
  assumes "deployable u" and "rnd_ok r" and "us_strategy (uvn_settings u) \<noteq> STATIC"
    and "redeploy_links r u = Inr (lm, s)" and "backbone_vpn (Some lm) u = Some (u', vpn)" and "pp_inv km"
    and "link_of lm (cell_id a) (cell_id b) \<noteq> None"
    and fit: "\<forall>x y. link_of lm x y \<noteq> None \<longrightarrow> 0 \<le> y \<and> int (base_ip (us_root_vpn (uvn_settings u))) + y < 2 ^ 32"
    and root: "frr_serialize_vpn (base_ip (us_root_vpn (uvn_settings u))) rv = Inr root"
      "frr_serialize_vpn (base_ip (us_root_vpn (uvn_settings u))) rv' = Inr root'"
    and lans: "rmap frr_serialize_lan la = Inr ls" "rmap frr_serialize_lan la' = Inr ls'"
  shows "\<exists>cs km1 cs' km2 x x'.
    p2p_peer_config pub priv psk_str (pp_put gen pgen) now vpn (cell_id a) km = Inr (cs, km1) \<and>
    p2p_peer_config pub priv psk_str (pp_put gen pgen) now vpn (cell_id b) km1 = Inr (cs', km2) \<and>
    frr_config u ts a (Some rv) cs la d = Inr x \<and> frr_config u ts b (Some rv') cs' la' d' = Inr x' \<and>
    (\<exists>v \<in> set (fc_backbone x). \<exists>v' \<in> set (fc_backbone x'). fv_bgp_as v = fc_bgp_as x' \<and> fv_bgp_as v' = fc_bgp_as x \<and>
       fv_address v = fv_address_peer v' \<and> fv_address_peer v = fv_address v' \<and> fv_mask v = fv_mask v')"
proof -
  let ?base = "base_ip (us_root_vpn (uvn_settings u))"
  obtain cs km1 cs' km2 c c' where
    one: "p2p_peer_config pub priv psk_str (pp_put gen pgen) now vpn (cell_id a) km = Inr (cs, km1)"
    and two: "p2p_peer_config pub priv psk_str (pp_put gen pgen) now vpn (cell_id b) km1 = Inr (cs', km2)"
    and c: "c \<in> set cs" "c' \<in> set cs'" "link_match pub priv (cell_id a) (cell_id b) c c'"
    and peers: "\<forall>c \<in> set cs. \<exists>x r. link_of lm (cell_id a) x \<noteq> None \<and> wc_peers c = [r] \<and> wp_id r = x"
      "\<forall>c \<in> set cs'. \<exists>x r. link_of lm (cell_id b) x \<noteq> None \<and> wc_peers c = [r] \<and> wp_id r = x"
    using backbone_ends [OF assms(1-7), of pub priv psk_str gen pgen now] by blast
  have ok: "\<exists>r. wc_peers c = [r] \<and> 0 \<le> int ?base + wp_id r \<and> int ?base + wp_id r < 2 ^ 32"
    if "\<exists>x r. link_of lm y x \<noteq> None \<and> wc_peers c = [r] \<and> wp_id r = x" for y c
  proof -
    from that obtain x r where x: "link_of lm y x \<noteq> None" "wc_peers c = [r]" "wp_id r = x" by blast
    then show ?thesis using fit [rule_format, OF x(1)] by auto
  qed
  obtain vs where vs: "rmap (frr_serialize_vpn ?base) cs = Inr vs" using frr_vpns_total [of cs ?base] peers(1) ok by blast
  obtain vs' where vs': "rmap (frr_serialize_vpn ?base) cs' = Inr vs'" using frr_vpns_total [of cs' ?base] peers(2) ok by blast
  obtain v where v: "v \<in> set vs" "frr_serialize_vpn ?base c = Inr v" using frr_vpns_member [OF vs c(1)] by blast
  obtain v' where v': "v' \<in> set vs'" "frr_serialize_vpn ?base c' = Inr v'" using frr_vpns_member [OF vs' c(2)] by blast
  obtain x where x: "frr_config u ts a (Some rv) cs la d = Inr x" "fc_bgp_as x = cell_id a" "fc_backbone x = vs"
    using frr_config_succeeds [OF root(1) vs lans(1)] by blast
  obtain x' where x': "frr_config u ts b (Some rv') cs' la' d' = Inr x'" "fc_bgp_as x' = cell_id b" "fc_backbone x' = vs'"
    using frr_config_succeeds [OF root(2) vs' lans(2)] by blast
  from c(3) obtain r r' where lr: "wc_peers c = [r]" "wc_peers c' = [r']" "wp_id r = cell_id b" "wp_id r' = cell_id a"
    "wi_netmask (wc_intf c) = wi_netmask (wc_intf c')" "wp_address r = wi_address (wc_intf c')" "wp_address r' = wi_address (wc_intf c)"
    unfolding link_match_def by blast
  have "fv_bgp_as v = fc_bgp_as x' \<and> fv_bgp_as v' = fc_bgp_as x \<and> fv_address v = fv_address_peer v' \<and>
      fv_address_peer v = fv_address v' \<and> fv_mask v = fv_mask v'"
    using frr_vpn_fields [OF v(2) lr(1)] frr_vpn_fields [OF v'(2) lr(2)] lr x(2) x'(2) by simp
  then show ?thesis using one two x(1,3) x'(1,3) v(1) v'(1) by blast
qed

definition demo_root_end :: wg_config where
  "demo_root_end = demo_vpn\<lparr>wc_peers := [\<lparr>wp_id = 0, wp_pubkey = ''k'', wp_psk = None, wp_address = 11, wp_allowed = [],
     wp_endpoint = None, wp_keepalive = None\<rparr>]\<rparr>"

theorem router_sessions_match_witness:
  "\<exists>lm s u' vpn cs cs' x x'. redeploy_links demo_rnd (demo_backbone_uvn FULL_MESH) = Inr (lm, s) \<and>
     backbone_vpn (Some lm) (demo_backbone_uvn FULL_MESH) = Some (u', vpn) \<and>
     frr_config (demo_backbone_uvn FULL_MESH) ''t'' (demo_backbone_cell 1 (Some ''a'')) (Some demo_root_end) cs [] ''/log'' = Inr x \<and>
     frr_config (demo_backbone_uvn FULL_MESH) ''t'' (demo_backbone_cell 3 None) (Some demo_root_end) cs' [] ''/log'' = Inr x' \<and>
     (\<exists>v \<in> set (fc_backbone x). \<exists>v' \<in> set (fc_backbone x'). fv_bgp_as v = fc_bgp_as x' \<and> fv_bgp_as v' = fc_bgp_as x)"
proof -
  let ?u = "demo_backbone_uvn FULL_MESH" and ?a = "demo_backbone_cell 1 (Some ''a'')" and ?b = "demo_backbone_cell 3 None"
  have km: "pp_inv \<lparr>pp_prefix = ''b'', pp_readonly = False, pp_pair_keys = empty_keys_map ''k'' False False,
      pp_psks = empty_keys_map ''p'' False False\<rparr>"
    by (simp add: pp_inv_def pp_ok_def km_ok_def empty_keys_map_def)
  obtain lm s where d: "redeploy_links demo_rnd ?u = Inr (lm, s)"
    using demo_backbone_deployed by blast
  obtain u' vpn where v: "backbone_vpn (Some lm) ?u = Some (u', vpn)"
    by (simp add: backbone_vpn_def Let_def)
  have k: "us_strategy (uvn_settings ?u) \<noteq> STATIC" by (simp add: demo_backbone(3))
  note links = fullmesh_redeploy [OF demo_backbone(2,3) d]
  have l: "link_of lm (cell_id ?a) (cell_id ?b) \<noteq> None"
    unfolding links by (simp add: fullmesh_rel redeploy_ctx_def demo_backbone_uvn_def uvn_cells_def demo_backbone_cell_def endpoint_true_def)
  have base: "base_ip (us_root_vpn (uvn_settings ?u)) < 2 ^ 31" "\<exists>e. frr_serialize_vpn (base_ip (us_root_vpn (uvn_settings ?u))) demo_root_end = Inr e"
    by (simp_all add: demo_backbone_uvn_def base_ip_def frr_serialize_vpn_def ip_plus_def demo_root_end_def Let_def
        default_uvn_settings_def root_vpn_settings_def net_def)
  have fit: "\<forall>x y. link_of lm x y \<noteq> None \<longrightarrow> 0 \<le> y \<and> int (base_ip (us_root_vpn (uvn_settings ?u))) + y < 2 ^ 32"
    unfolding links using base(1)
    by (auto simp: fullmesh_rel redeploy_ctx_def demo_backbone_uvn_def uvn_cells_def demo_backbone_cell_def)
  obtain e where e: "frr_serialize_vpn (base_ip (us_root_vpn (uvn_settings ?u))) demo_root_end = Inr e" using base(2) by blast
  have n: "rmap frr_serialize_lan [] = Inr []" by simp
  from router_sessions_match [OF demo_backbone(2,1) k d v km l fit e e n n, of wk_material wk_material wk_material "\<lambda>n. ''g''" "\<lambda>n. ''p''" "''t''" "''t''" "''/log''" "''/log''"] d v
  show ?thesis by blast
qed

end
