(* ===== verification/Spec2Isabelle.thy ===== *)
theory Spec2Isabelle
  imports Backbone Agent Services Triggerable Registry_Laws Database_Laws Agent_Nets Router
begin

text \<open>
  \<^bold>\<open>Verification of \<open>uno\<close>, the manager of Unified Virtual Networks (UVNs).\<close>

  A \<^emph>\<open>registry\<close> describes a UVN: its users, its \<^emph>\<open>cells\<close> (agents in front of a local network) and its
  \<^emph>\<open>particles\<close> (single clients). It keeps keys and configuration in a database, computes the links of a
  \<^emph>\<open>backbone\<close> between the cells, and generates a package for every cell. An \<^emph>\<open>agent\<close> runs such a package: it
  brings up WireGuard interfaces and services, and keeps a table of the status of its peers. All source paths below
  are relative to \<open>src/uno\<close>.

  \<^bold>\<open>Conventions.\<close> An operation that may raise returns \<open>py_error + 'a\<close>; \<open>rbind\<close> is sequencing. An operation with
  state is \<open>('s, 'a) op\<close>, a function to the result and the state that is left, so an exception keeps what was
  changed before it (\<open>Uno_Prelude\<close>). A dictionary whose order matters is an association list, updated in place or at
  the end. Python's integers are \<open>int\<close>, addresses and counters that are never negative \<open>nat\<close>; the bounds of an IPv4
  address are checked as the library \<open>ipaddress\<close> does. Text is a list of characters. What comes from outside is an
  argument: random choices (\<open>rnd\<close>), generated key material, the clock, the answers of the user, the outcome of
  shell commands.

  \<^bold>\<open>Theories.\<close>

  \<^item> \<open>Uno_Prelude\<close>, \<open>Uno_Text\<close>, \<open>Uno_Net\<close>: exceptions, dictionaries and operations; text, numbers, \<open>LIKE\<close>; addresses
    and networks (\<open>core/ip.py\<close>).
  \<^item> \<open>Paired_Map\<close>, \<open>Deployment\<close>: \<open>core/paired_map.py\<close> and the links of \<open>registry/deployment.py\<close>. The locale \<open>pair_store\<close>
    is the contract of a dictionary of unordered pairs that creates what is missing; the allocation of links and all
    maps of keys are interpretations of it. Links do not overlap, and a subnet has room for exactly \<open>2^(31-p)-1\<close>.
  \<^item> \<open>Strategy\<close>, \<open>Strategy_Crossed\<close>, \<open>Strategy_Random\<close>: the files of \<open>registry/deployment_strategy\<close>. The locale
    \<open>backbone_strategy\<close> is what a deployment needs from a strategy (symmetric, irreflexive, no two private cells
    linked), interpreted on all of them; \<open>link_source\<close> is the allocation it draws links from. The random strategy
    runs on a stream of samples and gives up after the source's 100000 tries; its inner loop ends because every
    round visits a peer or uses up an edge.
  \<^item> \<open>Vpn_Keymat\<close>, \<open>Key_Store\<close>: \<open>registry/vpn_keymat.py\<close> and \<open>wg_key.py\<close>; the keys in memory with the calls they
    make on the database, and the tables these calls lead to. Keys are made on demand, load back as they were saved,
    and survive a rekeying in two generations.
  \<^item> \<open>Vpn_Config\<close>, \<open>Wg\<close>: \<open>registry/vpn_config.py\<close>, \<open>vpn_settings.py\<close> and \<open>core/wg.py\<close>. The locale \<open>link_keys\<close> is what
    a point to point configuration needs from its key material. The two ends of a tunnel agree; configurations are
    read back; interfaces are created and removed.
  \<^item> \<open>Uvn\<close>, \<open>Backbone\<close>: \<open>registry/uvn.py\<close>, \<open>cell.py\<close>, \<open>particle.py\<close>, \<open>uvn_settings.py\<close>, and the deployment part of
    \<open>registry/registry.py\<close>: what a valid UVN is, and the composition from a UVN to the configurations of all cells.
  \<^item> \<open>Versioned\<close>: \<open>registry/versioned.py\<close>, with a schema as a record. Change marks, the cached hash, \<open>configure\<close>, and
    what is stripped from serialised data.
  \<^item> \<open>Database\<close>, \<open>Database_Laws\<close>: \<open>registry/database.py\<close> and \<open>database_object.py\<close>: tables of rows, objects with flags
    and nested objects, transactions, and saving, loading, owning and deleting them. The locale \<open>row_store\<close> is a map of
    rows; the tables are an interpretation, and a save refines the update of the map.
  \<^item> \<open>Registry\<close>, \<open>Registry_Steps\<close>, \<open>Registry_Laws\<close>: \<open>registry/registry.py\<close>. The record \<open>registry\<close> has the UVN, the
    tables of keys and the cached objects; each method is an operation on it; \<open>reg_step\<close> runs them in any order.
    What a method leaves alone is proved once (\<open>framed\<close>, \<open>growing\<close>, \<open>keeps\<close>) and composed along the operations.
  \<^item> \<open>Peers_List\<close>, \<open>Agent\<close>: \<open>agent/uvn_peer.py\<close>, \<open>uvn_peers_list.py\<close>, \<open>uvn_peers_tester.py\<close>, \<open>agent.py\<close>: the table of
    peers with its flags and events, and the inputs of the middleware, of the interfaces and of the testers.
  \<^item> \<open>Services\<close>, \<open>Triggerable\<close>: \<open>agent/runnable.py\<close>, \<open>agent_service.py\<close>, \<open>agent_static_service.py\<close>, \<open>triggerable.py\<close>:
    starting and stopping with markers on disk, and the semaphore of a service thread under any interleaving.
  \<^item> \<open>Firewall\<close>, \<open>Firewall_Laws\<close>, \<open>Firewall_Undo\<close>: \<open>agent/uvn_net.py\<close>: the rules that an agent installs for its
    interfaces and how it takes them back. The tables of the kernel are the state (\<open>un_nf\<close>), the program that changes them
    is an argument; the locale \<open>packet_filter\<close> is what its manual promises, and \<open>iptables\<close> its interpretation. After a
    start the kernel forwards what the function \<open>gate\<close> lets through; after a stop the old rules are back (\<open>cov\<close> follows
    which rules of which command are in the tables).
  \<^item> \<open>Ip_Commands\<close>, \<open>Agent_Nets\<close>: the commands of \<open>core/ip.py\<close>, and from \<open>agent/agent.py\<close> the local networks and their
    validation, the VPN interfaces, the chain of the services, and the file with the process id, with the processes of a
    host as a step relation (\<open>pid_step\<close>).
  \<^item> \<open>Routes\<close>, \<open>Router\<close>: \<open>agent/routes_monitor.py\<close> and \<open>agent/router.py\<close>: the polls of the routes and the events they
    give, and the configuration of the routing daemon, whose sessions match at the two ends of a link of the backbone.

  \<^bold>\<open>Bounds and fuel.\<close> \<open>updated_property\<close> has Python's limit of 1000 nested calls as fuel; it is enough for groups
  that are ranked below it, and a group that contains itself exhausts it. All other recursion is on the data or by a
  measure.

  \<^bold>\<open>Assumptions of the model.\<close> A key row is identified by its material, which stands for the id of the object. The
  questions that the registry asks are answered with yes, except in \<open>ban\<close>. A failing transaction restores the tables
  and not the objects in memory, as in the source. Networks are well formed where a property says so (\<open>lans_ok\<close>).

  The commands \<open>iptables\<close> and \<open>ip\<close> do what their manuals say (\<open>packet_filter\<close>); saving the tables of the kernel and
  enabling kernel forwarding succeed, and a file with a process id can be removed.

  \<^bold>\<open>Not modelled\<close>: the templates, the threads and the restarts of the routing daemon; the text of SQL statements, and exporting and importing whole databases; templates, the web interface and plots; certificates
  and packages (OpenSSL and file operations); the bindings of the middleware; cloud services; the command line's
  parsing; the integration tests. They are output or calls of other programs.
\<close>

end
